(* ===== verification/Prelude.thy ===== *)
theory Prelude
  imports Main "HOL-Library.Monad_Syntax" "HOL-Library.Multiset" "HOL-Library.Word"
begin

text \<open>
  What the component theories share: machine words and their names, checked access to a
  C++ vector (\<open>None\<close> stands for an access outside it, which the language leaves undefined),
  the overlapping block copy of \<open>memmove\<close>, and facts on lists and options.
\<close>

unbundle bit_operations_syntax

type_synonym u8 = "8 word"
type_synonym u16 = "16 word"
type_synonym u32 = "32 word"
type_synonym u64 = "64 word"

named_theorems vec_simps \<open>checked vector access inside the bounds\<close>
named_theorems inv_defs \<open>definitions of component invariants\<close>

subsection \<open>Checked vectors\<close>

definition vec_at :: "'a list \<Rightarrow> nat \<Rightarrow> 'a option" where
  "vec_at xs i = (if i < length xs then Some (xs ! i) else None)"

definition vec_put :: "'a list \<Rightarrow> nat \<Rightarrow> 'a \<Rightarrow> 'a list option" where
  "vec_put xs i v = (if i < length xs then Some (xs[i := v]) else None)"

definition vec_push_at :: "'a list list \<Rightarrow> nat \<Rightarrow> 'a \<Rightarrow> 'a list list option" where
  "vec_push_at xss i v =
     (if i < length xss then Some (xss[i := xss ! i @ [v]]) else None)"

lemma vec_at_in [vec_simps]: "i < length xs \<Longrightarrow> vec_at xs i = Some (xs ! i)"
  by (simp add: vec_at_def)

lemma vec_put_in [vec_simps]: "i < length xs \<Longrightarrow> vec_put xs i v = Some (xs[i := v])"
  by (simp add: vec_put_def)

lemma vec_push_at_in [vec_simps]:
  "i < length xss \<Longrightarrow> vec_push_at xss i v = Some (xss[i := xss ! i @ [v]])"
  by (simp add: vec_push_at_def)

lemma vec_at_eq_None: "vec_at xs i = None \<longleftrightarrow> length xs \<le> i"
  by (simp add: vec_at_def)

lemma vec_at_eq_Some: "vec_at xs i = Some x \<longleftrightarrow> i < length xs \<and> xs ! i = x"
  by (auto simp: vec_at_def)

lemma vec_push_at_eq_Some:
  "vec_push_at xss i v = Some yss \<longleftrightarrow> i < length xss \<and> yss = xss[i := xss ! i @ [v]]"
  by (auto simp: vec_push_at_def)

text \<open>
  \<open>memmove (&xs[i + 1], &xs[i], n)\<close>: the \<open>n\<close> elements from \<open>i\<close> on move one place up; what was
  behind them stays, and so does the element at \<open>i\<close>.
\<close>

definition memmove_up :: "'a list \<Rightarrow> nat \<Rightarrow> nat \<Rightarrow> 'a list option" where
  "memmove_up xs i n =
     (if n = 0 then Some xs
      else if i + n < length xs
      then Some (take (Suc i) xs @ take n (drop i xs) @ drop (Suc i + n) xs) else None)"

lemma memmove_up_then_put:
  assumes "i + n < length xs"
  shows "\<exists>ys. memmove_up xs i n = Some ys \<and> length ys = length xs \<and>
    ys[i := v] = take i xs @ v # take n (drop i xs) @ drop (Suc i + n) xs"
proof (cases "n = 0")
  case True
  then show ?thesis
    using assms by (auto simp: memmove_up_def upd_conv_take_nth_drop)
next
  case False
  have "(take (Suc i) xs @ take n (drop i xs) @ drop (Suc i + n) xs)[i := v]
    = take i xs @ v # take n (drop i xs) @ drop (Suc i + n) xs"
    using assms by (simp add: list_update_append take_Suc_conv_app_nth)
  then show ?thesis
    using assms False by (auto simp: memmove_up_def)
qed

subsection \<open>Lists\<close>

lemma sorted_wrt_nth_lessI:
  "(\<And>i j. i < j \<Longrightarrow> j < length xs \<Longrightarrow> P (xs ! i) (xs ! j)) \<Longrightarrow> sorted_wrt P xs"
  by (simp add: sorted_wrt_iff_nth_less)

lemma set_take_nth: "x \<in> set (take n xs) \<longleftrightarrow> (\<exists>i. i < n \<and> i < length xs \<and> xs ! i = x)"
  by (force simp: in_set_conv_nth)

lemma mset_concat_update_snoc:
  "i < length xss \<Longrightarrow>
   mset (concat (xss[i := xss ! i @ [v]])) = add_mset v (mset (concat xss))"
proof (induction xss arbitrary: i)
  case (Cons a xss)
  then show ?case by (cases i) auto
qed simp

lemma concat_replicate_Nil [simp]: "concat (replicate n []) = []"
  by (induction n) auto

end
