(* ===== verification/NeighborQueue.thy ===== *)
theory NeighborQueue
  imports Prelude
begin

text \<open>
  \<open>NeighborPriorityQueue\<close> of \<open>AiSAQ/include/neighbor.h\<close>: the bounded candidate list of the
  greedy graph search. \<open>_data\<close> has one slot more than the capacity; \<open>_size\<close>, \<open>_capacity\<close> and
  \<open>_cur\<close> are the record's other fields. Distances are the elements of any linear order (the
  floats of the code without NaN). A \<open>None\<close> result stands for an access outside \<open>_data\<close>.
\<close>

subsection \<open>Neighbors\<close>

text \<open>
  The two-argument constructor leaves \<open>rid\<close> indeterminate: \<open>nrid\<close> is \<open>None\<close> then.
\<close>

record 'd neighbor =
  nid :: u32
  nrid :: "u32 option"
  ndist :: 'd
  expanded :: bool

definition mk_neighbor :: "u32 \<Rightarrow> 'd \<Rightarrow> 'd neighbor" where
  "mk_neighbor i d = \<lparr>nid = i, nrid = None, ndist = d, expanded = False\<rparr>"

definition mk_neighbor_rid :: "u32 \<Rightarrow> 'd \<Rightarrow> u32 \<Rightarrow> 'd neighbor" where
  "mk_neighbor_rid i d r = \<lparr>nid = i, nrid = Some r, ndist = d, expanded = False\<rparr>"

definition nbr_less :: "'d::linorder neighbor \<Rightarrow> 'd neighbor \<Rightarrow> bool" where
  "nbr_less a b \<longleftrightarrow> ndist a < ndist b \<or> (ndist a = ndist b \<and> nid a < nid b)"

definition nbr_eq :: "'d neighbor \<Rightarrow> 'd neighbor \<Rightarrow> bool" where
  "nbr_eq a b \<longleftrightarrow> nid a = nid b"

lemma mk_neighbor_sel [simp]:
  "nid (mk_neighbor i d) = i" "ndist (mk_neighbor i d) = d" "expanded (mk_neighbor i d) = False"
  by (simp_all add: mk_neighbor_def)

lemma nbr_less_irrefl [simp]: "\<not> nbr_less a a"
  by (simp add: nbr_less_def)

lemma nbr_less_trans: "nbr_less a b \<Longrightarrow> nbr_less b c \<Longrightarrow> nbr_less a c"
  by (auto simp: nbr_less_def)

lemma nbr_less_asym: "nbr_less a b \<Longrightarrow> \<not> nbr_less b a"
  by (auto simp: nbr_less_def)

lemma nbr_less_total: "nid a \<noteq> nid b \<Longrightarrow> \<not> nbr_less a b \<Longrightarrow> nbr_less b a"
  by (auto simp: nbr_less_def)

lemma nbr_less_le_trans: "\<not> nbr_less b a \<Longrightarrow> nbr_less b c \<Longrightarrow> nbr_less a c"
  by (auto simp: nbr_less_def)

lemma nbr_less_mk [simp]:
  "nbr_less (mk_neighbor (nid n) (ndist n)) x \<longleftrightarrow> nbr_less n x"
  "nbr_less x (mk_neighbor (nid n) (ndist n)) \<longleftrightarrow> nbr_less x n"
  by (simp_all add: nbr_less_def)

lemma nbr_less_expanded [simp]:
  "nbr_less (a\<lparr>expanded := e\<rparr>) b \<longleftrightarrow> nbr_less a b"
  "nbr_less b (a\<lparr>expanded := e\<rparr>) \<longleftrightarrow> nbr_less b a"
  by (simp_all add: nbr_less_def)

subsection \<open>The queue and its operations\<close>

record 'd npq =
  qsize :: nat
  qcap :: nat
  qcur :: nat
  qdata :: "'d neighbor list"

definition npq_empty :: "'d neighbor \<Rightarrow> nat \<Rightarrow> 'd npq" where
  "npq_empty junk capacity =
     \<lparr>qsize = 0, qcap = capacity, qcur = 0, qdata = replicate (capacity + 1) junk\<rparr>"

text \<open>The binary search of \<open>insert\<close>: \<open>None\<close> is its early return on an equal id.\<close>

function npq_search ::
  "'d::linorder neighbor list \<Rightarrow> 'd neighbor \<Rightarrow> nat \<Rightarrow> nat \<Rightarrow> nat option" where
  "npq_search data nbr lo hi =
     (if lo < hi then
        let mid = (lo + hi) div 2 in
          if nbr_less nbr (data ! mid) then npq_search data nbr lo mid
          else if nid (data ! mid) = nid nbr then None
          else npq_search data nbr (mid + 1) hi
      else Some lo)"
  by pat_completeness auto
termination by (relation "measure (\<lambda>(data, nbr, lo, hi). hi - lo)") auto

declare npq_search.simps [simp del]

definition npq_place :: "'d npq \<Rightarrow> nat \<Rightarrow> 'd neighbor \<Rightarrow> 'd npq option" where
  "npq_place q lo nbr = do {
     data \<leftarrow> (if lo < qcap q then memmove_up (qdata q) lo (qsize q - lo) else Some (qdata q));
     data \<leftarrow> vec_put data lo (mk_neighbor (nid nbr) (ndist nbr));
     Some (q\<lparr>qdata := data,
            qsize := (if qsize q < qcap q then qsize q + 1 else qsize q),
            qcur := (if lo < qcur q then lo else qcur q)\<rparr>)
   }"

text \<open>\<open>_size == _capacity && _data[_size - 1] < nbr\<close>; with \<open>_size = 0\<close> the index wraps.\<close>

definition npq_rejects :: "'d::linorder npq \<Rightarrow> 'd neighbor \<Rightarrow> bool option" where
  "npq_rejects q nbr =
     (if qsize q = qcap q then
        if qsize q = 0 then None
        else map_option (\<lambda>b. nbr_less b nbr) (vec_at (qdata q) (qsize q - 1))
      else Some False)"

definition npq_insert :: "'d::linorder npq \<Rightarrow> 'd neighbor \<Rightarrow> 'd npq option" where
  "npq_insert q nbr = do {
     rej \<leftarrow> npq_rejects q nbr;
     if rej then Some q
     else case npq_search (qdata q) nbr 0 (qsize q) of
            None \<Rightarrow> Some q
          | Some lo \<Rightarrow> npq_place q lo nbr
   }"

text \<open>
  \<open>insert_with_rem_info\<close> also reports through \<open>rem\<close> and \<open>id\<close> which id fell out: \<open>Some id\<close>
  here when \<open>rem\<close> is true.
\<close>

definition npq_insert_rem ::
  "'d::linorder npq \<Rightarrow> 'd neighbor \<Rightarrow> ('d npq \<times> u32 option) option" where
  "npq_insert_rem q nbr = do {
     rej \<leftarrow> npq_rejects q nbr;
     if rej then Some (q, Some (nid nbr))
     else case npq_search (qdata q) nbr 0 (qsize q) of
            None \<Rightarrow> Some (q, None)
          | Some lo \<Rightarrow> do {
              rem \<leftarrow> (if qsize q = qcap q
                     then map_option (\<lambda>b. Some (nid b)) (vec_at (qdata q) (qsize q - 1))
                     else Some None);
              q' \<leftarrow> npq_place q lo nbr;
              Some (q', rem)
            }
   }"

text \<open>The scan for the next unexpanded slot, \<open>while (i < _size && _data[i].expanded) i++\<close>.\<close>

function npq_skip :: "'d neighbor list \<Rightarrow> nat \<Rightarrow> nat \<Rightarrow> nat" where
  "npq_skip data n i = (if i < n \<and> expanded (data ! i) then npq_skip data n (Suc i) else i)"
  by pat_completeness auto
termination by (relation "measure (\<lambda>(data, n, i). n - i)") auto

declare npq_skip.simps [simp del]

definition npq_closest_unexpanded :: "'d npq \<Rightarrow> ('d neighbor \<times> 'd npq) option" where
  "npq_closest_unexpanded q = do {
     x \<leftarrow> vec_at (qdata q) (qcur q);
     let data = (qdata q)[qcur q := x\<lparr>expanded := True\<rparr>];
     Some (data ! qcur q, q\<lparr>qdata := data, qcur := npq_skip data (qsize q) (qcur q)\<rparr>)
   }"

definition npq_has_unexpanded :: "'d npq \<Rightarrow> bool" where
  "npq_has_unexpanded q \<longleftrightarrow> qcur q < qsize q"

text \<open>
  The two position iterators return the boolean of the code, the new \<open>position\<close> and the queue.
\<close>

definition npq_first_position :: "'d npq \<Rightarrow> bool \<Rightarrow> (bool \<times> nat \<times> 'd npq) option" where
  "npq_first_position q expand =
     (if qcur q < qsize q then
        if expand then map_option (\<lambda>(_, q'). (True, qcur q, q')) (npq_closest_unexpanded q)
        else Some (True, qcur q, q)
      else Some (False, qcur q, q))"

definition npq_next_position :: "'d npq \<Rightarrow> nat \<Rightarrow> bool \<Rightarrow> (bool \<times> nat \<times> 'd npq) option" where
  "npq_next_position q position expand =
     (let p = npq_skip (qdata q) (qsize q) (position + 1) in
      if p < qsize q then
        if expand then
          if p = qcur q then map_option (\<lambda>(_, q'). (True, p, q')) (npq_closest_unexpanded q)
          else do {
            x \<leftarrow> vec_at (qdata q) p;
            Some (True, p, q\<lparr>qdata := (qdata q)[p := x\<lparr>expanded := True\<rparr>]\<rparr>)
          }
        else Some (True, p, q)
      else Some (False, p, q))"

definition npq_reserve :: "'d neighbor \<Rightarrow> 'd npq \<Rightarrow> nat \<Rightarrow> 'd npq" where
  "npq_reserve junk q capacity =
     q\<lparr>qdata := (if capacity + 1 > length (qdata q)
                 then qdata q @ replicate (capacity + 1 - length (qdata q)) junk
                 else qdata q),
       qcap := capacity\<rparr>"

definition npq_clear :: "'d npq \<Rightarrow> 'd npq" where
  "npq_clear q = q\<lparr>qsize := 0, qcur := 0\<rparr>"

subsection \<open>Abstract view: a strictly sorted list\<close>

definition npq_items :: "'d npq \<Rightarrow> 'd neighbor list" where
  "npq_items q = take (qsize q) (qdata q)"

fun nbr_insort :: "'d::linorder neighbor \<Rightarrow> 'd neighbor list \<Rightarrow> 'd neighbor list" where
  "nbr_insort n [] = [n]"
| "nbr_insort n (x # xs) = (if nbr_less n x then n # x # xs else x # nbr_insort n xs)"

definition npq_inv :: "'d::linorder npq \<Rightarrow> bool" where
  "npq_inv q \<longleftrightarrow>
     qcap q < length (qdata q) \<and> qsize q \<le> qcap q \<and> sorted_wrt nbr_less (npq_items q) \<and>
     qcur q \<le> qsize q \<and> (\<forall>i < qcur q. expanded (qdata q ! i)) \<and>
     (qcur q < qsize q \<longrightarrow> \<not> expanded (qdata q ! qcur q))"

lemma nbr_insort_split:
  assumes "p \<le> length xs" and "\<And>i. i < p \<Longrightarrow> \<not> nbr_less n (xs ! i)"
    and "p < length xs \<Longrightarrow> nbr_less n (xs ! p)"
  shows "nbr_insort n xs = take p xs @ n # drop p xs"
  using assms
proof (induction xs arbitrary: p)
  case (Cons x xs)
  show ?case
  proof (cases p)
    case 0
    with Cons.prems(3) show ?thesis by simp
  next
    case (Suc p')
    with Cons.prems have "nbr_insort n xs = take p' xs @ n # drop p' xs"
      by (intro Cons.IH) force+
    with Cons.prems(2) [of 0] Suc show ?thesis by simp
  qed
qed simp

lemma mset_nbr_insort [simp]: "mset (nbr_insort n xs) = add_mset n (mset xs)"
  by (induction xs) auto

lemma set_nbr_insort [simp]: "set (nbr_insort n xs) = insert n (set xs)"
  by (induction xs) auto

lemma length_nbr_insort [simp]: "length (nbr_insort n xs) = Suc (length xs)"
  by (induction xs) auto

lemma sorted_nbr_insort:
  "sorted_wrt nbr_less xs \<Longrightarrow> \<forall>x \<in> set xs. nbr_less n x \<or> nbr_less x n \<Longrightarrow>
   sorted_wrt nbr_less (nbr_insort n xs)"
  by (induction xs) (auto dest: nbr_less_asym intro: nbr_less_trans)

lemma length_npq_items: "npq_inv q \<Longrightarrow> length (npq_items q) = qsize q"
  by (simp add: npq_inv_def npq_items_def)

lemma npq_items_nth: "i < qsize q \<Longrightarrow> npq_items q ! i = qdata q ! i"
  by (simp add: npq_items_def)

subsection \<open>The binary search\<close>

text \<open>
  Everything left of the returned slot is less than the new neighbor, everything from it on
  is greater; an early return means that an entry with the same id, not behind the new one
  in the order, was met.
\<close>

lemma npq_search_bounds:
  "npq_search data nbr lo hi = Some p \<Longrightarrow> lo \<le> hi \<Longrightarrow> lo \<le> p \<and> p \<le> hi"
proof (induction data nbr lo hi rule: npq_search.induct)
  case (1 data nbr lo hi)
  let ?mid = "(lo + hi) div 2"
  show ?case
  proof (cases "lo < hi")
    case False
    with "1.prems" show ?thesis by (simp add: npq_search.simps [of data nbr lo hi])
  next
    case lt: True
    then have mid: "lo \<le> ?mid" "?mid < hi" by auto
    show ?thesis
    proof (cases "nbr_less nbr (data ! ?mid)")
      case True
      with "1.prems" lt have "npq_search data nbr lo ?mid = Some p"
        by (simp add: npq_search.simps [of data nbr lo hi] Let_def)
      from "1.IH"(1) [OF lt refl True this] mid show ?thesis by linarith
    next
      case False
      with "1.prems" lt have ne: "nid (data ! ?mid) \<noteq> nid nbr"
        and rec: "npq_search data nbr (?mid + 1) hi = Some p"
        by (simp_all add: npq_search.simps [of data nbr lo hi] Let_def split: if_splits)
      from "1.IH"(2) [OF lt refl False ne rec] mid show ?thesis by linarith
    qed
  qed
qed

lemma npq_search_Some:
  "npq_search data nbr lo hi = Some p \<Longrightarrow> hi \<le> n \<Longrightarrow> n \<le> length data \<Longrightarrow>
   sorted_wrt nbr_less (take n data) \<Longrightarrow>
   (\<forall>i < lo. nbr_less (data ! i) nbr) \<Longrightarrow> (\<forall>i. hi \<le> i \<and> i < n \<longrightarrow> nbr_less nbr (data ! i)) \<Longrightarrow>
   lo \<le> hi \<Longrightarrow>
   (\<forall>i < p. nbr_less (data ! i) nbr) \<and> (\<forall>i. p \<le> i \<and> i < n \<longrightarrow> nbr_less nbr (data ! i))"
proof (induction data nbr lo hi rule: npq_search.induct)
  case (1 data nbr lo hi)
  let ?mid = "(lo + hi) div 2"
  have order: "i < j \<Longrightarrow> j < n \<Longrightarrow> nbr_less (data ! i) (data ! j)" for i j
    using "1.prems"(3,4) by (auto simp: sorted_wrt_iff_nth_less)
  show ?case
  proof (cases "lo < hi")
    case False
    with "1.prems" show ?thesis by (simp add: npq_search.simps [of data nbr lo hi])
  next
    case True
    then have mid: "lo \<le> ?mid" "?mid < hi" by auto
    show ?thesis
    proof (cases "nbr_less nbr (data ! ?mid)")
      case True
      have rec: "npq_search data nbr lo ?mid = Some p"
        using "1.prems"(1) True \<open>lo < hi\<close> by (simp add: npq_search.simps [of data nbr lo hi] Let_def)
      have right: "\<forall>i. ?mid \<le> i \<and> i < n \<longrightarrow> nbr_less nbr (data ! i)"
        using True order by (metis le_neq_implies_less nbr_less_trans)
      from mid "1.prems"(2) have "?mid \<le> n" by linarith
      then show ?thesis
        by (rule "1.IH"(1) [OF \<open>lo < hi\<close> refl True rec _ "1.prems"(3-5) right mid(1)])
    next
      case False
      with "1.prems"(1) \<open>lo < hi\<close> have ne: "nid (data ! ?mid) \<noteq> nid nbr"
        and rec: "npq_search data nbr (?mid + 1) hi = Some p"
        by (simp_all add: npq_search.simps [of data nbr lo hi] Let_def split: if_splits)
      have "nbr_less (data ! ?mid) nbr"
        using ne False by (metis nbr_less_total)
      then have left: "\<forall>i < ?mid + 1. nbr_less (data ! i) nbr"
        using order mid "1.prems"(2) by (metis Suc_eq_plus1 less_Suc_eq less_le_trans nbr_less_trans)
      from mid have "?mid + 1 \<le> hi" by linarith
      then show ?thesis
        by (rule "1.IH"(2) [OF \<open>lo < hi\<close> refl False ne rec "1.prems"(2-4) left "1.prems"(6)])
    qed
  qed
qed

lemma npq_search_None:
  "npq_search data nbr lo hi = None \<Longrightarrow>
   \<exists>i. lo \<le> i \<and> i < hi \<and> nid (data ! i) = nid nbr \<and> \<not> nbr_less nbr (data ! i)"
proof (induction data nbr lo hi rule: npq_search.induct)
  case (1 data nbr lo hi)
  let ?mid = "(lo + hi) div 2"
  have lt: "lo < hi"
    using "1.prems" by (subst (asm) npq_search.simps) (auto split: if_splits)
  then have mid: "lo \<le> ?mid" "?mid < hi" by auto
  show ?case
  proof (cases "nbr_less nbr (data ! ?mid)")
    case True
    with "1.prems" lt have "npq_search data nbr lo ?mid = None"
      by (simp add: npq_search.simps [of data nbr lo hi] Let_def)
    from "1.IH"(1) [OF lt refl True this] mid show ?thesis by auto
  next
    case False
    show ?thesis
    proof (cases "nid (data ! ?mid) = nid nbr")
      case True
      with False mid show ?thesis by blast
    next
      case ne: False
      with "1.prems" lt False have "npq_search data nbr (?mid + 1) hi = None"
        by (simp add: npq_search.simps [of data nbr lo hi] Let_def)
      from "1.IH"(2) [OF lt refl False ne this] mid show ?thesis
        by (metis Suc_eq_plus1 Suc_leD le_trans)
    qed
  qed
qed

subsection \<open>Insertion keeps the queue sorted, bounded and its cursor right\<close>

lemma npq_placed_data:
  assumes inv: "npq_inv q" and lo: "lo \<le> qsize q" "lo < qcap q"
    and left: "\<forall>i < lo. nbr_less (qdata q ! i) n"
    and right: "\<forall>i. lo \<le> i \<and> i < qsize q \<longrightarrow> nbr_less n (qdata q ! i)"
  shows "\<exists>q'. npq_place q lo n = Some q' \<and>
    qdata q' = nbr_insort (mk_neighbor (nid n) (ndist n)) (npq_items q) @ drop (Suc (qsize q)) (qdata q) \<and>
    qsize q' = (if qsize q < qcap q then qsize q + 1 else qsize q) \<and> qcap q' = qcap q \<and>
    qcur q' = (if lo < qcur q then lo else qcur q) \<and>
    nbr_insort (mk_neighbor (nid n) (ndist n)) (npq_items q)
      = take lo (npq_items q) @ mk_neighbor (nid n) (ndist n) # drop lo (npq_items q)"
proof -
  let ?n = "mk_neighbor (nid n) (ndist n)"
  have len: "qsize q < length (qdata q)" and size: "length (npq_items q) = qsize q"
    using inv by (auto simp: npq_inv_def npq_items_def)
  have split: "nbr_insort ?n (npq_items q) = take lo (npq_items q) @ ?n # drop lo (npq_items q)"
    using lo left right size
    by (intro nbr_insort_split) (auto simp: npq_items_nth dest: nbr_less_asym)
  have parts: "take lo (npq_items q) = take lo (qdata q)"
    "drop lo (npq_items q) = take (qsize q - lo) (drop lo (qdata q))"
    using lo(1) by (simp_all add: npq_items_def min_def drop_take)
  have "lo + (qsize q - lo) < length (qdata q)"
    using lo(1) len by simp
  from memmove_up_then_put [OF this, of ?n] obtain ys where
    ys: "memmove_up (qdata q) lo (qsize q - lo) = Some ys" "length ys = length (qdata q)"
      "ys[lo := ?n] = take lo (qdata q) @ ?n # take (qsize q - lo) (drop lo (qdata q))
        @ drop (Suc (qsize q)) (qdata q)"
    using lo(1) by auto
  have "ys[lo := ?n] = nbr_insort ?n (npq_items q) @ drop (Suc (qsize q)) (qdata q)"
    using ys(3) split parts by simp
  then show ?thesis
    using ys(1,2) lo len split by (auto simp: npq_place_def vec_put_def)
qed

lemma npq_place_correct:
  assumes inv: "npq_inv q" and lo: "lo \<le> qsize q" "lo < qcap q"
    and left: "\<forall>i < lo. nbr_less (qdata q ! i) n"
    and right: "\<forall>i. lo \<le> i \<and> i < qsize q \<longrightarrow> nbr_less n (qdata q ! i)"
  shows "\<exists>q'. npq_place q lo n = Some q' \<and> npq_inv q' \<and> qcap q' = qcap q \<and>
    npq_items q' = take (qcap q) (nbr_insort (mk_neighbor (nid n) (ndist n)) (npq_items q))"
proof -
  let ?n = "mk_neighbor (nid n) (ndist n)" and ?xs = "npq_items q"
  let ?ys = "nbr_insort ?n ?xs"
  from npq_placed_data [OF assms] obtain q' where
    q': "npq_place q lo n = Some q'" "qdata q' = ?ys @ drop (Suc (qsize q)) (qdata q)"
      "qsize q' = (if qsize q < qcap q then qsize q + 1 else qsize q)" "qcap q' = qcap q"
      "qcur q' = (if lo < qcur q then lo else qcur q)"
      and split: "?ys = take lo ?xs @ ?n # drop lo ?xs"
    by blast
  have size: "length ?xs = qsize q" and cap: "qsize q \<le> qcap q" "qcap q < length (qdata q)"
    and sorted: "sorted_wrt nbr_less ?xs" and cur: "qcur q \<le> qsize q"
    and exp: "\<forall>i < qcur q. expanded (qdata q ! i)"
    and unexp: "qcur q < qsize q \<longrightarrow> \<not> expanded (qdata q ! qcur q)"
    using inv by (auto simp: npq_inv_def length_npq_items)
  have items: "npq_items q' = take (qcap q) ?ys"
    using q'(2,3) size cap by (auto simp: npq_items_def)
  have comparable: "\<forall>x \<in> set ?xs. nbr_less ?n x \<or> nbr_less x ?n"
    using left right size by (metis in_set_conv_nth nbr_less_mk not_le npq_items_nth)
  have at: "qdata q' ! i = (if i < lo then qdata q ! i else ?n)" if "i \<le> lo" for i
    using that q'(2) split size lo(1) by (auto simp: nth_append npq_items_nth)
  have "npq_inv q'"
    unfolding npq_inv_def items
  proof (intro conjI allI impI)
    show "qcap q' < length (qdata q')" using q' size cap by simp
    show "qsize q' \<le> qcap q'" using q' cap by simp
    show "sorted_wrt nbr_less (take (qcap q) ?ys)"
      using sorted_nbr_insort [OF sorted comparable] by (rule sorted_wrt_take)
    show "qcur q' \<le> qsize q'" using q'(3,5) lo cur by auto
    show "expanded (qdata q' ! i)" if "i < qcur q'" for i
      using that at [of i] exp q'(5) lo(1) by (auto split: if_splits)
    show "\<not> expanded (qdata q' ! qcur q')" if "qcur q' < qsize q'"
      using that at [of "qcur q'"] unexp q'(3,5) lo by (auto split: if_splits)
  qed
  with q'(1,4) items show ?thesis by blast
qed

lemma npq_rejects_full:
  "npq_inv q \<Longrightarrow> 0 < qcap q \<Longrightarrow>
   npq_rejects q n = Some (qsize q = qcap q \<and> nbr_less (qdata q ! (qsize q - 1)) n)"
  by (auto simp: npq_rejects_def npq_inv_def vec_at_def)

lemma npq_items_before_last:
  assumes "npq_inv q" "x \<in> set (npq_items q)"
  shows "x = qdata q ! (qsize q - 1) \<or> nbr_less x (qdata q ! (qsize q - 1))"
proof -
  from assms obtain i where i: "i < qsize q" "x = qdata q ! i"
    by (metis in_set_conv_nth length_npq_items npq_items_nth)
  show ?thesis
  proof (cases "i = qsize q - 1")
    case False
    with i have "i < qsize q - 1" "qsize q - 1 < length (npq_items q)"
      using assms(1) by (simp_all add: length_npq_items)
    then have "nbr_less (npq_items q ! i) (npq_items q ! (qsize q - 1))"
      using assms(1) by (auto simp: npq_inv_def sorted_wrt_iff_nth_less)
    with i show ?thesis by (simp add: npq_items_nth)
  qed (use i in simp)
qed

lemma nbr_insort_at_end:
  "\<forall>x \<in> set xs. nbr_less x n \<Longrightarrow> nbr_insort n xs = xs @ [n]"
  by (induction xs) (auto dest: nbr_less_asym)

lemma npq_full_reject_items:
  assumes "npq_inv q" "0 < qcap q" "qsize q = qcap q" "nbr_less (qdata q ! (qsize q - 1)) n"
  shows "take (qcap q) (nbr_insort (mk_neighbor (nid n) (ndist n)) (npq_items q)) = npq_items q"
proof -
  have "\<forall>x \<in> set (npq_items q). nbr_less x n"
    using npq_items_before_last [OF assms(1)] assms(4) by (blast intro: nbr_less_trans)
  then have "nbr_insort (mk_neighbor (nid n) (ndist n)) (npq_items q)
      = npq_items q @ [mk_neighbor (nid n) (ndist n)]"
    by (intro nbr_insort_at_end) simp
  then show ?thesis using assms(1,3) by (simp add: length_npq_items)
qed

lemma npq_search_slot:
  assumes inv: "npq_inv q" and pos: "0 < qcap q"
    and acc: "\<not> (qsize q = qcap q \<and> nbr_less (qdata q ! (qsize q - 1)) n)"
    and found: "npq_search (qdata q) n 0 (qsize q) = Some lo"
  shows "lo \<le> qsize q \<and> lo < qcap q \<and> (\<forall>i < lo. nbr_less (qdata q ! i) n) \<and>
    (\<forall>i. lo \<le> i \<and> i < qsize q \<longrightarrow> nbr_less n (qdata q ! i))"
proof -
  have "sorted_wrt nbr_less (take (qsize q) (qdata q))" "qsize q \<le> length (qdata q)"
    "qsize q \<le> qcap q"
    using inv by (auto simp: npq_inv_def npq_items_def)
  moreover have "\<forall>i. qsize q \<le> i \<and> i < qsize q \<longrightarrow> nbr_less n (qdata q ! i)"
    by auto
  ultimately have b: "lo \<le> qsize q" "\<forall>i < lo. nbr_less (qdata q ! i) n"
    "\<forall>i. lo \<le> i \<and> i < qsize q \<longrightarrow> nbr_less n (qdata q ! i)"
    using npq_search_Some [OF found order_refl] npq_search_bounds [OF found] by simp_all
  have "lo < qcap q"
  proof (rule ccontr)
    assume "\<not> lo < qcap q"
    with b(1) \<open>qsize q \<le> qcap q\<close> have "lo = qsize q" "qsize q = qcap q" by auto
    with b(2) pos acc show False by simp
  qed
  with b show ?thesis by blast
qed

lemma npq_insert_cases:
  assumes inv: "npq_inv q" and pos: "0 < qcap q"
  shows "\<exists>q'. npq_insert q n = Some q' \<and> npq_inv q' \<and> qcap q' = qcap q \<and>
    (npq_items q' = take (qcap q) (nbr_insort (mk_neighbor (nid n) (ndist n)) (npq_items q)) \<or>
     q' = q \<and> (\<exists>x \<in> set (npq_items q). nid x = nid n \<and> \<not> nbr_less n x))"
proof (cases "qsize q = qcap q \<and> nbr_less (qdata q ! (qsize q - 1)) n")
  case True
  then have
    "npq_items q = take (qcap q) (nbr_insort (mk_neighbor (nid n) (ndist n)) (npq_items q))"
    using npq_full_reject_items [OF inv pos] by metis
  moreover have "npq_insert q n = Some q"
    unfolding npq_insert_def npq_rejects_full [OF inv pos] using True by auto
  ultimately show ?thesis
    using inv by auto
next
  case acc: False
  show ?thesis
  proof (cases "npq_search (qdata q) n 0 (qsize q)")
    case None
    from npq_search_None [OF this] obtain i where
      "i < qsize q" "nid (qdata q ! i) = nid n" "\<not> nbr_less n (qdata q ! i)" by blast
    then have "\<exists>x \<in> set (npq_items q). nid x = nid n \<and> \<not> nbr_less n x"
      using inv by (metis length_npq_items npq_items_nth nth_mem)
    with None acc inv show ?thesis
      by (simp add: npq_insert_def npq_rejects_full [OF inv pos])
  next
    case (Some lo)
    with npq_search_slot [OF inv pos acc Some] npq_place_correct [OF inv, of lo n] acc
    show ?thesis by (auto simp: npq_insert_def npq_rejects_full [OF inv pos])
  qed
qed

subsection \<open>The cursor operations\<close>

lemma npq_skip_spec:
  "i \<le> npq_skip data n i \<and> npq_skip data n i \<le> max i n \<and>
   (\<forall>j. i \<le> j \<and> j < npq_skip data n i \<longrightarrow> expanded (data ! j)) \<and>
   (npq_skip data n i < n \<longrightarrow> \<not> expanded (data ! npq_skip data n i))"
proof (induction data n i rule: npq_skip.induct)
  case (1 data n i)
  show ?case
  proof (cases "i < n \<and> expanded (data ! i)")
    case True
    then have "npq_skip data n i = npq_skip data n (Suc i)"
      by (simp add: npq_skip.simps [of data n i])
    with True "1.IH" [OF True] show ?thesis
      by (metis Suc_leD Suc_leI le_neq_implies_less max.absorb2)
  next
    case False
    then show ?thesis by (auto simp: npq_skip.simps [of data n i])
  qed
qed

lemma sorted_wrt_nbr_less_expand:
  assumes "sorted_wrt nbr_less xs" "i < length xs"
  shows "sorted_wrt nbr_less (xs[i := (xs ! i)\<lparr>expanded := e\<rparr>])"
  using assms by (auto simp: sorted_wrt_iff_nth_less nth_list_update)

lemma npq_mark_inv:
  assumes "npq_inv q" "p < qsize q" "p \<noteq> qcur q"
  shows "npq_inv (q\<lparr>qdata := (qdata q)[p := (qdata q ! p)\<lparr>expanded := True\<rparr>]\<rparr>)"
proof -
  have "take (qsize q) ((qdata q)[p := (qdata q ! p)\<lparr>expanded := True\<rparr>])
      = (npq_items q)[p := (npq_items q ! p)\<lparr>expanded := True\<rparr>]"
    using assms(2) by (simp add: npq_items_def take_update_swap)
  then show ?thesis
    using assms sorted_wrt_nbr_less_expand [of "npq_items q" p]
    by (auto simp: npq_inv_def npq_items_def nth_list_update)
qed

lemma npq_closest_correct:
  assumes inv: "npq_inv q" and ne: "npq_has_unexpanded q"
  shows "\<exists>q'. npq_closest_unexpanded q = Some ((npq_items q ! qcur q)\<lparr>expanded := True\<rparr>, q') \<and>
    npq_inv q' \<and> qcap q' = qcap q \<and> qcur q < qcur q' \<and>
    npq_items q' = (npq_items q)[qcur q := (npq_items q ! qcur q)\<lparr>expanded := True\<rparr>]"
proof -
  let ?c = "qcur q" and ?n = "qsize q"
  let ?x = "(qdata q ! ?c)\<lparr>expanded := True\<rparr>"
  let ?d = "(qdata q)[?c := ?x]" and ?r = "npq_skip ((qdata q)[?c := ?x]) ?n ?c"
  have c: "?c < ?n" "?c < length (qdata q)"
    using inv ne by (auto simp: npq_inv_def npq_has_unexpanded_def)
  have items: "take ?n ?d = (npq_items q)[?c := (npq_items q ! ?c)\<lparr>expanded := True\<rparr>]"
    using c by (simp add: npq_items_def take_update_swap)
  have skip: "?c \<le> ?r" "?r \<le> ?n" "\<forall>j. ?c \<le> j \<and> j < ?r \<longrightarrow> expanded (?d ! j)"
    "?r < ?n \<longrightarrow> \<not> expanded (?d ! ?r)"
    using npq_skip_spec [of ?c ?d ?n] c by auto
  have "?r \<noteq> ?c" using skip(4) c by auto
  then have adv: "?c < ?r" using skip(1) by simp
  have exp: "expanded (?d ! i)" if "i < ?r" for i
    using that skip(3) inv c by (cases "i < ?c") (auto simp: npq_inv_def)
  have sorted: "sorted_wrt nbr_less (take ?n ?d)"
    unfolding items using inv c
    by (intro sorted_wrt_nbr_less_expand) (auto simp: npq_inv_def length_npq_items)
  have "npq_inv (q\<lparr>qdata := ?d, qcur := ?r\<rparr>)"
    using inv skip exp sorted by (auto simp: npq_inv_def npq_items_def)
  moreover have "npq_closest_unexpanded q = Some (?x, q\<lparr>qdata := ?d, qcur := ?r\<rparr>)"
    using c by (simp add: npq_closest_unexpanded_def vec_at_def Let_def)
  ultimately show ?thesis
    using adv items c by (auto simp: npq_items_def)
qed

text \<open>How many candidates are still to be expanded; the search loop stops when none is left.\<close>

definition npq_pending :: "'d npq \<Rightarrow> nat" where
  "npq_pending q = length (filter (\<lambda>n. \<not> expanded n) (npq_items q))"

lemma npq_has_unexpanded_iff:
  assumes "npq_inv q"
  shows "npq_has_unexpanded q \<longleftrightarrow> (\<exists>n \<in> set (npq_items q). \<not> expanded n)"
proof
  assume "npq_has_unexpanded q"
  then show "\<exists>n \<in> set (npq_items q). \<not> expanded n"
    using assms length_npq_items [OF assms]
    by (metis npq_has_unexpanded_def npq_inv_def npq_items_nth nth_mem)
next
  assume "\<exists>n \<in> set (npq_items q). \<not> expanded n"
  then obtain i where "i < qsize q" "\<not> expanded (qdata q ! i)"
    by (metis in_set_conv_nth length_npq_items [OF assms] npq_items_nth)
  with assms show "npq_has_unexpanded q"
    by (meson npq_has_unexpanded_def npq_inv_def leI le_less_trans not_le)
qed

lemma filter_length_update:
  "i < length xs \<Longrightarrow> P (xs ! i) \<Longrightarrow> \<not> P y \<Longrightarrow>
   Suc (length (filter P (xs[i := y]))) = length (filter P xs)"
proof (induction xs arbitrary: i)
  case (Cons a xs)
  then show ?case by (cases i) auto
qed simp

lemma npq_reserve_inv:
  assumes "npq_inv q" "qsize q \<le> capacity"
  shows "npq_inv (npq_reserve junk q capacity) \<and>
    npq_items (npq_reserve junk q capacity) = npq_items q"
proof -
  have "qsize q < length (qdata q)" using assms(1) by (auto simp: npq_inv_def)
  then show ?thesis
    using assms by (auto simp: npq_inv_def npq_reserve_def npq_items_def nth_append)
qed

lemma npq_clear_inv: "npq_inv q \<Longrightarrow> npq_inv (npq_clear q) \<and> npq_items (npq_clear q) = []"
  by (auto simp: npq_inv_def npq_clear_def npq_items_def)

lemma npq_empty_inv: "npq_inv (npq_empty junk capacity)"
  by (simp add: npq_inv_def npq_empty_def npq_items_def)

lemma npq_next_position_correct:
  assumes inv: "npq_inv q"
  shows "\<exists>ok p q'. npq_next_position q position expand = Some (ok, p, q') \<and> npq_inv q' \<and>
    position < p \<and> (ok \<longleftrightarrow> p < qsize q) \<and>
    (\<forall>j. position < j \<and> j < p \<and> j < qsize q \<longrightarrow> expanded (qdata q ! j)) \<and>
    (ok \<longrightarrow> \<not> expanded (qdata q ! p)) \<and>
    (ok \<and> expand \<longrightarrow> npq_items q' = (npq_items q)[p := (npq_items q ! p)\<lparr>expanded := True\<rparr>]) \<and>
    (\<not> (ok \<and> expand) \<longrightarrow> q' = q)"
proof -
  define p where "p = npq_skip (qdata q) (qsize q) (Suc position)"
  have p: "position < p" "\<forall>j. position < j \<and> j < p \<longrightarrow> expanded (qdata q ! j)"
    "p < qsize q \<longrightarrow> \<not> expanded (qdata q ! p)"
    using npq_skip_spec [of "Suc position" "qdata q" "qsize q"] by (auto simp: p_def Suc_le_eq)
  have len: "qsize q < length (qdata q)" using inv by (auto simp: npq_inv_def)
  have upd: "npq_items (q\<lparr>qdata := (qdata q)[p := (qdata q ! p)\<lparr>expanded := True\<rparr>]\<rparr>)
      = (npq_items q)[p := (npq_items q ! p)\<lparr>expanded := True\<rparr>]" if "p < qsize q"
    using that by (simp add: npq_items_def take_update_swap)
  consider "p < qsize q" "expand" "p = qcur q" | "p < qsize q" "expand" "p \<noteq> qcur q"
    | "\<not> (p < qsize q \<and> expand)"
    by blast
  then show ?thesis
  proof cases
    case 1
    with npq_closest_correct [OF inv] p show ?thesis
      by (fastforce simp: npq_next_position_def p_def npq_has_unexpanded_def Let_def)
  next
    case 2
    with npq_mark_inv [OF inv, of p] p len upd show ?thesis
      by (auto simp: npq_next_position_def p_def [symmetric] vec_at_def Let_def)
  next
    case 3
    with inv p show ?thesis
      by (auto simp: npq_next_position_def p_def [symmetric] Let_def)
  qed
qed

subsection \<open>The properties\<close>

text \<open>
  A candidate that is already in the queue, with the same id and the same distance, is
  dropped: the queue is unchanged.
\<close>

theorem npq_insert_drops_duplicate:
  assumes "npq_inv q" and "0 < qcap q" and "x \<in> set (npq_items q)"
    and "nid x = nid n" and "ndist x = ndist n"
  shows "npq_insert q n = Some q"
proof (cases "qsize q = qcap q \<and> nbr_less (qdata q ! (qsize q - 1)) n")
  case True
  then show ?thesis
    unfolding npq_insert_def npq_rejects_full [OF assms(1,2)] by auto
next
  case acc: False
  have "npq_search (qdata q) n 0 (qsize q) = None"
  proof (rule ccontr)
    assume "npq_search (qdata q) n 0 (qsize q) \<noteq> None"
    then obtain lo where "npq_search (qdata q) n 0 (qsize q) = Some lo" by blast
    note slot = npq_search_slot [OF assms(1,2) acc this]
    obtain i where "i < qsize q" "qdata q ! i = x"
      using assms(1,3) by (metis in_set_conv_nth length_npq_items npq_items_nth)
    with slot have "nbr_less x n \<or> nbr_less n x" by (meson not_le)
    with assms(4,5) show False by (simp add: nbr_less_def)
  qed
  with acc show ?thesis
    unfolding npq_insert_def npq_rejects_full [OF assms(1,2)] by auto
qed

definition npq_demo :: "nat npq" where
  "npq_demo = \<lparr>qsize = 2, qcap = 3, qcur = 1,
     qdata = [(mk_neighbor 7 10)\<lparr>expanded := True\<rparr>, mk_neighbor 4 20,
              mk_neighbor 0 0, mk_neighbor 0 0]\<rparr>"

lemma npq_demo_inv: "npq_inv npq_demo"
  by (simp add: npq_inv_def npq_demo_def npq_items_def nbr_less_def take_Cons'
      mk_neighbor_def numeral_2_eq_2)

lemma npq_demo_items:
  "npq_items npq_demo = [(mk_neighbor 7 10)\<lparr>expanded := True\<rparr>, mk_neighbor 4 20]"
  "qcap npq_demo = 3" "qsize npq_demo = 2" "qcur npq_demo = 1"
  by (simp_all add: npq_items_def npq_demo_def numeral_2_eq_2)

text \<open>
  C10. Inserting a candidate whose id is not in the queue is sorted insertion cut off at the capacity; the
  queue stays strictly sorted by distance and id, within its capacity, with the cursor on the first unexpanded
  entry. A candidate that is in the queue with the same distance is dropped and nothing changes. (An id that is
  in the queue with another distance is left out: there the code and its comment differ.)
\<close>

theorem npq_insert_sorts:
  assumes "npq_inv q" and "0 < qcap q"
    and "\<forall>x \<in> set (npq_items q). nid x = nid n \<longrightarrow> ndist x = ndist n"
  shows "if nid n \<in> nid ` set (npq_items q) then npq_insert q n = Some q
    else \<exists>q'. npq_insert q n = Some q' \<and> npq_inv q' \<and> qcap q' = qcap q \<and>
      npq_items q' = take (qcap q) (nbr_insort (mk_neighbor (nid n) (ndist n)) (npq_items q))"
proof (cases "nid n \<in> nid ` set (npq_items q)")
  case True
  then obtain x where "x \<in> set (npq_items q)" "nid x = nid n" by auto
  then show ?thesis using npq_insert_drops_duplicate [OF assms(1,2)] assms(3) True by auto
next
  case False
  then show ?thesis using npq_insert_cases [OF assms(1,2), of n] by (auto simp: image_iff)
qed

theorem npq_insert_sorts_witness:
  "(\<exists>q'. npq_insert npq_demo (mk_neighbor 9 15) = Some q' \<and> npq_inv q' \<and> map nid (npq_items q') = [7, 9, 4]) \<and>
   npq_insert npq_demo (mk_neighbor 4 20) = Some npq_demo"
  using npq_insert_sorts [OF npq_demo_inv, of "mk_neighbor 9 15"] npq_insert_sorts [OF npq_demo_inv, of "mk_neighbor 4 20"]
  by (auto simp: npq_demo_items nbr_less_def)

theorem npq_insert_drops_duplicate_witness:
  "npq_insert npq_demo (mk_neighbor 4 20) = Some npq_demo"
  by (rule npq_insert_drops_duplicate [OF npq_demo_inv, of "mk_neighbor 4 20"])
    (simp_all add: npq_demo_items)

text \<open>
  Dropping by id alone, as the comment on \<open>insert\<close> promises, does not hold: a candidate whose
  id is in the queue with a larger distance is inserted a second time, and the queue then holds
  two entries of one id.
\<close>

theorem npq_insert_same_id_twice:
  "\<exists>q'. npq_insert npq_demo (mk_neighbor 4 5) = Some q' \<and> map nid (npq_items q') = [4, 7, 4]"
proof -
  obtain q' where "npq_insert npq_demo (mk_neighbor 4 5) = Some q'"
    "npq_items q' = take (qcap npq_demo) (nbr_insort (mk_neighbor 4 5) (npq_items npq_demo)) \<or>
     q' = npq_demo \<and> (\<exists>x \<in> set (npq_items npq_demo). nid x = 4 \<and> \<not> nbr_less (mk_neighbor 4 5) x)"
    using npq_insert_cases [OF npq_demo_inv, of "mk_neighbor 4 5"] by (auto simp: npq_demo_items)
  then show ?thesis by (auto simp: npq_demo_items nbr_less_def)
qed

text \<open>
  A queue of capacity zero cannot take a candidate: the first test of \<open>insert\<close> reads
  \<open>_data[_size - 1]\<close> with \<open>_size = 0\<close>, an index that wraps around to the largest \<open>size_t\<close>.
\<close>

theorem npq_insert_zero_capacity: "npq_insert (npq_empty junk 0) n = None"
  by (simp add: npq_insert_def npq_rejects_def npq_empty_def)

text \<open>
  \<open>insert_with_rem_info\<close> changes the queue exactly as \<open>insert\<close> does and reports what fell out:
  with \<open>rem\<close> set, the reported id is that of the one entry of the old queue and the candidate
  that is not in the new queue; without it, nothing was lost unless the candidate was dropped.
\<close>

theorem npq_insert_rem_reports:
  assumes inv: "npq_inv q" and pos: "0 < qcap q"
  shows "\<exists>q' r. npq_insert_rem q n = Some (q', r) \<and> npq_insert q n = Some q' \<and>
    (case r of
       None \<Rightarrow> q' = q \<or>
         mset (npq_items q') = add_mset (mk_neighbor (nid n) (ndist n)) (mset (npq_items q))
     | Some i \<Rightarrow> i = nid n \<and> q' = q \<or>
         (\<exists>y. nid y = i \<and> add_mset y (mset (npq_items q'))
           = add_mset (mk_neighbor (nid n) (ndist n)) (mset (npq_items q))))"
proof (cases "qsize q = qcap q \<and> nbr_less (qdata q ! (qsize q - 1)) n")
  case True
  then have "npq_rejects q n = Some True" by (auto simp: npq_rejects_full [OF inv pos])
  then show ?thesis by (simp add: npq_insert_def npq_insert_rem_def)
next
  case acc: False
  then have rej: "npq_rejects q n = Some False" by (auto simp: npq_rejects_full [OF inv pos])
  show ?thesis
  proof (cases "npq_search (qdata q) n 0 (qsize q)")
    case None
    with rej show ?thesis by (simp add: npq_insert_def npq_insert_rem_def)
  next
    case (Some lo)
    let ?n = "mk_neighbor (nid n) (ndist n)" and ?last = "qdata q ! (qsize q - 1)"
    note slot = npq_search_slot [OF inv pos acc Some]
    from slot npq_place_correct [OF inv, of lo n] obtain q' where
      q': "npq_place q lo n = Some q'" "npq_items q' = take (qcap q) (nbr_insort ?n (npq_items q))"
      by blast
    have sz: "length (npq_items q) = qsize q" "qsize q \<le> qcap q" "qsize q < length (qdata q)"
      using inv by (auto simp: npq_inv_def length_npq_items)
    show ?thesis
    proof (cases "qsize q = qcap q")
      case False
      with sz q' rej Some show ?thesis
        by (simp add: npq_insert_def npq_insert_rem_def)
    next
      case full: True
      have "nbr_insort ?n (npq_items q) = take lo (npq_items q) @ ?n # drop lo (npq_items q)"
        using slot sz by (intro nbr_insort_split) (auto simp: npq_items_nth dest: nbr_less_asym)
      moreover have "lo < qsize q" using slot full by simp
      moreover have "last (npq_items q) = ?last"
        using sz \<open>lo < qsize q\<close> by (subst last_conv_nth) (auto simp: npq_items_nth)
      ultimately have "last (nbr_insort ?n (npq_items q)) = ?last"
        using sz by simp
      then have "nbr_insort ?n (npq_items q) = npq_items q' @ [?last]"
        using q'(2) sz full
        by (metis append_butlast_last_id butlast_conv_take diff_Suc_1 length_nbr_insort
            list.size(3) nat.distinct(1))
      then have "add_mset ?last (mset (npq_items q')) = add_mset ?n (mset (npq_items q))"
        by (metis mset_nbr_insort mset_append add_mset_add_single mset.simps)
      moreover have "npq_insert_rem q n = Some (q', Some (nid ?last))"
        using rej Some q'(1) full pos sz by (simp add: npq_insert_rem_def vec_at_def)
      ultimately show ?thesis
        using rej Some q'(1) by (auto simp: npq_insert_def)
    qed
  qed
qed

theorem npq_insert_rem_reports_witness:
  "\<exists>q' r. npq_insert_rem npq_demo (mk_neighbor 9 15) = Some (q', r) \<and>
     npq_insert npq_demo (mk_neighbor 9 15) = Some q'"
  using npq_insert_rem_reports [OF npq_demo_inv, of "mk_neighbor 9 15"]
  by (auto simp: npq_demo_items)

text \<open>
  With an unexpanded candidate left, \<open>closest_unexpanded\<close> returns the nearest one (every entry
  before it is expanded), marks it expanded in place and changes nothing else; one candidate
  fewer is pending afterwards, so a search that only expands stops.
\<close>

theorem npq_closest_unexpanded_nearest:
  assumes "npq_inv q" and "npq_has_unexpanded q"
  shows "\<exists>n q'. npq_closest_unexpanded q = Some (n, q') \<and> npq_inv q' \<and> qcap q' = qcap q \<and>
    n = (npq_items q ! qcur q)\<lparr>expanded := True\<rparr> \<and>
    (\<forall>x \<in> set (npq_items q). \<not> expanded x \<longrightarrow> x = npq_items q ! qcur q \<or> nbr_less n x) \<and>
    npq_items q' = (npq_items q)[qcur q := n] \<and> Suc (npq_pending q') = npq_pending q"
proof -
  let ?x = "npq_items q ! qcur q"
  from npq_closest_correct [OF assms] obtain q' where
    q': "npq_closest_unexpanded q = Some (?x\<lparr>expanded := True\<rparr>, q')" "npq_inv q'"
      "qcap q' = qcap q" "npq_items q' = (npq_items q)[qcur q := ?x\<lparr>expanded := True\<rparr>]"
    by blast
  have c: "qcur q < length (npq_items q)" and unexp: "\<not> expanded ?x"
    and before: "\<forall>i < qcur q. expanded (npq_items q ! i)"
    and sorted: "sorted_wrt nbr_less (npq_items q)"
    using assms by (auto simp: npq_inv_def npq_has_unexpanded_def length_npq_items npq_items_nth)
  have "x = ?x \<or> nbr_less (?x\<lparr>expanded := True\<rparr>) x"
    if x: "x \<in> set (npq_items q)" "\<not> expanded x" for x
  proof -
    from x(1) obtain i where i: "i < length (npq_items q)" "x = npq_items q ! i"
      by (metis in_set_conv_nth)
    with x(2) before have "qcur q \<le> i" by (meson not_le)
    with i sorted show ?thesis
      by (cases "i = qcur q") (auto simp: sorted_wrt_iff_nth_less)
  qed
  with q' c unexp show ?thesis
    by (auto simp: npq_pending_def intro!: filter_length_update)
qed

theorem npq_closest_unexpanded_nearest_witness:
  "\<exists>n q'. npq_closest_unexpanded npq_demo = Some (n, q') \<and> nid n = 4 \<and>
     Suc (npq_pending q') = npq_pending npq_demo"
  using npq_closest_unexpanded_nearest [OF npq_demo_inv]
  by (auto simp: npq_demo_items npq_has_unexpanded_def)

text \<open>
  \<open>get_next_unexpanded_position\<close> finds the next unexpanded entry after \<open>position\<close>, reports
  whether there is one, and with \<open>expand\<close> marks exactly that entry, keeping the invariant
  (also when it has to advance the cursor).
\<close>

theorem npq_next_position_finds:
  assumes "npq_inv q" and "npq_next_position q position expand = Some (ok, p, q')"
  shows "npq_inv q' \<and> position < p \<and> (ok \<longleftrightarrow> p < qsize q) \<and>
    (\<forall>j. position < j \<and> j < p \<and> j < qsize q \<longrightarrow> expanded (qdata q ! j)) \<and>
    (ok \<longrightarrow> \<not> expanded (qdata q ! p)) \<and>
    (ok \<and> expand \<longrightarrow> npq_items q' = (npq_items q)[p := (npq_items q ! p)\<lparr>expanded := True\<rparr>]) \<and>
    (\<not> (ok \<and> expand) \<longrightarrow> q' = q)"
  using npq_next_position_correct [OF assms(1), of position expand] assms(2) by auto

theorem npq_next_position_finds_witness:
  "\<exists>q'. npq_next_position npq_demo 0 True = Some (True, 1, q') \<and> npq_inv q'"
proof -
  obtain ok p q' where r: "npq_next_position npq_demo 0 True = Some (ok, p, q')"
    using npq_next_position_correct [OF npq_demo_inv, of 0 True] by blast
  have "ok \<and> p = 1"
    using r by (auto simp: npq_next_position_def npq_skip.simps npq_demo_def
        npq_closest_unexpanded_def vec_at_def Let_def)
  with r npq_next_position_finds [OF npq_demo_inv r] show ?thesis by auto
qed

end
