(* ===== verification/NeighborPool.thy ===== *)
theory NeighborPool
  imports Prelude
begin

text \<open>
  The sorted candidate array of the Gorgeous and Starling searches, \<open>Gorgeous/include/neighbor.h\<close>:
  \<open>InsertIntoPool\<close> over a raw array with one slot more than it has entries, and \<open>NeighborVec\<close>,
  the bounded vector that collects what the searches push out of their list. Distances are the
  elements of a linear order; \<open>None\<close> is an access outside the array.
\<close>

record 'd pool_nbr =
  pid :: u32
  pdist :: 'd
  pflag :: bool
  prev_id :: u32

definition mk_pool_nbr :: "u32 \<Rightarrow> 'd \<Rightarrow> bool \<Rightarrow> 'd pool_nbr" where
  "mk_pool_nbr i d f = \<lparr>pid = i, pdist = d, pflag = f, prev_id = 0\<rparr>"

abbreviation pool_le :: "'d::linorder pool_nbr \<Rightarrow> 'd pool_nbr \<Rightarrow> bool" where
  "pool_le a b \<equiv> pdist a \<le> pdist b"

subsection \<open>InsertIntoPool\<close>

function ip_search ::
  "'d::linorder pool_nbr list \<Rightarrow> 'd pool_nbr \<Rightarrow> nat \<Rightarrow> nat \<Rightarrow> nat \<times> nat" where
  "ip_search addr nn left right =
     (if right > 1 \<and> left < right - 1 then
        let mid = (left + right) div 2 in
          if pdist (addr ! mid) > pdist nn then ip_search addr nn left mid
          else ip_search addr nn mid right
      else (left, right))"
  by pat_completeness auto
termination by (relation "measure (\<lambda>(addr, nn, left, right). right - left)") auto

declare ip_search.simps [simp del]

text \<open>The walk to the left over equal distances; \<open>None\<close> is the return for an equal id.\<close>

fun ip_walk :: "'d::linorder pool_nbr list \<Rightarrow> 'd pool_nbr \<Rightarrow> nat \<Rightarrow> nat option" where
  "ip_walk addr nn 0 = Some 0"
| "ip_walk addr nn (Suc l) =
     (if pdist (addr ! Suc l) < pdist nn then Some (Suc l)
      else if pid (addr ! Suc l) = pid nn then None
      else ip_walk addr nn l)"

text \<open>
  The result is the returned position and the array; \<open>K + 1\<close> is the position for a duplicate.
  \<open>K - 1\<close> is unsigned in the code, so it is \<open>2 ^ 32 - 1\<close> for an empty pool.
\<close>

definition ip_last :: "nat \<Rightarrow> nat" where
  "ip_last K = (if K = 0 then 2 ^ 32 - 1 else K - 1)"

definition insert_into_pool ::
  "'d::linorder pool_nbr list \<Rightarrow> nat \<Rightarrow> 'd pool_nbr \<Rightarrow> (nat \<times> 'd pool_nbr list) option" where
  "insert_into_pool addr K nn = do {
     first \<leftarrow> vec_at addr 0;
     if pdist first > pdist nn then do {
       addr \<leftarrow> memmove_up addr 0 K;
       addr \<leftarrow> vec_put addr 0 nn;
       Some (0, addr)
     } else do {
       last \<leftarrow> vec_at addr (ip_last K);
       if pdist last < pdist nn then do {
         addr \<leftarrow> vec_put addr K nn;
         Some (K, addr)
       } else
         let (left, right) = ip_search addr nn 0 (ip_last K) in
         case ip_walk addr nn left of
           None \<Rightarrow> Some (K + 1, addr)
         | Some l \<Rightarrow>
             if pid (addr ! l) = pid nn \<or> pid (addr ! right) = pid nn then Some (K + 1, addr)
             else do {
               addr \<leftarrow> memmove_up addr right (K - right);
               addr \<leftarrow> vec_put addr right nn;
               Some (right, addr)
             }
     }
   }"

subsection \<open>NeighborVec\<close>

record 'd nvec =
  nv_v :: "'d pool_nbr list"
  nv_cap :: nat
  nv_size :: nat

text \<open>\<open>v.resize\<close> fills new slots with value-initialised neighbors, the parameter \<open>zero\<close>.\<close>

definition nv_set_cap :: "'d pool_nbr \<Rightarrow> 'd nvec \<Rightarrow> nat \<Rightarrow> 'd nvec" where
  "nv_set_cap zero s cap =
     s\<lparr>nv_v := take (cap + 1) (nv_v s) @ replicate (cap + 1 - length (nv_v s)) zero,
       nv_cap := cap, nv_size := min (nv_size s) cap\<rparr>"

definition nv_grow :: "'d nvec \<Rightarrow> 'd nvec" where
  "nv_grow s = (if nv_size s < nv_cap s then s\<lparr>nv_size := nv_size s + 1\<rparr> else s)"

definition nv_insert :: "'d::linorder nvec \<Rightarrow> 'd pool_nbr \<Rightarrow> 'd nvec option" where
  "nv_insert s nn =
     (if nv_size s = 0 \<and> nv_cap s \<noteq> 0 then do {
        v \<leftarrow> vec_put (nv_v s) (nv_size s) nn;
        Some (nv_grow (s\<lparr>nv_v := v\<rparr>))
      } else do {
        full_far \<leftarrow> (if nv_size s = nv_cap s
                    then if nv_size s = 0 then None
                         else map_option (\<lambda>l. pdist nn \<ge> pdist l) (vec_at (nv_v s) (nv_size s - 1))
                    else Some False);
        if full_far then Some s
        else do {
          (p, v) \<leftarrow> insert_into_pool (nv_v s) (nv_size s) nn;
          Some (nv_grow (s\<lparr>nv_v := v\<rparr>))
        }
      })"

datatype nv_error = Des_size_error

text \<open>
  \<open>move_to\<close> copies the first \<open>num\<close> entries into \<open>des\<close> at \<open>des_idx\<close> and moves the others to the
  front of \<open>v\<close>; it calls \<open>exit\<close> when they do not fit.
\<close>

definition nv_move_to ::
  "'d nvec \<Rightarrow> 'd pool_nbr list \<Rightarrow> nat \<Rightarrow> nat \<Rightarrow> nv_error + (nat \<times> 'd pool_nbr list \<times> 'd nvec)" where
  "nv_move_to s des des_idx num =
     (let n = min num (nv_size s) in
      if des_idx + n \<ge> length des then Inl Des_size_error
      else Inr (n,
        take des_idx des @ take n (nv_v s) @ drop (des_idx + n) des,
        s\<lparr>nv_v := (if nv_size s - n \<noteq> 0
                    then take (nv_size s - n) (drop n (nv_v s)) @ drop (nv_size s - n) (nv_v s)
                    else nv_v s),
          nv_size := nv_size s - n\<rparr>))"

text \<open>
  The second \<open>InsertIntoPool\<close> also hands the entry that leaves a full list of length \<open>L\<close> to a
  \<open>NeighborVec\<close>.
\<close>

definition kick :: "'d::linorder pool_nbr list \<Rightarrow> nat \<Rightarrow> nat \<Rightarrow> 'd nvec \<Rightarrow> 'd nvec option" where
  "kick addr K L kicked =
     (if K = L then do { x \<leftarrow> vec_at addr K; nv_insert kicked x } else Some kicked)"

definition insert_into_pool_kick ::
  "'d::linorder pool_nbr list \<Rightarrow> nat \<Rightarrow> 'd pool_nbr \<Rightarrow> 'd nvec \<Rightarrow> nat \<Rightarrow>
   (nat \<times> 'd pool_nbr list \<times> 'd nvec) option" where
  "insert_into_pool_kick addr K nn kicked L = do {
     first \<leftarrow> vec_at addr 0;
     if pdist first > pdist nn then do {
       addr \<leftarrow> memmove_up addr 0 K;
       kicked \<leftarrow> kick addr K L kicked;
       addr \<leftarrow> vec_put addr 0 nn;
       Some (0, addr, kicked)
     } else do {
       last \<leftarrow> vec_at addr (ip_last K);
       if pdist last < pdist nn then do {
         addr \<leftarrow> vec_put addr K nn;
         Some (K, addr, kicked)
       } else
         let (left, right) = ip_search addr nn 0 (ip_last K) in
         case ip_walk addr nn left of
           None \<Rightarrow> Some (K + 1, addr, kicked)
         | Some l \<Rightarrow>
             if pid (addr ! l) = pid nn \<or> pid (addr ! right) = pid nn
             then Some (K + 1, addr, kicked)
             else do {
               addr \<leftarrow> memmove_up addr right (K - right);
               kicked \<leftarrow> kick addr K L kicked;
               addr \<leftarrow> vec_put addr right nn;
               Some (right, addr, kicked)
             }
     }
   }"

subsection \<open>The search window and the walk\<close>

lemma ip_search_spec:
  "left \<le> right \<Longrightarrow> pdist (addr ! left) \<le> pdist nn \<Longrightarrow> pdist nn \<le> pdist (addr ! right) \<Longrightarrow>
   ip_search addr nn left right = (l, r) \<Longrightarrow>
   left \<le> l \<and> l \<le> r \<and> r \<le> right \<and> r \<le> Suc l \<and> (left < right \<longrightarrow> l < r) \<and>
   pdist (addr ! l) \<le> pdist nn \<and> pdist nn \<le> pdist (addr ! r) \<and>
   (r < right \<longrightarrow> pdist nn < pdist (addr ! r))"
proof (induction addr nn left right rule: ip_search.induct)
  case (1 addr nn left right)
  let ?mid = "(left + right) div 2"
  show ?case
  proof (cases "right > 1 \<and> left < right - 1")
    case False
    with "1.prems" show ?thesis by (auto simp: ip_search.simps [of addr nn left right])
  next
    case True
    then have mid: "left < ?mid" "?mid < right" by auto
    show ?thesis
    proof (cases "pdist (addr ! ?mid) > pdist nn")
      case gt: True
      have "ip_search addr nn left ?mid = (l, r)"
        using "1.prems"(4) True gt by (simp add: ip_search.simps [of addr nn left right] Let_def)
      from "1.IH"(1) [OF True refl gt _ "1.prems"(2) less_imp_le [OF gt] this] mid gt
      show ?thesis by (cases "r = ?mid") auto
    next
      case le: False
      have "ip_search addr nn ?mid right = (l, r)"
        using "1.prems"(4) True le by (simp add: ip_search.simps [of addr nn left right] Let_def)
      from "1.IH"(2) [OF True refl le less_imp_le [OF mid(2)] not_less [THEN iffD1, OF le] "1.prems"(3) this] mid
      show ?thesis by auto
    qed
  qed
qed

lemma ip_walk_Some:
  "ip_walk addr nn l = Some m \<Longrightarrow>
   m \<le> l \<and> (\<forall>i. m < i \<and> i \<le> l \<longrightarrow> pdist nn \<le> pdist (addr ! i) \<and> pid (addr ! i) \<noteq> pid nn) \<and>
   (m = 0 \<or> pdist (addr ! m) < pdist nn)"
proof (induction l arbitrary: m)
  case (Suc l)
  show ?case
  proof (cases "pdist (addr ! Suc l) < pdist nn")
    case False
    with Suc.prems have ne: "pid (addr ! Suc l) \<noteq> pid nn" and "ip_walk addr nn l = Some m"
      by (simp_all split: if_splits)
    with Suc.IH False show ?thesis by (auto simp: le_Suc_eq not_less)
  qed (use Suc.prems in auto)
qed simp

lemma ip_walk_None:
  "ip_walk addr nn l = None \<Longrightarrow> \<exists>i \<le> l. pid (addr ! i) = pid nn"
  by (induction l) (auto split: if_splits simp: le_Suc_eq)

subsection \<open>What an insertion does\<close>

definition pool_sorted :: "'d::linorder pool_nbr list \<Rightarrow> nat \<Rightarrow> bool" where
  "pool_sorted addr K \<longleftrightarrow> 0 < K \<and> K < length addr \<and> sorted_wrt pool_le (take K addr)"

lemma pool_sorted_nth:
  "pool_sorted addr K \<Longrightarrow> i \<le> j \<Longrightarrow> j < K \<Longrightarrow> pdist (addr ! i) \<le> pdist (addr ! j)"
  by (cases "i = j") (auto simp: pool_sorted_def sorted_wrt_iff_nth_less)

lemma memmove_put_split:
  assumes "K < length addr" "p \<le> K"
  shows "\<exists>ys. memmove_up addr p (K - p) = Some ys \<and> length ys = length addr \<and>
    vec_put ys p nn = Some (take p addr @ nn # take (K - p) (drop p addr) @ drop (Suc K) addr)"
  using memmove_up_then_put [of p "K - p" addr nn] assms by (auto simp: vec_put_def)

definition pool_placed ::
  "'d::linorder pool_nbr list \<Rightarrow> nat \<Rightarrow> 'd pool_nbr \<Rightarrow> nat \<Rightarrow> 'd pool_nbr list" where
  "pool_placed addr K nn p = take p addr @ nn # take (K - p) (drop p addr) @ drop (Suc K) addr"

lemma pool_placed_take:
  assumes "K < length addr" "p \<le> K"
  shows "take (Suc K) (pool_placed addr K nn p) = take p (take K addr) @ nn # drop p (take K addr)"
proof -
  let ?front = "take p addr @ nn # take (K - p) (drop p addr)"
  have "length ?front = Suc K" using assms by simp
  then have "take (Suc K) (?front @ drop (Suc K) addr) = ?front" by (metis append_eq_conv_conj)
  then show ?thesis
    using assms(2) by (simp add: pool_placed_def min_def drop_take)
qed

lemma pool_placed_drop:
  assumes "K < length addr" "p \<le> K"
  shows "drop (Suc K) (pool_placed addr K nn p) = drop (Suc K) addr"
proof -
  let ?front = "take p addr @ nn # take (K - p) (drop p addr)"
  have "length ?front = Suc K" using assms by simp
  then have "drop (Suc K) (?front @ drop (Suc K) addr) = drop (Suc K) addr"
    by (metis append_eq_conv_conj)
  then show ?thesis by (simp add: pool_placed_def)
qed

lemma pool_placed_length:
  "K < length addr \<Longrightarrow> p \<le> K \<Longrightarrow> length (pool_placed addr K nn p) = length addr"
  by (simp add: pool_placed_def)

lemma pool_placed_sorted:
  assumes ps: "pool_sorted addr K" and p: "p \<le> K"
    and left: "0 < p \<Longrightarrow> pdist (addr ! (p - 1)) \<le> pdist nn"
    and right: "p < K \<Longrightarrow> pdist nn \<le> pdist (addr ! p)"
  shows "sorted_wrt pool_le (take (Suc K) (pool_placed addr K nn p))"
proof -
  have K: "K < length addr" and sorted: "sorted_wrt pool_le (take K addr)"
    using ps by (auto simp: pool_sorted_def)
  have "pdist x \<le> pdist nn" if "x \<in> set (take p (take K addr))" for x
  proof -
    from that obtain i where "i < p" "x = addr ! i"
      by (auto simp: set_take_nth)
    with left pool_sorted_nth [OF ps, of i "p - 1"] p show ?thesis by force
  qed
  moreover have "pdist nn \<le> pdist x" if "x \<in> set (drop p (take K addr))" for x
  proof -
    from that obtain j where "j < K - p" "x = addr ! (p + j)"
      using K by (auto simp: in_set_conv_nth)
    then obtain i where "p \<le> i" "i < K" "x = addr ! i"
      by (metis add.commute le_add1 less_diff_conv)
    with right pool_sorted_nth [OF ps, of p i] show ?thesis by force
  qed
  moreover have "sorted_wrt pool_le (take p (take K addr))" "sorted_wrt pool_le (drop p (take K addr))"
    using sorted by (simp_all only: sorted_wrt_take sorted_wrt_drop)
  ultimately show ?thesis
    unfolding pool_placed_take [OF K p]
    by (auto simp: sorted_wrt_append intro: order_trans)
qed

text \<open>The slot the code finds, and what the early returns mean.\<close>

lemma pool_slot:
  assumes ps: "pool_sorted addr K"
    and first: "pdist (addr ! 0) \<le> pdist nn" and last: "pdist nn \<le> pdist (addr ! (K - 1))"
    and window: "ip_search addr nn 0 (K - 1) = (l, r)"
  shows "l \<le> r \<and> r < K \<and> (0 < r \<longrightarrow> r = Suc l) \<and> pdist (addr ! l) \<le> pdist nn \<and>
    pdist nn \<le> pdist (addr ! r) \<and> (r < K - 1 \<longrightarrow> pdist nn < pdist (addr ! r))"
  using ip_search_spec [OF le0 first last window] ps by (auto simp: pool_sorted_def)

lemma insert_into_pool_eq:
  assumes ps: "pool_sorted addr K"
  shows "insert_into_pool addr K nn = Some
    (if pdist (addr ! 0) > pdist nn then (0, pool_placed addr K nn 0)
     else if pdist (addr ! (K - 1)) < pdist nn then (K, pool_placed addr K nn K)
     else let (l, r) = ip_search addr nn 0 (K - 1) in
       case ip_walk addr nn l of
         None \<Rightarrow> (K + 1, addr)
       | Some m \<Rightarrow> if pid (addr ! m) = pid nn \<or> pid (addr ! r) = pid nn then (K + 1, addr)
                   else (r, pool_placed addr K nn r))"
proof -
  have K: "0 < K" "K < length addr" using ps by (auto simp: pool_sorted_def)
  have reads: "vec_at addr 0 = Some (addr ! 0)" "vec_at addr (ip_last K) = Some (addr ! (K - 1))"
    "ip_last K = K - 1"
    using K by (auto simp: ip_last_def vec_at_def)
  have moved: "do { a \<leftarrow> memmove_up addr p (K - p); a \<leftarrow> vec_put a p nn; Some (p, a) }
      = Some (p, pool_placed addr K nn p)" if "p \<le> K" for p
    using memmove_put_split [OF K(2) that, of nn] by (auto simp: pool_placed_def)
  have put: "vec_put addr K nn = Some (pool_placed addr K nn K)"
    using K by (simp add: vec_put_def pool_placed_def upd_conv_take_nth_drop)
  consider (front) "pdist (addr ! 0) > pdist nn"
    | (behind) "pdist (addr ! 0) \<le> pdist nn" "pdist (addr ! (K - 1)) < pdist nn"
    | (mid) "pdist (addr ! 0) \<le> pdist nn" "pdist nn \<le> pdist (addr ! (K - 1))"
    by (meson not_le)
  then show ?thesis
  proof cases
    case front
    with reads moved [of 0] show ?thesis by (simp add: insert_into_pool_def)
  next
    case behind
    with reads put show ?thesis by (simp add: insert_into_pool_def not_less [symmetric])
  next
    case mid
    obtain l r where w: "ip_search addr nn 0 (K - 1) = (l, r)" by force
    have "r \<le> K" using pool_slot [OF ps mid w] by simp
    from mid have "\<not> pdist nn < pdist (addr ! 0)" "\<not> pdist (addr ! (K - 1)) < pdist nn" by auto
    with reads w moved [OF \<open>r \<le> K\<close>] show ?thesis
      by (cases "ip_walk addr nn l") (auto simp: insert_into_pool_def)
  qed
qed

lemma pool_member_iff:
  "K \<le> length addr \<Longrightarrow> (\<exists>x \<in> set (take K addr). P x) \<longleftrightarrow> (\<exists>i < K. P (addr ! i))"
  by (fastforce simp: set_take_nth)

text \<open>An entry with the candidate's id and distance is met by the walk or at the slot.\<close>

lemma pool_duplicate_met:
  assumes ps: "pool_sorted addr K"
    and mid: "pdist (addr ! 0) \<le> pdist nn" "pdist nn \<le> pdist (addr ! (K - 1))"
    and w: "ip_search addr nn 0 (K - 1) = (l, r)" and walk: "ip_walk addr nn l = Some m"
    and i: "i < K" "pid (addr ! i) = pid nn" "pdist (addr ! i) = pdist nn"
  shows "pid (addr ! m) = pid nn \<or> pid (addr ! r) = pid nn"
proof (rule ccontr)
  assume ne: "\<not> ?thesis"
  note slot = pool_slot [OF ps mid w]
  have "i \<noteq> m" "i \<noteq> r" using ne i by auto
  have "\<not> r < i"
  proof
    assume "r < i"
    then have "r < K - 1" using i by simp
    with slot pool_sorted_nth [OF ps, of r i] \<open>r < i\<close> i show False by auto
  qed
  with \<open>i \<noteq> r\<close> slot have "i \<le> l" by (cases "0 < r") auto
  with ip_walk_Some [OF walk] i \<open>i \<noteq> m\<close> have "i < m" by (meson linorder_neqE_nat)
  with ip_walk_Some [OF walk] i pool_sorted_nth [OF ps, of i m] slot show False
    by force
qed

lemma insert_into_pool_cases:
  assumes ps: "pool_sorted addr K"
  shows "(\<exists>p \<le> K. insert_into_pool addr K nn = Some (p, pool_placed addr K nn p) \<and>
      (0 < p \<longrightarrow> pdist (addr ! (p - 1)) \<le> pdist nn) \<and> (p < K \<longrightarrow> pdist nn \<le> pdist (addr ! p)) \<and>
      \<not> (\<exists>x \<in> set (take K addr). pid x = pid nn \<and> pdist x = pdist nn)) \<or>
    insert_into_pool addr K nn = Some (K + 1, addr) \<and> (\<exists>x \<in> set (take K addr). pid x = pid nn)"
proof -
  have K: "0 < K" "K < length addr" using ps by (auto simp: pool_sorted_def)
  note member = pool_member_iff [OF less_imp_le [OF K(2)]]
  consider (front) "pdist (addr ! 0) > pdist nn"
    | (behind) "\<not> pdist (addr ! 0) > pdist nn" "pdist (addr ! (K - 1)) < pdist nn"
    | (mid) "pdist (addr ! 0) \<le> pdist nn" "pdist nn \<le> pdist (addr ! (K - 1))"
    by (meson not_le)
  then show ?thesis
  proof cases
    case front
    have "pdist nn < pdist (addr ! i)" if "i < K" for i
      using front pool_sorted_nth [OF ps _ that, of 0] by simp
    with front K(1) show ?thesis
      unfolding insert_into_pool_eq [OF ps] member by (intro disjI1 exI [of _ 0]) fastforce
  next
    case behind
    have "pdist (addr ! i) < pdist nn" if "i < K" for i
      using behind(2) pool_sorted_nth [OF ps, of i "K - 1"] that by force
    with behind K(1) show ?thesis
      unfolding insert_into_pool_eq [OF ps] member by (intro disjI1 exI [of _ K]) fastforce
  next
    case mid
    then have not: "\<not> pdist nn < pdist (addr ! 0)" "\<not> pdist (addr ! (K - 1)) < pdist nn" by auto
    obtain l r where w: "ip_search addr nn 0 (K - 1) = (l, r)" by force
    note slot = pool_slot [OF ps mid w]
    show ?thesis
    proof (cases "ip_walk addr nn l")
      case None
      from ip_walk_None [OF this] slot have "\<exists>i < K. pid (addr ! i) = pid nn"
        by (meson le_less_trans)
      with None w not show ?thesis
        unfolding insert_into_pool_eq [OF ps] member by simp
    next
      case (Some m)
      show ?thesis
      proof (cases "pid (addr ! m) = pid nn \<or> pid (addr ! r) = pid nn")
        case True
        with slot ip_walk_Some [OF Some] have "\<exists>i < K. pid (addr ! i) = pid nn"
          by (meson le_less_trans)
        with True Some w not show ?thesis
          unfolding insert_into_pool_eq [OF ps] member by simp
      next
        case False
        have "\<not> (\<exists>i < K. pid (addr ! i) = pid nn \<and> pdist (addr ! i) = pdist nn)"
          using pool_duplicate_met [OF ps mid w Some] False by blast
        moreover have "0 < r \<longrightarrow> pdist (addr ! (r - 1)) \<le> pdist nn" using slot by auto
        ultimately show ?thesis
          using False Some w not slot unfolding insert_into_pool_eq [OF ps] member
          by (intro disjI1 exI [of _ r]) simp
      qed
    qed
  qed
qed

subsection \<open>The properties\<close>

lemma insert_into_pool_detects_duplicate_aux:
  "pool_sorted addr K \<Longrightarrow> x \<in> set (take K addr) \<Longrightarrow> pid x = pid nn \<Longrightarrow> pdist x = pdist nn \<Longrightarrow>
   insert_into_pool addr K nn = Some (K + 1, addr)"
  using insert_into_pool_cases [of addr K nn] by blast

lemma insert_into_pool_placed:
  assumes ps: "pool_sorted addr K" and new: "pid nn \<notin> pid ` set (take K addr)"
  shows "\<exists>p addr'. insert_into_pool addr K nn = Some (p, addr') \<and> p \<le> K \<and>
    length addr' = length addr \<and> take (Suc K) addr' = take p (take K addr) @ nn # drop p (take K addr) \<and>
    sorted_wrt pool_le (take (Suc K) addr') \<and> drop (Suc K) addr' = drop (Suc K) addr"
proof -
  have K: "K < length addr" using ps by (simp add: pool_sorted_def)
  from insert_into_pool_cases [OF ps, of nn] new obtain p where
    p: "p \<le> K" "insert_into_pool addr K nn = Some (p, pool_placed addr K nn p)"
      "0 < p \<Longrightarrow> pdist (addr ! (p - 1)) \<le> pdist nn" "p < K \<Longrightarrow> pdist nn \<le> pdist (addr ! p)"
    by (metis image_eqI)
  with K pool_placed_sorted [OF ps p(1,3,4)] show ?thesis
    by (simp add: pool_placed_take pool_placed_length pool_placed_drop)
qed

text \<open>
  C24. On a pool sorted by distance \<open>InsertIntoPool\<close> either puts the candidate at the returned
  position, with the entries from there on one place up, the pool still sorted and nothing
  behind slot \<open>K\<close> touched, or returns \<open>K + 1\<close> with the array as it was, and then some entry has
  the candidate's id.
\<close>

theorem insert_into_pool_sorted:
  assumes "pool_sorted addr K"
  shows "\<exists>p addr'. insert_into_pool addr K nn = Some (p, addr') \<and> length addr' = length addr \<and>
    (if p \<le> K
     then take (K + 1) addr' = take p (take K addr) @ nn # drop p (take K addr) \<and>
       sorted_wrt pool_le (take (K + 1) addr') \<and> drop (K + 1) addr' = drop (K + 1) addr
     else p = K + 1 \<and> addr' = addr \<and> (\<exists>x \<in> set (take K addr). pid x = pid nn))"
proof -
  have K: "K < length addr" using assms by (simp add: pool_sorted_def)
  from insert_into_pool_cases [OF assms, of nn] show ?thesis
  proof
    assume "\<exists>p \<le> K. insert_into_pool addr K nn = Some (p, pool_placed addr K nn p) \<and>
      (0 < p \<longrightarrow> pdist (addr ! (p - 1)) \<le> pdist nn) \<and> (p < K \<longrightarrow> pdist nn \<le> pdist (addr ! p)) \<and>
      \<not> (\<exists>x \<in> set (take K addr). pid x = pid nn \<and> pdist x = pdist nn)"
    then obtain p where p: "p \<le> K" "insert_into_pool addr K nn = Some (p, pool_placed addr K nn p)"
      "0 < p \<Longrightarrow> pdist (addr ! (p - 1)) \<le> pdist nn" "p < K \<Longrightarrow> pdist nn \<le> pdist (addr ! p)"
      by blast
    with K pool_placed_sorted [OF assms p(1,3,4)] show ?thesis
      by (simp add: pool_placed_take pool_placed_length pool_placed_drop)
  qed auto
qed

lemma pool_demo_sorted:
  "pool_sorted [mk_pool_nbr 3 (5::nat) True, mk_pool_nbr 8 9 True, mk_pool_nbr 0 0 False] 2"
  by (simp add: pool_sorted_def mk_pool_nbr_def numeral_2_eq_2)

theorem insert_into_pool_sorted_witness:
  "\<exists>p addr'. insert_into_pool [mk_pool_nbr 3 (5::nat) True, mk_pool_nbr 8 9 True, mk_pool_nbr 0 0 False] 2
      (mk_pool_nbr 6 7 True) = Some (p, addr') \<and> length addr' = 3"
  using insert_into_pool_sorted [OF pool_demo_sorted, of "mk_pool_nbr 6 7 True"] by auto

text \<open>
  A candidate that the pool already holds with the same id and distance is always detected,
  wherever entries of equal distance stand: the pool is unchanged and \<open>K + 1\<close> is returned.
\<close>

theorem insert_into_pool_detects_duplicate:
  assumes "pool_sorted addr K" and "x \<in> set (take K addr)"
    and "pid x = pid nn" and "pdist x = pdist nn"
  shows "insert_into_pool addr K nn = Some (K + 1, addr)"
  using insert_into_pool_cases [OF assms(1), of nn] assms(2-) by blast

theorem insert_into_pool_detects_duplicate_witness:
  "insert_into_pool [mk_pool_nbr 3 (5::nat) True, mk_pool_nbr 8 9 True, mk_pool_nbr 0 0 False] 2
     (mk_pool_nbr 8 9 False)
   = Some (3, [mk_pool_nbr 3 5 True, mk_pool_nbr 8 9 True, mk_pool_nbr 0 0 False])"
  using insert_into_pool_detects_duplicate [OF pool_demo_sorted, of "mk_pool_nbr 8 9 True" "mk_pool_nbr 8 9 False"]
  by (simp add: mk_pool_nbr_def numeral_2_eq_2)

definition nv_items :: "'d nvec \<Rightarrow> 'd pool_nbr list" where
  "nv_items s = take (nv_size s) (nv_v s)"

definition nv_inv :: "'d::linorder nvec \<Rightarrow> bool" where
  "nv_inv s \<longleftrightarrow> nv_cap s < length (nv_v s) \<and> nv_size s \<le> nv_cap s \<and>
     sorted_wrt pool_le (nv_items s)"

lemma nv_inv_pool_sorted: "nv_inv s \<Longrightarrow> 0 < nv_size s \<Longrightarrow> pool_sorted (nv_v s) (nv_size s)"
  by (auto simp: nv_inv_def nv_items_def pool_sorted_def)

lemma nv_insert_nonempty:
  assumes inv: "nv_inv s" and ne: "0 < nv_size s"
  shows "nv_insert s nn =
    (if nv_size s = nv_cap s \<and> pdist (nv_v s ! (nv_size s - 1)) \<le> pdist nn then Some s
     else map_option (\<lambda>(p, v). nv_grow (s\<lparr>nv_v := v\<rparr>)) (insert_into_pool (nv_v s) (nv_size s) nn))"
  using assms
  by (auto simp: nv_insert_def nv_inv_def vec_at_def map_option_case split: option.splits)

text \<open>
  A candidate with a new id goes to its sorted place in the bounded vector, and the farthest
  entry is cut off when the vector was full; the vector stays sorted and within its capacity.
\<close>

theorem nv_insert_keeps_nearest:
  assumes inv: "nv_inv s" and cap: "0 < nv_cap s" and new: "pid nn \<notin> pid ` set (nv_items s)"
  shows "\<exists>s' p. nv_insert s nn = Some s' \<and> nv_inv s' \<and> nv_cap s' = nv_cap s \<and>
    p \<le> nv_size s \<and>
    nv_items s' = take (nv_cap s) (take p (nv_items s) @ nn # drop p (nv_items s))"
proof (cases "nv_size s = 0")
  case True
  moreover have "take (Suc 0) ((nv_v s)[0 := nn]) = [nn]"
    using cap inv by (cases "nv_v s") (auto simp: nv_inv_def)
  ultimately show ?thesis using cap inv
    by (intro exI [of _ "s\<lparr>nv_v := (nv_v s)[0 := nn], nv_size := 1\<rparr>"] exI [of _ 0])
      (auto simp: nv_insert_def nv_grow_def vec_put_def nv_inv_def nv_items_def)
next
  case False
  let ?K = "nv_size s"
  have ne: "0 < ?K" and ps: "pool_sorted (nv_v s) ?K" and len: "length (nv_items s) = ?K"
    using False inv nv_inv_pool_sorted [OF inv] by (auto simp: nv_items_def nv_inv_def)
  show ?thesis
  proof (cases "?K = nv_cap s \<and> pdist (nv_v s ! (?K - 1)) \<le> pdist nn")
    case True
    then have "nv_insert s nn = Some s" unfolding nv_insert_nonempty [OF inv ne] by auto
    moreover have "take (nv_cap s) (take ?K (nv_items s) @ nn # drop ?K (nv_items s)) = nv_items s"
      using True len by simp
    ultimately show ?thesis
      using inv by (intro exI [of _ s] exI [of _ ?K]) simp
  next
    case acc: False
    from insert_into_pool_placed [OF ps, of nn] new obtain p v' where
      p: "insert_into_pool (nv_v s) ?K nn = Some (p, v')" "p \<le> ?K" "length v' = length (nv_v s)"
        "take (Suc ?K) v' = take p (nv_items s) @ nn # drop p (nv_items s)"
        "sorted_wrt pool_le (take (Suc ?K) v')"
      unfolding nv_items_def by blast
    have "nv_insert s nn = Some (nv_grow (s\<lparr>nv_v := v'\<rparr>))"
      using acc p(1) unfolding nv_insert_nonempty [OF inv ne] by auto
    moreover have items: "nv_items (nv_grow (s\<lparr>nv_v := v'\<rparr>)) = take (nv_cap s) (take (Suc ?K) v')"
      using inv by (auto simp: nv_grow_def nv_items_def nv_inv_def min_def le_Suc_eq)
    moreover have "nv_inv (nv_grow (s\<lparr>nv_v := v'\<rparr>))"
      unfolding nv_inv_def items using inv p(3,5)
      by (auto simp: nv_inv_def nv_grow_def simp del: take_take intro: sorted_wrt_take)
    ultimately show ?thesis
      using p(2,4) by (auto simp: nv_grow_def)
  qed
qed

definition nv_demo :: "nat nvec" where
  "nv_demo = \<lparr>nv_v = [mk_pool_nbr 3 5 True, mk_pool_nbr 8 9 True, mk_pool_nbr 0 0 False, mk_pool_nbr 0 0 False],
     nv_cap = 3, nv_size = 2\<rparr>"

lemma nv_demo_inv: "nv_inv nv_demo" "nv_cap nv_demo = 3" "nv_size nv_demo = 2"
    "nv_v nv_demo ! 2 = mk_pool_nbr 0 0 False"
    "nv_items nv_demo = [mk_pool_nbr 3 5 True, mk_pool_nbr 8 9 True]"
  by (simp_all add: nv_inv_def nv_demo_def nv_items_def mk_pool_nbr_def numeral_2_eq_2)

theorem nv_insert_keeps_nearest_witness:
  "\<exists>s'. nv_insert nv_demo (mk_pool_nbr 6 7 True) = Some s' \<and> nv_inv s'"
  using nv_insert_keeps_nearest [OF nv_demo_inv(1), of "mk_pool_nbr 6 7 True"]
  by (auto simp: nv_demo_inv mk_pool_nbr_def)

text \<open>
  The return value of \<open>InsertIntoPool\<close> is ignored by \<open>NeighborVec::insert\<close>: a candidate that is
  already in a vector with room leaves the array alone and still makes the vector one entry
  longer, so the value-initialised (or stale) slot behind the last entry becomes an entry.
\<close>

theorem nv_insert_duplicate_grows:
  assumes inv: "nv_inv s" and "x \<in> set (nv_items s)" and "pid x = pid nn" "pdist x = pdist nn"
    and room: "nv_size s < nv_cap s"
  shows "\<exists>s'. nv_insert s nn = Some s' \<and> nv_v s' = nv_v s \<and>
    nv_items s' = nv_items s @ [nv_v s ! nv_size s]"
proof -
  have ne: "0 < nv_size s" using assms(2) by (cases "nv_size s") (auto simp: nv_items_def)
  have "insert_into_pool (nv_v s) (nv_size s) nn = Some (nv_size s + 1, nv_v s)"
    using insert_into_pool_detects_duplicate_aux [OF nv_inv_pool_sorted [OF inv ne]] assms(2-4)
    by (simp add: nv_items_def)
  with room inv show ?thesis
    by (simp add: nv_insert_nonempty [OF inv ne] nv_grow_def nv_items_def nv_inv_def
        take_Suc_conv_app_nth)
qed

theorem nv_insert_duplicate_grows_witness:
  "\<exists>s'. nv_insert nv_demo (mk_pool_nbr 8 9 True) = Some s' \<and>
     nv_items s' = [mk_pool_nbr 3 5 True, mk_pool_nbr 8 9 True, mk_pool_nbr 0 0 False]"
  using nv_insert_duplicate_grows [OF nv_demo_inv(1), of "mk_pool_nbr 8 9 True" "mk_pool_nbr 8 9 True"]
  by (auto simp: nv_demo_inv)

text \<open>
  \<open>move_to\<close> moves a prefix: what it wrote to the destination followed by what is left in the
  vector is what the vector held, and the destination is unchanged outside the written range.
\<close>

theorem nv_move_to_splits:
  assumes "nv_inv s" and "nv_move_to s des des_idx num = Inr (n, des', s')"
  shows "n = min num (nv_size s) \<and> nv_inv s' \<and> length des' = length des \<and>
    take n (drop des_idx des') @ nv_items s' = nv_items s \<and>
    take des_idx des' = take des_idx des \<and> drop (des_idx + n) des' = drop (des_idx + n) des"
proof -
  have n: "n = min num (nv_size s)" and fits: "des_idx + n < length des"
    and des': "des' = take des_idx des @ take n (nv_v s) @ drop (des_idx + n) des"
    and s': "nv_size s' = nv_size s - n" "nv_cap s' = nv_cap s"
      "nv_v s' = (if nv_size s - n \<noteq> 0 then take (nv_size s - n) (drop n (nv_v s)) @
         drop (nv_size s - n) (nv_v s) else nv_v s)"
    using assms(2) by (auto simp: nv_move_to_def Let_def split: if_splits)
  have len: "nv_size s < length (nv_v s)" "n \<le> nv_size s"
    using assms(1) n by (auto simp: nv_inv_def)
  have items: "nv_items s' = drop n (nv_items s)"
    using s' len by (auto simp: nv_items_def drop_take)
  have "take n (nv_v s) = take n (nv_items s)"
    using len by (simp add: nv_items_def min_def)
  moreover have "nv_inv s'"
    unfolding nv_inv_def items using assms(1) s' len
    by (auto simp: nv_inv_def sorted_wrt_drop)
  moreover have "length (take n (nv_items s)) = n"
    using len by (simp add: nv_items_def)
  moreover have "length (take des_idx des) = des_idx" using fits by simp
  ultimately have d: "des' = take des_idx des @ take n (nv_items s) @ drop (des_idx + n) des"
      "length (take n (nv_items s)) = n" "length (take des_idx des) = des_idx" and "nv_inv s'"
    using des' by simp_all
  have "take n (drop des_idx des') = take n (nv_items s)" "take des_idx des' = take des_idx des"
    "drop (des_idx + n) des' = drop (des_idx + n) des"
    unfolding d(1) using d(2,3) by (simp_all add: append_eq_conv_conj)
  moreover have "length des' = length des" unfolding d(1) using d(2,3) fits by simp
  ultimately show ?thesis
    using n items \<open>nv_inv s'\<close> by (metis append_take_drop_id)
qed

theorem nv_move_to_splits_witness:
  "\<exists>des' s'. nv_move_to nv_demo (replicate 4 (mk_pool_nbr 1 1 False)) 1 1 = Inr (1, des', s') \<and>
     nv_items s' = [mk_pool_nbr 8 9 True]"
proof -
  obtain des' s' where r: "nv_move_to nv_demo (replicate 4 (mk_pool_nbr 1 1 False)) 1 1 = Inr (1, des', s')"
    by (simp add: nv_move_to_def nv_demo_inv)
  from nv_move_to_splits [OF nv_demo_inv(1) r] have "length des' = 4" "nv_items nv_demo
      = take 1 (drop 1 des') @ nv_items s'"
    by simp_all
  then have "tl (nv_items nv_demo) = nv_items s'" by (cases "drop 1 des'") auto
  with r show ?thesis by (simp add: nv_demo_inv)
qed

lemma memmove_up_last:
  "i < K \<Longrightarrow> K < length xs \<Longrightarrow> memmove_up xs i (K - i) = Some ys \<Longrightarrow>
   K < length ys \<and> ys ! K = xs ! (K - 1)"
  by (auto simp: memmove_up_def nth_append split: if_splits)

text \<open>
  The variant with a \<open>NeighborVec\<close> places the candidate exactly as \<open>InsertIntoPool\<close> does; the
  vector receives the last entry of a full list (\<open>K = L\<close>) when the candidate went in before the
  end, and is left alone otherwise.
\<close>

theorem insert_into_pool_kick_agrees:
  assumes ps: "pool_sorted addr K"
    and r: "insert_into_pool_kick addr K nn kicked L = Some (p, addr', kicked')"
  shows "insert_into_pool addr K nn = Some (p, addr') \<and>
    (if K = L \<and> p < K then nv_insert kicked (addr ! (K - 1)) = Some kicked' else kicked' = kicked)"
proof -
  have K: "0 < K" "K < length addr" using ps by (auto simp: pool_sorted_def)
  have kicked: "kick ys K L kicked = (if K = L then nv_insert kicked (addr ! (K - 1)) else Some kicked)"
    if "i < K" "memmove_up addr i (K - i) = Some ys" for i ys
    using memmove_up_last [OF that(1) K(2) that(2)] by (auto simp: kick_def vec_at_def)
  have reads: "vec_at addr 0 = Some (addr ! 0)" "vec_at addr (ip_last K) = Some (addr ! (K - 1))"
    "ip_last K = K - 1"
    using K by (auto simp: ip_last_def vec_at_def)
  obtain l r where w: "ip_search addr nn 0 (K - 1) = (l, r)" by force
  consider (front) "pdist (addr ! 0) > pdist nn"
    | (behind) "\<not> pdist (addr ! 0) > pdist nn" "pdist (addr ! (K - 1)) < pdist nn"
    | (mid) "\<not> pdist (addr ! 0) > pdist nn" "\<not> pdist (addr ! (K - 1)) < pdist nn"
    by blast
  then show ?thesis
  proof cases
    case front
    then obtain ys where "memmove_up addr 0 K = Some ys"
      using r reads by (auto simp: insert_into_pool_kick_def bind_eq_Some_conv)
    with front r reads K kicked [of 0 ys] show ?thesis
      by (auto simp: insert_into_pool_kick_def insert_into_pool_def bind_eq_Some_conv split: if_splits)
  next
    case behind
    with r reads show ?thesis
      by (auto simp: insert_into_pool_kick_def insert_into_pool_def bind_eq_Some_conv)
  next
    case mid
    then have "r < K" using pool_slot [OF ps _ _ w] by auto
    with mid r reads w kicked [of r] show ?thesis
      by (auto simp: insert_into_pool_kick_def insert_into_pool_def bind_eq_Some_conv
          split: option.splits if_splits)
  qed
qed

theorem insert_into_pool_kick_agrees_witness:
  "\<exists>p addr' kicked'. insert_into_pool_kick [mk_pool_nbr 3 (5::nat) True, mk_pool_nbr 8 9 True, mk_pool_nbr 0 0 False] 2
      (mk_pool_nbr 6 7 True) nv_demo 2 = Some (p, addr', kicked') \<and>
     insert_into_pool [mk_pool_nbr 3 (5::nat) True, mk_pool_nbr 8 9 True, mk_pool_nbr 0 0 False] 2
      (mk_pool_nbr 6 7 True) = Some (p, addr')"
proof -
  have "map_option fst (insert_into_pool_kick
      [mk_pool_nbr 3 (5::nat) True, mk_pool_nbr 8 9 True, mk_pool_nbr 0 0 False] 2
      (mk_pool_nbr 6 7 True) nv_demo 2) = Some 1"
    by code_simp
  then obtain p addr' kicked' where r: "insert_into_pool_kick
      [mk_pool_nbr 3 (5::nat) True, mk_pool_nbr 8 9 True, mk_pool_nbr 0 0 False] 2
      (mk_pool_nbr 6 7 True) nv_demo 2 = Some (p, addr', kicked')"
    by auto
  with insert_into_pool_kick_agrees [OF pool_demo_sorted r] show ?thesis by blast
qed

end
