(* ===== verification/StdSort.thy ===== *)
theory StdSort
  imports Prelude
begin

text \<open>
  What the code relies on of \<open>std::sort\<close>. The standard promises a permutation of the range in
  which no element is ordered before an earlier one by the comparator; the order of equivalent
  elements is unspecified. The locale \<open>std_sort\<close> states just that, and the clients' lemmas are
  proved from it. \<open>isort\<close>, a stable insertion sort over a comparator, is the executable instance
  the model runs; it provides the interface for every strict weak order.
\<close>

locale std_sort =
  fixes srt :: "'a list \<Rightarrow> 'a list" and lt :: "'a \<Rightarrow> 'a \<Rightarrow> bool"
  assumes srt_perm: "mset (srt xs) = mset xs"
    and srt_sorted: "sorted_wrt (\<lambda>a b. \<not> lt b a) (srt xs)"
begin

lemma srt_set [simp]: "set (srt xs) = set xs"
  using srt_perm by (metis set_mset_mset)

lemma srt_length [simp]: "length (srt xs) = length xs"
  using srt_perm by (metis size_mset)

lemma srt_distinct [simp]: "distinct (srt xs) = distinct xs"
  using srt_perm by (metis mset_eq_imp_distinct_iff)

lemma srt_map_mset: "mset (map f (srt xs)) = mset (map f xs)"
  using srt_perm by simp

end

fun isort_insert :: "('a \<Rightarrow> 'a \<Rightarrow> bool) \<Rightarrow> 'a \<Rightarrow> 'a list \<Rightarrow> 'a list" where
  "isort_insert lt x [] = [x]"
| "isort_insert lt x (y # ys) =
     (if lt y x then y # isort_insert lt x ys else x # y # ys)"

fun isort :: "('a \<Rightarrow> 'a \<Rightarrow> bool) \<Rightarrow> 'a list \<Rightarrow> 'a list" where
  "isort lt [] = []"
| "isort lt (x # xs) = isort_insert lt x (isort lt xs)"

lemma mset_isort_insert [simp]: "mset (isort_insert lt x xs) = add_mset x (mset xs)"
  by (induction xs) auto

lemma mset_isort [simp]: "mset (isort lt xs) = mset xs"
  by (induction xs) auto

lemma set_isort_insert [simp]: "set (isort_insert lt x xs) = insert x (set xs)"
  by (induction xs) auto

locale strict_weak_order =
  fixes lt :: "'a \<Rightarrow> 'a \<Rightarrow> bool"
  assumes less_asym: "lt a b \<Longrightarrow> \<not> lt b a"
    and not_less_trans: "\<not> lt b a \<Longrightarrow> \<not> lt c b \<Longrightarrow> \<not> lt c a"
begin

lemma sorted_isort_insert:
  "sorted_wrt (\<lambda>a b. \<not> lt b a) xs \<Longrightarrow> sorted_wrt (\<lambda>a b. \<not> lt b a) (isort_insert lt x xs)"
proof (induction xs)
  case (Cons y ys)
  then show ?case
    using less_asym not_less_trans [of y x] by (cases "lt y x") auto
qed simp

lemma sorted_isort: "sorted_wrt (\<lambda>a b. \<not> lt b a) (isort lt xs)"
  by (induction xs) (auto simp: sorted_isort_insert)

end

sublocale strict_weak_order \<subseteq> isort: std_sort "isort lt" lt
  by unfold_locales (simp_all add: sorted_isort)

subsection \<open>The comparators of the code\<close>

text \<open>Descending by the second component (\<open>freq_relayout.h\<close>), ascending by it (\<open>partitioner.h\<close>).\<close>

definition snd_greater :: "'a \<times> nat \<Rightarrow> 'a \<times> nat \<Rightarrow> bool" where
  "snd_greater a b \<longleftrightarrow> snd a > snd b"

definition snd_less :: "'a \<times> nat \<Rightarrow> 'a \<times> nat \<Rightarrow> bool" where
  "snd_less a b \<longleftrightarrow> snd a < snd b"

interpretation snd_greater: strict_weak_order snd_greater
  by unfold_locales (auto simp: snd_greater_def)

interpretation snd_less: strict_weak_order snd_less
  by unfold_locales (auto simp: snd_less_def)

end
