(* ===== verification/FreqRelayout.thy ===== *)
theory FreqRelayout
  imports StdSort Complex_Main
begin

text \<open>
  \<open>Gorgeous/graph_partition/include/freq_relayout.h\<close>: reading the visit frequencies of nodes and
  neighbors, and reordering every adjacency list so that the often visited neighbors come
  first. A file of 32-bit words is the list of its words; reading past the end leaves the
  variable as it was, which \<open>rd\<close> takes as an argument. Node ids and counts are \<open>nat\<close> (32-bit in
  the code, never added to). Floats of the distance file are rationals.
\<close>

type_synonym puu = "nat \<times> nat"

fun rd :: "'w \<Rightarrow> 'w list \<Rightarrow> 'w \<times> 'w list" where
  "rd old [] = (old, [])"
| "rd old (w # ws) = (w, ws)"

subsection \<open>read_freq\<close>

fun read_node_freqs :: "nat \<Rightarrow> nat \<Rightarrow> nat list \<Rightarrow> puu list \<times> nat list" where
  "read_node_freqs i 0 s = ([], s)"
| "read_node_freqs i (Suc n) s =
     (let (v_freq, s) = rd 0 s; (fl, s) = read_node_freqs (Suc i) n s in ((i, v_freq) # fl, s))"

text \<open>\<open>nbr_id\<close> and \<open>visit_nbr_id_freq\<close> are uninitialised before each read: \<open>junk\<close>.\<close>

fun read_nei :: "nat \<Rightarrow> nat \<Rightarrow> nat list \<Rightarrow> puu list \<times> nat list" where
  "read_nei junk 0 s = ([], s)"
| "read_nei junk (Suc n) s =
     (let (nbr_id, s) = rd junk s; (f, s) = rd junk s; (rest, s) = read_nei junk n s
      in ((nbr_id, f) # rest, s))"

fun read_neis :: "nat \<Rightarrow> nat \<Rightarrow> nat \<Rightarrow> nat list \<Rightarrow> puu list list \<times> nat list" where
  "read_neis junk n_size 0 s = ([], s)"
| "read_neis junk n_size (Suc n) s =
     (let (n_size, s) = rd n_size s; (ns, s) = read_nei junk n_size s;
          (rest, s) = read_neis junk n_size n s
      in (ns # rest, s))"

definition read_freq :: "nat \<Rightarrow> nat list \<Rightarrow> puu list \<times> puu list list" where
  "read_freq junk s =
     (let (num, s) = rd 0 s; (fl, s) = read_node_freqs 0 num s; (nl, s) = read_neis junk 0 num s
      in (isort snd_greater fl, nl))"

subsection \<open>read_freq_from_dist\<close>

definition dist_scale :: "rat \<Rightarrow> nat" where
  "dist_scale d = nat \<lfloor>d * 50000000\<rfloor>"

definition dist_greater :: "nat \<times> rat \<Rightarrow> nat \<times> rat \<Rightarrow> bool" where
  "dist_greater a b \<longleftrightarrow> snd a > snd b"

fun read_dists :: "nat \<Rightarrow> rat list \<Rightarrow> rat list" where
  "read_dists 0 s = []"
| "read_dists (Suc n) s = (let (d, s) = rd 0 s in d # read_dists n s)"

text \<open>
  \<open>num\<close> is the node count the file starts with and \<open>s\<close> the distances after it; \<open>None\<close> when a
  neighbor id or a list index is out of range.
\<close>

fun freq_of_adj :: "nat list \<Rightarrow> nat list \<Rightarrow> puu list option" where
  "freq_of_adj dist_in_graph [] = Some []"
| "freq_of_adj dist_in_graph (v # vs) = do {
     d \<leftarrow> vec_at dist_in_graph v;
     rest \<leftarrow> freq_of_adj dist_in_graph vs;
     Some (if d > 0 then (v, d) # rest else rest)
   }"

fun freq_of_graph :: "nat list \<Rightarrow> nat list list \<Rightarrow> puu list list option" where
  "freq_of_graph dist_in_graph [] = Some []"
| "freq_of_graph dist_in_graph (adj # g) = do {
     f \<leftarrow> freq_of_adj dist_in_graph adj;
     rest \<leftarrow> freq_of_graph dist_in_graph g;
     Some (f # rest)
   }"

definition read_freq_from_dist ::
  "nat \<Rightarrow> rat list \<Rightarrow> nat list list \<Rightarrow> (puu list \<times> puu list list) option" where
  "read_freq_from_dist num s full_graph =
     (let dists = read_dists num s;
          float_dist = isort dist_greater (zip [0..<num] dists);
          freq_list = map (\<lambda>(i, d). (i, nat \<lfloor>d\<rfloor>)) float_dist in
      do {
        nl \<leftarrow> freq_of_graph (map dist_scale dists) full_graph;
        if list_all (\<lambda>f. f = []) (drop num nl)
        then Some (freq_list, take num nl @ replicate (num - length full_graph) []) else None
      })"

subsection \<open>relayout_adj\<close>

fun relayout_rest :: "nat list \<Rightarrow> nat list \<Rightarrow> nat list" where
  "relayout_rest vis [] = []"
| "relayout_rest vis (v # vs) =
     (if v \<in> set vis then relayout_rest vis vs else v # relayout_rest (v # vis) vs)"

text \<open>One node; \<open>None\<close> is the \<open>exit(-1)\<close> for a frequency list that does not fit the node.\<close>

definition relayout_node ::
  "(puu list \<Rightarrow> puu list) \<Rightarrow> puu list \<Rightarrow> nat list \<Rightarrow> nat list option" where
  "relayout_node srt freqs adj =
     (let front = map fst (srt freqs); tmp_adj = front @ relayout_rest front adj
      in if length adj \<noteq> length tmp_adj then None else Some tmp_adj)"

fun relayout_all ::
  "(puu list \<Rightarrow> puu list) \<Rightarrow> puu list list \<Rightarrow> nat list list \<Rightarrow> nat list list option" where
  "relayout_all srt fs [] = Some []"
| "relayout_all srt [] (adj # g) = None"
| "relayout_all srt (f # fs) (adj # g) = do {
     a \<leftarrow> relayout_node srt f adj;
     rest \<leftarrow> relayout_all srt fs g;
     Some (a # rest)
   }"

definition relayout_adj :: "puu list list \<Rightarrow> nat list list \<Rightarrow> nat list list option" where
  "relayout_adj = relayout_all (isort snd_greater)"

subsection \<open>Reordering is a permutation\<close>

lemma relayout_rest_filter:
  "distinct vs \<Longrightarrow> relayout_rest vis vs = filter (\<lambda>v. v \<notin> set vis) vs"
proof (induction vs arbitrary: vis)
  case (Cons v vs)
  then have "v \<notin> set vs" by simp
  then have "filter (\<lambda>x. x \<notin> set (v # vis)) vs = filter (\<lambda>x. x \<notin> set vis) vs"
    by (intro filter_cong) auto
  with Cons show ?case by simp
qed simp

lemma front_is_sublist:
  assumes adj: "distinct adj"
    and len: "length adj = length front + length (filter (\<lambda>v. v \<notin> set front) adj)"
  shows "distinct front \<and> set front \<subseteq> set adj"
proof -
  have "length (filter (\<lambda>v. v \<in> set front) adj) = length front"
    using len sum_length_filter_compl [of "\<lambda>v. v \<in> set front" adj] by simp
  moreover have "length (filter (\<lambda>v. v \<in> set front) adj) = card (set adj \<inter> set front)"
    using adj by (metis distinct_card distinct_filter set_filter Collect_conj_eq Collect_mem_eq)
  ultimately have eq: "card (set adj \<inter> set front) = length front" by simp
  have "card (set adj \<inter> set front) \<le> card (set front)" by (simp add: card_mono)
  with eq card_length [of front] have card: "card (set front) = length front" by simp
  with eq have "set adj \<inter> set front = set front"
    by (intro card_subset_eq) auto
  with card show ?thesis by (auto simp: card_distinct)
qed

lemma mset_front_rest:
  assumes "distinct adj" "distinct front" "set front \<subseteq> set adj"
  shows "mset (front @ filter (\<lambda>v. v \<notin> set front) adj) = mset adj"
proof -
  have "distinct (front @ filter (\<lambda>v. v \<notin> set front) adj)" using assms by auto
  moreover have "set (front @ filter (\<lambda>v. v \<notin> set front) adj) = set adj" using assms by auto
  ultimately show ?thesis using assms(1) set_eq_iff_mset_eq_distinct by blast
qed

lemma relayout_node_iff:
  assumes adj: "distinct adj" and perm: "mset (srt freqs) = mset freqs"
  shows "relayout_node srt freqs adj = Some tmp \<longleftrightarrow>
    distinct (map fst freqs) \<and> fst ` set freqs \<subseteq> set adj \<and>
    tmp = map fst (srt freqs) @ filter (\<lambda>v. v \<notin> fst ` set freqs) adj"
proof -
  let ?front = "map fst (srt freqs)"
  have mf: "mset ?front = mset (map fst freqs)" using perm by simp
  have set: "set ?front = fst ` set freqs"
    using mf by (metis list.set_map set_mset_mset)
  have dist: "distinct ?front = distinct (map fst freqs)"
    using mf by (metis mset_eq_imp_distinct_iff)
  have rest: "relayout_rest ?front adj = filter (\<lambda>v. v \<notin> fst ` set freqs) adj"
    using relayout_rest_filter [OF adj, of ?front] set by simp
  have "length adj = length ?front + length (filter (\<lambda>v. v \<notin> fst ` set freqs) adj)
    \<longleftrightarrow> distinct ?front \<and> set ?front \<subseteq> set adj"
    using front_is_sublist [OF adj, of ?front] mset_front_rest [OF adj, of ?front] set
    by (metis length_append size_mset)
  then show ?thesis
    using set dist rest by (auto simp: relayout_node_def Let_def)
qed

lemma relayout_node_perm:
  assumes adj: "distinct adj" and perm: "mset (srt freqs) = mset freqs"
    and some: "relayout_node srt freqs adj = Some tmp"
  shows "mset tmp = mset adj"
proof -
  have set: "set (map fst (srt freqs)) = fst ` set freqs"
    using perm by (metis list.set_map set_mset_mset)
  have "distinct (map fst (srt freqs))"
    using perm some relayout_node_iff [of adj srt freqs tmp, OF adj perm]
    by (metis mset_eq_imp_distinct_iff mset_map)
  then show ?thesis
    using relayout_node_iff [of adj srt freqs tmp, OF adj perm] some
      mset_front_rest [OF adj, of "map fst (srt freqs)"] set by simp
qed

lemma relayout_all_nth:
  "relayout_all srt fs g = Some g' \<longleftrightarrow>
   length g \<le> length fs \<and> length g' = length g \<and>
   (\<forall>i < length g. relayout_node srt (fs ! i) (g ! i) = Some (g' ! i))"
proof (induction srt fs g arbitrary: g' rule: relayout_all.induct)
  case (3 srt f fs adj g)
  show ?case
  proof (cases g')
    case (Cons a as)
    have "relayout_all srt (f # fs) (adj # g) = Some g' \<longleftrightarrow>
      relayout_node srt f adj = Some a \<and> relayout_all srt fs g = Some as"
      using Cons by (auto split: bind_splits)
    then show ?thesis
      using 3 Cons by (cases "relayout_node srt f adj") (auto simp: All_less_Suc2)
  qed (auto split: bind_splits)
qed auto

lemma relayout_adj_Some:
  assumes "\<forall>adj \<in> set g. distinct adj"
  shows "relayout_adj fs g = Some g' \<longleftrightarrow>
    length g \<le> length fs \<and> length g' = length g \<and>
    (\<forall>i < length g. distinct (map fst (fs ! i)) \<and> fst ` set (fs ! i) \<subseteq> set (g ! i) \<and>
      g' ! i = map fst (isort snd_greater (fs ! i)) @
        filter (\<lambda>v. v \<notin> fst ` set (fs ! i)) (g ! i))"
  using relayout_node_iff [of "g ! i" "isort snd_greater" "fs ! i" for i] assms
  by (auto simp: relayout_adj_def relayout_all_nth)

lemma relayout_adj_ex:
  assumes "\<forall>adj \<in> set g. distinct adj"
  shows "(\<exists>g'. relayout_adj fs g = Some g') \<longleftrightarrow>
    length g \<le> length fs \<and>
    (\<forall>i < length g. distinct (map fst (fs ! i)) \<and> fst ` set (fs ! i) \<subseteq> set (g ! i))"
    (is "_ \<longleftrightarrow> ?R")
proof
  assume ?R
  then have "relayout_adj fs g = Some (map (\<lambda>i. map fst (isort snd_greater (fs ! i)) @
      filter (\<lambda>v. v \<notin> fst ` set (fs ! i)) (g ! i)) [0..<length g])"
    by (auto simp: relayout_adj_Some [OF assms])
  then show "\<exists>g'. relayout_adj fs g = Some g'" ..
qed (auto simp: relayout_adj_Some [OF assms])

subsection \<open>Properties\<close>

text \<open> \<open>relayout_adj\<close> only reorders: when no adjacency list repeats a neighbor, it returns
  a new graph in which every node keeps exactly its neighbors, those of the frequency list
  first; it stops with \<open>exit(-1)\<close> (or leaves the frequency table) exactly when some node's
  frequency list is missing, repeats a neighbor or names a node that is not a neighbor.\<close>

theorem relayout_adj_permutes:
  assumes "\<forall>adj \<in> set g. distinct adj"
  shows "((\<exists>g'. relayout_adj fs g = Some g') \<longleftrightarrow>
      length g \<le> length fs \<and>
      (\<forall>i < length g. distinct (map fst (fs ! i)) \<and> fst ` set (fs ! i) \<subseteq> set (g ! i))) \<and>
    (\<forall>g'. relayout_adj fs g = Some g' \<longrightarrow>
      length g' = length g \<and> (\<forall>i < length g. mset (g' ! i) = mset (g ! i)))"
  using relayout_adj_ex [OF assms] relayout_node_perm [of _ "isort snd_greater"] assms
  by (auto simp: relayout_adj_def relayout_all_nth)

lemma relayout_adj_permutes_witness:
  "relayout_adj [[(7, 1), (9, 4)]] [[5, 7, 9]] = Some [[9, 7, 5]] \<and>
   mset [9, 7, 5::nat] = mset [5, 7, 9]"
proof -
  have run: "relayout_adj [[(7, 1), (9, 4)]] [[5, 7, 9]] = Some [[9, 7, 5]]" by code_simp
  have "\<forall>adj \<in> set [[5, 7, 9::nat]]. distinct adj" by simp
  from relayout_adj_permutes [OF this, of "[[(7, 1), (9, 4)]]"] run show ?thesis by auto
qed

text \<open> The neighbors named by the frequency list come first and in order of non-increasing
  frequency, and the others follow in their old order.\<close>

theorem relayout_adj_frequent_first:
  assumes "\<forall>adj \<in> set g. distinct adj" and "relayout_adj fs g = Some g'" and "i < length g"
  shows "\<exists>front. g' ! i = map fst front @ filter (\<lambda>v. v \<notin> fst ` set (fs ! i)) (g ! i) \<and>
    mset front = mset (fs ! i) \<and> sorted_wrt (\<lambda>a b. snd a \<ge> snd b) front"
proof -
  have "sorted_wrt (\<lambda>a b. snd a \<ge> snd b) (isort snd_greater (fs ! i))"
    using snd_greater.isort.srt_sorted by (simp add: snd_greater_def linorder_not_less)
  then show ?thesis
    using assms(2,3) relayout_adj_Some [OF assms(1)] snd_greater.isort.srt_perm by blast
qed

lemma relayout_adj_frequent_first_witness:
  "\<exists>front. [9, 7, 5] = map fst front @ [5::nat] \<and> sorted_wrt (\<lambda>a b. snd a \<ge> (snd b :: nat)) front"
proof -
  have run: "relayout_adj [[(7, 1), (9, 4)]] [[5, 7, 9]] = Some [[9, 7, 5]]" by code_simp
  have "\<forall>adj \<in> set [[5, 7, 9::nat]]. distinct adj" by simp
  from relayout_adj_frequent_first [OF this run, of 0] show ?thesis by fastforce
qed

subsection \<open>The frequency file\<close>

text \<open>The words a well-formed frequency file holds.\<close>

definition freq_file :: "nat list \<Rightarrow> puu list list \<Rightarrow> nat list" where
  "freq_file vs nl = length vs # vs @ concat (map (\<lambda>ns. length ns # concat (map (\<lambda>(a, b). [a, b]) ns)) nl)"

lemma read_node_freqs_encoded:
  "read_node_freqs i (length vs) (vs @ s) = (zip [i..<i + length vs] vs, s)"
  by (induction vs arbitrary: i) (auto simp: upt_rec Let_def)

lemma read_nei_encoded:
  "read_nei junk (length ns) (concat (map (\<lambda>(a, b). [a, b]) ns) @ s) = (ns, s)"
  by (induction ns) auto

lemma read_neis_encoded:
  "read_neis junk k (length nl)
     (concat (map (\<lambda>ns. length ns # concat (map (\<lambda>(a, b). [a, b]) ns)) nl) @ s) = (nl, s)"
  by (induction nl arbitrary: k) (auto simp: read_nei_encoded)

text \<open> Reading a frequency file back gives the neighbor frequencies of every node as
  written, and the pairs (node, frequency) of all nodes, most frequent first; what the
  uninitialised variables hold, and what follows in the file, does not matter.\<close>

theorem read_freq_roundtrip:
  assumes "length nl = length vs"
  shows "\<exists>fl. read_freq junk (freq_file vs nl @ rest) = (fl, nl) \<and>
    mset fl = mset (zip [0..<length vs] vs) \<and> sorted_wrt (\<lambda>a b. snd a \<ge> snd b) fl"
proof -
  have "read_freq junk (freq_file vs nl @ rest) = (isort snd_greater (zip [0..<length vs] vs), nl)"
    using read_node_freqs_encoded [of 0 vs] read_neis_encoded [of junk 0 nl rest] assms
    by (simp add: read_freq_def freq_file_def)
  moreover have "sorted_wrt (\<lambda>a b. snd a \<ge> snd b) (isort snd_greater (zip [0..<length vs] vs))"
    using snd_greater.isort.srt_sorted by (simp add: snd_greater_def linorder_not_less)
  ultimately show ?thesis using snd_greater.isort.srt_perm by simp
qed

lemma read_freq_roundtrip_witness:
  "snd (read_freq 77 (freq_file [3, 8] [[(1, 2)], []] @ [4])) = [[(1, 2)], []]"
  using read_freq_roundtrip [of "[[(1, 2)], []]" "[3, 8]" 77 "[4]"] by auto

subsection \<open>Distances as frequencies\<close>

lemma freq_of_adj_eq:
  "freq_of_adj ds adj = (if \<forall>v \<in> set adj. v < length ds
     then Some (map (\<lambda>v. (v, ds ! v)) (filter (\<lambda>v. ds ! v > 0) adj)) else None)"
  by (induction adj) (auto simp: vec_at_def)

text \<open> Reading distances in place of frequencies gives every node the neighbors whose
  distance is not truncated to zero, in their order, each once per occurrence and scaled by
  5e7, so that \<open>relayout_adj\<close> accepts the result for every graph without repeated neighbors
  whose ids are within the file.\<close>

theorem read_freq_from_dist_fits:
  fixes g :: "nat list list"
  assumes "length g \<le> num" and "\<forall>adj \<in> set g. distinct adj \<and> (\<forall>v \<in> set adj. v < num)"
  shows "\<exists>fl nl g'. read_freq_from_dist num s g = Some (fl, nl) \<and> length nl = num \<and>
    (\<forall>i < length g. map fst (nl ! i) =
       filter (\<lambda>v. dist_scale (read_dists num s ! v) > 0) (g ! i)) \<and>
    relayout_adj nl g = Some g'"
proof -
  let ?ds = "map dist_scale (read_dists num s)"
  let ?f = "\<lambda>adj. map (\<lambda>v. (v, ?ds ! v)) (filter (\<lambda>v. ?ds ! v > 0) adj)"
  have len: "length (read_dists num s) = num"
    by (induction num s rule: read_dists.induct) (auto simp: Let_def split: prod.split)
  have graph: "freq_of_graph ?ds g = Some (map ?f g)"
    using assms(2) by (induction g) (auto simp: freq_of_adj_eq len)
  let ?nl = "map ?f g @ replicate (num - length g) []"
  obtain fl where read: "read_freq_from_dist num s g = Some (fl, ?nl)"
    using graph assms(1) by (simp add: read_freq_from_dist_def Let_def)
  have nth: "?nl ! i = ?f (g ! i)" if "i < length g" for i
    using that by (simp add: nth_append)
  have "distinct (map fst (?nl ! i)) \<and> fst ` set (?nl ! i) \<subseteq> set (g ! i)" if "i < length g" for i
    using assms(2) nth [OF that] that by (auto simp: comp_def)
  then obtain g' where "relayout_adj ?nl g = Some g'"
    using relayout_adj_ex [of g ?nl] assms by auto
  moreover have "map fst (?nl ! i) = filter (\<lambda>v. dist_scale (read_dists num s ! v) > 0) (g ! i)"
    if "i < length g" for i
    using assms(2) nth [OF that] nth_mem [OF that] len
    by (auto simp: comp_def simp del: nth_mem intro!: filter_cong)
  ultimately show ?thesis using read assms(1) by (intro exI [of _ fl] exI [of _ ?nl]) auto
qed

lemma read_freq_from_dist_fits_witness:
  "\<exists>fl nl g'. read_freq_from_dist 2 [1 / 2, 0] [[1], [0]] = Some (fl, nl) \<and>
    relayout_adj nl [[1], [0]] = Some g'"
  using read_freq_from_dist_fits [of "[[1], [0]]" 2 "[1 / 2, 0]"] by auto

end
