(* ===== verification/GraphPartition.thy ===== *)
theory GraphPartition
  imports FreqRelayout
begin

text \<open>
  The page assignment of \<open>Gorgeous/graph_partition/include/partitioner.h\<close>: the graph copies the
  constructor makes, the initial fill of the pages (\<open>graph_partition\<close>), the replica pages
  (\<open>scaled_graph_partition_primary\<close>) and the refinement rounds (\<open>graph_partition_LDG\<close>,
  \<open>sync\<close>, \<open>select_partition\<close>, \<open>getUnfilled\<close>), one node after the other, as with one thread. Node and page ids are
  \<open>nat\<close>; \<open>id2pid\<close> is a map in which \<open>gp_INF\<close> marks a node without page. \<open>None\<close> stands for an access outside a
  vector, a division by zero, or a wait that never ends.
\<close>

definition gp_INF :: nat where
  "gp_INF = 4294967295"

definition round_up :: "nat \<Rightarrow> nat \<Rightarrow> nat" where
  "round_up x y = (x div y + (if x mod y \<noteq> 0 then 1 else 0)) * y"

lemma div_of_mult_add: "r < y \<Longrightarrow> (q * y + r) div y = q" for r y q :: nat
  by simp

lemma round_up_div:
  assumes y: "y > 0"
  shows "round_up x y div y = (x + y - 1) div y"
proof -
  have x: "x = x div y * y + x mod y" by simp
  show ?thesis
  proof (cases "x mod y = 0")
    case True
    then have "x + y - 1 = x div y * y + (y - 1)" using x y by simp
    moreover have "(x div y * y + (y - 1)) div y = x div y"
      using y by (intro div_of_mult_add) simp
    ultimately show ?thesis using True y by (simp add: round_up_def)
  next
    case False
    have "(x div y + 1) * y = x div y * y + y" by simp
    then have "x + y - 1 = (x div y + 1) * y + (x mod y - 1)" using x False y by linarith
    moreover have "((x div y + 1) * y + (x mod y - 1)) div y = x div y + 1"
      using y by (intro div_of_mult_add) (simp add: less_imp_diff_less)
    ultimately show ?thesis using False y by (simp add: round_up_def)
  qed
qed

text \<open>
  What the rounds do not change: page capacity, number of pages and of replica pages, the three
  graphs, the locked nodes and pages, and how many page mutexes the constructor made.
\<close>

record gp_env =
  gC :: nat
  gnd :: nat
  gpn :: nat
  gnpp :: nat
  gfull :: "nat list list"
  gdirect :: "nat list list"
  greverse :: "nat list list"
  glock_nodes :: "bool list"
  glock_pids :: "bool list"
  gmutexes :: nat

record gp_st =
  part :: "nat list list"
  id2pid :: "nat \<rightharpoonup> nat"
  free_q :: "nat list"

text \<open>\<open>id2pid[n]\<close> inserts 0 for a missing key.\<close>

definition pid_of :: "(nat \<rightharpoonup> nat) \<Rightarrow> nat \<Rightarrow> nat" where
  "pid_of m n = (case m n of Some p \<Rightarrow> p | None \<Rightarrow> 0)"

subsection \<open>The graph copies of the constructor\<close>

definition cut_graph :: "nat \<Rightarrow> nat list list \<Rightarrow> nat list list" where
  "cut_graph deg g = map (\<lambda>adj. if deg < length adj then take deg adj else adj) g"

fun reverse_row :: "nat \<Rightarrow> nat list \<Rightarrow> nat list list \<Rightarrow> nat list list option" where
  "reverse_row i [] rev_g = Some rev_g"
| "reverse_row i (v # vs) rev_g = do { rev_g \<leftarrow> vec_push_at rev_g v i; reverse_row i vs rev_g }"

fun reverse_rows :: "nat \<Rightarrow> nat list list \<Rightarrow> nat list list \<Rightarrow> nat list list option" where
  "reverse_rows i [] rev_g = Some rev_g"
| "reverse_rows i (adj # g) rev_g = do {
     rev_g \<leftarrow> reverse_row i adj rev_g;
     reverse_rows (Suc i) g rev_g
   }"

definition reverse_of :: "nat \<Rightarrow> nat list list \<Rightarrow> nat list list option" where
  "reverse_of nd direct = reverse_rows 0 (take nd direct) (replicate nd [])"

subsection \<open>The initial fill\<close>

record init_st =
  ipart :: "nat list list"
  iid2pid :: "nat \<rightharpoonup> nat"
  ivis :: "nat set"
  ipid :: nat
  ilock_pids :: "bool list"
  ilock_nums :: int

definition init_put :: "init_st \<Rightarrow> nat \<Rightarrow> init_st option" where
  "init_put st v = do {
     p \<leftarrow> vec_push_at (ipart st) (ipid st) v;
     Some (st\<lparr>ipart := p, iid2pid := (iid2pid st)(v \<mapsto> ipid st), ivis := insert v (ivis st)\<rparr>)
   }"

fun init_nbrs :: "nat \<Rightarrow> bool list \<Rightarrow> nat list \<Rightarrow> init_st \<Rightarrow> init_st option" where
  "init_nbrs C filled [] st = Some st"
| "init_nbrs C filled (s # ss) st = do {
     skip \<leftarrow> (if s \<in> ivis st then Some True else vec_at filled s);
     if skip then init_nbrs C filled ss st
     else do {
       p \<leftarrow> vec_at (ipart st) (ipid st);
       if length p = C then Some (st\<lparr>ipid := ipid st + 1\<rparr>)
       else do { st \<leftarrow> init_put st s; init_nbrs C filled ss st }
     }
   }"

definition init_node :: "nat \<Rightarrow> bool list \<Rightarrow> nat list list \<Rightarrow> nat \<Rightarrow> init_st \<Rightarrow> init_st option" where
  "init_node C filled full_graph i st =
     (if i \<in> ivis st then Some (st\<lparr>ilock_nums := ilock_nums st - 1\<rparr>)
      else do {
        p \<leftarrow> vec_at (ipart st) (ipid st);
        let st = (if length p = C then st\<lparr>ipid := ipid st + 1\<rparr> else st);
        st \<leftarrow> init_put st i;
        lp \<leftarrow> (if ilock_nums st > 0 then vec_put (ilock_pids st) (ipid st) True
              else Some (ilock_pids st));
        nbrs \<leftarrow> vec_at full_graph i;
        st \<leftarrow> init_nbrs C filled nbrs (st\<lparr>ilock_pids := lp\<rparr>);
        Some (if ilock_nums st \<noteq> 0 then st\<lparr>ilock_nums := ilock_nums st - 1\<rparr> else st)
      })"

fun init_fill :: "nat \<Rightarrow> bool list \<Rightarrow> nat list list \<Rightarrow> nat list \<Rightarrow> init_st \<Rightarrow> init_st option" where
  "init_fill C filled full_graph [] st = Some st"
| "init_fill C filled full_graph (i # is) st = do {
     st \<leftarrow> init_node C filled full_graph i st;
     init_fill C filled full_graph is st
   }"

text \<open>\<open>_lock_nodes\<close>: the nodes of the leading run of locked pages.\<close>

fun mark_nodes :: "nat list \<Rightarrow> bool list \<Rightarrow> bool list option" where
  "mark_nodes [] lk = Some lk"
| "mark_nodes (s # ss) lk = do { lk \<leftarrow> vec_put lk s True; mark_nodes ss lk }"

fun lock_leading :: "bool list \<Rightarrow> nat list list \<Rightarrow> bool list \<Rightarrow> bool list option" where
  "lock_leading (True # lp) (p # ps) lk = do { lk \<leftarrow> mark_nodes p lk; lock_leading lp ps lk }"
| "lock_leading lp ps lk = Some lk"

subsection \<open>select_partition, getUnfilled and sync\<close>

fun pc_bump :: "nat \<Rightarrow> (nat \<times> nat) list \<Rightarrow> (nat \<times> nat) list" where
  "pc_bump p [] = [(p, 1)]"
| "pc_bump p ((q, c) # pc) = (if p = q then (q, c + 1) # pc else (q, c) # pc_bump p pc)"

fun pc_count :: "(nat \<rightharpoonup> nat) \<Rightarrow> nat list \<Rightarrow> (nat \<times> nat) list \<Rightarrow> (nat \<times> nat) list" where
  "pc_count m [] pc = pc"
| "pc_count m (n # ns) pc =
     pc_count m ns (if pid_of m n = gp_INF then pc else pc_bump (pid_of m n) pc)"

definition score :: "nat \<Rightarrow> nat \<Rightarrow> nat \<Rightarrow> rat" where
  "score C s cnt = of_nat cnt * (1 - of_nat s / of_nat C)"

fun best_pid ::
  "gp_env \<Rightarrow> nat list list \<Rightarrow> (nat \<times> nat) list \<Rightarrow> nat \<times> rat \<Rightarrow> (nat \<times> rat) option" where
  "best_pid E pages [] acc = Some acc"
| "best_pid E pages ((pid, cnt) # pc) (res, maxn) =
     (if pid < gmutexes E then do {
        p \<leftarrow> vec_at pages pid;
        let c = score (gC E) (length p) cnt;
        best_pid E pages pc
          (if c > maxn \<and> length p < gC E then (pid, c) else (res, maxn))
      } else None)"

fun get_unfilled :: "nat \<Rightarrow> nat list list \<Rightarrow> nat list \<Rightarrow> (nat \<times> nat list) option" where
  "get_unfilled C pages [] = None"
| "get_unfilled C pages (res # q) = do {
     p \<leftarrow> vec_at pages res;
     if length p = C then get_unfilled C pages q else Some (res, q)
   }"

text \<open>\<open>ord\<close> is the order in which the loop visits the \<open>unordered_map\<close> of counts.\<close>

definition select_partition ::
  "((nat \<times> nat) list \<Rightarrow> (nat \<times> nat) list) \<Rightarrow> gp_env \<Rightarrow> gp_st \<Rightarrow> nat \<Rightarrow> (nat \<times> gp_st) option" where
  "select_partition ord E st i = do {
     dn \<leftarrow> vec_at (gdirect E) i;
     rn \<leftarrow> vec_at (greverse E) i;
     (res, maxn) \<leftarrow> best_pid E (part st) (ord (pc_count (id2pid st) rn (pc_count (id2pid st) dn [])))
       (gp_INF, 0);
     if res = gp_INF then do {
       (res, q) \<leftarrow> get_unfilled (gC E) (part st) (free_q st);
       Some (res, st\<lparr>free_q := q\<rparr>)
     } else Some (res, st)
   }"

text \<open>\<open>sync\<close>; its loop selects again while the selected page is full.\<close>

fun sync_pick ::
  "nat \<Rightarrow> ((nat \<times> nat) list \<Rightarrow> (nat \<times> nat) list) \<Rightarrow> gp_env \<Rightarrow> gp_st \<Rightarrow> nat \<Rightarrow> (nat \<times> gp_st) option" where
  "sync_pick 0 ord E st i = None"
| "sync_pick (Suc fuel) ord E st i = do {
     (pid, st) \<leftarrow> select_partition ord E st i;
     if pid < gmutexes E then do {
       p \<leftarrow> vec_at (part st) pid;
       if length p = gC E then sync_pick fuel ord E st i else Some (pid, st)
     } else None
   }"

definition sync ::
  "nat \<Rightarrow> ((nat \<times> nat) list \<Rightarrow> (nat \<times> nat) list) \<Rightarrow> gp_env \<Rightarrow> gp_st \<Rightarrow> nat \<Rightarrow> (nat \<times> gp_st) option" where
  "sync fuel ord E st i = do {
     (pid, st) \<leftarrow> sync_pick fuel ord E st i;
     pages \<leftarrow> vec_push_at (part st) pid i;
     p \<leftarrow> vec_at pages pid;
     Some (pid, \<lparr>part = pages, id2pid = (id2pid st)(i \<mapsto> pid),
       free_q = (if length p \<noteq> gC E then free_q st @ [pid] else free_q st)\<rparr>)
   }"

fun sync_all ::
  "nat \<Rightarrow> ((nat \<times> nat) list \<Rightarrow> (nat \<times> nat) list) \<Rightarrow> gp_env \<Rightarrow> nat list \<Rightarrow> gp_st \<Rightarrow> gp_st option" where
  "sync_all fuel ord E [] st = Some st"
| "sync_all fuel ord E (n # ns) st = do {
     l \<leftarrow> vec_at (glock_nodes E) n;
     if l then sync_all fuel ord E ns st
     else do { (pid, st) \<leftarrow> sync fuel ord E st n; sync_all fuel ord E ns st }
   }"

text \<open>
  One round. \<open>shuffle\<close> is \<open>std::shuffle\<close> of the stream; the unlocked pages are cleared and
  queued in the order of their ids.
\<close>

definition ldg_clear :: "gp_env \<Rightarrow> nat list list \<Rightarrow> nat list list" where
  "ldg_clear E pages =
     map (\<lambda>(p, pg). if gnpp E \<le> p \<and> p < gpn E \<and> \<not> glock_pids E ! p then [] else pg) (enumerate 0 pages)"

definition ldg_queue :: "gp_env \<Rightarrow> nat list" where
  "ldg_queue E = filter (\<lambda>p. \<not> glock_pids E ! p) [gnpp E..<gpn E]"

definition graph_partition_LDG ::
  "nat \<Rightarrow> ((nat \<times> nat) list \<Rightarrow> (nat \<times> nat) list) \<Rightarrow> (nat list \<Rightarrow> nat list) \<Rightarrow>
   gp_env \<Rightarrow> gp_st \<Rightarrow> gp_st option" where
  "graph_partition_LDG fuel ord shuffle E st =
     (if length (glock_pids E) < gpn E \<or> length (part st) < gpn E then None
      else sync_all fuel ord E (shuffle [gnpp E..<gnd E])
             (st\<lparr>part := ldg_clear E (part st), free_q := ldg_queue E\<rparr>))"

subsection \<open>The replica pages\<close>

record prim_st =
  ppart :: "nat list list"
  pid2pid :: "nat \<rightharpoonup> nat"
  store_cnt :: "nat list"
  aux_id2pid :: "nat list list"
  filled_nodes :: "bool list"

definition prim_seed :: "nat \<Rightarrow> prim_st \<Rightarrow> prim_st option" where
  "prim_seed i st = do {
     c \<leftarrow> vec_at (store_cnt st) i;
     sc \<leftarrow> vec_put (store_cnt st) i (c + 1);
     pages \<leftarrow> vec_push_at (ppart st) i i;
     f \<leftarrow> vec_put (filled_nodes st) i True;
     Some (st\<lparr>store_cnt := sc, ppart := pages, pid2pid := (pid2pid st)(i \<mapsto> i), filled_nodes := f\<rparr>)
   }"

fun prim_seeds :: "nat list \<Rightarrow> prim_st \<Rightarrow> prim_st option" where
  "prim_seeds [] st = Some st"
| "prim_seeds (i # is) st = do { st \<leftarrow> prim_seed i st; prim_seeds is st }"

fun count_nbrs :: "nat list \<Rightarrow> nat list \<Rightarrow> (nat \<times> nat) list option" where
  "count_nbrs sc [] = Some []"
| "count_nbrs sc (s # ss) = do { c \<leftarrow> vec_at sc s; r \<leftarrow> count_nbrs sc ss; Some ((s, c) # r) }"

fun expand_push :: "nat \<Rightarrow> nat \<Rightarrow> nat list \<Rightarrow> prim_st \<Rightarrow> prim_st option" where
  "expand_push C pid [] st = Some st"
| "expand_push C pid (s # ss) st = do {
     p \<leftarrow> vec_at (ppart st) pid;
     if length p = C then Some st
     else do {
       aux \<leftarrow> vec_push_at (aux_id2pid st) s pid;
       pages \<leftarrow> vec_push_at (ppart st) pid s;
       c \<leftarrow> vec_at (store_cnt st) s;
       sc \<leftarrow> vec_put (store_cnt st) s (c + 1);
       expand_push C pid ss (st\<lparr>aux_id2pid := aux, ppart := pages, store_cnt := sc\<rparr>)
     }
   }"

text \<open>The loop over the page it extends; \<open>fuel\<close> bounds its iterations (\<open>C\<close> of them are enough).\<close>

fun expand_page ::
  "nat \<Rightarrow> ((nat \<times> nat) list \<Rightarrow> (nat \<times> nat) list) \<Rightarrow> nat \<Rightarrow> nat list list \<Rightarrow> nat \<Rightarrow> nat \<Rightarrow>
   prim_st \<Rightarrow> prim_st option" where
  "expand_page fuel srt C full_graph pid i st = do {
     p \<leftarrow> vec_at (ppart st) pid;
     if i < length p then
       (case fuel of
          0 \<Rightarrow> None
        | Suc fuel \<Rightarrow> do {
            nbrs \<leftarrow> vec_at full_graph (p ! i);
            c_nbrs \<leftarrow> count_nbrs (store_cnt st) nbrs;
            st \<leftarrow> expand_push C pid (map fst (srt c_nbrs)) st;
            expand_page fuel srt C full_graph pid (i + 1) st
          })
     else Some st
   }"

declare expand_page.simps [simp del]

fun expand_pages ::
  "nat \<Rightarrow> ((nat \<times> nat) list \<Rightarrow> (nat \<times> nat) list) \<Rightarrow> nat \<Rightarrow> nat list list \<Rightarrow> nat list \<Rightarrow>
   prim_st \<Rightarrow> prim_st option" where
  "expand_pages fuel srt C full_graph [] st = Some st"
| "expand_pages fuel srt C full_graph (pid # pids) st = do {
     st \<leftarrow> expand_page fuel srt C full_graph pid 0 st;
     expand_pages fuel srt C full_graph pids st
   }"

text \<open>\<open>None\<close> also when a frequency list was read: the code exits there.\<close>

definition scaled_primary ::
  "nat \<Rightarrow> ((nat \<times> nat) list \<Rightarrow> (nat \<times> nat) list) \<Rightarrow> nat \<Rightarrow> nat list list \<Rightarrow> puu list \<Rightarrow> nat \<Rightarrow>
   prim_st \<Rightarrow> prim_st option" where
  "scaled_primary fuel srt C full_graph freq_list npp st =
     (if freq_list \<noteq> [] then None
      else do {
        st \<leftarrow> prim_seeds [0..<npp] st;
        expand_pages fuel srt C full_graph [0..<npp] st
      })"

subsection \<open>graph_partition\<close>

record gp_in =
  in_nd :: nat
  in_C :: nat
  in_pn :: nat
  in_full :: "nat list list"
  in_direct :: "nat list list"
  in_reverse :: "nat list list"
  in_freq :: "puu list"
  in_mutexes :: nat

text \<open>Number of pages and of replica pages.\<close>

definition scaled_counts :: "nat \<Rightarrow> nat \<Rightarrow> nat \<Rightarrow> nat \<Rightarrow> (nat \<times> nat) option" where
  "scaled_counts nd C pn scale =
     (if scale = 1 then Some (pn, 0)
      else if C \<le> 1 then None
      else (let pn = round_up (nd * scale) C div C in Some (pn, (C * pn - nd) div (C - 1))))"

fun ldg_rounds ::
  "nat \<Rightarrow> nat \<Rightarrow> ((nat \<times> nat) list \<Rightarrow> (nat \<times> nat) list) \<Rightarrow> (nat list \<Rightarrow> nat list) \<Rightarrow>
   gp_env \<Rightarrow> gp_st \<Rightarrow> gp_st option" where
  "ldg_rounds 0 fuel ord shuffle E st = Some st"
| "ldg_rounds (Suc k) fuel ord shuffle E st = do {
     st \<leftarrow> graph_partition_LDG fuel ord shuffle E st;
     ldg_rounds k fuel ord shuffle E st
   }"

definition gp_start :: "nat \<Rightarrow> nat \<Rightarrow> prim_st" where
  "gp_start nd pn = \<lparr>ppart = replicate pn [], pid2pid = (\<lambda>i. if i < nd then Some gp_INF else None),
     store_cnt = replicate nd 0, aux_id2pid = replicate nd [], filled_nodes = replicate nd False\<rparr>"

definition gp_fill_start :: "nat \<Rightarrow> nat \<Rightarrow> int \<Rightarrow> prim_st \<Rightarrow> init_st" where
  "gp_fill_start npp pn lock_nums st =
     \<lparr>ipart = ppart st, iid2pid = pid2pid st, ivis = {}, ipid = npp,
      ilock_pids = replicate pn False, ilock_nums = lock_nums\<rparr>"

definition graph_partition ::
  "nat \<Rightarrow> ((nat \<times> nat) list \<Rightarrow> (nat \<times> nat) list) \<Rightarrow> ((nat \<times> nat) list \<Rightarrow> (nat \<times> nat) list) \<Rightarrow>
   (nat list \<Rightarrow> nat list) \<Rightarrow> gp_in \<Rightarrow> nat \<Rightarrow> nat \<Rightarrow> int \<Rightarrow> (nat list list \<times> (nat \<rightharpoonup> nat)) option" where
  "graph_partition fuel srt ord shuffle G k scale_factor lock_nums = do {
     let scale = (if scale_factor = 0 then in_C G else scale_factor);
     (pn, npp) \<leftarrow> scaled_counts (in_nd G) (in_C G) (in_pn G) scale;
     st \<leftarrow> (if scale \<noteq> 1
            then scaled_primary fuel srt (in_C G) (in_full G) (in_freq G) npp (gp_start (in_nd G) pn)
            else Some (gp_start (in_nd G) pn));
     if npp = in_nd G then Some (ppart st, pid2pid st)
     else do {
       let stream = (if in_freq G \<noteq> [] then map fst (in_freq G) else [npp..<in_nd G]);
       f \<leftarrow> init_fill (in_C G) (filled_nodes st) (in_full G) stream (gp_fill_start npp pn lock_nums st);
       lk \<leftarrow> lock_leading (drop npp (ilock_pids f)) (drop npp (ipart f)) (replicate (in_nd G) False);
       lock0 \<leftarrow> vec_at (ilock_pids f) 0;
       let E = \<lparr>gC = in_C G, gnd = in_nd G, gpn = pn, gnpp = npp, gfull = in_full G,
                gdirect = in_direct G, greverse = in_reverse G, glock_nodes = lk,
                glock_pids = ilock_pids f, gmutexes = in_mutexes G\<rparr>;
       r \<leftarrow> ldg_rounds k fuel ord shuffle E
              \<lparr>part = ipart f, id2pid = iid2pid f, free_q = []\<rparr>;
       Some (part r, id2pid r)
     }
   }"

subsection \<open>The invariant of the initial fill\<close>

text \<open>
  The pages from \<open>npp\<close> on are a run of full pages, the page being filled and empty pages; they
  hold the visited nodes, each once, and \<open>id2pid\<close> names their page.
\<close>

definition init_shape ::
  "nat \<Rightarrow> nat \<Rightarrow> nat list list \<Rightarrow> init_st \<Rightarrow> nat list list \<Rightarrow> nat list \<Rightarrow> bool" where
  "init_shape C pn prim st fulls cur \<longleftrightarrow>
     ipart st = prim @ fulls @ cur # replicate (pn - Suc (ipid st)) [] \<and>
     ipid st = length prim + length fulls \<and> ipid st < pn \<and>
     (\<forall>f \<in> set fulls. length f = C) \<and> length cur \<le> C \<and>
     distinct (concat fulls @ cur) \<and> set (concat fulls @ cur) = ivis st"

definition init_inv ::
  "nat \<Rightarrow> nat \<Rightarrow> nat set \<Rightarrow> nat list list \<Rightarrow> init_st \<Rightarrow> bool" where
  [inv_defs]: "init_inv C pn todo prim st \<longleftrightarrow>
     (\<exists>fulls cur. init_shape C pn prim st fulls cur) \<and> ivis st \<subseteq> todo \<and>
     length (ilock_pids st) = pn \<and>
     (\<forall>p < pn. length prim \<le> p \<longrightarrow> (\<forall>n \<in> set (ipart st ! p). iid2pid st n = Some p))"

lemma init_shape_length:
  "init_shape C pn prim st fulls cur \<Longrightarrow> length (ipart st) = pn"
  by (auto simp: init_shape_def)

lemma init_shape_cur:
  "init_shape C pn prim st fulls cur \<Longrightarrow> vec_at (ipart st) (ipid st) = Some cur"
  by (auto simp: init_shape_def vec_at_def nth_append)

lemma length_concat_full: "\<forall>f \<in> set fs. length f = C \<Longrightarrow> length (concat fs) = length fs * C"
  by (induction fs) auto

lemma init_shape_card:
  assumes "init_shape C pn prim st fulls cur"
  shows "card (ivis st) = length fulls * C + length cur"
proof -
  have "card (ivis st) = length (concat fulls @ cur)"
    using assms distinct_card [of "concat fulls @ cur"] unfolding init_shape_def by presburger
  also have "\<dots> = length fulls * C + length cur"
    using assms length_concat_full [of fulls C] by (simp add: init_shape_def)
  finally show ?thesis .
qed

text \<open>A node that is still to be placed finds a free page after the last full one.\<close>

lemma init_shape_room:
  assumes shape: "init_shape C pn prim st fulls cur" and full: "length cur = C"
    and todo: "finite todo" "ivis st \<subseteq> todo" "v \<in> todo" "v \<notin> ivis st"
    and cap: "card todo \<le> (pn - length prim) * C"
  shows "Suc (ipid st) < pn"
proof -
  have "ivis st \<subset> todo" using todo by blast
  then have "card (ivis st) < card todo" using todo(1) psubset_card_mono by blast
  then have "(length fulls + 1) * C < (pn - length prim) * C"
    using init_shape_card [OF shape] full cap by simp
  then have "length fulls + 1 < pn - length prim" by (simp only: mult_less_cancel2)
  then show ?thesis using shape by (simp add: init_shape_def)
qed

lemma init_shape_next:
  assumes "init_shape C pn prim st fulls cur" "length cur = C" "Suc (ipid st) < pn"
  shows "init_shape C pn prim (st\<lparr>ipid := Suc (ipid st)\<rparr>) (fulls @ [cur]) []"
proof -
  have "pn - Suc (ipid st) = Suc (pn - Suc (Suc (ipid st)))" using assms(3) by simp
  then show ?thesis using assms by (auto simp: init_shape_def)
qed

lemma init_inv_next:
  assumes inv: "init_inv C pn todo prim st" and page: "vec_at (ipart st) (ipid st) = Some p"
    and full: "length p = C" and v: "v \<in> todo" "v \<notin> ivis st"
    and cap: "finite todo" "card todo \<le> (pn - length prim) * C"
  shows "init_inv C pn todo prim (st\<lparr>ipid := Suc (ipid st)\<rparr>)"
proof -
  obtain fulls cur where shape: "init_shape C pn prim st fulls cur"
    using inv by (auto simp: init_inv_def)
  then have "p = cur" using page init_shape_cur [OF shape] by simp
  then have cur: "length cur = C" using full by simp
  have "Suc (ipid st) < pn"
    using init_shape_room [OF shape cur cap(1) _ v cap(2)] inv by (simp add: init_inv_def)
  then have "init_shape C pn prim (st\<lparr>ipid := Suc (ipid st)\<rparr>) (fulls @ [cur]) []"
    by (rule init_shape_next [OF shape cur])
  then show ?thesis using inv by (auto simp: init_inv_def)
qed

lemma init_put_inv:
  assumes inv: "init_inv C pn todo prim st" and page: "vec_at (ipart st) (ipid st) = Some p"
    and room: "length p \<noteq> C" and v: "v \<in> todo" "v \<notin> ivis st"
  shows "\<exists>st'. init_put st v = Some st' \<and> init_inv C pn todo prim st' \<and>
    ivis st' = insert v (ivis st) \<and> ilock_nums st' = ilock_nums st \<and> ipid st' = ipid st \<and>
    ilock_pids st' = ilock_pids st"
proof -
  obtain fulls cur where shape: "init_shape C pn prim st fulls cur"
    using inv by (auto simp: init_inv_def)
  have "p = cur" using page init_shape_cur [OF shape] by simp
  moreover have "length cur \<le> C" using shape unfolding init_shape_def by blast
  ultimately have cur: "length cur < C" using room by simp
  have len: "length (ipart st) = pn" using init_shape_length [OF shape] .
  have pid: "ipid st < pn" using shape unfolding init_shape_def by blast
  let ?p = "(ipart st)[ipid st := ipart st ! ipid st @ [v]]"
  let ?st = "st\<lparr>ipart := ?p, iid2pid := (iid2pid st)(v \<mapsto> ipid st), ivis := insert v (ivis st)\<rparr>"
  have put: "init_put st v = Some ?st"
    using len pid by (simp add: init_put_def vec_push_at_in)
  have pages: "ipart st = prim @ fulls @ cur # replicate (pn - Suc (ipid st)) []"
    and at: "ipid st = length prim + length fulls"
    and dist: "distinct (concat fulls @ cur)" "set (concat fulls @ cur) = ivis st"
    using shape by (auto simp: init_shape_def)
  have "?p = prim @ fulls @ (cur @ [v]) # replicate (pn - Suc (ipid st)) []"
    unfolding pages unfolding at by (simp add: list_update_append nth_append)
  moreover have "distinct (concat fulls @ cur @ [v])" "set (concat fulls @ cur @ [v]) = ivis ?st"
    using dist v(2) by auto
  ultimately have "init_shape C pn prim ?st fulls (cur @ [v])"
    using shape cur by (simp add: init_shape_def)
  moreover have "(iid2pid ?st) n = Some q"
    if "q < pn" "length prim \<le> q" "n \<in> set (?p ! q)" for q n
  proof (cases "n = v")
    case True
    have "v \<notin> set (ipart st ! q)"
    proof
      assume *: "v \<in> set (ipart st ! q)"
      have "ipart st ! q = (fulls @ cur # replicate (pn - Suc (ipid st)) []) ! (q - length prim)"
        using shape that(2) by (simp add: init_shape_def nth_append)
      moreover have "q - length prim < length (fulls @ cur # replicate (pn - Suc (ipid st)) [])"
        using shape len that(1,2) by (auto simp: init_shape_def)
      ultimately have "ipart st ! q \<in> set (fulls @ cur # replicate (pn - Suc (ipid st)) [])"
        by (metis nth_mem)
      then have "ipart st ! q \<in> set fulls \<or> ipart st ! q = cur \<or> ipart st ! q = []" by auto
      then show False using * v(2) shape by (auto simp: init_shape_def)
    qed
    then show ?thesis using True that len pid by (cases "q = ipid st") auto
  next
    case False
    then have "n \<in> set (ipart st ! q)"
      using that len pid by (cases "q = ipid st") auto
    then show ?thesis using inv that False by (auto simp: init_inv_def)
  qed
  ultimately have "init_inv C pn todo prim ?st"
    using inv v(1) unfolding init_inv_def by auto
  then show ?thesis using put by simp
qed

lemma init_inv_page:
  assumes "init_inv C pn todo prim st"
  shows "\<exists>p. vec_at (ipart st) (ipid st) = Some p \<and> length p \<le> C"
proof -
  obtain fulls cur where shape: "init_shape C pn prim st fulls cur"
    using assms by (auto simp: init_inv_def)
  then have "length cur \<le> C" unfolding init_shape_def by blast
  then show ?thesis using init_shape_cur [OF shape] by blast
qed

lemma init_inv_lock [simp]:
  "init_inv C pn todo prim (st\<lparr>ilock_nums := k\<rparr>) = init_inv C pn todo prim st"
  by (simp add: init_inv_def init_shape_def)

lemma init_nbrs_inv:
  assumes inv: "init_inv C pn todo prim st" and cap: "finite todo" "card todo \<le> (pn - length prim) * C"
    and ss: "\<forall>s \<in> set ss. s < length filled \<and> (\<not> filled ! s \<longrightarrow> s \<in> todo)"
  shows "\<exists>st'. init_nbrs C filled ss st = Some st' \<and> init_inv C pn todo prim st' \<and>
    ivis st \<subseteq> ivis st' \<and> ilock_nums st' = ilock_nums st"
  using inv ss
proof (induction ss arbitrary: st)
  case (Cons s ss)
  show ?case
  proof (cases "s \<in> ivis st \<or> filled ! s")
    case True
    then show ?thesis using Cons by (auto simp: vec_at_in)
  next
    case False
    with Cons have s: "s \<in> todo" "s \<notin> ivis st" and at: "vec_at filled s = Some False"
      by (auto simp: vec_at_in)
    obtain p where p: "vec_at (ipart st) (ipid st) = Some p"
      using init_inv_page [OF Cons.prems(1)] by blast
    show ?thesis
    proof (cases "length p = C")
      case True
      then show ?thesis
        using init_inv_next [OF Cons.prems(1) p True s cap] s at p by simp
    next
      case False
      obtain st' where put: "init_put st s = Some st'" "init_inv C pn todo prim st'"
          "ivis st' = insert s (ivis st)" "ilock_nums st' = ilock_nums st"
        using init_put_inv [OF Cons.prems(1) p False s] by blast
      have ss: "\<forall>s \<in> set ss. s < length filled \<and> (\<not> filled ! s \<longrightarrow> s \<in> todo)"
        using Cons.prems(2) by simp
      show ?thesis using Cons.IH [OF put(2) ss] put s at p False by auto
    qed
  qed
qed simp

lemma init_inv_lock_pid:
  "init_inv C pn todo prim st \<Longrightarrow> length lp = pn \<Longrightarrow>
   init_inv C pn todo prim (st\<lparr>ilock_pids := lp\<rparr>)"
  by (simp add: init_inv_def init_shape_def)

lemma init_node_inv:
  assumes inv: "init_inv C pn todo prim st" and cap: "finite todo" "card todo \<le> (pn - length prim) * C"
    and C: "C > 0" and i: "i \<in> todo" "i < length g"
    and g: "\<forall>s \<in> set (g ! i). s < length filled \<and> (\<not> filled ! s \<longrightarrow> s \<in> todo)"
  shows "\<exists>st'. init_node C filled g i st = Some st' \<and> init_inv C pn todo prim st' \<and>
    insert i (ivis st) \<subseteq> ivis st'"
proof (cases "i \<in> ivis st")
  case True
  then show ?thesis using inv by (auto simp: init_node_def)
next
  case False
  obtain p where p: "vec_at (ipart st) (ipid st) = Some p"
    using init_inv_page [OF inv] by blast
  define st1 where "st1 = (if length p = C then st\<lparr>ipid := ipid st + 1\<rparr> else st)"
  have inv1: "init_inv C pn todo prim st1"
    using init_inv_next [OF inv p _ i(1) False cap] inv by (simp add: st1_def)
  have st1: "ivis st1 = ivis st" "ilock_nums st1 = ilock_nums st"
    by (simp_all add: st1_def)
  have "\<exists>q. vec_at (ipart st1) (ipid st1) = Some q \<and> length q \<noteq> C"
  proof (cases "length p = C")
    case True
    obtain fulls cur where shape: "init_shape C pn prim st fulls cur"
      using inv by (auto simp: init_inv_def)
    have cur: "length cur = C" using p True init_shape_cur [OF shape] by simp
    have "Suc (ipid st) < pn"
      using init_shape_room [OF shape cur cap(1) _ i(1) False cap(2)] inv by (simp add: init_inv_def)
    from init_shape_cur [OF init_shape_next [OF shape cur this]] True C show ?thesis
      by (simp add: st1_def)
  qed (use p in \<open>simp add: st1_def\<close>)
  then obtain q where q: "vec_at (ipart st1) (ipid st1) = Some q" "length q \<noteq> C" by blast
  obtain st2 where st2: "init_put st1 i = Some st2" "init_inv C pn todo prim st2"
      "ivis st2 = insert i (ivis st)" "ilock_nums st2 = ilock_nums st" "ipid st2 = ipid st1"
    using init_put_inv [OF inv1 q i(1)] False st1 by auto
  have len: "length (ilock_pids st2) = pn" using st2(2) by (simp add: init_inv_def)
  have "ipid st2 < pn" using st2(2) by (auto simp: init_inv_def init_shape_def)
  then obtain lp where lp: "(if ilock_nums st2 > 0 then vec_put (ilock_pids st2) (ipid st2) True
      else Some (ilock_pids st2)) = Some lp" "length lp = pn"
    using len by (cases "ilock_nums st2 > 0") (auto simp: vec_put_in)
  obtain st3 where st3: "init_nbrs C filled (g ! i) (st2\<lparr>ilock_pids := lp\<rparr>) = Some st3"
      "init_inv C pn todo prim st3" "insert i (ivis st) \<subseteq> ivis st3"
    using init_nbrs_inv [OF init_inv_lock_pid [OF st2(2) lp(2)] cap g] st2(3) by auto
  then show ?thesis
    using False p st2(1) lp(1) i(2) by (auto simp: init_node_def vec_at_in simp flip: st1_def)
qed

lemma init_fill_inv:
  assumes "init_inv C pn todo prim st" and "finite todo" "card todo \<le> (pn - length prim) * C"
    and "C > 0"
    and "\<forall>i \<in> set is. i \<in> todo \<and> i < length g \<and>
      (\<forall>s \<in> set (g ! i). s < length filled \<and> (\<not> filled ! s \<longrightarrow> s \<in> todo))"
  shows "\<exists>st'. init_fill C filled g is st = Some st' \<and> init_inv C pn todo prim st' \<and>
    set is \<union> ivis st \<subseteq> ivis st'"
  using assms(1,5)
proof (induction "is" arbitrary: st)
  case (Cons i "is")
  obtain st1 where 1: "init_node C filled g i st = Some st1" "init_inv C pn todo prim st1"
      "insert i (ivis st) \<subseteq> ivis st1"
    using init_node_inv [OF Cons.prems(1) assms(2-4), of i g filled] Cons.prems(2) by auto
  obtain st2 where "init_fill C filled g is st1 = Some st2" "init_inv C pn todo prim st2"
      "set is \<union> ivis st1 \<subseteq> ivis st2"
    using Cons.IH [OF 1(2)] Cons.prems(2) by auto
  then show ?case using 1 by auto
qed simp

subsection \<open>The invariant of a round\<close>

lemma pc_bump_keys: "fst ` set (pc_bump p pc) = insert p (fst ` set pc)"
  by (induction p pc rule: pc_bump.induct) auto

lemma pc_count_keys:
  "fst ` set (pc_count m ns pc) = fst ` set pc \<union> (pid_of m ` set ns - {gp_INF})"
  by (induction m ns pc rule: pc_count.induct) (auto simp: pc_bump_keys)

text \<open>The best page is one of the counted ones, is not full, and no counted page scores more.\<close>

lemma best_pid_in:
  assumes "\<forall>(p, c) \<in> set pc. p < gmutexes E \<and> p < length pages"
  shows "\<exists>r. best_pid E pages pc acc = Some r \<and>
    (r = acc \<or> (fst r \<in> fst ` set pc \<and> length (pages ! fst r) < gC E))"
  using assms
proof (induction pc arbitrary: acc)
  case (Cons pc1 pc)
  obtain p c where pc1: "pc1 = (p, c)" by force
  obtain res maxn where acc: "acc = (res, maxn)" by force
  define acc' where "acc' = (if score (gC E) (length (pages ! p)) c > maxn \<and>
      length (pages ! p) < gC E then (p, score (gC E) (length (pages ! p)) c) else (res, maxn))"
  have step: "best_pid E pages (pc1 # pc) acc = best_pid E pages pc acc'"
    using Cons.prems by (simp add: pc1 acc acc'_def vec_at_in Let_def)
  have "\<forall>(p, c) \<in> set pc. p < gmutexes E \<and> p < length pages" using Cons.prems by simp
  from Cons.IH [OF this, of acc'] obtain r where "best_pid E pages pc acc' = Some r"
      "r = acc' \<or> (fst r \<in> fst ` set pc \<and> length (pages ! fst r) < gC E)" by blast
  then show ?case unfolding step by (auto simp: acc'_def acc pc1 split: if_splits)
qed simp

lemma best_pid_max:
  assumes "\<forall>(p, c) \<in> set pc. p < gmutexes E \<and> p < length pages"
    and "best_pid E pages pc acc = Some (res, maxn)"
  shows "snd acc \<le> maxn \<and> (\<forall>(p, c) \<in> set pc. length (pages ! p) < gC E \<longrightarrow>
      score (gC E) (length (pages ! p)) c \<le> maxn) \<and>
    ((res, maxn) = acc \<or> (\<exists>c. (res, c) \<in> set pc \<and> maxn = score (gC E) (length (pages ! res)) c \<and>
      length (pages ! res) < gC E))"
  using assms
proof (induction pc arbitrary: acc)
  case (Cons pc1 pc)
  obtain p c where pc1: "pc1 = (p, c)" by force
  obtain res0 maxn0 where acc: "acc = (res0, maxn0)" by force
  let ?c = "score (gC E) (length (pages ! p)) c"
  define acc' where
    "acc' = (if ?c > maxn0 \<and> length (pages ! p) < gC E then (p, ?c) else (res0, maxn0))"
  have "best_pid E pages pc acc' = Some (res, maxn)"
    using Cons.prems by (simp add: pc1 acc acc'_def vec_at_in Let_def)
  moreover have "\<forall>(p, c) \<in> set pc. p < gmutexes E \<and> p < length pages"
    using Cons.prems(1) by simp
  ultimately have IH: "snd acc' \<le> maxn \<and> (\<forall>(p, c) \<in> set pc. length (pages ! p) < gC E \<longrightarrow>
      score (gC E) (length (pages ! p)) c \<le> maxn) \<and>
    ((res, maxn) = acc' \<or> (\<exists>c. (res, c) \<in> set pc \<and> maxn = score (gC E) (length (pages ! res)) c \<and>
      length (pages ! res) < gC E))" by (rule Cons.IH [rotated])
  show ?case
  proof (cases "?c > maxn0 \<and> length (pages ! p) < gC E")
    case True
    then show ?thesis using IH unfolding acc'_def pc1 acc by auto
  next
    case False
    then show ?thesis using IH unfolding acc'_def pc1 acc by auto
  qed
qed simp

lemma get_unfilled_ex:
  assumes "\<forall>p \<in> set q. p < length pages" "p \<in> set q" "length (pages ! p) \<noteq> C"
  shows "\<exists>res q'. get_unfilled C pages q = Some (res, q') \<and> res \<in> set q \<and>
    length (pages ! res) \<noteq> C \<and>
    (\<forall>p \<in> set q. length (pages ! p) \<noteq> C \<longrightarrow> p = res \<or> p \<in> set q') \<and> set q' \<subseteq> set q"
  using assms
proof (induction q)
  case (Cons r q)
  show ?case
  proof (cases "length (pages ! r) = C")
    case True
    then have "p \<in> set q" using Cons.prems by auto
    then have "\<exists>res q'. get_unfilled C pages q = Some (res, q') \<and> res \<in> set q \<and>
      length (pages ! res) \<noteq> C \<and>
      (\<forall>p \<in> set q. length (pages ! p) \<noteq> C \<longrightarrow> p = res \<or> p \<in> set q') \<and> set q' \<subseteq> set q"
      using Cons by simp
    then obtain res q' where "get_unfilled C pages q = Some (res, q')" "res \<in> set q"
      "length (pages ! res) \<noteq> C" "\<forall>p \<in> set q. length (pages ! p) \<noteq> C \<longrightarrow> p = res \<or> p \<in> set q'"
      "set q' \<subseteq> set q" by blast
    then show ?thesis using Cons.prems(1) True
      by (intro exI [of _ res] exI [of _ q']) (auto simp: vec_at_in)
  next
    case False
    then show ?thesis using Cons.prems(1)
      by (intro exI [of _ r] exI [of _ q]) (auto simp: vec_at_in)
  qed
qed simp

text \<open>
  \<open>ldg_inv E base placed st\<close>: page \<open>p\<close> is \<open>base ! p\<close> followed by nodes placed in this round; those
  are \<open>placed\<close>, each once, and \<open>id2pid\<close> names their page; no page is overfull, all page ids are in
  range, and every unlocked page with room is queued.
\<close>

definition ldg_inv :: "gp_env \<Rightarrow> nat list list \<Rightarrow> nat list \<Rightarrow> gp_st \<Rightarrow> bool" where
  [inv_defs]: "ldg_inv E base placed st \<longleftrightarrow>
     length (part st) = gpn E \<and> length base = gpn E \<and>
     (\<exists>new. length new = gpn E \<and> part st = map2 (@) base new \<and> mset (concat new) = mset placed \<and>
       (\<forall>p < gpn E. \<forall>n \<in> set (new ! p). id2pid st n = Some p)) \<and>
     (\<forall>p < gpn E. length (part st ! p) \<le> gC E) \<and>
     (\<forall>n m. id2pid st n = Some m \<longrightarrow> m < gpn E \<or> m = gp_INF) \<and>
     (\<forall>p \<in> set (free_q st). p < gpn E) \<and>
     (\<forall>p < gpn E. gnpp E \<le> p \<and> \<not> glock_pids E ! p \<and> length (part st ! p) < gC E \<longrightarrow>
       p \<in> set (free_q st))"

definition env_ok :: "gp_env \<Rightarrow> bool" where
  [inv_defs]: "env_ok E \<longleftrightarrow> gC E > 0 \<and> gpn E \<le> gmutexes E \<and> gpn E \<le> gp_INF \<and> gnpp E \<le> gpn E \<and>
     length (gdirect E) = gnd E \<and> length (greverse E) = gnd E \<and>
     length (glock_pids E) = gpn E \<and> length (glock_nodes E) = gnd E \<and>
     (\<forall>ns \<in> set (gdirect E @ greverse E). \<forall>n \<in> set ns. n < gnd E)"

definition open_pages :: "gp_env \<Rightarrow> nat set" where
  "open_pages E = {p. gnpp E \<le> p \<and> p < gpn E \<and> \<not> glock_pids E ! p}"

lemma concat_length_ge:
  "A \<subseteq> {..<length xss} \<Longrightarrow> (\<And>p. p \<in> A \<Longrightarrow> length (xss ! p) = C) \<Longrightarrow>
   card A * C \<le> length (concat xss)"
proof -
  assume A: "A \<subseteq> {..<length xss}" and C: "\<And>p. p \<in> A \<Longrightarrow> length (xss ! p) = C"
  have "card A * C = (\<Sum>p\<in>A. length (xss ! p))" using C by simp
  also have "\<dots> \<le> (\<Sum>p<length xss. length (xss ! p))" using A by (intro sum_mono2) auto
  also have "\<dots> = length (concat xss)"
    by (simp add: length_concat sum_list_sum_nth atLeast0LessThan)
  finally show ?thesis .
qed

text \<open>While fewer nodes are placed than the open pages hold, an open page has room.\<close>

lemma ldg_inv_room:
  assumes inv: "ldg_inv E base placed st" and base: "\<forall>p \<in> open_pages E. base ! p = []"
    and cap: "length placed < card (open_pages E) * gC E"
  shows "\<exists>p \<in> set (free_q st). length (part st ! p) < gC E"
proof (rule ccontr)
  assume none: "\<not> ?thesis"
  obtain new where new: "length new = gpn E" "part st = map2 (@) base new"
      "mset (concat new) = mset placed"
    using inv by (auto simp: ldg_inv_def)
  have len: "length base = gpn E" "\<forall>p < gpn E. length (part st ! p) \<le> gC E"
    and queued: "\<forall>p < gpn E. gnpp E \<le> p \<and> \<not> glock_pids E ! p \<and> length (part st ! p) < gC E \<longrightarrow>
       p \<in> set (free_q st)"
    using inv by (auto simp: ldg_inv_def)
  have "length (new ! p) = gC E" if "p \<in> open_pages E" for p
  proof -
    have p: "p < gpn E" "gnpp E \<le> p" "\<not> glock_pids E ! p" using that by (auto simp: open_pages_def)
    then have "length (part st ! p) = gC E"
      using none queued len(2) by (meson le_neq_implies_less)
    then show ?thesis using new(1,2) len(1) p(1) base that by simp
  qed
  moreover have "open_pages E \<subseteq> {..<length new}" using new(1) by (auto simp: open_pages_def)
  ultimately have "card (open_pages E) * gC E \<le> length (concat new)"
    by (intro concat_length_ge) auto
  also have "\<dots> = length placed" using new(3) by (metis size_mset)
  finally show False using cap by simp
qed

lemma map2_append_update:
  "length xs = length ys \<Longrightarrow> i < length xs \<Longrightarrow>
   (map2 (@) xs ys)[i := map2 (@) xs ys ! i @ [v]] = map2 (@) xs (ys[i := ys ! i @ [v]])"
  by (rule nth_equalityI) (auto simp: nth_list_update)

text \<open>The order in which the \<open>unordered_map\<close> is visited is some permutation of its entries.\<close>

locale visit_order =
  fixes ord :: "(nat \<times> nat) list \<Rightarrow> (nat \<times> nat) list"
  assumes ord_mset: "mset (ord pc) = mset pc"
begin

lemma ord_set [simp]: "set (ord pc) = set pc"
  using ord_mset by (metis set_mset_mset)

lemma counted_pids:
  assumes "\<forall>n m. id2pid st n = Some m \<longrightarrow> m < gpn E \<or> m = gp_INF" and "0 < gpn E"
    and "gpn E \<le> gmutexes E" "length (part st) = gpn E"
  shows "\<forall>(p, c) \<in> set (ord (pc_count (id2pid st) rn (pc_count (id2pid st) dn []))).
    p < gmutexes E \<and> p < length (part st)"
proof -
  have in_range: "pid_of (id2pid st) n < gpn E \<or> pid_of (id2pid st) n = gp_INF" for n
    using assms(1,2) by (auto simp: pid_of_def split: option.split)
  have "p < gpn E" if "(p, c) \<in> set (pc_count (id2pid st) rn (pc_count (id2pid st) dn []))"
    for p c
  proof -
    have "p \<in> fst ` set (pc_count (id2pid st) rn (pc_count (id2pid st) dn []))"
      using that by (metis fst_conv image_eqI)
    then have "p \<in> pid_of (id2pid st) ` set dn \<union> pid_of (id2pid st) ` set rn - {gp_INF}"
      unfolding pc_count_keys by auto
    then show ?thesis using in_range by auto
  qed
  then show ?thesis using assms(3,4) by (fastforce dest: less_le_trans)
qed

text \<open>\<open>select_partition\<close> returns a page with room as long as a queued page has room.\<close>

lemma select_partition_room:
  assumes env: "env_ok E" and inv: "ldg_inv E base placed st" and i: "i < gnd E"
    and room: "\<exists>p \<in> set (free_q st). length (part st ! p) < gC E"
  shows "\<exists>pid q'. select_partition ord E st i = Some (pid, st\<lparr>free_q := q'\<rparr>) \<and> pid < gpn E \<and>
    length (part st ! pid) < gC E \<and> set q' \<subseteq> set (free_q st) \<and>
    (\<forall>p \<in> set (free_q st). length (part st ! p) < gC E \<longrightarrow> p = pid \<or> p \<in> set q')"
proof -
  have len: "length (part st) = gpn E" and fq: "\<forall>p \<in> set (free_q st). p < gpn E"
    and le: "\<forall>p < gpn E. length (part st ! p) \<le> gC E"
    and ids: "\<forall>n m. id2pid st n = Some m \<longrightarrow> m < gpn E \<or> m = gp_INF"
    using inv by (auto simp: ldg_inv_def)
  have pn: "0 < gpn E" using room fq by fastforce
  let ?dn = "gdirect E ! i" and ?rn = "greverse E ! i"
  let ?pc = "ord (pc_count (id2pid st) ?rn (pc_count (id2pid st) ?dn []))"
  have at: "vec_at (gdirect E) i = Some ?dn" "vec_at (greverse E) i = Some ?rn"
    using env i by (auto simp: env_ok_def vec_at_in)
  have keys: "\<forall>(p, c) \<in> set ?pc. p < gmutexes E \<and> p < length (part st)"
    using counted_pids [OF ids pn _ len] env by (simp add: env_ok_def)
  obtain res maxn where best: "best_pid E (part st) ?pc (gp_INF, 0) = Some (res, maxn)"
    and res: "res = gp_INF \<or> (res \<in> fst ` set ?pc \<and> length (part st ! res) < gC E)"
    using best_pid_in [OF keys, of "(gp_INF, 0)"] by auto
  show ?thesis
  proof (cases "res = gp_INF")
    case False
    then have "res < gpn E" "length (part st ! res) < gC E"
      using res keys len by fastforce+
    then show ?thesis using at best False
      by (intro exI [of _ res] exI [of _ "free_q st"]) (simp add: select_partition_def)
  next
    case True
    obtain p where p: "p \<in> set (free_q st)" "length (part st ! p) \<noteq> gC E" using room by force
    obtain r q' where r: "get_unfilled (gC E) (part st) (free_q st) = Some (r, q')"
        "r \<in> set (free_q st)" "length (part st ! r) \<noteq> gC E" "set q' \<subseteq> set (free_q st)"
        "\<forall>p \<in> set (free_q st). length (part st ! p) \<noteq> gC E \<longrightarrow> p = r \<or> p \<in> set q'"
      using get_unfilled_ex [OF _ p] fq len by auto
    moreover have "r < gpn E" "length (part st ! r) < gC E"
      using r(2,3) fq le by (auto simp: le_neq_implies_less)
    ultimately show ?thesis using at best True
      by (intro exI [of _ r] exI [of _ q']) (auto simp: select_partition_def)
  qed
qed

text \<open>So the loop of \<open>sync\<close> ends at its first test, and the node gets one page.\<close>

lemma sync_inv:
  assumes env: "env_ok E" and inv: "ldg_inv E base placed st" and i: "i < gnd E"
    and room: "\<exists>p \<in> set (free_q st). length (part st ! p) < gC E" and new: "i \<notin> set placed"
  shows "\<exists>pid st'. sync (Suc fuel) ord E st i = Some (pid, st') \<and>
    ldg_inv E base (placed @ [i]) st' \<and> id2pid st' = (id2pid st)(i \<mapsto> pid)"
proof -
  obtain pid q' where sel: "select_partition ord E st i = Some (pid, st\<lparr>free_q := q'\<rparr>)"
    and pid: "pid < gpn E" "length (part st ! pid) < gC E" "set q' \<subseteq> set (free_q st)"
    and rest: "\<forall>p \<in> set (free_q st). length (part st ! p) < gC E \<longrightarrow> p = pid \<or> p \<in> set q'"
    using select_partition_room [OF env inv i room] by blast
  have len: "length (part st) = gpn E" "length base = gpn E"
    and fq: "\<forall>p \<in> set (free_q st). p < gpn E"
    and le: "\<forall>p < gpn E. length (part st ! p) \<le> gC E"
    and ids: "\<forall>n m. id2pid st n = Some m \<longrightarrow> m < gpn E \<or> m = gp_INF"
    and queued: "\<forall>p < gpn E. gnpp E \<le> p \<and> \<not> glock_pids E ! p \<and> length (part st ! p) < gC E \<longrightarrow>
       p \<in> set (free_q st)"
    using inv by (auto simp: ldg_inv_def)
  obtain nw where nw: "length nw = gpn E" "part st = map2 (@) base nw"
      "mset (concat nw) = mset placed" "\<forall>p < gpn E. \<forall>n \<in> set (nw ! p). id2pid st n = Some p"
    using inv by (auto simp: ldg_inv_def)
  have mut: "pid < gmutexes E" using env pid(1) by (auto simp: env_ok_def)
  have ne: "length (part st ! pid) \<noteq> gC E" using pid(2) by simp
  have pick: "sync_pick (Suc fuel) ord E st i = Some (pid, st\<lparr>free_q := q'\<rparr>)"
    using sel mut ne pid(1) len(1) by (simp add: vec_at_in)
  let ?pg = "part st ! pid @ [i]"
  let ?pages = "(part st)[pid := ?pg]"
  let ?q = "if length ?pg \<noteq> gC E then q' @ [pid] else q'"
  let ?st = "\<lparr>part = ?pages, id2pid = (id2pid st)(i \<mapsto> pid), free_q = ?q\<rparr>"
  have run: "sync (Suc fuel) ord E st i = Some (pid, ?st)"
    using pick pid(1) len(1) unfolding sync_def by (simp add: vec_at_in vec_push_at_in)
  let ?nw = "nw[pid := nw ! pid @ [i]]"
  have parts: "?pages = map2 (@) base ?nw"
    using map2_append_update [of base nw pid i] nw(1,2) len(2) pid(1) by simp
  have msets: "mset (concat ?nw) = mset (placed @ [i])"
    using mset_concat_update_snoc [of pid nw i] nw(1,3) pid(1) by simp
  have other: "n \<noteq> i" if "p < gpn E" "n \<in> set (nw ! p)" for n p
  proof -
    have "n \<in> set (concat nw)" using that nw(1) by auto
    then show ?thesis using nw(3) new by (metis set_mset_mset)
  qed
  have named: "((id2pid st)(i \<mapsto> pid)) n = Some p" if "p < gpn E" "n \<in> set (?nw ! p)" for p n
    using that nw(1,4) other pid(1) by (cases "p = pid") auto
  have "ldg_inv E base (placed @ [i]) ?st"
    unfolding ldg_inv_def
  proof (intro conjI)
    show "\<exists>new. length new = gpn E \<and> part ?st = map2 (@) base new \<and>
      mset (concat new) = mset (placed @ [i]) \<and>
      (\<forall>p < gpn E. \<forall>n \<in> set (new ! p). id2pid ?st n = Some p)"
      using nw(1) parts msets named by (intro exI [of _ ?nw]) simp
    show "\<forall>p < gpn E. length (part ?st ! p) \<le> gC E"
    proof (intro allI impI)
      fix p assume "p < gpn E"
      then show "length (part ?st ! p) \<le> gC E" using le pid(2) len(1) by (cases "p = pid") auto
    qed
    show "\<forall>p < gpn E. gnpp E \<le> p \<and> \<not> glock_pids E ! p \<and> length (part ?st ! p) < gC E \<longrightarrow>
       p \<in> set (free_q ?st)"
    proof (intro allI impI)
      fix p assume p: "p < gpn E" "gnpp E \<le> p \<and> \<not> glock_pids E ! p \<and> length (part ?st ! p) < gC E"
      show "p \<in> set (free_q ?st)"
      proof (cases "p = pid")
        case True
        then show ?thesis using p len(1) by simp
      next
        case False
        then have "p \<in> set (free_q st)" "length (part st ! p) < gC E" using p queued by auto
        then have "p \<in> set q'" using rest False by blast
        then show ?thesis by simp
      qed
    qed
  qed (use len ids pid fq in auto)
  then show ?thesis using run by (intro exI [of _ pid] exI [of _ ?st]) simp
qed

lemma sync_all_inv:
  assumes env: "env_ok E" and base: "\<forall>p \<in> open_pages E. base ! p = []"
    and inv: "ldg_inv E base placed st" and ns: "distinct ns" "\<forall>n \<in> set ns. n < gnd E"
    and disj: "set ns \<inter> set placed = {}"
    and cap: "length placed + length (filter (\<lambda>n. \<not> glock_nodes E ! n) ns)
      \<le> card (open_pages E) * gC E"
  shows "\<exists>st'. sync_all (Suc fuel) ord E ns st = Some st' \<and>
    ldg_inv E base (placed @ filter (\<lambda>n. \<not> glock_nodes E ! n) ns) st' \<and>
    (\<forall>n. n \<notin> set (filter (\<lambda>n. \<not> glock_nodes E ! n) ns) \<longrightarrow> id2pid st' n = id2pid st n)"
  using inv ns disj cap
proof (induction ns arbitrary: placed st)
  case (Cons n ns)
  have n: "n < gnd E" "n < length (glock_nodes E)"
    using Cons.prems env by (auto simp: env_ok_def)
  show ?case
  proof (cases "glock_nodes E ! n")
    case True
    then show ?thesis using Cons n by (simp add: vec_at_in)
  next
    case False
    have "length placed < card (open_pages E) * gC E" using Cons.prems(5) False by simp
    note room = ldg_inv_room [OF Cons.prems(1) base this]
    have new: "n \<notin> set placed" using Cons.prems by auto
    obtain pid st1 where 1: "sync (Suc fuel) ord E st n = Some (pid, st1)"
        "ldg_inv E base (placed @ [n]) st1" "id2pid st1 = (id2pid st)(n \<mapsto> pid)"
      using sync_inv [OF env Cons.prems(1) n(1) room new] by blast
    have prems: "distinct ns" "\<forall>n \<in> set ns. n < gnd E" "set ns \<inter> set (placed @ [n]) = {}"
        "length (placed @ [n]) + length (filter (\<lambda>n. \<not> glock_nodes E ! n) ns)
          \<le> card (open_pages E) * gC E"
      using Cons.prems False by auto
    obtain st2 where "sync_all (Suc fuel) ord E ns st1 = Some st2"
        "ldg_inv E base ((placed @ [n]) @ filter (\<lambda>n. \<not> glock_nodes E ! n) ns) st2"
        "\<forall>m. m \<notin> set (filter (\<lambda>n. \<not> glock_nodes E ! n) ns) \<longrightarrow> id2pid st2 m = id2pid st1 m"
      using Cons.IH [OF 1(2) prems] by blast
    then show ?thesis using 1 n False by (intro exI [of _ st2]) (auto simp: vec_at_in)
  qed
qed simp

end

interpretation visit_id: visit_order id
  by unfold_locales simp

interpretation visit_rev: visit_order rev
  by unfold_locales simp

end
