(* ===== verification/GraphPlacement.thy ===== *)
theory GraphPlacement
  imports GraphPartition
begin

text \<open>
  The properties of the page assignment modelled in \<open>GraphPartition\<close>: how many pages there are,
  that the initial fill and the rounds never leave a vector nor wait forever, and that they put
  every node on one page.
\<close>

subsection \<open>The number of pages\<close>

lemma ceil_div_bounds:
  fixes x C :: nat
  assumes "C > 0"
  shows "x \<le> C * ((x + C - 1) div C) \<and> C * ((x + C - 1) div C) \<le> x + C - 1"
proof -
  have "C * ((x + C - 1) div C) + (x + C - 1) mod C = x + C - 1" by simp
  moreover have "(x + C - 1) mod C < C" using assms by simp
  ultimately show ?thesis by linarith
qed

lemma scaled_counts_bounds:
  assumes "2 \<le> C" "2 \<le> scale" "scale \<le> C"
  shows "\<exists>pn npp. scaled_counts nd C pn0 scale = Some (pn, npp) \<and> npp \<le> pn \<and> npp \<le> nd \<and>
    nd - npp \<le> (pn - npp) * C"
proof -
  define pn where "pn = (nd * scale + C - 1) div C"
  define npp where "npp = (C * pn - nd) div (C - 1)"
  have run: "scaled_counts nd C pn0 scale = Some (pn, npp)"
    using assms by (simp add: scaled_counts_def Let_def round_up_div pn_def npp_def)
  have b: "nd * scale \<le> C * pn" "C * pn \<le> nd * scale + C - 1"
    using ceil_div_bounds [of C "nd * scale"] assms unfolding pn_def by auto
  have "nd * scale \<le> nd * C" using assms(3) by (rule mult_le_mono2)
  then have "C * pn < nd * C + C" using b(2) assms(1) by linarith
  then have "C * pn < C * (nd + 1)" by (simp add: algebra_simps)
  then have "pn < nd + 1" by (simp only: mult_less_cancel1)
  then have pn_nd: "pn \<le> nd" by simp
  have "nd * 1 \<le> nd * scale" using assms(2) by (intro mult_le_mono2) simp
  then have nd: "nd \<le> C * pn" using b(1) by linarith
  have npp: "npp * (C - 1) \<le> C * pn - nd" by (simp add: npp_def)
  have "C * pn - nd \<le> C * pn - pn" using pn_nd by simp
  also have "\<dots> = pn * (C - 1)" by (simp add: algebra_simps)
  finally have "npp * (C - 1) \<le> pn * (C - 1)" using npp by linarith
  then have npp_pn: "npp \<le> pn" using assms(1) by simp
  have "npp * C - npp = npp * (C - 1)" by (simp add: algebra_simps)
  then have "npp * C - npp + nd \<le> C * pn" using npp nd by linarith
  moreover have "npp \<le> npp * C" using assms(1) by simp
  ultimately have "nd - npp \<le> pn * C - npp * C" by (simp add: mult.commute)
  then have "nd - npp \<le> (pn - npp) * C" by (simp add: diff_mult_distrib)
  then show ?thesis using run npp_pn pn_nd by auto
qed

text \<open> With 2 to \<open>C\<close> copies asked for, the numbers of pages and of replica pages are such that
  every replica page has its own node, and the pages after them have room for all other nodes.\<close>

theorem scaled_counts_room:
  assumes "2 \<le> C" "2 \<le> scale" "scale \<le> C"
  shows "\<exists>pn npp. scaled_counts nd C pn0 scale = Some (pn, npp) \<and> npp \<le> pn \<and> npp \<le> nd \<and>
    nd - npp \<le> (pn - npp) * C"
  using scaled_counts_bounds [OF assms] .

lemma scaled_counts_room_witness: "scaled_counts 6 3 2 2 = Some (4, 3) \<and> (6::nat) - 3 \<le> (4 - 3) * 3"
  using scaled_counts_room [of 3 2 6 2] by (simp add: scaled_counts_def round_up_def)

subsection \<open>The initial fill\<close>

lemma gp_fill_start_inv:
  assumes "npp < pn" "length (ppart st) = pn" "\<forall>p. npp \<le> p \<and> p < pn \<longrightarrow> ppart st ! p = []"
  shows "init_inv C pn todo (take npp (ppart st)) (gp_fill_start npp pn k st)"
proof -
  have "drop npp (ppart st) = replicate (pn - npp) []"
    using assms by (intro nth_equalityI) auto
  also have "\<dots> = [] # replicate (pn - Suc npp) []"
    using assms(1) by (metis Suc_diff_Suc replicate_Suc)
  finally have "ppart st = take npp (ppart st) @ [] # replicate (pn - Suc npp) []"
    using append_take_drop_id [of npp "ppart st"] by simp
  then have "init_shape C pn (take npp (ppart st)) (gp_fill_start npp pn k st) [] []"
    using assms by (simp add: init_shape_def gp_fill_start_def)
  moreover have "\<forall>p < pn. npp \<le> p \<longrightarrow> (\<forall>n \<in> set (ppart st ! p). pid2pid st n = Some p)"
    using assms(3) by auto
  ultimately show ?thesis using assms(1,2) by (auto simp: init_inv_def gp_fill_start_def)
qed

text \<open>What the pages from \<open>npp\<close> on look like when every node of \<open>todo\<close> has been put on one.\<close>

definition pages_hold :: "nat \<Rightarrow> nat \<Rightarrow> nat \<Rightarrow> nat set \<Rightarrow> nat list list \<Rightarrow> (nat \<rightharpoonup> nat) \<Rightarrow> bool" where
  "pages_hold C pn npp todo pages ids \<longleftrightarrow>
     length pages = pn \<and> distinct (concat (drop npp pages)) \<and> set (concat (drop npp pages)) = todo \<and>
     (\<forall>p < pn. npp \<le> p \<longrightarrow> length (pages ! p) \<le> C \<and> (\<forall>n \<in> set (pages ! p). ids n = Some p))"

lemma init_inv_done:
  assumes "init_inv C pn todo prim st" "ivis st = todo"
  shows "pages_hold C pn (length prim) todo (ipart st) (iid2pid st) \<and>
    take (length prim) (ipart st) = prim"
proof -
  obtain fulls cur where shape: "init_shape C pn prim st fulls cur"
    using assms by (auto simp: init_inv_def)
  have pages: "ipart st = prim @ fulls @ cur # replicate (pn - Suc (ipid st)) []"
    and full: "\<forall>f \<in> set fulls. length f = C" "length cur \<le> C"
    and dist: "distinct (concat fulls @ cur)" "set (concat fulls @ cur) = ivis st"
    using shape by (auto simp: init_shape_def)
  let ?tail = "fulls @ cur # replicate (pn - Suc (ipid st)) []"
  have drop: "drop (length prim) (ipart st) = ?tail" using pages by simp
  have concat: "concat ?tail = concat fulls @ cur" by simp
  have len: "length (ipart st) = pn" using init_shape_length [OF shape] .
  have le: "length (ipart st ! p) \<le> C" if "p < pn" "length prim \<le> p" for p
  proof -
    have "ipart st ! p = ?tail ! (p - length prim)" using that pages by (simp add: nth_append)
    moreover have "p - length prim < length ?tail"
      using that len arg_cong [OF pages, of length] by simp
    ultimately have "ipart st ! p \<in> set ?tail" by (metis nth_mem)
    then show ?thesis using full by auto
  qed
  have ids: "\<forall>p < pn. length prim \<le> p \<longrightarrow> (\<forall>n \<in> set (ipart st ! p). iid2pid st n = Some p)"
    using assms(1) by (simp add: init_inv_def)
  show ?thesis
    unfolding pages_hold_def drop concat using len dist assms(2) le ids pages by simp
qed

lemma init_fill_places:
  assumes "C > 0" and "npp < pn" "length (ppart st) = pn"
    and "\<forall>p. npp \<le> p \<and> p < pn \<longrightarrow> ppart st ! p = []"
    and "length (filled_nodes st) = nd" "length g = nd" and "nd - npp \<le> (pn - npp) * C"
    and "\<forall>i < nd. filled_nodes st ! i \<longleftrightarrow> i < npp"
    and "\<forall>adj \<in> set g. \<forall>s \<in> set adj. s < nd" and "set stream = {npp..<nd}"
  shows "\<exists>f. init_fill C (filled_nodes st) g stream (gp_fill_start npp pn k st) = Some f \<and>
    pages_hold C pn npp {npp..<nd} (ipart f) (iid2pid f) \<and>
    take npp (ipart f) = take npp (ppart st) \<and> length (ilock_pids f) = pn \<and> ivis f = {npp..<nd}"
proof -
  let ?prim = "take npp (ppart st)" and ?todo = "{npp..<nd}"
  have prim: "length ?prim = npp" using assms by simp
  have inv: "init_inv C pn ?todo ?prim (gp_fill_start npp pn k st)"
    by (rule gp_fill_start_inv [OF assms(2-4)])
  have step: "\<forall>i \<in> set stream. i \<in> ?todo \<and> i < length g \<and>
      (\<forall>s \<in> set (g ! i). s < length (filled_nodes st) \<and> (\<not> filled_nodes st ! s \<longrightarrow> s \<in> ?todo))"
  proof
    fix i assume "i \<in> set stream"
    then have i: "npp \<le> i" "i < nd" using assms(10) by auto
    then have "\<forall>s \<in> set (g ! i). s < nd" using assms(6,9) by (metis nth_mem)
    then show "i \<in> ?todo \<and> i < length g \<and>
      (\<forall>s \<in> set (g ! i). s < length (filled_nodes st) \<and> (\<not> filled_nodes st ! s \<longrightarrow> s \<in> ?todo))"
      using i assms(5,6,8) by auto
  qed
  obtain f where f: "init_fill C (filled_nodes st) g stream (gp_fill_start npp pn k st) = Some f"
      "init_inv C pn ?todo ?prim f" "set stream \<subseteq> ivis f"
    using init_fill_inv [OF inv _ _ assms(1) step] assms(7) prim by auto
  then have "ivis f = ?todo" using assms(10) by (auto simp: init_inv_def)
  then show ?thesis using f init_inv_done [OF f(2)] prim by (auto simp: init_inv_def)
qed

subsection \<open>The replica pages\<close>

definition prim_seeded :: "nat \<Rightarrow> nat \<Rightarrow> nat \<Rightarrow> prim_st" where
  "prim_seeded nd pn n = \<lparr>
     ppart = map (\<lambda>i. if i < n then [i] else []) [0..<pn],
     pid2pid = (\<lambda>i. if i < n then Some i else if i < nd then Some gp_INF else None),
     store_cnt = map (\<lambda>i. if i < n then 1 else 0) [0..<nd],
     aux_id2pid = replicate nd [], filled_nodes = map (\<lambda>i. i < n) [0..<nd]\<rparr>"

lemma map_upt_update:
  "i < n \<Longrightarrow> (map f [0..<n])[i := v] = map (\<lambda>j. if j = i then v else f j) [0..<n]"
  by (rule nth_equalityI) (auto simp: nth_list_update)

lemma prim_seed_step:
  "n < pn \<Longrightarrow> n < nd \<Longrightarrow> prim_seed n (prim_seeded nd pn n) = Some (prim_seeded nd pn (Suc n))"
  by (auto simp: prim_seed_def prim_seeded_def vec_simps map_upt_update less_Suc_eq fun_eq_iff)

lemma prim_seeds_append:
  "prim_seeds (xs @ ys) st = prim_seeds xs st \<bind> prim_seeds ys"
  by (induction xs arbitrary: st) (auto split: bind_splits)

lemma prim_seeds_start:
  assumes "n \<le> pn" "n \<le> nd"
  shows "prim_seeds [0..<n] (gp_start nd pn) = Some (prim_seeded nd pn n)"
  using assms
proof (induction n)
  case 0
  then show ?case by (auto simp: gp_start_def prim_seeded_def map_replicate_const)
next
  case (Suc n)
  then have "n < pn" "n < nd" by auto
  then show ?case using Suc prim_seed_step [of n pn nd] by (simp add: prim_seeds_append)
qed

text \<open>
  \<open>prim_inv\<close>: replica page \<open>p\<close> starts with node \<open>p\<close> and holds at most \<open>C\<close> nodes, the later pages
  are empty, \<open>store_cnt\<close> counts the occurrences of a node on all pages and \<open>aux_id2pid\<close> lists the
  pages of its copies, once per copy.
\<close>

definition prim_inv :: "nat \<Rightarrow> nat \<Rightarrow> nat \<Rightarrow> nat \<Rightarrow> prim_st \<Rightarrow> bool" where
  [inv_defs]: "prim_inv C pn nd npp st \<longleftrightarrow>
     length (ppart st) = pn \<and> length (store_cnt st) = nd \<and> length (aux_id2pid st) = nd \<and>
     (\<forall>p < npp. \<exists>copies. ppart st ! p = p # copies \<and> length copies < C \<and>
        (\<forall>s < nd. count_list (aux_id2pid st ! s) p = count_list copies s)) \<and>
     (\<forall>p < pn. npp \<le> p \<longrightarrow> ppart st ! p = []) \<and>
     (\<forall>p < pn. \<forall>s \<in> set (ppart st ! p). s < nd) \<and>
     (\<forall>s < nd. store_cnt st ! s = count_list (concat (ppart st)) s)"

lemma count_list_mset: "count_list xs x = count (mset xs) x"
  by (induction xs) auto

lemma count_list_concat_snoc:
  "i < length xss \<Longrightarrow> count_list (concat (xss[i := xss ! i @ [v]])) x =
   count_list (concat xss) x + (if x = v then 1 else 0)"
  unfolding count_list_mset by (simp add: mset_concat_update_snoc)

lemma prim_push_inv:
  assumes inv: "prim_inv C pn nd npp st" and pid: "pid < npp" "npp \<le> pn" and s: "s < nd"
    and room: "length (ppart st ! pid) \<noteq> C"
  shows "prim_inv C pn nd npp (st\<lparr>
    aux_id2pid := (aux_id2pid st)[s := aux_id2pid st ! s @ [pid]],
    ppart := (ppart st)[pid := ppart st ! pid @ [s]],
    store_cnt := (store_cnt st)[s := store_cnt st ! s + 1]\<rparr>)"
    (is "prim_inv C pn nd npp ?st")
proof -
  have len: "length (ppart st) = pn" "length (store_cnt st) = nd" "length (aux_id2pid st) = nd"
    and pages: "\<forall>p < npp. \<exists>copies. ppart st ! p = p # copies \<and> length copies < C \<and>
        (\<forall>s < nd. count_list (aux_id2pid st ! s) p = count_list copies s)"
    and range: "\<forall>p < pn. \<forall>s \<in> set (ppart st ! p). s < nd"
    and cnt: "\<forall>s < nd. store_cnt st ! s = count_list (concat (ppart st)) s"
    and rest: "\<forall>p < pn. npp \<le> p \<longrightarrow> ppart st ! p = []"
    using inv by (auto simp: prim_inv_def)
  show ?thesis
    unfolding prim_inv_def
  proof (intro conjI)
    show "\<forall>p < npp. \<exists>copies. ppart ?st ! p = p # copies \<and> length copies < C \<and>
        (\<forall>s < nd. count_list (aux_id2pid ?st ! s) p = count_list copies s)"
    proof (intro allI impI)
      fix p assume p: "p < npp"
      obtain copies where c: "ppart st ! p = p # copies" "length copies < C"
          "\<forall>s < nd. count_list (aux_id2pid st ! s) p = count_list copies s"
        using pages p by blast
      have aux: "count_list (aux_id2pid ?st ! t) p =
          count_list (aux_id2pid st ! t) p + (if t = s \<and> p = pid then 1 else 0)" if "t < nd" for t
        using that len(3) by (cases "t = s") auto
      have part: "ppart ?st ! p = p # copies @ (if p = pid then [s] else [])"
        using c(1) p pid len(1) by (auto simp: nth_list_update)
      have "length (copies @ (if p = pid then [s] else [])) < C"
        using room c(1,2) by auto
      moreover have "\<forall>t < nd. count_list (aux_id2pid ?st ! t) p =
          count_list (copies @ (if p = pid then [s] else [])) t"
        using aux c(3) by auto
      ultimately show "\<exists>copies. ppart ?st ! p = p # copies \<and> length copies < C \<and>
        (\<forall>s < nd. count_list (aux_id2pid ?st ! s) p = count_list copies s)"
        using part by blast
    qed
    show "\<forall>p < pn. npp \<le> p \<longrightarrow> ppart ?st ! p = []" using rest pid by auto
    show "\<forall>p < pn. \<forall>s \<in> set (ppart ?st ! p). s < nd"
    proof (intro allI impI)
      fix p assume p: "p < pn"
      then have "\<forall>s \<in> set (ppart st ! p). s < nd" using range by blast
      then show "\<forall>s \<in> set (ppart ?st ! p). s < nd"
        using s len(1) p by (cases "p = pid") auto
    qed
    have "pid < length (ppart st)" using pid len(1) by simp
    then show "\<forall>t < nd. store_cnt ?st ! t = count_list (concat (ppart ?st)) t"
      using cnt len(2) s by (auto simp: count_list_concat_snoc nth_list_update)
  qed (use len in auto)
qed

text \<open>\<open>grows\<close>: what an expansion leaves alone; the page it extends only gets longer.\<close>

definition prim_grows :: "nat \<Rightarrow> prim_st \<Rightarrow> prim_st \<Rightarrow> bool" where
  "prim_grows pid st st' \<longleftrightarrow>
     pid2pid st' = pid2pid st \<and> filled_nodes st' = filled_nodes st \<and>
     (\<forall>p. p \<noteq> pid \<longrightarrow> ppart st' ! p = ppart st ! p) \<and> (\<exists>new. ppart st' ! pid = ppart st ! pid @ new)"

lemma prim_grows_refl [simp]: "prim_grows pid st st"
  by (simp add: prim_grows_def)

lemma prim_grows_trans: "prim_grows pid st st1 \<Longrightarrow> prim_grows pid st1 st2 \<Longrightarrow> prim_grows pid st st2"
  by (auto simp: prim_grows_def)

lemma prim_grows_nth:
  "prim_grows pid st st' \<Longrightarrow> i < length (ppart st ! pid) \<Longrightarrow> ppart st' ! pid ! i = ppart st ! pid ! i"
  by (auto simp: prim_grows_def nth_append)

lemma expand_push_inv:
  assumes "prim_inv C pn nd npp st" "pid < npp" "npp \<le> pn" "\<forall>s \<in> set ss. s < nd"
  shows "\<exists>st'. expand_push C pid ss st = Some st' \<and> prim_inv C pn nd npp st' \<and>
    prim_grows pid st st' \<and> (length (ppart st' ! pid) = C \<or> set ss \<subseteq> set (ppart st' ! pid))"
  using assms
proof (induction ss arbitrary: st)
  case (Cons s ss)
  have len: "length (ppart st) = pn" "length (store_cnt st) = nd" "length (aux_id2pid st) = nd"
    using Cons.prems(1) by (auto simp: prim_inv_def)
  have s: "s < nd" "pid < pn" using Cons.prems by auto
  show ?case
  proof (cases "length (ppart st ! pid) = C")
    case True
    then show ?thesis using Cons.prems(1) len s by (simp add: vec_at_in)
  next
    case False
    let ?st = "st\<lparr>aux_id2pid := (aux_id2pid st)[s := aux_id2pid st ! s @ [pid]],
      ppart := (ppart st)[pid := ppart st ! pid @ [s]],
      store_cnt := (store_cnt st)[s := store_cnt st ! s + 1]\<rparr>"
    note inv = prim_push_inv [OF Cons.prems(1-3) s(1) False]
    have "\<forall>s \<in> set ss. s < nd" using Cons.prems(4) by simp
    from Cons.IH [OF inv Cons.prems(2,3) this] obtain st' where st':
      "expand_push C pid ss ?st = Some st'" "prim_inv C pn nd npp st'" "prim_grows pid ?st st'"
      "length (ppart st' ! pid) = C \<or> set ss \<subseteq> set (ppart st' ! pid)" by auto
    have "prim_grows pid st ?st" using s len by (simp add: prim_grows_def)
    then have "prim_grows pid st st'" using st'(3) by (rule prim_grows_trans)
    moreover have "s \<in> set (ppart st' ! pid)"
      using st'(3) s len by (auto simp: prim_grows_def)
    moreover have "expand_push C pid (s # ss) st = Some st'"
      using st'(1) False s len by (simp add: vec_simps)
    ultimately show ?thesis using st'(2,4) by auto
  qed
qed simp

lemma count_nbrs_ok:
  "\<forall>s \<in> set ss. s < length sc \<Longrightarrow> count_nbrs sc ss = Some (map (\<lambda>s. (s, sc ! s)) ss)"
  by (induction ss) (auto simp: vec_at_in)

text \<open>The nodes of a page before position \<open>i\<close> have had all their neighbors added, or it is full.\<close>

definition closed_upto :: "nat \<Rightarrow> nat list list \<Rightarrow> nat \<Rightarrow> nat list \<Rightarrow> bool" where
  "closed_upto C g i page \<longleftrightarrow>
     length page = C \<or> (\<forall>j < i. j < length page \<longrightarrow> set (g ! (page ! j)) \<subseteq> set page)"

lemma closed_upto_grows:
  assumes "prim_grows pid st st'" "length (ppart st' ! pid) \<le> C" "i \<le> length (ppart st ! pid)"
    and "closed_upto C g i (ppart st ! pid)"
  shows "closed_upto C g i (ppart st' ! pid)"
proof -
  obtain nw where nw: "ppart st' ! pid = ppart st ! pid @ nw"
    using assms(1) by (auto simp: prim_grows_def)
  show ?thesis
  proof (cases "length (ppart st ! pid) = C")
    case True
    then show ?thesis using nw assms(2) by (simp add: closed_upto_def)
  next
    case False
    then have old: "\<forall>j < i. set (g ! (ppart st ! pid ! j)) \<subseteq> set (ppart st ! pid)"
      using assms(3,4) by (auto simp: closed_upto_def)
    show ?thesis
      unfolding closed_upto_def nw
    proof (intro disjI2 allI impI)
      fix j assume "j < i"
      then show "set (g ! ((ppart st ! pid @ nw) ! j)) \<subseteq> set (ppart st ! pid @ nw)"
        using old assms(3) by (auto simp: nth_append)
    qed
  qed
qed

lemma prim_inv_page:
  "prim_inv C pn nd npp st \<Longrightarrow> p < npp \<Longrightarrow> npp \<le> pn \<Longrightarrow>
   p < length (ppart st) \<and> length (ppart st ! p) \<le> C \<and> 0 < length (ppart st ! p)"
  by (fastforce simp: prim_inv_def)

context visit_order begin

lemma expand_page_inv:
  assumes "prim_inv C pn nd npp st" "pid < npp" "npp \<le> pn" "length g = nd"
    and "\<forall>adj \<in> set g. \<forall>s \<in> set adj. s < nd" and "C \<le> fuel + i"
    and "i \<le> length (ppart st ! pid)" "closed_upto C g i (ppart st ! pid)"
  shows "\<exists>st'. expand_page fuel ord C g pid i st = Some st' \<and> prim_inv C pn nd npp st' \<and>
    prim_grows pid st st' \<and> closed_upto C g (length (ppart st' ! pid)) (ppart st' ! pid)"
  using assms(1,6-8)
proof (induction fuel arbitrary: i st)
  case 0
  then have "\<not> i < length (ppart st ! pid)"
    using prim_inv_page [OF 0(1) assms(2,3)] by linarith
  moreover then have "i = length (ppart st ! pid)" using 0(3) by simp
  ultimately show ?case
    using 0(1,4) prim_inv_page [OF 0(1) assms(2,3)]
    by (intro exI [of _ st]) (simp add: expand_page.simps vec_at_in)
next
  case (Suc fuel)
  note page = prim_inv_page [OF Suc.prems(1) assms(2,3)]
  show ?case
  proof (cases "i < length (ppart st ! pid)")
    case False
    then have "i = length (ppart st ! pid)" using Suc.prems(3) by simp
    then show ?thesis using Suc.prems page by (simp add: expand_page.simps vec_at_in)
  next
    case True
    define v where "v = ppart st ! pid ! i"
    have "ppart st ! pid ! i \<in> set (ppart st ! pid)" using True by simp
    then have v: "v < nd"
      using Suc.prems(1) assms(2,3) unfolding v_def prim_inv_def by (meson less_le_trans)
    then have nb: "\<forall>s \<in> set (g ! v). s < nd" using assms(4,5) by (metis nth_mem)
    have sc: "length (store_cnt st) = nd" using Suc.prems(1) by (simp add: prim_inv_def)
    let ?c = "map (\<lambda>s. (s, store_cnt st ! s)) (g ! v)"
    have "mset (map fst (ord ?c)) = mset (map fst ?c)" using ord_mset [of ?c] by (metis mset_map)
    also have "map fst ?c = g ! v" by (simp add: comp_def)
    finally have ss: "set (map fst (ord ?c)) = set (g ! v)" by (metis set_mset_mset)
    obtain st1 where st1: "expand_push C pid (map fst (ord ?c)) st = Some st1"
        "prim_inv C pn nd npp st1" "prim_grows pid st st1"
        "length (ppart st1 ! pid) = C \<or> set (g ! v) \<subseteq> set (ppart st1 ! pid)"
      using expand_push_inv [OF Suc.prems(1) assms(2,3), of "map fst (ord ?c)"] ss nb by auto
    have len1: "length (ppart st ! pid) \<le> length (ppart st1 ! pid)"
      using st1(3) by (auto simp: prim_grows_def)
    have "closed_upto C g i (ppart st1 ! pid)"
      using closed_upto_grows [OF st1(3) _ Suc.prems(3,4)] prim_inv_page [OF st1(2) assms(2,3)] by simp
    moreover have "ppart st1 ! pid ! i = v"
      using prim_grows_nth [OF st1(3) True] by (simp add: v_def)
    ultimately have cl: "closed_upto C g (i + 1) (ppart st1 ! pid)"
      using st1(4) by (auto simp: closed_upto_def less_Suc_eq)
    have "C \<le> fuel + (i + 1)" "i + 1 \<le> length (ppart st1 ! pid)"
      using Suc.prems(2) True len1 by auto
    then obtain st2 where st2: "expand_page fuel ord C g pid (i + 1) st1 = Some st2"
        "prim_inv C pn nd npp st2" "prim_grows pid st1 st2"
        "closed_upto C g (length (ppart st2 ! pid)) (ppart st2 ! pid)"
      using Suc.IH [OF st1(2) _ _ cl] by blast
    have "expand_page (Suc fuel) ord C g pid i st = expand_page fuel ord C g pid (i + 1) st1"
      using True page v assms(4) count_nbrs_ok [of "g ! v" "store_cnt st"] nb sc st1(1)
      by (subst expand_page.simps) (simp add: vec_at_in flip: v_def)
    then show ?thesis using st2 prim_grows_trans [OF st1(3)] by auto
  qed
qed

lemma expand_pages_inv:
  assumes "prim_inv C pn nd npp st" "npp \<le> pn" "length g = nd"
    and "\<forall>adj \<in> set g. \<forall>s \<in> set adj. s < nd" and "C \<le> fuel" and "distinct pids" "\<forall>p \<in> set pids. p < npp"
  shows "\<exists>st'. expand_pages fuel ord C g pids st = Some st' \<and> prim_inv C pn nd npp st' \<and>
    pid2pid st' = pid2pid st \<and> filled_nodes st' = filled_nodes st \<and>
    (\<forall>p. p \<notin> set pids \<longrightarrow> ppart st' ! p = ppart st ! p) \<and>
    (\<forall>p \<in> set pids. closed_upto C g (length (ppart st' ! p)) (ppart st' ! p))"
  using assms(1,6,7)
proof (induction pids arbitrary: st)
  case (Cons pid pids)
  have cl0: "closed_upto C g 0 (ppart st ! pid)" by (simp add: closed_upto_def)
  have pid: "pid < npp" using Cons.prems(3) by simp
  obtain st1 where 1: "expand_page fuel ord C g pid 0 st = Some st1" "prim_inv C pn nd npp st1"
      "prim_grows pid st st1" "closed_upto C g (length (ppart st1 ! pid)) (ppart st1 ! pid)"
    using expand_page_inv [OF Cons.prems(1) pid assms(2-4) _ _ cl0] assms(5) by auto
  have rest: "distinct pids" "\<forall>p \<in> set pids. p < npp" "pid \<notin> set pids" using Cons.prems by auto
  obtain st2 where 2: "expand_pages fuel ord C g pids st1 = Some st2" "prim_inv C pn nd npp st2"
      "pid2pid st2 = pid2pid st1 \<and> filled_nodes st2 = filled_nodes st1"
      "\<forall>p. p \<notin> set pids \<longrightarrow> ppart st2 ! p = ppart st1 ! p"
      "\<forall>p \<in> set pids. closed_upto C g (length (ppart st2 ! p)) (ppart st2 ! p)"
    using Cons.IH [OF 1(2) rest(1,2)] by blast
  show ?case
    using 1 2 rest(3) by (intro exI [of _ st2]) (auto simp: prim_grows_def)
qed simp

end

lemma concat_map_if: "concat (map (\<lambda>i. if P i then [i] else []) xs) = filter P xs"
  by (induction xs) auto

lemma count_list_distinct: "distinct xs \<Longrightarrow> count_list xs x = (if x \<in> set xs then 1 else 0)"
  by (induction xs) auto

lemma prim_seeded_inv:
  assumes "npp \<le> pn" "npp \<le> nd" "0 < C"
  shows "prim_inv C pn nd npp (prim_seeded nd pn npp)"
  using assms
  by (auto simp: prim_inv_def prim_seeded_def concat_map_if count_list_distinct split: if_splits)

lemma scaled_primary_ok:
  assumes "\<And>xs. mset (srt xs) = mset xs"
    and "npp \<le> pn" "npp \<le> nd" "0 < C" "C \<le> fuel" "length g = nd"
    and "\<forall>adj \<in> set g. \<forall>s \<in> set adj. s < nd"
  shows "\<exists>st. scaled_primary fuel srt C g [] npp (gp_start nd pn) = Some st \<and>
    prim_inv C pn nd npp st \<and> length (filled_nodes st) = nd \<and>
    (\<forall>i < nd. filled_nodes st ! i \<longleftrightarrow> i < npp) \<and> (\<forall>i < npp. pid2pid st i = Some i) \<and>
    (\<forall>p < npp. closed_upto C g (length (ppart st ! p)) (ppart st ! p))"
proof -
  have "visit_order srt" using assms(1) by unfold_locales
  note ex = visit_order.expand_pages_inv [OF this prim_seeded_inv [OF assms(2,3,4)] assms(2,6,7,5)]
  obtain st where "expand_pages fuel srt C g [0..<npp] (prim_seeded nd pn npp) = Some st"
      "prim_inv C pn nd npp st" "pid2pid st = pid2pid (prim_seeded nd pn npp)"
      "filled_nodes st = filled_nodes (prim_seeded nd pn npp)"
      "\<forall>p < npp. closed_upto C g (length (ppart st ! p)) (ppart st ! p)"
    using ex [of "[0..<npp]"] by auto
  then show ?thesis
    using prim_seeds_start [OF assms(2,3)] by (auto simp: scaled_primary_def prim_seeded_def)
qed

text \<open> The replica stage returns (\<open>C\<close> iterations per page are enough, whatever the order
  equal counts are sorted in): page \<open>p\<close> of the first \<open>npp\<close> starts with node \<open>p\<close> and then holds
  copies, at most \<open>C\<close> nodes in all; it is full unless it holds all neighbors of all its nodes;
  \<open>store_cnt\<close> is the number of copies of each node and \<open>aux_id2pid\<close> names the pages of the
  extra ones; no other page is touched.\<close>

theorem scaled_primary_replicates:
  assumes "\<And>xs. mset (srt xs) = mset xs"
    and "npp \<le> pn" "npp \<le> nd" "0 < C" "C \<le> fuel" "length g = nd"
    and "\<forall>adj \<in> set g. \<forall>s \<in> set adj. s < nd"
  shows "\<exists>st. scaled_primary fuel srt C g [] npp (gp_start nd pn) = Some st \<and>
    (\<forall>p < npp. \<exists>copies. ppart st ! p = p # copies \<and> length copies < C \<and>
      (\<forall>s < nd. count_list (aux_id2pid st ! s) p = count_list copies s) \<and>
      (length (p # copies) = C \<or> (\<forall>v \<in> set (p # copies). set (g ! v) \<subseteq> set (p # copies)))) \<and>
    (\<forall>p < pn. npp \<le> p \<longrightarrow> ppart st ! p = []) \<and>
    (\<forall>s < nd. store_cnt st ! s = count_list (concat (ppart st)) s)"
proof -
  obtain st where st: "scaled_primary fuel srt C g [] npp (gp_start nd pn) = Some st"
    "prim_inv C pn nd npp st"
    "\<forall>p < npp. closed_upto C g (length (ppart st ! p)) (ppart st ! p)"
    using scaled_primary_ok [OF assms] by blast
  have "length page = C \<or> (\<forall>v \<in> set page. set (g ! v) \<subseteq> set page)"
    if "closed_upto C g (length page) page" for page
    using that unfolding closed_upto_def by (metis in_set_conv_nth)
  then show ?thesis using st by (fastforce simp: prim_inv_def)
qed

lemma scaled_primary_replicates_witness:
  "\<exists>st. scaled_primary 3 (isort snd_less) 3 [[1], [2], [0]] [] 2 (gp_start 3 3) = Some st \<and>
    (\<exists>copies. ppart st ! 1 = 1 # copies)"
  using scaled_primary_replicates [of "isort snd_less" 2 3 3 3 3 "[[1], [2], [0]]"]
  by (force simp: numeral_2_eq_2)

text \<open> The expansion does not look at what a page already holds: on two nodes that are each
  other's neighbor, page 0 gets node 0 a second time.\<close>

theorem replica_page_repeats_node:
  "map_option ppart (scaled_primary 3 (isort snd_less) 3 [[1], [0]] [] 1 (gp_start 2 2)) =
    Some [[0, 1, 0], []]"
  by code_simp

subsection \<open>A round\<close>

lemma nth_ldg_clear:
  "p < length pages \<Longrightarrow> ldg_clear E pages ! p =
   (if gnpp E \<le> p \<and> p < gpn E \<and> \<not> glock_pids E ! p then [] else pages ! p)"
  by (simp add: ldg_clear_def nth_enumerate_eq)

lemma map2_append_Nil:
  "length xs = n \<Longrightarrow> map2 (@) xs (replicate n []) = xs"
  by (rule nth_equalityI) auto

text \<open>The state a round can start from.\<close>

definition round_ok :: "gp_env \<Rightarrow> gp_st \<Rightarrow> bool" where
  [inv_defs]: "round_ok E st \<longleftrightarrow>
     length (part st) = gpn E \<and> (\<forall>p < gpn E. length (part st ! p) \<le> gC E) \<and>
     (\<forall>n m. id2pid st n = Some m \<longrightarrow> m < gpn E \<or> m = gp_INF)"

lemma ldg_start_inv:
  assumes "env_ok E" "round_ok E st"
  shows "ldg_inv E (ldg_clear E (part st)) []
    (st\<lparr>part := ldg_clear E (part st), free_q := ldg_queue E\<rparr>)"
proof -
  have len: "length (ldg_clear E (part st)) = gpn E"
    using assms by (simp add: round_ok_def ldg_clear_def)
  have le: "\<forall>p < gpn E. length (ldg_clear E (part st) ! p) \<le> gC E"
    using assms by (auto simp: round_ok_def nth_ldg_clear)
  show ?thesis
    unfolding ldg_inv_def
  proof (intro conjI)
    show "\<exists>new. length new = gpn E \<and>
      part (st\<lparr>part := ldg_clear E (part st), free_q := ldg_queue E\<rparr>) =
        map2 (@) (ldg_clear E (part st)) new \<and> mset (concat new) = mset [] \<and>
      (\<forall>p < gpn E. \<forall>n \<in> set (new ! p).
        id2pid (st\<lparr>part := ldg_clear E (part st), free_q := ldg_queue E\<rparr>) n = Some p)"
      using map2_append_Nil [OF len] by (intro exI [of _ "replicate (gpn E) []"]) simp
  qed (use len le assms in \<open>auto simp: round_ok_def ldg_queue_def\<close>)
qed

lemma ldg_round:
  assumes "visit_order ord" and env: "env_ok E" and st: "round_ok E st"
    and shuffle: "mset (shuffle [gnpp E..<gnd E]) = mset [gnpp E..<gnd E]"
    and cap: "length (filter (\<lambda>n. \<not> glock_nodes E ! n) [gnpp E..<gnd E]) \<le> card (open_pages E) * gC E"
  shows "\<exists>st' placed. graph_partition_LDG (Suc fuel) ord shuffle E st = Some st' \<and>
    ldg_inv E (ldg_clear E (part st)) placed st' \<and>
    mset placed = mset (filter (\<lambda>n. \<not> glock_nodes E ! n) [gnpp E..<gnd E]) \<and>
    (\<forall>n. n \<notin> set placed \<longrightarrow> id2pid st' n = id2pid st n)"
proof -
  let ?s = "shuffle [gnpp E..<gnd E]"
  let ?u = "\<lambda>n. \<not> glock_nodes E ! n"
  have "distinct ?s" using mset_eq_imp_distinct_iff [OF shuffle] by simp
  moreover have "set ?s = set [gnpp E..<gnd E]" using mset_eq_setD [OF shuffle] .
  moreover have "mset (filter ?u ?s) = mset (filter ?u [gnpp E..<gnd E])"
    using shuffle by simp
  moreover then have "length (filter ?u ?s) = length (filter ?u [gnpp E..<gnd E])"
    by (metis size_mset)
  moreover have "\<forall>p \<in> open_pages E. ldg_clear E (part st) ! p = []"
    using st by (auto simp: open_pages_def nth_ldg_clear round_ok_def)
  ultimately obtain st' where
    "sync_all (Suc fuel) ord E ?s (st\<lparr>part := ldg_clear E (part st), free_q := ldg_queue E\<rparr>) = Some st'"
    "ldg_inv E (ldg_clear E (part st)) (filter ?u ?s) st'"
    "\<forall>n. n \<notin> set (filter ?u ?s) \<longrightarrow> id2pid st' n = id2pid st n"
    using visit_order.sync_all_inv [OF assms(1) env _ ldg_start_inv [OF env st], of ?s fuel] cap
    by auto
  then show ?thesis
    using shuffle env st
    by (intro exI [of _ st'] exI [of _ "filter ?u ?s"])
      (auto simp: graph_partition_LDG_def env_ok_def round_ok_def)
qed

lemma mset_concat_map2:
  "length xs = length ys \<Longrightarrow> mset (concat (map2 (@) xs ys)) = mset (concat xs) + mset (concat ys)"
  by (induction xs ys rule: list_induct2) auto

text \<open> A refinement round of a placement without replica pages returns, whatever the shuffle and whatever
  order the counts are visited in, when every page has its mutex and the pages that are not locked have room for
  the nodes that are not locked: \<open>sync\<close> never meets a full page, \<open>getUnfilled\<close> never waits on an empty queue. It
  keeps what the locked pages held, adds to the pages exactly the unlocked nodes, each once and with \<open>id2pid\<close>
  naming its page, and overfills no page.\<close>

theorem ldg_round_places:
  assumes "\<And>pc. mset (ord pc) = mset pc" and "env_ok E" and "gnpp E = 0" and "round_ok E st"
    and "mset (shuffle [0..<gnd E]) = mset [0..<gnd E]"
    and "length (filter (\<lambda>n. \<not> glock_nodes E ! n) [0..<gnd E]) \<le> card (open_pages E) * gC E"
  shows "\<exists>st'. graph_partition_LDG (Suc fuel) ord shuffle E st = Some st' \<and> round_ok E st' \<and>
    mset (concat (part st')) = mset (concat (ldg_clear E (part st))) +
      mset (filter (\<lambda>n. \<not> glock_nodes E ! n) [0..<gnd E]) \<and>
    (\<forall>p < gpn E. \<exists>nw. part st' ! p = ldg_clear E (part st) ! p @ nw \<and>
      (\<forall>n \<in> set nw. id2pid st' n = Some p)) \<and>
    (\<forall>p < gpn E. glock_pids E ! p \<longrightarrow> ldg_clear E (part st) ! p = part st ! p) \<and>
    (\<forall>n. n \<notin> set (filter (\<lambda>n. \<not> glock_nodes E ! n) [0..<gnd E]) \<longrightarrow>
      id2pid st' n = id2pid st n)"
proof -
  have "visit_order ord" using assms(1) by unfold_locales
  note round = ldg_round [where shuffle = shuffle and E = E, unfolded assms(3), OF this assms(2,4-6), of fuel]
  obtain st' placed where st': "graph_partition_LDG (Suc fuel) ord shuffle E st = Some st'"
      "ldg_inv E (ldg_clear E (part st)) placed st'"
      "mset placed = mset (filter (\<lambda>n. \<not> glock_nodes E ! n) [0..<gnd E])"
      "\<forall>n. n \<notin> set placed \<longrightarrow> id2pid st' n = id2pid st n"
    using round by blast
  obtain nw where nw: "length nw = gpn E" "part st' = map2 (@) (ldg_clear E (part st)) nw"
      "mset (concat nw) = mset placed" "\<forall>p < gpn E. \<forall>n \<in> set (nw ! p). id2pid st' n = Some p"
    using st'(2) by (auto simp: ldg_inv_def)
  have len: "length (ldg_clear E (part st)) = gpn E" using st'(2) by (simp add: ldg_inv_def)
  have "\<forall>p < gpn E. part st' ! p = ldg_clear E (part st) ! p @ nw ! p"
    using nw(1,2) len by simp
  moreover have "mset (concat (part st')) = mset (concat (ldg_clear E (part st))) +
      mset (filter (\<lambda>n. \<not> glock_nodes E ! n) [0..<gnd E])"
    using mset_concat_map2 [of "ldg_clear E (part st)" nw] nw(1-3) st'(3) len by simp
  moreover have "round_ok E st'" using st'(2) by (auto simp: ldg_inv_def round_ok_def)
  moreover have "set placed = set (filter (\<lambda>n. \<not> glock_nodes E ! n) [0..<gnd E])"
    using st'(3) by (rule mset_eq_setD)
  moreover have "\<forall>p < gpn E. glock_pids E ! p \<longrightarrow> ldg_clear E (part st) ! p = part st ! p"
    using assms(4) by (auto simp: nth_ldg_clear round_ok_def)
  ultimately show ?thesis using st'(1,4) nw(4) by metis
qed

definition sample_env :: gp_env where
  "sample_env = \<lparr>gC = 2, gnd = 3, gpn = 2, gnpp = 0, gfull = [[1], [2], [0]],
     gdirect = [[1], [2], [0]], greverse = [[2], [0], [1]], glock_nodes = [False, False, False],
     glock_pids = [False, False], gmutexes = 2\<rparr>"

definition sample_st :: gp_st where
  "sample_st = \<lparr>part = [[0, 1], [2]], id2pid = [0 \<mapsto> 0, 1 \<mapsto> 0, 2 \<mapsto> 1], free_q = []\<rparr>"

lemma sample_ok: "env_ok sample_env" "round_ok sample_env sample_st"
  "length (filter (\<lambda>n. \<not> glock_nodes sample_env ! n) [gnpp sample_env..<gnd sample_env])
     \<le> card (open_pages sample_env) * gC sample_env"
proof -
  show "env_ok sample_env" by (auto simp: env_ok_def sample_env_def gp_INF_def)
  show "round_ok sample_env sample_st"
    by (auto simp: round_ok_def sample_env_def sample_st_def less_Suc_eq numeral_2_eq_2 split: if_splits)
  have "open_pages sample_env = {0, 1}"
    by (auto simp: open_pages_def sample_env_def less_Suc_eq numeral_2_eq_2)
  then show "length (filter (\<lambda>n. \<not> glock_nodes sample_env ! n) [gnpp sample_env..<gnd sample_env])
     \<le> card (open_pages sample_env) * gC sample_env"
    by (simp add: sample_env_def upt_rec)
qed

lemma ldg_round_places_witness:
  "\<exists>st'. graph_partition_LDG (Suc 0) rev rev sample_env sample_st = Some st' \<and>
    mset (concat (part st')) = mset [0, 1, 2]"
proof -
  have clear: "ldg_clear sample_env (part sample_st) = [[], []]" by code_simp
  have npp: "gnpp sample_env = 0" by (simp add: sample_env_def)
  have nodes: "filter (\<lambda>n. \<not> glock_nodes sample_env ! n) [0..<gnd sample_env] = [0, 1, 2]"
    by code_simp
  show ?thesis
    using ldg_round_places [of rev, OF _ sample_ok(1) npp sample_ok(2), of rev 0] sample_ok(3)
    unfolding nodes clear npp by auto
qed

subsection \<open>Selecting a page\<close>

lemma pc_bump_lookup:
  "map_of (pc_bump p pc) q = (if q = p then Some (1 + (case map_of pc p of Some c \<Rightarrow> c | None \<Rightarrow> 0))
     else map_of pc q)"
  by (induction p pc rule: pc_bump.induct) auto

lemma pc_bump_distinct: "distinct (map fst pc) \<Longrightarrow> distinct (map fst (pc_bump p pc))"
proof (induction p pc rule: pc_bump.induct)
  case (2 p q c pc)
  then show ?case using pc_bump_keys [of p pc] by auto
qed simp

lemma pc_count_distinct: "distinct (map fst pc) \<Longrightarrow> distinct (map fst (pc_count m ns pc))"
  by (induction m ns pc rule: pc_count.induct) (auto simp: pc_bump_distinct)

lemma pc_count_lookup:
  "map_of (pc_count m ns pc) p =
   (let k = (if p = gp_INF then 0 else count_list (map (pid_of m) ns) p) in
    if k = 0 then map_of pc p
    else Some (k + (case map_of pc p of Some c \<Rightarrow> c | None \<Rightarrow> 0)))"
  by (induction m ns pc rule: pc_count.induct)
    (auto simp: Let_def pc_bump_lookup split: option.splits)

text \<open>How many neighbors of \<open>i\<close>, in both directions, are on page \<open>p\<close>.\<close>

definition nbrs_on :: "gp_env \<Rightarrow> gp_st \<Rightarrow> nat \<Rightarrow> nat \<Rightarrow> nat" where
  "nbrs_on E st i p = count_list (map (pid_of (id2pid st)) (gdirect E ! i @ greverse E ! i)) p"

lemma counts_are_nbrs_on:
  assumes "(p, c) \<in> set (pc_count (id2pid st) (greverse E ! i) (pc_count (id2pid st) (gdirect E ! i) []))"
  shows "c = nbrs_on E st i p \<and> p \<noteq> gp_INF \<and> 0 < c"
proof -
  let ?pc = "pc_count (id2pid st) (greverse E ! i) (pc_count (id2pid st) (gdirect E ! i) [])"
  have d: "distinct (map fst ?pc)" by (simp add: pc_count_distinct)
  have look: "map_of ?pc p = Some c" using assms d by (simp add: map_of_is_SomeI)
  have "p \<in> fst ` set ?pc" using assms by force
  then have ne: "p \<noteq> gp_INF" unfolding pc_count_keys by auto
  show ?thesis
    using look ne by (auto simp: pc_count_lookup Let_def nbrs_on_def split: if_splits)
qed

lemma nbrs_on_counted:
  assumes "nbrs_on E st i p > 0" "p \<noteq> gp_INF"
  shows "(p, nbrs_on E st i p) \<in>
    set (pc_count (id2pid st) (greverse E ! i) (pc_count (id2pid st) (gdirect E ! i) []))"
  using assms
  by (intro map_of_SomeD) (auto simp: pc_count_lookup Let_def nbrs_on_def)

lemma score_pos_iff: "C > 0 \<Longrightarrow> s < C \<Longrightarrow> score C s c > 0 \<longleftrightarrow> c > 0"
  by (auto simp: score_def zero_less_mult_iff)

lemma score_0 [simp]: "score C s 0 = 0"
  by (simp add: score_def)

text \<open> \<open>select_partition\<close> picks, among the pages with room, one where the number of the
  node's neighbors times the share of free slots is largest, whatever order the counts are
  visited in; it takes a page from the queue of unfilled pages only when no page with room has a
  neighbor.\<close>

theorem select_partition_best:
  assumes "\<And>pc. mset (ord pc) = mset pc" and "env_ok E" and "round_ok E st" and "i < gnd E"
    and "0 < gpn E" and "select_partition ord E st i = Some (pid, st')"
  shows "if \<exists>q < gpn E. length (part st ! q) < gC E \<and> nbrs_on E st i q > 0
    then st' = st \<and> length (part st ! pid) < gC E \<and> nbrs_on E st i pid > 0 \<and>
      (\<forall>q < gpn E. length (part st ! q) < gC E \<longrightarrow>
        score (gC E) (length (part st ! q)) (nbrs_on E st i q) \<le>
        score (gC E) (length (part st ! pid)) (nbrs_on E st i pid))
    else get_unfilled (gC E) (part st) (free_q st) = Some (pid, free_q st')"
proof -
  let ?pc = "pc_count (id2pid st) (greverse E ! i) (pc_count (id2pid st) (gdirect E ! i) [])"
  have vo: "visit_order ord" using assms(1) by unfold_locales
  have set: "set (ord ?pc) = set ?pc" using visit_order.ord_set [OF vo] .
  have keys: "\<forall>(p, c) \<in> set (ord ?pc). p < gmutexes E \<and> p < length (part st)"
    using visit_order.counted_pids [OF vo, of st E] assms(2,3,5)
    by (simp add: env_ok_def round_ok_def)
  have at: "vec_at (gdirect E) i = Some (gdirect E ! i)" "vec_at (greverse E) i = Some (greverse E ! i)"
    using assms(2,4) by (auto simp: env_ok_def vec_at_in)
  obtain res maxn where best: "best_pid E (part st) (ord ?pc) (gp_INF, 0) = Some (res, maxn)"
    using best_pid_in [OF keys, of "(gp_INF, 0)"] by auto
  note max = best_pid_max [OF keys best]
  have len: "length (part st) = gpn E" "gpn E \<le> gp_INF" "gC E > 0"
    using assms(2,3) by (auto simp: env_ok_def round_ok_def)
  have res_cases: "(res = gp_INF \<and> maxn = 0) \<or> (res < gpn E \<and> length (part st ! res) < gC E \<and>
      maxn = score (gC E) (length (part st ! res)) (nbrs_on E st i res))"
  proof (cases "res = gp_INF \<and> maxn = 0")
    case False
    then obtain c where c: "(res, c) \<in> set ?pc" "maxn = score (gC E) (length (part st ! res)) c"
        "length (part st ! res) < gC E"
      using max set by auto
    then have "res < gpn E" using keys set len(1) by auto
    then show ?thesis using c counts_are_nbrs_on [OF c(1)] by auto
  qed simp
  have upper: "score (gC E) (length (part st ! q)) (nbrs_on E st i q) \<le> maxn"
    if "q < gpn E" "length (part st ! q) < gC E" for q
  proof (cases "nbrs_on E st i q > 0")
    case True
    then have "(q, nbrs_on E st i q) \<in> set (ord ?pc)"
      using nbrs_on_counted [OF True] that len(2) set by auto
    then show ?thesis using max that(2) by fastforce
  next
    case False
    then show ?thesis using max by simp
  qed
  show ?thesis
  proof (cases "\<exists>q < gpn E. length (part st ! q) < gC E \<and> nbrs_on E st i q > 0")
    case True
    then obtain q where q: "q < gpn E" "length (part st ! q) < gC E" "nbrs_on E st i q > 0" by blast
    then have "0 < score (gC E) (length (part st ! q)) (nbrs_on E st i q)"
      using score_pos_iff [OF len(3)] by blast
    then have "maxn > 0" using upper [OF q(1,2)] by linarith
    then have r: "res < gpn E" "length (part st ! res) < gC E"
        "maxn = score (gC E) (length (part st ! res)) (nbrs_on E st i res)"
      using res_cases by auto
    then have "pid = res" "st' = st"
      using assms(6) at best len(2) by (auto simp: select_partition_def)
    moreover have "nbrs_on E st i res > 0"
      using \<open>maxn > 0\<close> r score_pos_iff [OF len(3)] by simp
    ultimately show ?thesis using True r upper by auto
  next
    case False
    have "res = gp_INF"
    proof (rule ccontr)
      assume ne: "res \<noteq> gp_INF"
      then obtain c where c: "(res, c) \<in> set ?pc" "length (part st ! res) < gC E"
        using max set by auto
      have "res < gpn E" using c(1) keys set len(1) by auto
      then show False using counts_are_nbrs_on [OF c(1)] c(2) False by auto
    qed
    then show ?thesis unfolding if_not_P [OF False]
      using assms(6) at best by (auto simp: select_partition_def split: bind_splits)
  qed
qed

lemma select_partition_best_witness:
  "length (part sample_st ! 1) < gC sample_env \<and> nbrs_on sample_env sample_st 0 1 > 0"
proof -
  have "map_option fst (select_partition rev sample_env sample_st 0) = Some 1"
    by (simp add: select_partition_def sample_env_def sample_st_def vec_at_def pid_of_def
      gp_INF_def score_def Let_def)
  then obtain st' where run: "select_partition rev sample_env sample_st 0 = Some (1, st')" by auto
  have ex: "\<exists>q < gpn sample_env. length (part sample_st ! q) < gC sample_env \<and>
      nbrs_on sample_env sample_st 0 q > 0"
  proof (rule exI [of _ 1])
    show "1 < gpn sample_env \<and> length (part sample_st ! 1) < gC sample_env \<and>
      nbrs_on sample_env sample_st 0 1 > 0" by code_simp
  qed
  have "0 < gnd sample_env" "0 < gpn sample_env" by (simp_all add: sample_env_def)
  from select_partition_best [of rev, OF _ sample_ok(1,2) this run] ex show ?thesis by simp
qed

subsection \<open>The whole partitioning\<close>

lemma init_put_lock:
  "init_put st v = Some st' \<Longrightarrow> ilock_pids st' = ilock_pids st \<and> ilock_nums st' = ilock_nums st"
  by (auto simp: init_put_def split: bind_splits)

lemma init_nbrs_lock:
  "init_nbrs C filled ss st = Some st' \<Longrightarrow>
   ilock_pids st' = ilock_pids st \<and> ilock_nums st' = ilock_nums st"
  by (induction ss arbitrary: st) (auto split: bind_splits if_splits dest!: init_put_lock)

lemma init_node_nolock:
  "init_node C filled g i st = Some st' \<Longrightarrow> ilock_nums st \<le> 0 \<Longrightarrow>
   ilock_pids st' = ilock_pids st \<and> ilock_nums st' \<le> 0"
  by (auto simp: init_node_def Let_def split: bind_splits if_splits
      dest!: init_put_lock init_nbrs_lock)

lemma init_fill_nolock:
  "init_fill C filled g is st = Some st' \<Longrightarrow> ilock_nums st \<le> 0 \<Longrightarrow>
   ilock_pids st' = ilock_pids st"
  by (induction "is" arbitrary: st) (auto split: bind_splits dest!: init_node_nolock)

lemma lock_leading_False: "lock_leading (replicate n False) ps lk = Some lk"
  by (cases n) auto

text \<open>What the constructor hands over: graphs over the node ids, as many pages as needed.\<close>

definition gp_in_ok :: "gp_in \<Rightarrow> bool" where
  [inv_defs]: "gp_in_ok G \<longleftrightarrow> 2 \<le> in_C G \<and> 0 < in_nd G \<and>
     in_pn G = round_up (in_nd G) (in_C G) div in_C G \<and> in_mutexes G = in_pn G \<and>
     in_pn G \<le> gp_INF \<and>
     length (in_full G) = in_nd G \<and> length (in_direct G) = in_nd G \<and>
     length (in_reverse G) = in_nd G \<and>
     (\<forall>ns \<in> set (in_full G @ in_direct G @ in_reverse G). \<forall>n \<in> set ns. n < in_nd G) \<and>
     (in_freq G = [] \<or> set (map fst (in_freq G)) = {..<in_nd G})"

lemma gp_in_ok_room:
  assumes "gp_in_ok G"
  shows "in_nd G \<le> in_pn G * in_C G \<and> 0 < in_pn G"
proof -
  have "in_nd G \<le> in_C G * in_pn G" "0 < in_nd G"
    using assms ceil_div_bounds [of "in_C G" "in_nd G"] by (auto simp: gp_in_ok_def round_up_div)
  then show ?thesis by (cases "in_pn G") (auto simp: mult.commute)
qed

text \<open>The environment and state of the rounds of an unscaled, unlocked run.\<close>

definition plain_env :: "gp_in \<Rightarrow> gp_env" where
  "plain_env G = \<lparr>gC = in_C G, gnd = in_nd G, gpn = in_pn G, gnpp = 0, gfull = in_full G,
     gdirect = in_direct G, greverse = in_reverse G, glock_nodes = replicate (in_nd G) False,
     glock_pids = replicate (in_pn G) False, gmutexes = in_mutexes G\<rparr>"

lemma plain_env_ok: "gp_in_ok G \<Longrightarrow> env_ok (plain_env G)"
  by (auto simp: env_ok_def plain_env_def gp_in_ok_def)

lemma plain_env_sel [simp]:
  "gC (plain_env G) = in_C G" "gnd (plain_env G) = in_nd G" "gpn (plain_env G) = in_pn G"
  "gnpp (plain_env G) = 0"
  by (simp_all add: plain_env_def)

lemma plain_open: "open_pages (plain_env G) = {..<in_pn G}"
  by (auto simp: open_pages_def plain_env_def)

lemma plain_unlocked:
  "filter (\<lambda>n. \<not> glock_nodes (plain_env G) ! n) [0..<in_nd G] = [0..<in_nd G]"
  by (auto simp: plain_env_def filter_id_conv)

text \<open>Every node on exactly one page, named by \<open>id2pid\<close>, and no page overfull.\<close>

definition is_partition :: "gp_in \<Rightarrow> nat list list \<Rightarrow> (nat \<rightharpoonup> nat) \<Rightarrow> bool" where
  "is_partition G pages ids \<longleftrightarrow>
     length pages = in_pn G \<and> mset (concat pages) = mset [0..<in_nd G] \<and>
     (\<forall>p < in_pn G. length (pages ! p) \<le> in_C G \<and> (\<forall>n \<in> set (pages ! p). ids n = Some p))"

lemma plain_clear:
  "length pages = in_pn G \<Longrightarrow> ldg_clear (plain_env G) pages = replicate (in_pn G) []"
  by (rule nth_equalityI) (auto simp: ldg_clear_def plain_env_def nth_enumerate_eq)

lemma ldg_rounds_plain:
  assumes "visit_order ord" "gp_in_ok G" "mset (shuffle [0..<in_nd G]) = mset [0..<in_nd G]"
    and "round_ok (plain_env G) st" "is_partition G (part st) (id2pid st)"
  shows "\<exists>st'. ldg_rounds k (Suc fuel) ord shuffle (plain_env G) st = Some st' \<and>
    is_partition G (part st') (id2pid st')"
  using assms(4,5)
proof (induction k arbitrary: st)
  case (Suc k)
  have cap: "length (filter (\<lambda>n. \<not> glock_nodes (plain_env G) ! n) [gnpp (plain_env G)..<gnd (plain_env G)])
      \<le> card (open_pages (plain_env G)) * gC (plain_env G)"
    using gp_in_ok_room [OF assms(2)] by (simp add: plain_open plain_unlocked)
  have sh: "mset (shuffle [gnpp (plain_env G)..<gnd (plain_env G)]) =
      mset [gnpp (plain_env G)..<gnd (plain_env G)]" using assms(3) by simp
  obtain st1 placed where 1: "graph_partition_LDG (Suc fuel) ord shuffle (plain_env G) st = Some st1"
      "ldg_inv (plain_env G) (ldg_clear (plain_env G) (part st)) placed st1"
      "mset placed = mset [0..<in_nd G]"
    using ldg_round [where shuffle = shuffle, OF assms(1) plain_env_ok [OF assms(2)] Suc.prems(1) sh cap, of fuel]
    by (auto simp: plain_unlocked)
  have clear: "ldg_clear (plain_env G) (part st) = replicate (in_pn G) []"
    using Suc.prems(1) by (intro plain_clear) (simp add: round_ok_def)
  have id: "map2 (@) (replicate (in_pn G) []) nw = nw" if "length nw = in_pn G" for nw :: "nat list list"
    using that by (intro nth_equalityI) auto
  have "is_partition G (part st1) (id2pid st1)"
    using 1(2,3) clear id by (auto simp: is_partition_def ldg_inv_def)
  moreover have "round_ok (plain_env G) st1" using 1(2) by (auto simp: ldg_inv_def round_ok_def)
  ultimately show ?case using Suc.IH [of st1] 1(1) by simp
qed simp

text \<open>A node that has not been placed keeps its entry of \<open>id2pid\<close>.\<close>

definition keeps_ids :: "init_st \<Rightarrow> init_st \<Rightarrow> bool" where
  "keeps_ids st st' \<longleftrightarrow> ivis st \<subseteq> ivis st' \<and> (\<forall>n. n \<notin> ivis st' \<longrightarrow> iid2pid st' n = iid2pid st n)"

lemma keeps_ids_refl: "keeps_ids st st"
  by (simp add: keeps_ids_def)

lemma keeps_ids_trans: "keeps_ids st st1 \<Longrightarrow> keeps_ids st1 st2 \<Longrightarrow> keeps_ids st st2"
  by (auto simp: keeps_ids_def)

lemma keeps_ids_update [simp]:
  "keeps_ids (st\<lparr>ipid := a\<rparr>) st' = keeps_ids st st'"
  "keeps_ids (st\<lparr>ilock_nums := b\<rparr>) st' = keeps_ids st st'"
  "keeps_ids (st\<lparr>ilock_pids := c\<rparr>) st' = keeps_ids st st'"
  "keeps_ids st (st'\<lparr>ipid := a\<rparr>) = keeps_ids st st'"
  "keeps_ids st (st'\<lparr>ilock_nums := b\<rparr>) = keeps_ids st st'"
  by (simp_all add: keeps_ids_def)

lemma init_put_keeps: "init_put st v = Some st' \<Longrightarrow> keeps_ids st st'"
  by (auto simp: init_put_def keeps_ids_def split: bind_splits)

lemma init_nbrs_keeps: "init_nbrs C filled ss st = Some st' \<Longrightarrow> keeps_ids st st'"
proof (induction ss arbitrary: st)
  case (Cons s ss)
  then show ?case
    by (auto split: bind_splits if_splits simp: keeps_ids_refl
        intro: keeps_ids_trans dest: init_put_keeps)
qed (simp add: keeps_ids_refl)

lemma init_node_keeps: "init_node C filled g i st = Some st' \<Longrightarrow> keeps_ids st st'"
  by (auto simp: init_node_def Let_def keeps_ids_refl split: bind_splits if_splits
      dest!: init_put_keeps init_nbrs_keeps intro: keeps_ids_trans)

lemma init_fill_keeps: "init_fill C filled g is st = Some st' \<Longrightarrow> keeps_ids st st'"
  by (induction "is" arbitrary: st)
    (auto simp: keeps_ids_refl split: bind_splits dest!: init_node_keeps intro: keeps_ids_trans)

lemma pages_hold_mset:
  "pages_hold C pn npp {npp..<nd} pages ids \<Longrightarrow> mset (concat (drop npp pages)) = mset [npp..<nd]"
  unfolding pages_hold_def by (metis atLeastLessThan_upt distinct_upt set_eq_iff_mset_eq_distinct)

text \<open> C9. Without replicas and locks, \<open>graph_partition\<close> returns for every number of rounds, every
  sort, shuffle and visiting order, and its result is a partition: every node is on exactly one
  page, no page has more than \<open>C\<close> nodes, and \<open>id2pid\<close> names the page of every node.\<close>

theorem graph_partition_partitions:
  assumes "\<And>pc. mset (ord pc) = mset pc" and "gp_in_ok G"
    and "mset (shuffle [0..<in_nd G]) = mset [0..<in_nd G]"
  shows "\<exists>pages ids. graph_partition (Suc fuel) srt ord shuffle G k 1 0 = Some (pages, ids) \<and>
    length pages = in_pn G \<and> mset (concat pages) = mset [0..<in_nd G] \<and>
    (\<forall>p < in_pn G. length (pages ! p) \<le> in_C G \<and> (\<forall>n \<in> set (pages ! p). ids n = Some p))"
proof -
  have vo: "visit_order ord" using assms(1) by unfold_locales
  let ?st = "gp_start (in_nd G) (in_pn G)"
  let ?stream = "if in_freq G \<noteq> [] then map fst (in_freq G) else [0..<in_nd G]"
  have stream: "set ?stream = {0..<in_nd G}"
    using assms(2) by (cases "in_freq G = []") (auto simp: gp_in_ok_def atLeast0LessThan simp del: set_map)
  have room: "in_nd G - 0 \<le> (in_pn G - 0) * in_C G" "0 < in_pn G"
    using gp_in_ok_room [OF assms(2)] by auto
  have adj: "\<forall>adj \<in> set (in_full G). \<forall>s \<in> set adj. s < in_nd G" "length (in_full G) = in_nd G"
      "0 < in_C G" "0 < in_nd G"
    using assms(2) by (auto simp: gp_in_ok_def)
  obtain f where f: "init_fill (in_C G) (filled_nodes ?st) (in_full G) ?stream
        (gp_fill_start 0 (in_pn G) 0 ?st) = Some f"
      "pages_hold (in_C G) (in_pn G) 0 {0..<in_nd G} (ipart f) (iid2pid f)" "ivis f = {0..<in_nd G}"
    using init_fill_places [of "in_C G" 0 "in_pn G" ?st "in_nd G" "in_full G" ?stream 0]
      adj room stream by (auto simp: gp_start_def)
  have lp: "ilock_pids f = replicate (in_pn G) False"
    using init_fill_nolock [OF f(1)] by (simp add: gp_fill_start_def)
  have part0: "is_partition G (ipart f) (iid2pid f)"
    using pages_hold_mset [OF f(2)] f(2) by (auto simp: is_partition_def pages_hold_def)
  have "m < in_pn G \<or> m = gp_INF" if "iid2pid f n = Some m" for n m
  proof (cases "n < in_nd G")
    case True
    then have "n \<in> set (concat (ipart f))" using f(2) by (auto simp: pages_hold_def)
    then obtain p where "p < length (ipart f)" "n \<in> set (ipart f ! p)"
      by (metis UN_E in_set_conv_nth set_concat)
    then show ?thesis using part0 that by (auto simp: is_partition_def)
  next
    case False
    have "keeps_ids (gp_fill_start 0 (in_pn G) 0 ?st) f" using init_fill_keeps [OF f(1)] .
    then show ?thesis using False that f(3)
      by (auto simp: keeps_ids_def gp_fill_start_def gp_start_def split: if_splits)
  qed
  then have start: "round_ok (plain_env G) \<lparr>part = ipart f, id2pid = iid2pid f, free_q = []\<rparr>"
    using part0 by (auto simp: round_ok_def is_partition_def)
  obtain r where r: "ldg_rounds k (Suc fuel) ord shuffle (plain_env G)
        \<lparr>part = ipart f, id2pid = iid2pid f, free_q = []\<rparr> = Some r"
      "is_partition G (part r) (id2pid r)"
    using ldg_rounds_plain [where shuffle = shuffle, OF vo assms(2,3) start, of k fuel] part0 by auto
  have "graph_partition (Suc fuel) srt ord shuffle G k 1 0 = Some (part r, id2pid r)"
    using f(1) r(1) adj(4) room(2) unfolding graph_partition_def
    by (simp add: scaled_counts_def Let_def lp lock_leading_False vec_at_in flip: plain_env_def)
  then show ?thesis using r(2) by (auto simp: is_partition_def)
qed

definition sample_in :: gp_in where
  "sample_in = \<lparr>in_nd = 3, in_C = 2, in_pn = 2, in_full = [[1], [2], [0]],
     in_direct = [[1], [2], [0]], in_reverse = [[2], [0], [1]], in_freq = [], in_mutexes = 2\<rparr>"

lemma sample_in_ok: "gp_in_ok sample_in"
  by (auto simp: gp_in_ok_def sample_in_def gp_INF_def round_up_def)

lemma graph_partition_partitions_witness:
  "\<exists>pages ids. graph_partition 1 id rev rev sample_in 2 1 0 = Some (pages, ids) \<and>
    mset (concat pages) = mset [0, 1, 2]"
proof -
  have "[0..<in_nd sample_in] = [0, 1, 2]" by (simp add: sample_in_def upt_rec)
  then show ?thesis
    using graph_partition_partitions [of rev sample_in rev 0 id 2] sample_in_ok by auto
qed

text \<open> With replica pages and no rounds, \<open>graph_partition\<close> returns: the first \<open>npp\<close> pages each
  start with their own node, and every other node is on exactly one of the pages after them;
  no page has more than \<open>C\<close> nodes, and \<open>id2pid\<close> names the page of every node.\<close>

theorem graph_partition_replicas:
  assumes "\<And>xs. mset (srt xs) = mset xs" and "gp_in_ok G" and "in_freq G = []"
    and "2 \<le> scale" "scale \<le> in_C G" and "in_C G \<le> fuel"
  shows "\<exists>pn npp pages ids. scaled_counts (in_nd G) (in_C G) (in_pn G) scale = Some (pn, npp) \<and>
    graph_partition fuel srt ord shuffle G 0 scale 0 = Some (pages, ids) \<and> length pages = pn \<and>
    (\<forall>p < npp. hd (pages ! p) = p \<and> ids p = Some p) \<and>
    mset (concat (drop npp pages)) = mset [npp..<in_nd G] \<and>
    (\<forall>p < pn. length (pages ! p) \<le> in_C G) \<and>
    (\<forall>p < pn. npp \<le> p \<longrightarrow> (\<forall>n \<in> set (pages ! p). ids n = Some p))"
proof -
  let ?nd = "in_nd G" and ?C = "in_C G"
  have in_ok: "2 \<le> ?C" "0 < ?nd" "length (in_full G) = ?nd"
      "\<forall>adj \<in> set (in_full G). \<forall>s \<in> set adj. s < ?nd"
    using assms(2) by (auto simp: gp_in_ok_def)
  obtain pn npp where counts: "scaled_counts ?nd ?C (in_pn G) scale = Some (pn, npp)"
      "npp \<le> pn" "npp \<le> ?nd" "?nd - npp \<le> (pn - npp) * ?C"
    using scaled_counts_bounds [OF in_ok(1) assms(4,5)] by blast
  obtain st where st: "scaled_primary fuel srt ?C (in_full G) [] npp (gp_start ?nd pn) = Some st"
      "prim_inv ?C pn ?nd npp st" "length (filled_nodes st) = ?nd"
      "\<forall>i < ?nd. filled_nodes st ! i \<longleftrightarrow> i < npp" "\<forall>i < npp. pid2pid st i = Some i"
    using scaled_primary_ok [OF assms(1) counts(2,3) _ assms(6) in_ok(3,4)] in_ok(1) by auto
  have prim: "length (ppart st) = pn" "\<forall>p. npp \<le> p \<and> p < pn \<longrightarrow> ppart st ! p = []"
      "\<forall>p < npp. hd (ppart st ! p) = p \<and> length (ppart st ! p) \<le> ?C"
    using st(2) by (fastforce simp: prim_inv_def)+
  have scale: "scale \<noteq> 0" "scale \<noteq> 1" using assms(4) by auto
  show ?thesis
  proof (cases "npp = ?nd")
    case True
    have "ppart st ! p = []" if "npp \<le> p" "p < pn" for p using prim(2) that by simp
    then have "concat (drop npp (ppart st)) = []" using prim(1)
      by (auto simp: concat_eq_Nil_conv in_set_conv_nth)
    moreover have "graph_partition fuel srt ord shuffle G 0 scale 0 = Some (ppart st, pid2pid st)"
      using scale counts(1) st(1) True assms(3) by (simp add: graph_partition_def Let_def)
    moreover have "length (ppart st ! p) \<le> ?C" if "p < pn" for p
      using that prim by (cases "p < npp") auto
    moreover have "\<forall>p < pn. npp \<le> p \<longrightarrow> (\<forall>n \<in> set (ppart st ! p). pid2pid st n = Some p)"
      using prim(2) by auto
    ultimately show ?thesis
      using counts(1) prim(1,3) st(5) True
      by (intro exI [of _ pn] exI [of _ npp] exI [of _ "ppart st"] exI [of _ "pid2pid st"]) simp
  next
    case False
    have npp_pn: "npp < pn" using False counts by (cases "npp = pn") auto
    obtain f where f: "init_fill ?C (filled_nodes st) (in_full G) [npp..<?nd]
          (gp_fill_start npp pn 0 st) = Some f"
        "pages_hold ?C pn npp {npp..<?nd} (ipart f) (iid2pid f)"
        "take npp (ipart f) = take npp (ppart st)" "length (ilock_pids f) = pn"
        "ivis f = {npp..<?nd}"
      using init_fill_places [of ?C npp pn st ?nd "in_full G" "[npp..<?nd]" 0]
        in_ok npp_pn prim(1,2) st(3,4) counts(4) by auto
    have lp: "ilock_pids f = replicate pn False"
      using init_fill_nolock [OF f(1)] by (simp add: gp_fill_start_def)
    have run: "graph_partition fuel srt ord shuffle G 0 scale 0 = Some (ipart f, iid2pid f)"
      using scale counts(1) st(1) False assms(3) f(1) npp_pn
      by (simp add: graph_partition_def Let_def lp drop_replicate lock_leading_False vec_at_in)
    have prefix: "ipart f ! p = ppart st ! p" if "p < npp" for p
      using that f(3) by (metis nth_take)
    have ids: "iid2pid f p = Some p" if "p < npp" for p
    proof -
      have "p \<notin> ivis f" using f(5) that by simp
      then show ?thesis using init_fill_keeps [OF f(1)] st(5) that
        by (auto simp: keeps_ids_def gp_fill_start_def)
    qed
    have "length (ipart f ! p) \<le> ?C" if "p < pn" for p
      using that prefix [of p] prim(3) f(2) by (cases "p < npp") (auto simp: pages_hold_def)
    then show ?thesis
      using counts(1) run prefix prim(3) ids pages_hold_mset [OF f(2)] f(2)
      by (intro exI [of _ pn] exI [of _ npp] exI [of _ "ipart f"] exI [of _ "iid2pid f"])
        (auto simp: pages_hold_def)
  qed
qed

lemma graph_partition_replicas_witness:
  "\<exists>pn npp pages ids. graph_partition 2 (isort snd_less) id id sample_in 0 2 0 = Some (pages, ids) \<and>
    length pages = pn \<and> (\<forall>p < npp. hd (pages ! p) = p)"
  using graph_partition_replicas [of "isort snd_less" sample_in 2 2 id id] sample_in_ok
  by (auto simp: sample_in_def)

text \<open> The constructor makes one mutex per page before the replica stage raises the number of
  pages: with 2 copies of each of 3 nodes on pages of 3, the first round already locks a mutex
  that does not exist, while the same run without rounds returns.\<close>

theorem replica_round_lacks_mutex:
  "let G = \<lparr>in_nd = 3, in_C = 3, in_pn = round_up 3 3 div 3, in_full = [[], [], []],
       in_direct = [[], [], []], in_reverse = [[], [], []], in_freq = [],
       in_mutexes = round_up 3 3 div 3\<rparr> in
   graph_partition 3 id id id G 1 2 0 = None \<and>
   map_option fst (graph_partition 3 id id id G 0 2 0) = Some [[0], [1, 2]]"
proof -
  have upt: "[0..<Suc 0] = [0]" "[0..<3] = [0, 1, 2::nat]" "[Suc 0..<3] = [Suc 0, 2]" "[Suc 0..<2] = [Suc 0]"
    by (simp_all add: upt_rec)
  have counts: "scaled_counts 3 3 (Suc 0) 2 = Some (2, Suc 0)"
    by (simp add: scaled_counts_def round_up_def)
  let ?ids = "\<lambda>i. if i < 3 then Some gp_INF else None"
  let ?P = "\<lparr>ppart = [[0], []], pid2pid = ?ids(0 \<mapsto> 0), store_cnt = [Suc 0, 0, 0],
    aux_id2pid = [[], [], []], filled_nodes = [True, False, False]\<rparr>"
  have start: "gp_start 3 2 = \<lparr>ppart = [[], []], pid2pid = ?ids, store_cnt = [0, 0, 0],
    aux_id2pid = [[], [], []], filled_nodes = [False, False, False]\<rparr>"
    by (simp add: gp_start_def numeral_3_eq_3 numeral_2_eq_2)
  have "expand_page 2 id 3 [[], [], []] 0 (Suc 0) ?P = Some ?P"
    by (subst expand_page.simps) (simp add: vec_at_def)
  then have page: "expand_page 3 id 3 [[], [], []] 0 0 ?P = Some ?P"
    by (subst expand_page.simps) (simp add: vec_at_def)
  have prim: "scaled_primary 3 id 3 [[], [], []] [] (Suc 0) (gp_start 3 2) = Some ?P"
    using page
    by (simp add: scaled_primary_def start upt prim_seed_def vec_at_def vec_put_def vec_push_at_def)
  let ?F = "\<lparr>ipart = [[0], [Suc 0, 2]], iid2pid = ?ids(0 \<mapsto> 0, Suc 0 \<mapsto> Suc 0, 2 \<mapsto> Suc 0), ivis = {2, Suc 0},
    ipid = Suc 0, ilock_pids = [False, False], ilock_nums = 0\<rparr>"
  have fill: "init_fill 3 [True, False, False] [[], [], []] [Suc 0, 2] (gp_fill_start (Suc 0) 2 0 ?P) = Some ?F"
    by (simp add: gp_fill_start_def init_node_def init_put_def vec_at_def vec_push_at_def
        numeral_2_eq_2)
  let ?E = "\<lparr>gC = 3, gnd = 3, gpn = 2, gnpp = Suc 0, gfull = [[], [], []], gdirect = [[], [], []],
    greverse = [[], [], []], glock_nodes = [False, False, False], glock_pids = [False, False],
    gmutexes = Suc 0\<rparr>"
  have ldg: "graph_partition_LDG 3 id id ?E
      \<lparr>part = [[0], [Suc 0, 2]], id2pid = ?ids(0 \<mapsto> 0, Suc 0 \<mapsto> Suc 0, 2 \<mapsto> Suc 0), free_q = []\<rparr> = None"
    by (simp add: graph_partition_LDG_def upt ldg_queue_def ldg_clear_def sync_def numeral_3_eq_3
        select_partition_def vec_at_def)
  have lk: "replicate 3 False = [False, False, False]" by (simp add: numeral_3_eq_3)
  show ?thesis
    using ldg by (simp add: graph_partition_def Let_def counts prim upt fill lk vec_at_def round_up_def
        del: init_fill.simps)
qed

end
