(* ===== verification/Bytes.thy ===== *)
theory Bytes
  imports Prelude
begin

text \<open>
  Little-endian integers in byte files, as the code writes and reads them with
  \<open>write((char *)&x, sizeof x)\<close> and \<open>read((char *)&x, sizeof x)\<close>. A byte is a \<open>u8\<close>; a stream is
  the list of the bytes not yet read. Reading past the end is \<open>None\<close>.
\<close>

type_synonym bytes = "u8 list"

fun le_put :: "nat \<Rightarrow> nat \<Rightarrow> bytes" where
  "le_put 0 n = []"
| "le_put (Suc k) n = of_nat (n mod 256) # le_put k (n div 256)"

fun le_val :: "bytes \<Rightarrow> nat" where
  "le_val [] = 0"
| "le_val (b # bs) = unat b + 256 * le_val bs"

definition rd_bytes :: "nat \<Rightarrow> bytes \<Rightarrow> (bytes \<times> bytes) option" where
  "rd_bytes k s = (if k \<le> length s then Some (take k s, drop k s) else None)"

definition rd_le :: "nat \<Rightarrow> bytes \<Rightarrow> (nat \<times> bytes) option" where
  "rd_le k s = (if k \<le> length s then Some (le_val (take k s), drop k s) else None)"

text \<open>\<open>n\<close> integers of \<open>k\<close> bytes each.\<close>

fun rd_les :: "nat \<Rightarrow> nat \<Rightarrow> bytes \<Rightarrow> (nat list \<times> bytes) option" where
  "rd_les k 0 s = Some ([], s)"
| "rd_les k (Suc n) s = do {
     (x, s) \<leftarrow> rd_le k s;
     (xs, s) \<leftarrow> rd_les k n s;
     Some (x # xs, s)
   }"

definition les_put :: "nat \<Rightarrow> nat list \<Rightarrow> bytes" where
  "les_put k xs = concat (map (le_put k) xs)"

lemma length_le_put [simp]: "length (le_put k n) = k"
  by (induction k arbitrary: n) auto

lemma le_val_put: "le_val (le_put k n) = n mod 256 ^ k"
proof (induction k arbitrary: n)
  case (Suc k)
  have "unat (of_nat (n mod 256) :: u8) = n mod 256"
    by (simp add: unat_of_nat)
  then show ?case using Suc by (simp add: mod_mult2_eq)
qed simp

lemma rd_le_put [simp]: "n < 256 ^ k \<Longrightarrow> rd_le k (le_put k n @ s) = Some (n, s)"
  by (simp add: rd_le_def le_val_put)

lemma length_les_put [simp]: "length (les_put k xs) = k * length xs"
  by (induction xs) (auto simp: les_put_def)

lemma les_put_simps [simp]:
  "les_put k [] = []" "les_put k (x # xs) = le_put k x @ les_put k xs"
  "les_put k (xs @ ys) = les_put k xs @ les_put k ys"
  by (simp_all add: les_put_def)

lemma rd_les_put [simp]:
  "\<forall>x \<in> set xs. x < 256 ^ k \<Longrightarrow> rd_les k (length xs) (les_put k xs @ s) = Some (xs, s)"
  by (induction xs) auto

lemma rd_le_put_end [simp]: "n < 256 ^ k \<Longrightarrow> rd_le k (le_put k n) = Some (n, [])"
  using rd_le_put [of n k "[]"] by simp

lemma rd_les_put_end [simp]:
  "\<forall>x \<in> set xs. x < 256 ^ k \<Longrightarrow> rd_les k (length xs) (les_put k xs) = Some (xs, [])"
  using rd_les_put [of xs k "[]"] by simp

lemma rd_bytes_app [simp]: "length a = k \<Longrightarrow> rd_bytes k (a @ s) = Some (a, s)"
  by (simp add: rd_bytes_def)

end
