(* ===== verification/PartitionIO.thy ===== *)
theory PartitionIO
  imports Bytes GraphPartition
begin

text \<open>
  The files of \<open>Gorgeous/graph_partition/include/partitioner.h\<close>: the metadata and the node
  records of a disk index (\<open>get_disk_index_meta\<close>, \<open>load_disk_index\<close>), the in-memory graph
  (\<open>load_vamana\<close>), and the partition file (\<open>save_partition\<close>, \<open>load_partition\<close>, \<open>re_id2pid\<close>). A file is its list of bytes; \<open>None\<close> is a read
  past its end or an access outside a buffer.
\<close>

subsection \<open>The partition file\<close>

record partition_file =
  pf_C :: nat
  pf_pn :: nat
  pf_nd :: nat
  pf_part :: "nat list list"
  pf_id2pid :: "nat \<rightharpoonup> nat"

definition save_pages :: "nat list list \<Rightarrow> bytes" where
  "save_pages pages = concat (map (\<lambda>p. le_put 4 (length p) @ les_put 4 p) pages)"

text \<open>\<open>id2pidv\<close> is zero where \<open>id2pid\<close> has no entry; its keys are node ids below \<open>_nd\<close>.\<close>

definition save_partition :: "partition_file \<Rightarrow> bytes option" where
  "save_partition P =
     (if length (pf_part P) < pf_pn P then None
      else Some (le_put 8 (pf_C P) @ le_put 8 (pf_pn P) @ le_put 8 (pf_nd P) @
        save_pages (take (pf_pn P) (pf_part P)) @
        les_put 4 (map (\<lambda>i. case pf_id2pid P i of Some p \<Rightarrow> p | None \<Rightarrow> 0) [0..<pf_nd P])))"

text \<open>The pages are read through a buffer of \<open>C\<close> ids.\<close>

fun load_pages :: "nat \<Rightarrow> nat \<Rightarrow> bytes \<Rightarrow> (nat list list \<times> bytes) option" where
  "load_pages C 0 s = Some ([], s)"
| "load_pages C (Suc n) s = do {
     (c, s) \<leftarrow> rd_le 4 s;
     if c > C then None
     else do {
       (p, s) \<leftarrow> rd_les 4 c s;
       (ps, s) \<leftarrow> load_pages C n s;
       Some (p # ps, s)
     }
   }"

fun re_id2pid_page :: "nat \<Rightarrow> nat list \<Rightarrow> (nat \<rightharpoonup> nat) \<Rightarrow> nat \<rightharpoonup> nat" where
  "re_id2pid_page i [] m = m"
| "re_id2pid_page i (n # ns) m = re_id2pid_page i ns (m(n \<mapsto> i))"

fun re_id2pid_from :: "nat \<Rightarrow> nat list list \<Rightarrow> (nat \<rightharpoonup> nat) \<Rightarrow> nat \<rightharpoonup> nat" where
  "re_id2pid_from i [] m = m"
| "re_id2pid_from i (p # ps) m = re_id2pid_from (Suc i) ps (re_id2pid_page i p m)"

definition re_id2pid :: "nat list list \<Rightarrow> nat \<rightharpoonup> nat" where
  "re_id2pid pages = re_id2pid_from 0 pages Map.empty"

definition load_partition :: "bytes \<Rightarrow> partition_file option" where
  "load_partition s = do {
     (C, s) \<leftarrow> rd_le 8 s;
     (pn, s) \<leftarrow> rd_le 8 s;
     (nd, s) \<leftarrow> rd_le 8 s;
     (pages, s) \<leftarrow> load_pages C pn s;
     Some \<lparr>pf_C = C, pf_pn = pn, pf_nd = nd, pf_part = pages, pf_id2pid = re_id2pid pages\<rparr>
   }"

subsection \<open>The metadata of a disk index\<close>

definition get_disk_index_meta :: "bytes \<Rightarrow> (bool \<times> nat list) option" where
  "get_disk_index_meta f = do {
     (meta_n, s) \<leftarrow> rd_le 4 f;
     (meta_dim, s) \<leftarrow> rd_le 4 s;
     if meta_n = 9 \<or> meta_n = 12 then do {
       (metas, s) \<leftarrow> rd_les 8 meta_n s;
       Some (True, metas)
     } else do {
       (metas, s) \<leftarrow> rd_les 8 11 f;
       Some (False, metas)
     }
   }"

text \<open>The size check of the constructor.\<close>

definition index_size_ok :: "bytes \<Rightarrow> bool option" where
  "index_size_ok f = do {
     (is_new, metas) \<leftarrow> get_disk_index_meta f;
     Some (length f = (if is_new then last metas else hd metas))
   }"

subsection \<open>load_disk_index\<close>

datatype gp_mode = ALL_MODE | GRAPH_ONLY | EMB_ONLY | GRAPH_REPLICA

text \<open>The neighbors of the \<open>j\<close>-th node of a sector; \<open>vec\<close> is the size of its vector in bytes.\<close>

definition sector_node :: "nat \<Rightarrow> nat \<Rightarrow> bytes \<Rightarrow> nat \<Rightarrow> nat list option" where
  "sector_node max_node_len vec sector j = do {
     (pre, s) \<leftarrow> rd_bytes (j * max_node_len) sector;
     (node, s) \<leftarrow> rd_bytes max_node_len s;
     (v, s) \<leftarrow> rd_bytes vec node;
     (nnbr, s) \<leftarrow> rd_le 4 s;
     (nbrs, s) \<leftarrow> rd_les 4 nnbr s;
     Some nbrs
   }"

fun sector_nodes :: "nat \<Rightarrow> nat \<Rightarrow> bytes \<Rightarrow> nat \<Rightarrow> nat \<Rightarrow> nat list list option" where
  "sector_nodes max_node_len vec sector j 0 = Some []"
| "sector_nodes max_node_len vec sector j (Suc n) = do {
     nbrs \<leftarrow> sector_node max_node_len vec sector j;
     rest \<leftarrow> sector_nodes max_node_len vec sector (j + 1) n;
     Some (nbrs # rest)
   }"

text \<open>\<open>cur_batch_size\<close> sectors from \<open>cur_start\<close> on; a sector holds up to \<open>C\<close> of the \<open>nd\<close> nodes.\<close>

fun batch_nodes ::
  "nat \<Rightarrow> nat \<Rightarrow> nat \<Rightarrow> nat \<Rightarrow> nat \<Rightarrow> nat \<Rightarrow> nat \<Rightarrow> bytes \<Rightarrow> (nat list list \<times> bytes) option" where
  "batch_nodes max_node_len vec sec_len C nd cur_start 0 s = Some ([], s)"
| "batch_nodes max_node_len vec sec_len C nd cur_start (Suc n) s = do {
     (sector, s) \<leftarrow> rd_bytes sec_len s;
     ns \<leftarrow> sector_nodes max_node_len vec sector 0 (min C (nd - cur_start * C));
     (rest, s) \<leftarrow> batch_nodes max_node_len vec sec_len C nd (cur_start + 1) n s;
     Some (ns @ rest, s)
   }"

function load_batches ::
  "nat \<Rightarrow> nat \<Rightarrow> nat \<Rightarrow> nat \<Rightarrow> nat \<Rightarrow> nat \<Rightarrow> nat \<Rightarrow> nat \<Rightarrow> bytes \<Rightarrow> nat list list option" where
  "load_batches batch max_node_len vec sec_len C nd pn cur_start s =
     (if cur_start < pn \<and> batch > 0 then do {
        let cur_batch_size = (if cur_start + batch > pn then pn - cur_start else batch);
        (ns, s) \<leftarrow> batch_nodes max_node_len vec sec_len C nd cur_start cur_batch_size s;
        rest \<leftarrow> load_batches batch max_node_len vec sec_len C nd pn (cur_start + cur_batch_size) s;
        Some (ns @ rest)
      } else Some [])"
  by pat_completeness auto
termination
  by (relation "measure (\<lambda>(batch, m, v, l, C, nd, pn, cur_start, s). pn - cur_start)")
    (auto simp: Let_def split: if_splits)

declare load_batches.simps [simp del]

record disk_graph =
  dg_nd :: nat
  dg_dim :: nat
  dg_node_len :: nat
  dg_C :: nat
  dg_pn :: nat
  dg_full :: "nat list list"

text \<open>
  The length of a node on the output pages and how many fit. \<open>graph_len\<close> and \<open>emb_len\<close> are the
  flags that add an id to every node; \<open>_max_node_len\<close> is at least the vector, so the
  subtraction does not wrap.
\<close>

definition page_layout ::
  "gp_mode \<Rightarrow> bool \<Rightarrow> bool \<Rightarrow> nat \<Rightarrow> nat \<Rightarrow> nat \<Rightarrow> nat \<Rightarrow> (nat \<times> nat) option" where
  "page_layout mode graph_len emb_len max_node_len vec out_len BS =
     (let len = (case mode of
            ALL_MODE \<Rightarrow> max_node_len
          | GRAPH_ONLY \<Rightarrow> max_node_len - vec + (if graph_len then 4 else 0)
          | EMB_ONLY \<Rightarrow> vec + (if emb_len then 4 else 0)
          | GRAPH_REPLICA \<Rightarrow> max_node_len - vec + 4);
          bytes = (if mode = GRAPH_REPLICA then out_len * BS - vec else out_len * BS) in
      if max_node_len < vec \<or> len = 0 \<or> (mode = GRAPH_REPLICA \<and> out_len * BS < vec) then None
      else Some (len, bytes div len))"

definition load_disk_index ::
  "nat \<Rightarrow> gp_mode \<Rightarrow> bool \<Rightarrow> bool \<Rightarrow> nat \<Rightarrow> nat \<Rightarrow> nat \<Rightarrow> nat \<Rightarrow> bytes \<Rightarrow> disk_graph option" where
  "load_disk_index batch mode graph_len emb_len sizeof_T BS sec_len out_len f = do {
     (is_new, metas) \<leftarrow> get_disk_index_meta f;
     let nd = (if is_new then hd metas else metas ! 1);
     let dim = metas ! 1;
     let max_node_len = metas ! 3;
     let C = metas ! 4;
     if C = 0 then None
     else do {
       (hdr, s) \<leftarrow> rd_bytes sec_len f;
       g \<leftarrow> load_batches batch max_node_len (dim * sizeof_T) sec_len C nd (round_up nd C div C) 0 s;
       (len, C') \<leftarrow> page_layout mode graph_len emb_len max_node_len (dim * sizeof_T) out_len BS;
       if C' = 0 then None
       else Some \<lparr>dg_nd = nd, dg_dim = dim, dg_node_len = len, dg_C = C',
                  dg_pn = round_up nd C' div C', dg_full = g\<rparr>
     }
   }"

subsection \<open>load_vamana\<close>

function load_vamana_nodes :: "bytes \<Rightarrow> nat list list option" where
  "load_vamana_nodes s =
     (if s = [] then Some []
      else case rd_le 4 s of
        None \<Rightarrow> None
      | Some (k, s1) \<Rightarrow> (case rd_les 4 k s1 of
          None \<Rightarrow> None
        | Some (tmp, s2) \<Rightarrow>
            if length s2 < length s
            then (case load_vamana_nodes s2 of None \<Rightarrow> None | Some rest \<Rightarrow> Some (tmp # rest))
            else None))"
  by pat_completeness auto
termination by (relation "measure length") auto

declare load_vamana_nodes.simps [simp del]

text \<open>\<open>_nd\<close> must be set before; the result is the width, the entry point and the graph.\<close>

definition load_vamana :: "nat \<Rightarrow> bool \<Rightarrow> bytes \<Rightarrow> (nat \<times> nat \<times> nat list list) option" where
  "load_vamana nd sample f = do {
     (expected_file_size, s) \<leftarrow> rd_le 8 f;
     (width, s) \<leftarrow> rd_le 4 s;
     (ep, s) \<leftarrow> rd_le 4 s;
     g \<leftarrow> load_vamana_nodes s;
     if length g \<noteq> nd then None
     else Some (width, ep, if sample then map (take 20) g else g)
   }"

subsection \<open>Saving and loading a partition\<close>

lemma load_pages_saved:
  "\<forall>p \<in> set pages. length p \<le> C \<and> length p < 256 ^ 4 \<and> (\<forall>n \<in> set p. n < 256 ^ 4) \<Longrightarrow>
   load_pages C (length pages) (save_pages pages @ s) = Some (pages, s)"
  by (induction pages) (auto simp: save_pages_def)

lemma re_id2pid_page_eq:
  "re_id2pid_page i ns m = (\<lambda>n. if n \<in> set ns then Some i else m n)"
  by (induction ns arbitrary: m) (auto simp: fun_eq_iff)

lemma re_id2pid_from_in:
  assumes "distinct (concat pages)" "p < length pages" "n \<in> set (pages ! p)"
  shows "re_id2pid_from i pages m n = Some (i + p)"
  using assms
proof (induction i pages m arbitrary: p rule: re_id2pid_from.induct)
  case (2 i q ps m)
  have other: "re_id2pid_from j ps' m' k = m' k" if "k \<notin> set (concat ps')" for j ps' m' k
    using that by (induction j ps' m' rule: re_id2pid_from.induct) (auto simp: re_id2pid_page_eq)
  show ?case
  proof (cases p)
    case 0
    then have "n \<notin> set (concat ps)" using 2(2,4) by auto
    then show ?thesis using 0 2(4) other by (simp add: re_id2pid_page_eq)
  next
    case (Suc p')
    then show ?thesis using 2 by simp
  qed
qed simp

lemma re_id2pid_in:
  "distinct (concat pages) \<Longrightarrow> p < length pages \<Longrightarrow> n \<in> set (pages ! p) \<Longrightarrow> re_id2pid pages n = Some p"
  unfolding re_id2pid_def using re_id2pid_from_in [of pages p n 0] by simp

text \<open> C29. Loading a saved partition gives back the capacity, the page and node counts and the
  pages as saved, whatever follows in the file, and rebuilds \<open>id2pid\<close> from the pages: every node
  of a partition gets its page.\<close>

theorem partition_file_roundtrip:
  assumes "pf_C P < 256 ^ 8" "pf_pn P < 256 ^ 8" "pf_nd P < 256 ^ 8" "length (pf_part P) = pf_pn P"
    and "\<forall>p \<in> set (pf_part P). length p \<le> pf_C P \<and> length p < 256 ^ 4 \<and> (\<forall>n \<in> set p. n < 256 ^ 4)"
    and "distinct (concat (pf_part P))"
  shows "\<exists>f ids. save_partition P = Some f \<and>
    load_partition (f @ rest) = Some (P\<lparr>pf_id2pid := ids\<rparr>) \<and>
    (\<forall>p < pf_pn P. \<forall>n \<in> set (pf_part P ! p). ids n = Some p)"
proof -
  let ?f = "le_put 8 (pf_C P) @ le_put 8 (pf_pn P) @ le_put 8 (pf_nd P) @ save_pages (pf_part P) @
    les_put 4 (map (\<lambda>i. case pf_id2pid P i of Some p \<Rightarrow> p | None \<Rightarrow> 0) [0..<pf_nd P])"
  have save: "save_partition P = Some ?f" using assms(4) by (simp add: save_partition_def)
  have pages: "load_pages (pf_C P) (pf_pn P) (save_pages (pf_part P) @ s) = Some (pf_part P, s)" for s
    using load_pages_saved [OF assms(5), of s] assms(4) by simp
  have "load_partition (?f @ rest) = Some (P\<lparr>pf_id2pid := re_id2pid (pf_part P)\<rparr>)"
    using assms(1-3) pages by (simp add: load_partition_def)
  then show ?thesis using save re_id2pid_in [OF assms(6)] assms(4) by auto
qed

lemma partition_file_roundtrip_witness:
  "\<exists>f ids. save_partition \<lparr>pf_C = 2, pf_pn = 2, pf_nd = 3, pf_part = [[2, 0], [1]],
      pf_id2pid = [2 \<mapsto> 0, 0 \<mapsto> 0, 1 \<mapsto> 1]\<rparr> = Some f \<and>
    load_partition (f @ [7]) = Some \<lparr>pf_C = 2, pf_pn = 2, pf_nd = 3, pf_part = [[2, 0], [1]],
      pf_id2pid = ids\<rparr> \<and> ids 0 = Some 0"
  using partition_file_roundtrip [of "\<lparr>pf_C = 2, pf_pn = 2, pf_nd = 3, pf_part = [[2, 0], [1]],
      pf_id2pid = [2 \<mapsto> 0, 0 \<mapsto> 0, 1 \<mapsto> 1]\<rparr>" "[7]"]
  by auto

subsection \<open>Reading the node records\<close>

text \<open>Sector \<open>k\<close> of a stream.\<close>

definition sector_at :: "nat \<Rightarrow> bytes \<Rightarrow> nat \<Rightarrow> bytes" where
  "sector_at sec_len s k = take sec_len (drop (k * sec_len) s)"

lemma rd_bytes_Some: "rd_bytes k s = Some (a, r) \<longleftrightarrow> k \<le> length s \<and> a = take k s \<and> r = drop k s"
  by (auto simp: rd_bytes_def)

lemma sector_nodes_Some:
  "sector_nodes L vec sector j n = Some ns \<longleftrightarrow>
   length ns = n \<and> (\<forall>i < n. sector_node L vec sector (j + i) = Some (ns ! i))"
proof (induction n arbitrary: j ns)
  case (Suc n)
  show ?case
  proof (cases ns)
    case (Cons a as)
    then show ?thesis
      using Suc [of "j + 1" as] by (auto simp: All_less_Suc2 split: bind_splits)
  qed (auto split: bind_splits)
qed auto

lemma batch_nodes_Some:
  assumes "C > 0" "batch_nodes L vec sec_len C nd cur n s = Some (ns, s')"
  shows "s' = drop (n * sec_len) s \<and> length ns = min (n * C) (nd - cur * C) \<and>
    (\<forall>i < length ns. sector_node L vec (sector_at sec_len s (i div C)) (i mod C) = Some (ns ! i))"
  using assms(2)
proof (induction n arbitrary: cur s ns)
  case (Suc n)
  obtain sector s1 ns1 rest where step: "rd_bytes sec_len s = Some (sector, s1)"
      "sector_nodes L vec sector 0 (min C (nd - cur * C)) = Some ns1"
      "batch_nodes L vec sec_len C nd (cur + 1) n s1 = Some (rest, s')" "ns = ns1 @ rest"
    using Suc.prems by (auto split: bind_splits)
  note IH = Suc.IH [OF step(3)]
  have s1: "s1 = drop sec_len s" "sector = take sec_len s" using step(1) by (auto simp: rd_bytes_Some)
  have ns1: "length ns1 = min C (nd - cur * C)"
      "\<forall>i < length ns1. sector_node L vec sector i = Some (ns1 ! i)"
    using step(2) by (auto simp: sector_nodes_Some)
  have diff: "nd - (cur + 1) * C = (nd - cur * C) - C" by simp
  have len: "length ns = min (Suc n * C) (nd - cur * C)"
    using step(4) ns1(1) IH unfolding diff by (auto simp: min_def)
  have nth: "sector_node L vec (sector_at sec_len s (i div C)) (i mod C) = Some (ns ! i)"
    if i: "i < length ns" for i
  proof (cases "i < length ns1")
    case True
    then have "i < C" using ns1(1) by simp
    then show ?thesis using True ns1(2) step(4) s1 by (simp add: sector_at_def nth_append)
  next
    case False
    have "length ns1 = C"
    proof (rule ccontr)
      assume "length ns1 \<noteq> C"
      then have "nd - cur * C < C" using ns1(1) by linarith
      then have "length rest = 0" using IH unfolding diff by simp
      then show False using False i step(4) by simp
    qed
    moreover from this have "C \<le> i" using False by simp
    moreover have "i - C < length rest" using i step(4) calculation by simp
    ultimately have "sector_node L vec (sector_at sec_len s1 ((i - C) div C)) ((i - C) mod C) =
        Some (rest ! (i - C))"
      using IH by blast
    moreover have "i div C = Suc ((i - C) div C)" "(i - C) mod C = i mod C"
      using \<open>C \<le> i\<close> assms(1) by (simp_all add: le_div_geq le_mod_geq)
    ultimately show ?thesis
      using \<open>length ns1 = C\<close> False step(4) s1(1) by (simp add: sector_at_def nth_append add.commute)
  qed
  show ?case using len nth IH s1(1) by (simp add: add.commute)
qed simp

lemma load_batches_Some:
  assumes "C > 0" "batch > 0" "load_batches batch L vec sec_len C nd pn cur s = Some g"
    and "cur \<le> pn"
  shows "length g = min ((pn - cur) * C) (nd - cur * C) \<and>
    (\<forall>i < length g. sector_node L vec (sector_at sec_len s (i div C)) (i mod C) = Some (g ! i))"
  using assms
proof (induction batch L vec sec_len C nd pn cur s arbitrary: g rule: load_batches.induct)
  case (1 batch L vec sec_len C nd pn cur s)
  show ?case
  proof (cases "cur < pn")
    case False
    then show ?thesis
      using "1.prems" by (simp add: load_batches.simps [of batch L vec sec_len C nd pn pn s])
  next
    case True
    define n where "n = (if cur + batch > pn then pn - cur else batch)"
    obtain ns s' rest where step: "batch_nodes L vec sec_len C nd cur n s = Some (ns, s')"
        "load_batches batch L vec sec_len C nd pn (cur + n) s' = Some rest" "g = ns @ rest"
      using "1.prems"(3) True "1.prems"(2)
      unfolding load_batches.simps [of batch L vec sec_len C nd pn cur s] n_def
      by (auto simp: Let_def split: bind_splits)
    note A = batch_nodes_Some [OF "1.prems"(1) step(1)]
    have n: "cur + n \<le> pn" "0 < n" using True "1.prems"(2) by (auto simp: n_def)
    have IH: "length rest = min ((pn - (cur + n)) * C) (nd - (cur + n) * C) \<and>
      (\<forall>i < length rest. sector_node L vec (sector_at sec_len s' (i div C)) (i mod C) = Some (rest ! i))"
      using "1.IH" [OF _ n_def _ refl "1.prems"(1,2) step(2) n(1)] True "1.prems"(2) step(1) by simp
    have mul: "(pn - cur) * C = n * C + (pn - (cur + n)) * C"
      using n(1) by (simp flip: distrib_right)
    have diff: "nd - (cur + n) * C = (nd - cur * C) - n * C" by (simp add: algebra_simps)
    have len: "length g = min ((pn - cur) * C) (nd - cur * C)"
      using step(3) A IH unfolding mul diff by (auto simp: min_def)
    have nth: "sector_node L vec (sector_at sec_len s (i div C)) (i mod C) = Some (g ! i)"
      if i: "i < length g" for i
    proof (cases "i < length ns")
      case True
      then show ?thesis using A step(3) by (simp add: nth_append)
    next
      case False
      have full: "length ns = n * C"
      proof (rule ccontr)
        assume "length ns \<noteq> n * C"
        then have "nd - cur * C < n * C" using A by linarith
        then have "length rest = 0" using IH unfolding diff by simp
        then show False using False i step(3) by simp
      qed
      define k where "k = i - n * C"
      have i_eq: "i = k + n * C" using False full by (simp add: k_def)
      have "k < length rest" using i step(3) full i_eq by simp
      then have "sector_node L vec (sector_at sec_len s' (k div C)) (k mod C) = Some (rest ! k)"
        using IH by blast
      moreover have "i div C = n + k div C" "i mod C = k mod C"
        using "1.prems"(1) by (simp_all add: i_eq)
      moreover have "sector_at sec_len s' (k div C) = sector_at sec_len s (n + k div C)"
        using A by (simp add: sector_at_def algebra_simps)
      ultimately show ?thesis using False step(3) full i_eq by (simp add: nth_append)
    qed
    show ?thesis using len nth by blast
  qed
qed

lemma round_up_bounds:
  fixes x C :: nat
  assumes "C > 0"
  shows "x \<le> round_up x C div C * C"
proof -
  have "C * ((x + C - 1) div C) + (x + C - 1) mod C = x + C - 1" by simp
  moreover have "(x + C - 1) mod C < C" using assms by simp
  ultimately have "x \<le> C * ((x + C - 1) div C)" by linarith
  then show ?thesis using assms by (simp add: round_up_div mult.commute)
qed

lemma page_layout_Some:
  "page_layout mode gl el L vec out_len BS = Some (len, k) \<Longrightarrow> 0 < len \<and> len * k \<le> out_len * BS"
  by (auto simp: page_layout_def Let_def mult.commute div_times_less_eq_dividend
      intro: order.trans [OF div_times_less_eq_dividend] split: if_splits)

text \<open> C16. What \<open>load_disk_index\<close> returns does not depend on the batches it reads in. For a file of the new
  or of the old format: node \<open>n\<close> gets the neighbor list stored in slot \<open>n mod C\<close> of sector \<open>1 + n div C\<close> of the
  file, for every node, and the nodes that the output layout puts on a page fit it and its pages hold all nodes.
  The node count is the first number of the metadata in the new format and the second in the old one; dimension,
  node length and \<open>C\<close> are the second, fourth and fifth number in both, which are theirs in the new format.\<close>

theorem load_disk_index_reads:
  assumes "get_disk_index_meta f = Some (is_new, metas)" and "batch > 0"
    and "load_disk_index batch mode gl el T BS sec_len out_len f = Some r"
  shows "dg_nd r = (if is_new then hd metas else metas ! 1) \<and> dg_dim r = metas ! 1 \<and> length (dg_full r) = dg_nd r \<and>
    (\<forall>n < dg_nd r. sector_node (metas ! 3) (dg_dim r * T)
        (sector_at sec_len f (1 + n div (metas ! 4))) (n mod (metas ! 4)) = Some (dg_full r ! n)) \<and>
    dg_node_len r * dg_C r \<le> out_len * BS \<and> dg_nd r \<le> dg_pn r * dg_C r"
proof -
  define nd where "nd = (if is_new then hd metas else metas ! 1)"
  let ?C = "metas ! 4" and ?vec = "metas ! 1 * T"
  have C: "?C > 0" using assms(1,3) by (auto simp: load_disk_index_def Let_def split: if_splits)
  obtain h s g len k where r: "rd_bytes sec_len f = Some (h, s)"
      "load_batches batch (metas ! 3) ?vec sec_len ?C nd (round_up nd ?C div ?C) 0 s = Some g"
      "page_layout mode gl el (metas ! 3) ?vec out_len BS = Some (len, k)" "k \<noteq> 0"
      "r = \<lparr>dg_nd = nd, dg_dim = metas ! 1, dg_node_len = len, dg_C = k,
             dg_pn = round_up nd k div k, dg_full = g\<rparr>"
    using assms(1,3) C unfolding nd_def by (auto simp: load_disk_index_def Let_def split: bind_splits if_splits)
  have s: "s = drop sec_len f" using r(1) by (simp add: rd_bytes_Some)
  have "sector_at sec_len s i = sector_at sec_len f (1 + i)" for i
    using s by (simp add: sector_at_def add.commute)
  moreover have "length g = nd"
    using load_batches_Some [OF C assms(2) r(2)] round_up_bounds [OF C, of nd] by simp
  ultimately show ?thesis unfolding nd_def [symmetric]
    using load_batches_Some [OF C assms(2) r(2)] r(4,5) page_layout_Some [OF r(3)]
      round_up_bounds [of k nd] by simp
qed

text \<open>A one-node index: a metadata sector of 80 bytes and a data sector with the record of node 0.\<close>

definition sample_index :: bytes where
  "sample_index = le_put 4 9 @ le_put 4 1 @ les_put 8 [1, 2, 0, 14, 1, 0, 0, 0, 160] @
     [5, 6] @ le_put 4 2 @ les_put 4 [0, 3] @ replicate 66 0"

lemma sample_index_loads:
  "get_disk_index_meta sample_index = Some (True, [1, 2, 0, 14, 1, 0, 0, 0, 160])"
  "load_disk_index 2 ALL_MODE False False 1 1 80 64 sample_index =
    Some \<lparr>dg_nd = 1, dg_dim = 2, dg_node_len = 14, dg_C = 4, dg_pn = 1, dg_full = [[0, 3]]\<rparr>"
  by code_simp+

lemma load_disk_index_reads_witness:
  "sector_node 14 2 (sector_at 80 sample_index 1) 0 = Some [0, 3]"
  using load_disk_index_reads [OF sample_index_loads(1) _ sample_index_loads(2)] by simp

text \<open> For an index of the old format the loader corrects the place of the node count only: it
  takes the node count for the dimension too, whatever the file says.\<close>

theorem old_index_dim_is_count:
  assumes "get_disk_index_meta f = Some (False, metas)"
    and "load_disk_index batch mode gl el T BS sec_len out_len f = Some r"
  shows "dg_dim r = dg_nd r \<and> dg_nd r = metas ! 1"
proof -
  let ?C = "metas ! 4" and ?nd = "metas ! 1" and ?vec = "metas ! 1 * T"
  have "?C > 0" using assms by (auto simp: load_disk_index_def Let_def split: if_splits)
  then obtain len k g where
    "r = \<lparr>dg_nd = ?nd, dg_dim = ?nd, dg_node_len = len, dg_C = k, dg_pn = round_up ?nd k div k,
      dg_full = g\<rparr>"
    using assms unfolding load_disk_index_def Let_def
    by (simp split: bind_splits if_splits prod.splits) blast
  then show ?thesis by simp
qed

definition sample_old_index :: bytes where
  "sample_old_index = les_put 8 [176, 2, 5, 20, 1, 0, 0, 0, 0, 0, 0] @
     [5, 6] @ le_put 4 2 @ les_put 4 [0, 1] @ replicate 74 0 @
     [5, 6] @ le_put 4 1 @ les_put 4 [0] @ replicate 78 0"

lemma old_index_dim_is_count_witness:
  "\<exists>r. load_disk_index 2 ALL_MODE False False 1 1 88 64 sample_old_index = Some r \<and> dg_dim r = 2"
proof -
  have meta: "get_disk_index_meta sample_old_index = Some (False, [176, 2, 5, 20, 1, 0, 0, 0, 0, 0, 0])"
    by code_simp
  have "load_disk_index 2 ALL_MODE False False 1 1 88 64 sample_old_index =
      Some \<lparr>dg_nd = 2, dg_dim = 2, dg_node_len = 20, dg_C = 3, dg_pn = 1, dg_full = [[0, 1], [0]]\<rparr>"
    by code_simp
  from old_index_dim_is_count [OF meta this] this show ?thesis by auto
qed

subsection \<open>Reading a vamana graph\<close>

definition save_graph :: "nat list list \<Rightarrow> bytes" where
  "save_graph g = concat (map (\<lambda>adj. le_put 4 (length adj) @ les_put 4 adj) g)"

lemma load_vamana_nodes_saved:
  "\<forall>adj \<in> set g. length adj < 256 ^ 4 \<and> (\<forall>n \<in> set adj. n < 256 ^ 4) \<Longrightarrow>
   load_vamana_nodes (save_graph g) = Some g"
proof (induction g)
  case (Cons adj g)
  have "le_put 4 (length adj) \<noteq> []" by (metis length_le_put list.size(3) zero_neq_numeral)
  then have "save_graph (adj # g) \<noteq> []" by (simp add: save_graph_def)
  then show ?case
    using Cons by (subst load_vamana_nodes.simps) (auto simp: save_graph_def)
qed (simp add: load_vamana_nodes.simps save_graph_def)

text \<open> A vamana graph file is read back as written, up to the sampling cut to 20 neighbors; a
  file with another number of nodes than expected makes the code exit.\<close>

theorem load_vamana_roundtrip:
  assumes "width < 256 ^ 4" "ep < 256 ^ 4" "fsize < 256 ^ 8"
    and "\<forall>adj \<in> set g. length adj < 256 ^ 4 \<and> (\<forall>n \<in> set adj. n < 256 ^ 4)"
  shows "load_vamana nd sample (le_put 8 fsize @ le_put 4 width @ le_put 4 ep @ save_graph g) =
    (if length g = nd then Some (width, ep, if sample then map (take 20) g else g) else None)"
  using assms load_vamana_nodes_saved by (simp add: load_vamana_def)

lemma load_vamana_roundtrip_witness:
  "load_vamana 2 False (le_put 8 0 @ le_put 4 5 @ le_put 4 1 @ save_graph [[1], [0, 1]]) =
    Some (5, 1, [[1], [0, 1]])"
  using load_vamana_roundtrip [of 5 1 0 "[[1], [0, 1]]" 2 False] by simp

end
