(* ===== verification/PageLayout.thy ===== *)
theory PageLayout
  imports StdSort
begin

text \<open>
  \<open>PageLayoutOptimizer\<close> of \<open>Gorgeous/graph_partition/include/clustering_partitioner.h\<close>: clusters
  larger than a page are split along the graph, and the rest is packed into full pages. A cluster
  is the list of its nodes with its page id; the sums it prints, and \<open>assigned_nodes\<close>, which is
  never read, are left out.
\<close>

record cluster =
  cnodes :: "nat list"
  cpage :: nat

definition new_cluster :: "nat list \<Rightarrow> cluster" where
  "new_cluster ns = \<lparr>cnodes = ns, cpage = 0\<rparr>"

subsection \<open>bfs_fill_page\<close>

text \<open>The neighbors of one node that go to the queue; the result is the queue and \<open>visited\<close>.\<close>

fun bfs_push ::
  "nat set \<Rightarrow> nat set \<Rightarrow> nat list \<Rightarrow> nat list \<Rightarrow> nat set \<Rightarrow> nat list \<times> nat set" where
  "bfs_push cn used [] q visited = (q, visited)"
| "bfs_push cn used (v # vs) q visited =
     (if v \<in> cn \<and> v \<notin> used \<and> v \<notin> visited
      then bfs_push cn used vs (q @ [v]) (insert v visited)
      else bfs_push cn used vs q visited)"

text \<open>The nodes added to the page, at most \<open>room\<close>.\<close>

fun bfs_loop ::
  "nat list list \<Rightarrow> nat set \<Rightarrow> nat set \<Rightarrow> nat \<Rightarrow> nat list \<Rightarrow> nat set \<Rightarrow> nat list" where
  "bfs_loop g cn used 0 q visited = []"
| "bfs_loop g cn used (Suc room) [] visited = []"
| "bfs_loop g cn used (Suc room) (current # q) visited =
     (let (q', visited') = (if current < length g then bfs_push cn used (g ! current) q visited
                            else (q, visited))
      in current # bfs_loop g cn used room q' visited')"

definition bfs_fill_page ::
  "nat list list \<Rightarrow> nat \<Rightarrow> nat set \<Rightarrow> nat set \<Rightarrow> nat list \<Rightarrow> nat \<Rightarrow> nat list" where
  "bfs_fill_page g start cn used page max_nodes =
     (if start \<in> used then page else page @ bfs_loop g cn used max_nodes [start] {start})"

subsection \<open>split_large_cluster\<close>

text \<open>Filling one page from the remaining nodes; the result is the page and \<open>used_in_cluster\<close>.\<close>

fun split_page ::
  "nat list list \<Rightarrow> nat set \<Rightarrow> nat \<Rightarrow> nat list \<Rightarrow> nat list \<Rightarrow> nat set \<Rightarrow> nat list \<times> nat set" where
  "split_page g cn P [] page used = (page, used)"
| "split_page g cn P (n # ns) page used =
     (if length page < P then
        (if n \<in> used then split_page g cn P ns page used
         else let page' = bfs_fill_page g n cn used page (P - length page)
              in split_page g cn P ns page' (used \<union> set page'))
      else (page, used))"

lemma dropWhile_shorter: "dropWhile f xs = y # ys \<Longrightarrow> length ys < length xs"
  by (metis length_Cons length_dropWhile_le less_eq_Suc_le)

text \<open>The result is the full pages and the partial pages.\<close>

function split_pages ::
  "nat list list \<Rightarrow> nat set \<Rightarrow> nat \<Rightarrow> nat list \<Rightarrow> nat set \<Rightarrow> nat list list \<times> nat list list" where
  "split_pages g cn P nodes used =
     (case dropWhile (\<lambda>n. n \<in> used) nodes of
        [] \<Rightarrow> ([], [])
      | n # ns \<Rightarrow>
          (let (page, used') = split_page g cn P (n # ns) [] used;
               (full_pages, partial_pages) = split_pages g cn P ns used'
           in if length page = P then (page # full_pages, partial_pages)
              else if page \<noteq> [] then (full_pages, page # partial_pages)
              else (full_pages, partial_pages)))"
  by pat_completeness auto
termination
  by (relation "measure (\<lambda>(g, cn, P, nodes, used). length nodes)") (auto dest: dropWhile_shorter)

declare split_pages.simps [simp del]

definition split_large_cluster :: "nat list list \<Rightarrow> nat \<Rightarrow> cluster \<Rightarrow> cluster list \<times> cluster list" where
  "split_large_cluster g P c =
     (let (full_pages, partial_pages) = split_pages g (set (cnodes c)) P (cnodes c) {}
      in (map new_cluster full_pages, map new_cluster partial_pages))"

subsection \<open>fill_partial_pages\<close>

text \<open>
  Filling the current page from the later small clusters, each with its \<open>used\<close> flag; the result
  is the page and what is left of them.
\<close>

fun fill_page ::
  "nat \<Rightarrow> nat list \<Rightarrow> (bool \<times> nat list) list \<Rightarrow> nat list \<times> (bool \<times> nat list) list" where
  "fill_page P page [] = (page, [])"
| "fill_page P page ((used, ns) # rest) =
     (if length page < P then
        (if used then (let (p, r) = fill_page P page rest in (p, (used, ns) # r))
         else let space_left = P - length page in
           if length ns \<le> space_left
           then (let (p, r) = fill_page P (page @ ns) rest in (p, (True, ns) # r))
           else (let (p, r) = fill_page P (page @ take space_left ns) rest
                 in (p, (False, drop space_left ns) # r)))
      else (page, (used, ns) # rest))"

lemma length_fill_page: "length (snd (fill_page P page rest)) = length rest"
  by (induction P page rest rule: fill_page.induct) (auto simp: Let_def split: prod.splits)

function fill_pages :: "nat \<Rightarrow> (bool \<times> nat list) list \<Rightarrow> nat list list" where
  "fill_pages P [] = []"
| "fill_pages P ((used, ns) # rest) =
     (if used then fill_pages P rest
      else fst (fill_page P ns rest) # fill_pages P (snd (fill_page P ns rest)))"
  by pat_completeness auto
termination by (relation "measure (\<lambda>(P, rest). length rest)") (auto simp: length_fill_page)

definition longer :: "cluster \<Rightarrow> cluster \<Rightarrow> bool" where
  "longer a b \<longleftrightarrow> length (cnodes a) > length (cnodes b)"

definition fill_partial_pages ::
  "(cluster list \<Rightarrow> cluster list) \<Rightarrow> nat \<Rightarrow> cluster list \<Rightarrow> cluster list" where
  "fill_partial_pages srt P small =
     map new_cluster (fill_pages P (map (\<lambda>c. (False, cnodes c)) (srt small)))"

subsection \<open>optimize_layout\<close>

text \<open>The full pages from splitting, and the small clusters.\<close>

fun sort_clusters ::
  "nat list list \<Rightarrow> nat \<Rightarrow> cluster list \<Rightarrow> cluster list \<times> cluster list" where
  "sort_clusters g P [] = ([], [])"
| "sort_clusters g P (c # cs) =
     (let (full, small) = sort_clusters g P cs in
      if cnodes c = [] then (full, small)
      else if length (cnodes c) > P
      then (let (f, s) = split_large_cluster g P c in (f @ full, s @ small))
      else (full, c # small))"

definition optimize_layout ::
  "(cluster list \<Rightarrow> cluster list) \<Rightarrow> nat list list \<Rightarrow> nat \<Rightarrow> cluster list \<Rightarrow> cluster list" where
  "optimize_layout srt g P clusters =
     (let (full, small) = sort_clusters g P clusters;
          pages = full @ fill_partial_pages srt P small
      in map (\<lambda>(i, c). c\<lparr>cpage := i\<rparr>) (enumerate 0 pages))"

subsection \<open>Breadth-first filling\<close>

lemma bfs_push_inv:
  assumes "bfs_push cn used vs q visited = (q', visited')"
    and "distinct q" "set q \<subseteq> visited"
  shows "\<exists>new. q' = q @ new \<and> visited' = visited \<union> set new \<and> distinct q' \<and> set q' \<subseteq> visited' \<and>
    set new \<subseteq> cn - used \<and> set new \<inter> visited = {}"
  using assms
proof (induction cn used vs q visited rule: bfs_push.induct)
  case (2 cn used v vs q visited)
  show ?case
  proof (cases "v \<in> cn \<and> v \<notin> used \<and> v \<notin> visited")
    case True
    then have "distinct (q @ [v])" "set (q @ [v]) \<subseteq> insert v visited" using 2(4,5) by auto
    with True 2(1,3) obtain new where
      "q' = (q @ [v]) @ new \<and> visited' = insert v visited \<union> set new \<and> distinct q' \<and>
       set q' \<subseteq> visited' \<and> set new \<subseteq> cn - used \<and> set new \<inter> insert v visited = {}" by auto
    then show ?thesis using True by (intro exI [of _ "v # new"]) auto
  next
    case False
    then have "bfs_push cn used vs q visited = (q', visited')" using 2(3) by (auto split: if_splits)
    then show ?thesis using 2(2) False 2(4,5) by blast
  qed
qed simp

text \<open>
  The nodes that the search adds are new, pairwise different, in the cluster and not more than
  the room left; the nodes already queued are the only visited ones it adds.
\<close>

lemma bfs_loop_inv:
  assumes "distinct q" "set q \<subseteq> visited" "set q \<subseteq> cn - used"
  shows "distinct (bfs_loop g cn used room q visited) \<and>
    set (bfs_loop g cn used room q visited) \<subseteq> cn - used \<and>
    length (bfs_loop g cn used room q visited) \<le> room \<and>
    set (bfs_loop g cn used room q visited) \<inter> visited \<subseteq> set q"
  using assms
proof (induction g cn used room q visited rule: bfs_loop.induct)
  case (3 g cn used room current q visited)
  obtain q' visited' where step: "(if current < length g
      then bfs_push cn used (g ! current) q visited else (q, visited)) = (q', visited')" by force
  have q: "distinct q" "set q \<subseteq> visited" "current \<notin> set q" "current \<in> visited"
    using 3(2,3) by auto
  obtain new where new: "q' = q @ new" "visited' = visited \<union> set new" "distinct q'"
      "set q' \<subseteq> visited'" "set new \<subseteq> cn - used" "set new \<inter> visited = {}"
  proof (cases "current < length g")
    case True
    then show ?thesis using bfs_push_inv [of cn used "g ! current" q visited q' visited'] step q that
      by auto
  next
    case False
    then show ?thesis using step q that [of "[]"] by auto
  qed
  have sub: "set q' \<subseteq> cn - used" using new(1,5) 3(4) by auto
  let ?r = "bfs_loop g cn used room q' visited'"
  have IH: "distinct ?r" "set ?r \<subseteq> cn - used" "length ?r \<le> room" "set ?r \<inter> visited' \<subseteq> set q'"
    using 3(1) [OF step [symmetric] refl new(3,4) sub] by auto
  have "current \<notin> set ?r" using IH(4) q(3,4) new(1,2,6) by auto
  moreover have "set ?r \<inter> visited \<subseteq> set (current # q)" using IH(4) new(1,2,6) by auto
  ultimately show ?case using step IH(1-3) 3(4) by auto
qed auto

lemma bfs_fill_page_new:
  assumes "n \<in> cn" "n \<notin> used"
  shows "\<exists>new. bfs_fill_page g n cn used page room = page @ new \<and> distinct new \<and>
    set new \<subseteq> cn - used \<and> length new \<le> room \<and> (0 < room \<longrightarrow> n \<in> set new)"
proof -
  have "n \<in> set (bfs_loop g cn used room [n] {n})" if "0 < room"
    using that by (cases room) (simp_all add: split_beta Let_def)
  then show ?thesis
    using bfs_loop_inv [of "[n]" "{n}" cn used g room] assms by (auto simp: bfs_fill_page_def)
qed

subsection \<open>Splitting a cluster\<close>

lemma split_page_inv:
  assumes "split_page g cn P ns page used = (page', used')"
    and "set ns \<subseteq> cn" "length page \<le> P" "distinct page" "set page \<subseteq> used"
  shows "\<exists>new. page' = page @ new \<and> used' = used \<union> set new \<and> distinct page' \<and>
    set new \<subseteq> cn - used \<and> length page' \<le> P \<and> (length page' < P \<longrightarrow> set ns \<subseteq> used') \<and>
    (length page < P \<and> ns \<noteq> [] \<longrightarrow> hd ns \<in> used')"
  using assms
proof (induction g cn P ns page used rule: split_page.induct)
  case (2 g cn P n ns page used)
  show ?case
  proof (cases "length page < P")
    case False
    then show ?thesis using 2 by auto
  next
    case room: True
    show ?thesis
    proof (cases "n \<in> used")
      case True
      then show ?thesis using 2(1) [OF room True] 2(3-7) room by force
    next
      case False
      have n: "n \<in> cn" using 2(4) by simp
      define room' where "room' = P - length page"
      obtain new where new: "bfs_fill_page g n cn used page room' = page @ new" "distinct new"
          "set new \<subseteq> cn - used" "length new \<le> room'" "n \<in> set new"
        using bfs_fill_page_new [OF n False, of g page room'] room by (auto simp: room'_def)
      have run: "split_page g cn P ns (page @ new) (used \<union> set (page @ new)) = (page', used')"
        using 2(3) room False new(1) by (simp add: room'_def)
      have "length (page @ new) \<le> P" "distinct (page @ new)" "set ns \<subseteq> cn"
        using new(2-4) room 2(4,6,7) by (auto simp: room'_def)
      then obtain new2 where new2: "page' = (page @ new) @ new2"
          "used' = (used \<union> set (page @ new)) \<union> set new2" "distinct page'"
          "set new2 \<subseteq> cn - (used \<union> set (page @ new))" "length page' \<le> P"
          "length page' < P \<longrightarrow> set ns \<subseteq> used'"
        using 2(2) [OF room False refl, of] new(1) run by (auto simp: room'_def)
      then show ?thesis using new 2(7) by (intro exI [of _ "new @ new2"]) auto
    qed
  qed
qed auto

lemma split_page_first:
  assumes "split_page g cn P (n # ns) [] used = (page, used')" "set (n # ns) \<subseteq> cn" "0 < P"
    and "n \<notin> used"
  shows "used' = used \<union> set page \<and> distinct page \<and> set page \<subseteq> cn - used \<and> length page \<le> P \<and>
    n \<in> set page \<and> (length page < P \<longrightarrow> set ns \<subseteq> used')"
  using split_page_inv [OF assms(1,2)] assms(3,4) by auto

lemma split_pages_end:
  assumes "dropWhile (\<lambda>n. n \<in> used) nodes = []"
  shows "split_pages g cn P nodes used = ([], [])"
  by (subst split_pages.simps) (simp only: assms list.case)

lemma split_pages_step:
  assumes "dropWhile (\<lambda>n. n \<in> used) nodes = n # ns"
    and "split_page g cn P (n # ns) [] used = (page, used')" and "page \<noteq> []"
  shows "split_pages g cn P nodes used =
    (let (full_pages, partial_pages) = split_pages g cn P ns used' in
     if length page = P then (page # full_pages, partial_pages)
     else (full_pages, page # partial_pages))"
  using assms by (subst split_pages.simps) (simp split: prod.split)

text \<open>The pages of a cluster are disjoint, within the cluster, and hold every node of it.\<close>

lemma split_pages_inv:
  assumes "split_pages g cn P nodes used = (fulls, partials)" "set nodes \<subseteq> cn" "0 < P"
  shows "distinct (concat (fulls @ partials)) \<and> set (concat (fulls @ partials)) \<subseteq> cn - used \<and>
    set nodes \<subseteq> used \<union> set (concat (fulls @ partials)) \<and>
    (\<forall>p \<in> set fulls. length p = P) \<and> (\<forall>p \<in> set partials. p \<noteq> [] \<and> length p < P) \<and>
    length partials \<le> 1"
  using assms
proof (induction "length nodes" arbitrary: nodes used fulls partials rule: less_induct)
  case less
  have dw: "set nodes \<subseteq> used \<union> set (dropWhile (\<lambda>n. n \<in> used) nodes)"
    by (induction nodes) auto
  show ?case
  proof (cases "dropWhile (\<lambda>n. n \<in> used) nodes")
    case Nil
    then have "fulls = []" "partials = []" using less.prems(1) split_pages_end by auto
    then show ?thesis using Nil dw by auto
  next
    case (Cons n ns)
    have n: "n \<notin> used" using hd_dropWhile [of "\<lambda>n. n \<in> used" nodes] Cons by auto
    have sub: "set (n # ns) \<subseteq> cn"
      using less.prems(2) Cons set_dropWhileD [of _ "\<lambda>n. n \<in> used" nodes] by auto
    obtain page used' where sp: "split_page g cn P (n # ns) [] used = (page, used')" by force
    note pg = split_page_first [OF sp sub less.prems(3) n]
    then have ne: "page \<noteq> []" by auto
    obtain f p where rec: "split_pages g cn P ns used' = (f, p)" by force
    have IH: "distinct (concat (f @ p))" "set (concat (f @ p)) \<subseteq> cn - used'"
        "set ns \<subseteq> used' \<union> set (concat (f @ p))" "\<forall>p \<in> set f. length p = P"
        "\<forall>p \<in> set p. p \<noteq> [] \<and> length p < P" "length p \<le> 1"
      using less.hyps [OF dropWhile_shorter [OF Cons] rec _ less.prems(3)] sub by auto
    have run: "(fulls, partials) = (if length page = P then (page # f, p) else (f, page # p))"
      using less.prems(1) split_pages_step [OF Cons sp ne] rec by simp
    have disj: "set page \<inter> set (concat (f @ p)) = {}" using IH(2) pg by auto
    have cover: "set nodes \<subseteq> used \<union> (set page \<union> set (concat (f @ p)))"
      using dw Cons IH(3) pg by auto
    show ?thesis
    proof (cases "length page = P")
      case True
      then show ?thesis using run pg IH disj cover by auto
    next
      case False
      then have "length page < P" using pg by auto
      then have "set ns \<subseteq> used'" using pg by blast
      then have "dropWhile (\<lambda>n. n \<in> used') ns = []" by (simp add: dropWhile_eq_Nil_conv subset_iff)
      then have "f = []" "p = []" using rec split_pages_end by auto
      then show ?thesis using run False pg cover \<open>length page < P\<close> ne by auto
    qed
  qed
qed

subsection \<open>Packing the small clusters\<close>

text \<open>The nodes of the clusters that are not used up.\<close>

definition left :: "(bool \<times> nat list) list \<Rightarrow> nat list" where
  "left rest = concat (map (\<lambda>(u, ns). if u then [] else ns) rest)"

lemma left_simps [simp]:
  "left [] = []" "left ((True, ns) # rest) = left rest" "left ((False, ns) # rest) = ns @ left rest"
  by (simp_all add: left_def)

definition small_ok :: "nat \<Rightarrow> (bool \<times> nat list) list \<Rightarrow> bool" where
  "small_ok P rest \<longleftrightarrow> (\<forall>(u, ns) \<in> set rest. \<not> u \<longrightarrow> ns \<noteq> [] \<and> length ns \<le> P)"

lemma small_ok_simps [simp]:
  "small_ok P []" "small_ok P ((u, ns) # rest) \<longleftrightarrow> (u \<or> ns \<noteq> [] \<and> length ns \<le> P) \<and> small_ok P rest"
  by (auto simp: small_ok_def)

lemma small_ok_left: "small_ok P rest \<Longrightarrow> left rest = [] \<longleftrightarrow> (\<forall>(u, ns) \<in> set rest. u)"
  by (induction rest) (auto simp: left_def split: if_splits)

lemma fill_page_inv:
  assumes "fill_page P page rest = (p, r)" "length page \<le> P" "small_ok P rest"
  shows "mset p + mset (left r) = mset page + mset (left rest) \<and> length p \<le> P \<and> small_ok P r \<and>
    (length p < P \<longrightarrow> left r = []) \<and> length page \<le> length p"
  using assms
proof (induction P page rest arbitrary: p r rule: fill_page.induct)
  case (2 P page used ns rest)
  show ?case
  proof (cases "length page < P")
    case False
    then show ?thesis using 2 by auto
  next
    case room: True
    show ?thesis
    proof (cases used)
      case True
      then show ?thesis using 2(1) [OF room True] 2(4-6) room by (auto split: prod.splits)
    next
      case False
      define space where "space = P - length page"
      show ?thesis
      proof (cases "length ns \<le> space")
        case True
        obtain p' r' where rec: "fill_page P (page @ ns) rest = (p', r')" by force
        then have "p = p'" "r = (True, ns) # r'"
          using 2(4) room False True by (auto simp: space_def Let_def)
        moreover have "length (page @ ns) \<le> P" "small_ok P rest" "ns \<noteq> [] \<and> length ns \<le> P"
          using 2(6) room True False by (auto simp: space_def)
        ultimately show ?thesis
          using 2(2) [OF room False space_def True rec] False by auto
      next
        case large: False
        obtain p' r' where rec: "fill_page P (page @ take space ns) rest = (p', r')" by force
        then have pr: "p = p'" "r = (False, drop space ns) # r'"
          using 2(4) room False large by (auto simp: space_def Let_def)
        have len: "length (page @ take space ns) = P" using large room by (simp add: space_def)
        then have same: "p' = page @ take space ns" "r' = rest"
          using rec by (cases rest; auto)+
        have "mset (take space ns) + mset (drop space ns) = mset ns"
          by (metis append_take_drop_id mset_append)
        then show ?thesis
          using pr same len 2(6) large False by (auto simp: space_def)
      qed
    qed
  qed
qed simp

lemma fill_pages_used: "\<forall>(u, ns) \<in> set rest. u \<Longrightarrow> fill_pages P rest = []"
  by (induction rest) auto

text \<open>Packing keeps the nodes and fills every page but the last.\<close>

lemma fill_pages_inv:
  assumes "small_ok P rest"
  shows "mset (concat (fill_pages P rest)) = mset (left rest) \<and>
    (\<forall>p \<in> set (fill_pages P rest). p \<noteq> [] \<and> length p \<le> P) \<and>
    (\<forall>p \<in> set (butlast (fill_pages P rest)). length p = P)"
  using assms
proof (induction P rest rule: fill_pages.induct)
  case (2 P used ns rest)
  show ?case
  proof (cases used)
    case True
    then show ?thesis using 2(1) 2(3) by simp
  next
    case False
    obtain p r where pr: "fill_page P ns rest = (p, r)" by force
    have ns: "ns \<noteq> []" "length ns \<le> P" "small_ok P rest" using 2(3) False by auto
    note A = fill_page_inv [OF pr ns(2,3)]
    then have r_ok: "small_ok P r" by blast
    have IH: "mset (concat (fill_pages P r)) = mset (left r)"
        "\<forall>p \<in> set (fill_pages P r). p \<noteq> [] \<and> length p \<le> P"
        "\<forall>p \<in> set (butlast (fill_pages P r)). length p = P"
      using 2(2) [OF False] r_ok pr by simp_all
    have run: "fill_pages P ((used, ns) # rest) = p # fill_pages P r" using False pr by simp
    have "p \<noteq> []" using A ns(1) by auto
    moreover have "length p = P \<or> fill_pages P r = []"
      using A small_ok_left [OF r_ok] fill_pages_used [of r P] by (cases "length p < P") auto
    ultimately show ?thesis unfolding run using IH A False by auto
  qed
qed simp

subsection \<open>The whole layout\<close>

lemma mset_concat_map: "mset (concat (map f xs)) = (\<Sum>x\<in>#mset xs. mset (f x))"
  by (induction xs) auto

lemma sort_clusters_inv:
  assumes "0 < P" "\<forall>c \<in> set cs. distinct (cnodes c)" "sort_clusters g P cs = (full, small)"
  shows "mset (concat (map cnodes (full @ small))) = mset (concat (map cnodes cs)) \<and>
    (\<forall>c \<in> set full. length (cnodes c) = P) \<and>
    (\<forall>c \<in> set small. cnodes c \<noteq> [] \<and> length (cnodes c) \<le> P)"
  using assms
proof (induction cs arbitrary: full small)
  case (Cons c cs)
  obtain f s where rec: "sort_clusters g P cs = (f, s)" by force
  have IH: "mset (concat (map cnodes (f @ s))) = mset (concat (map cnodes cs))"
      "\<forall>c \<in> set f. length (cnodes c) = P" "\<forall>c \<in> set s. cnodes c \<noteq> [] \<and> length (cnodes c) \<le> P"
    using Cons.IH [OF Cons.prems(1) _ rec] Cons.prems(2) by auto
  show ?case
  proof (cases "cnodes c \<noteq> [] \<and> length (cnodes c) > P")
    case False
    then show ?thesis using Cons.prems(3) rec IH by (auto split: if_splits)
  next
    case True
    obtain fp pp where sp: "split_pages g (set (cnodes c)) P (cnodes c) {} = (fp, pp)" by force
    note A = split_pages_inv [OF sp subset_refl Cons.prems(1)]
    have fs: "full = map new_cluster fp @ f" "small = map new_cluster pp @ s"
      using Cons.prems(3) rec True sp by (auto simp: split_large_cluster_def)
    have id: "map cnodes (map new_cluster xs) = xs" for xs by (simp add: new_cluster_def comp_def)
    have "set (concat (fp @ pp)) = set (cnodes c)" "distinct (concat (fp @ pp))" using A by auto
    then have "mset (concat (fp @ pp)) = mset (cnodes c)"
      using Cons.prems(2) set_eq_iff_mset_eq_distinct by (metis list.set_intros(1))
    then have "mset (concat (map cnodes (full @ small))) = mset (concat (map cnodes (c # cs)))"
      using IH(1) unfolding fs map_append id by (simp add: ac_simps)
    moreover have "\<forall>c \<in> set full. length (cnodes c) = P"
      using A IH(2) unfolding fs by (auto simp: new_cluster_def)
    moreover have "\<forall>c \<in> set small. cnodes c \<noteq> [] \<and> length (cnodes c) \<le> P"
      using A IH(3) unfolding fs by (auto simp: new_cluster_def)
    ultimately show ?thesis by blast
  qed
qed simp

lemma optimize_layout_packs_nodes:
  assumes "\<And>cs. mset (srt cs) = mset cs" and "0 < P" and "\<forall>c \<in> set clusters. distinct (cnodes c)"
  shows "mset (concat (map cnodes (optimize_layout srt g P clusters))) =
      mset (concat (map cnodes clusters)) \<and>
    (\<forall>i < length (optimize_layout srt g P clusters). cpage (optimize_layout srt g P clusters ! i) = i) \<and>
    (\<forall>c \<in> set (optimize_layout srt g P clusters). cnodes c \<noteq> [] \<and> length (cnodes c) \<le> P) \<and>
    (\<forall>c \<in> set (butlast (optimize_layout srt g P clusters)). length (cnodes c) = P)"
proof -
  obtain full small where sc: "sort_clusters g P clusters = (full, small)" by force
  note A = sort_clusters_inv [OF assms(2,3) sc]
  let ?in = "map (\<lambda>c. (False, cnodes c)) (srt small)"
  have set: "set (srt small) = set small" using assms(1) by (metis set_mset_mset)
  have ok: "small_ok P ?in" using A set by (auto simp: small_ok_def)
  note B = fill_pages_inv [OF ok]
  have "mset (left ?in) = mset (concat (map cnodes (srt small)))" by (simp add: left_def comp_def)
  also have "\<dots> = mset (concat (map cnodes small))"
    by (simp add: mset_concat_map assms(1))
  finally have left: "mset (left ?in) = mset (concat (map cnodes small))" .
  define pages where "pages = map cnodes full @ fill_pages P ?in"
  have out: "map cnodes (optimize_layout srt g P clusters) = pages"
    by (simp add: optimize_layout_def sc pages_def fill_partial_pages_def new_cluster_def comp_def
        split_beta map_snd_enumerate flip: map_map [of cnodes snd, unfolded comp_def])
  have nodes: "mset (concat pages) = mset (concat (map cnodes clusters))"
    using A B left by (simp add: pages_def)
  have all: "\<forall>p \<in> set pages. p \<noteq> [] \<and> length p \<le> P" using A B assms(2) by (auto simp: pages_def)
  have full: "\<forall>p \<in> set (map cnodes full). length p = P" using A by auto
  then have last: "\<forall>p \<in> set (butlast pages). length p = P"
  proof (cases "fill_pages P ?in = []")
    case True
    then have "pages = map cnodes full" by (simp add: pages_def)
    then show ?thesis using full in_set_butlastD by metis
  next
    case False
    then have "butlast pages = map cnodes full @ butlast (fill_pages P ?in)"
      by (simp add: pages_def butlast_append)
    then show ?thesis using full B by auto
  qed
  have page: "cpage (optimize_layout srt g P clusters ! i) = i"
    if "i < length (optimize_layout srt g P clusters)" for i
    using that by (auto simp: optimize_layout_def sc nth_enumerate_eq)
  have "\<forall>c \<in> set (butlast (optimize_layout srt g P clusters)). length (cnodes c) = P"
    using last unfolding out [symmetric] map_butlast [symmetric] by simp
  then show ?thesis using nodes all page unfolding out [symmetric] by simp
qed

text \<open> C14. \<open>optimize_layout\<close> returns every node of the input clusters exactly once, on pages
  numbered in order, each non-empty and with at most \<open>page_size_\<close> nodes, and all full but
  possibly the last, so that no layout has fewer pages.\<close>

theorem optimize_layout_packs:
  assumes "\<And>cs. mset (srt cs) = mset cs" and "0 < P" and "\<forall>c \<in> set clusters. distinct (cnodes c)"
  shows "mset (concat (map cnodes (optimize_layout srt g P clusters))) =
      mset (concat (map cnodes clusters)) \<and>
    (\<forall>i < length (optimize_layout srt g P clusters). cpage (optimize_layout srt g P clusters ! i) = i) \<and>
    (\<forall>c \<in> set (optimize_layout srt g P clusters). cnodes c \<noteq> [] \<and> length (cnodes c) \<le> P) \<and>
    (\<forall>c \<in> set (butlast (optimize_layout srt g P clusters)). length (cnodes c) = P)"
  by (rule optimize_layout_packs_nodes [OF assms])

lemma optimize_layout_packs_witness:
  "mset (concat (map cnodes (optimize_layout (isort longer) [[2], [], [0]] 2
      [\<lparr>cnodes = [0, 1, 2], cpage = 0\<rparr>, \<lparr>cnodes = [3], cpage = 1\<rparr>]))) = mset [0, 1, 2, 3]"
proof -
  let ?in = "[\<lparr>cnodes = [0, 1, 2], cpage = 0\<rparr>, \<lparr>cnodes = [3], cpage = 1\<rparr>]"
  have nodes: "concat (map cnodes ?in) = [0, 1, 2, 3]" by simp
  have "\<forall>c \<in> set ?in. distinct (cnodes c)" by simp
  then have "mset (concat (map cnodes (optimize_layout (isort longer) [[2], [], [0]] 2 ?in))) =
      mset (concat (map cnodes ?in))"
    using optimize_layout_packs [of "isort longer" 2 ?in "[[2], [], [0]]", OF mset_isort zero_less_numeral]
    by blast
  then show ?thesis unfolding nodes .
qed

end
