(* ===== verification/KMeans.thy ===== *)
theory KMeans
  imports PageLayout Bytes Complex_Main
begin

text \<open>
  \<open>VectorManager\<close> and \<open>KMeansClusterer\<close> of
  \<open>Gorgeous/graph_partition/include/clustering_partitioner.h\<close>: the node vectors read from the
  disk index, distances, and Lloyd's iteration with k-means++ seeding. Floats are reals (no
  rounding); \<open>FLT_MAX\<close> is the largest one. Random draws are arguments. \<open>None\<close> is an exception
  thrown for a node id out of range.
\<close>

definition FLT_MAX :: real where
  "FLT_MAX = 340282346638528859811704183484516925440"

subsection \<open>Vectors and distances\<close>

text \<open>
  A read that meets the end of the file leaves the rest of the zeroed sector buffer as it is.
\<close>

definition read_padded :: "nat \<Rightarrow> bytes \<Rightarrow> bytes \<times> bytes" where
  "read_padded n s = (take n s @ replicate (n - length s) 0, drop n s)"

fun sector_vectors :: "nat \<Rightarrow> nat \<Rightarrow> bytes \<Rightarrow> nat \<Rightarrow> nat \<Rightarrow> bytes list option" where
  "sector_vectors max_node_len vec sector j 0 = Some []"
| "sector_vectors max_node_len vec sector j (Suc n) =
     (if j * max_node_len + vec \<le> length sector then do {
        rest \<leftarrow> sector_vectors max_node_len vec sector (j + 1) n;
        Some (take vec (drop (j * max_node_len) sector) # rest)
      } else None)"

fun batch_vectors ::
  "nat \<Rightarrow> nat \<Rightarrow> nat \<Rightarrow> nat \<Rightarrow> nat \<Rightarrow> nat \<Rightarrow> nat \<Rightarrow> bytes \<Rightarrow> (bytes list \<times> bytes) option" where
  "batch_vectors max_node_len vec sec_len per nd sector_idx 0 s = Some ([], s)"
| "batch_vectors max_node_len vec sec_len per nd sector_idx (Suc n) s = do {
     let (sector, s) = read_padded sec_len s;
     vs \<leftarrow> sector_vectors max_node_len vec sector 0 (min per (nd - sector_idx * per));
     (rest, s) \<leftarrow> batch_vectors max_node_len vec sec_len per nd (sector_idx + 1) n s;
     Some (vs @ rest, s)
   }"

function load_vectors_loop ::
  "nat \<Rightarrow> nat \<Rightarrow> nat \<Rightarrow> nat \<Rightarrow> nat \<Rightarrow> nat \<Rightarrow> nat \<Rightarrow> nat \<Rightarrow> bytes \<Rightarrow> bytes list option" where
  "load_vectors_loop batch max_node_len vec sec_len per nd num_sectors processed s =
     (if processed < num_sectors \<and> batch > 0 then do {
        let current_batch = min batch (num_sectors - processed);
        (vs, s) \<leftarrow> batch_vectors max_node_len vec sec_len per nd processed current_batch s;
        rest \<leftarrow> load_vectors_loop batch max_node_len vec sec_len per nd num_sectors
                 (processed + current_batch) s;
        Some (vs @ rest)
      } else Some [])"
  by pat_completeness auto
termination
  by (relation "measure (\<lambda>(b, l, v, sl, per, t, num_sectors, processed, s). num_sectors - processed)")
    auto

declare load_vectors_loop.simps [simp del]

definition load_vectors_from_disk ::
  "nat \<Rightarrow> nat \<Rightarrow> nat \<Rightarrow> nat \<Rightarrow> nat \<Rightarrow> nat \<Rightarrow> bytes \<Rightarrow> bytes list option" where
  "load_vectors_from_disk batch vec total_nodes max_node_len sec_len per f =
     (if per = 0 then None
      else load_vectors_loop batch max_node_len vec sec_len per total_nodes
             ((total_nodes + per - 1) div per) 0 (drop sec_len f))"

text \<open>The vectors as floats: a byte each, for \<open>T = uint8_t\<close>.\<close>

definition u8_vector :: "bytes \<Rightarrow> real list" where
  "u8_vector bs = map (\<lambda>b. real (unat b)) bs"

definition l2_distance :: "nat \<Rightarrow> real list \<Rightarrow> real list \<Rightarrow> real" where
  "l2_distance dm v1 v2 = sqrt (\<Sum>i<dm. (v1 ! i - v2 ! i) * (v1 ! i - v2 ! i))"

definition cosine_distance :: "nat \<Rightarrow> real list \<Rightarrow> real list \<Rightarrow> real" where
  "cosine_distance dm v1 v2 =
     (let dot = (\<Sum>i<dm. v1 ! i * v2 ! i); norm1 = (\<Sum>i<dm. v1 ! i * v1 ! i);
          norm2 = (\<Sum>i<dm. v2 ! i * v2 ! i)
      in 1 - dot / (sqrt norm1 * sqrt norm2 + 1 / 10 ^ 10))"

definition vm_distance :: "string \<Rightarrow> nat \<Rightarrow> real list \<Rightarrow> real list \<Rightarrow> real" where
  "vm_distance distance_type dm v c =
     (if distance_type = ''L2'' then l2_distance dm v c
      else if distance_type = ''cosine'' then cosine_distance dm v c
      else l2_distance dm v c)"

subsection \<open>Seeding\<close>

definition copy_vector_to_centroid ::
  "real list list \<Rightarrow> nat \<Rightarrow> real list list \<Rightarrow> nat \<Rightarrow> real list list option" where
  "copy_vector_to_centroid vs node cs k = do {
     v \<leftarrow> vec_at vs node;
     vec_put cs k v
   }"

definition closer :: "real list list \<Rightarrow> (real list \<Rightarrow> real list \<Rightarrow> real) \<Rightarrow> real list \<Rightarrow> real list \<Rightarrow> real list" where
  "closer vs dst c min_distances =
     map (\<lambda>(v, m). if dst v c < m then dst v c else m) (zip vs min_distances)"

text \<open>The first index at which the running sum of squares reaches the target, else 0.\<close>

fun reach :: "real \<Rightarrow> real \<Rightarrow> nat \<Rightarrow> real list \<Rightarrow> nat" where
  "reach target cumsum i [] = 0"
| "reach target cumsum i (d # ds) =
     (if cumsum + d * d \<ge> target then i else reach target (cumsum + d * d) (i + 1) ds)"

fun seed_centroids ::
  "(real list \<Rightarrow> real list \<Rightarrow> real) \<Rightarrow> real list list \<Rightarrow> (nat \<Rightarrow> real) \<Rightarrow> nat \<Rightarrow> nat \<Rightarrow> real list \<Rightarrow>
   real list list \<Rightarrow> real list list option" where
  "seed_centroids dst vs target k 0 min_distances cs = Some cs"
| "seed_centroids dst vs target k (Suc n) min_distances cs = do {
     c \<leftarrow> vec_at cs (k - 1);
     let min_distances = closer vs dst c min_distances;
     cs \<leftarrow> copy_vector_to_centroid vs (reach (target k) 0 0 min_distances) cs k;
     seed_centroids dst vs target (k + 1) n min_distances cs
   }"

definition initialize_centroids ::
  "(real list \<Rightarrow> real list \<Rightarrow> real) \<Rightarrow> real list list \<Rightarrow> nat \<Rightarrow> nat \<Rightarrow> nat \<Rightarrow> (nat \<Rightarrow> real) \<Rightarrow>
   real list list option" where
  "initialize_centroids dst vs dm k_clusters first target = do {
     cs \<leftarrow> copy_vector_to_centroid vs first (replicate k_clusters (replicate dm 0)) 0;
     seed_centroids dst vs target 1 (k_clusters - 1) (replicate (length vs) FLT_MAX) cs
   }"

subsection \<open>The iteration\<close>

record kmeans_st =
  centroids :: "real list list"
  assignments :: "nat list"
  clusters :: "nat list list"

text \<open>The nearest centroid, the first of equally near ones.\<close>

fun nearest ::
  "(real list \<Rightarrow> real list \<Rightarrow> real) \<Rightarrow> real list \<Rightarrow> nat \<Rightarrow> real list list \<Rightarrow> real \<Rightarrow> nat \<Rightarrow> nat" where
  "nearest dst v k [] min_dist best = best"
| "nearest dst v k (c # cs) min_dist best =
     (if dst v c < min_dist then nearest dst v (k + 1) cs (dst v c) k
      else nearest dst v (k + 1) cs min_dist best)"

definition best_cluster :: "(real list \<Rightarrow> real list \<Rightarrow> real) \<Rightarrow> real list list \<Rightarrow> real list \<Rightarrow> nat" where
  "best_cluster dst cs v = nearest dst v 0 cs FLT_MAX 0"

definition fill_clusters :: "nat \<Rightarrow> nat list \<Rightarrow> nat list list" where
  "fill_clusters k_clusters as =
     map (\<lambda>k. filter (\<lambda>i. as ! i = k) [0..<length as]) [0..<k_clusters]"

definition assign_points_to_clusters ::
  "(real list \<Rightarrow> real list \<Rightarrow> real) \<Rightarrow> real list list \<Rightarrow> nat \<Rightarrow> kmeans_st \<Rightarrow> bool \<times> kmeans_st" where
  "assign_points_to_clusters dst vs k_clusters st =
     (let as = map (best_cluster dst (centroids st)) vs in
      (as \<noteq> assignments st, st\<lparr>assignments := as, clusters := fill_clusters k_clusters as\<rparr>))"

fun add_vectors :: "real list list \<Rightarrow> nat list \<Rightarrow> real list \<Rightarrow> real list option" where
  "add_vectors vs [] acc = Some acc"
| "add_vectors vs (n # ns) acc = do {
     v \<leftarrow> vec_at vs n;
     add_vectors vs ns (map (\<lambda>(a, x). a + x) (zip acc v))
   }"

text \<open>\<open>rnd k\<close> is the node drawn for an empty cluster \<open>k\<close>.\<close>

fun update_centroids ::
  "real list list \<Rightarrow> nat \<Rightarrow> (nat \<Rightarrow> nat) \<Rightarrow> nat \<Rightarrow> nat list list \<Rightarrow> real list list option" where
  "update_centroids vs dm rnd k [] = Some []"
| "update_centroids vs dm rnd k (c # cs) = do {
     m \<leftarrow> (if c = [] then vec_at vs (rnd k)
          else do {
            s \<leftarrow> add_vectors vs c (replicate dm 0);
            Some (map (\<lambda>x. x * (1 / real (length c))) s)
          });
     rest \<leftarrow> update_centroids vs dm rnd (k + 1) cs;
     Some (m # rest)
   }"

definition compute_inertia :: "(real list \<Rightarrow> real list \<Rightarrow> real) \<Rightarrow> real list list \<Rightarrow> kmeans_st \<Rightarrow> real" where
  "compute_inertia dst vs st =
     (\<Sum>i<length vs. dst (vs ! i) (centroids st ! (assignments st ! i)) *
        dst (vs ! i) (centroids st ! (assignments st ! i)))"

fun kmeans_loop ::
  "(real list \<Rightarrow> real list \<Rightarrow> real) \<Rightarrow> real list list \<Rightarrow> nat \<Rightarrow> nat \<Rightarrow> (nat \<Rightarrow> nat \<Rightarrow> nat) \<Rightarrow> real \<Rightarrow> nat \<Rightarrow>
   real \<Rightarrow> kmeans_st \<Rightarrow> kmeans_st option" where
  "kmeans_loop dst vs dm k_clusters rnd tolerance 0 prev_inertia st = Some st"
| "kmeans_loop dst vs dm k_clusters rnd tolerance (Suc n) prev_inertia st = do {
     let (changed, st) = assign_points_to_clusters dst vs k_clusters st;
     cs \<leftarrow> update_centroids vs dm (rnd n) 0 (clusters st);
     let st = st\<lparr>centroids := cs\<rparr>;
     let inertia = compute_inertia dst vs st;
     if \<not> changed \<or> \<bar>prev_inertia - inertia\<bar> < tolerance then Some st
     else kmeans_loop dst vs dm k_clusters rnd tolerance n inertia st
   }"

definition convert_to_cluster_info :: "kmeans_st \<Rightarrow> cluster list" where
  "convert_to_cluster_info st =
     map (\<lambda>(k, c). \<lparr>cnodes = c, cpage = k\<rparr>) (filter (\<lambda>(k, c). c \<noteq> []) (enumerate 0 (clusters st)))"

definition run_kmeans ::
  "string \<Rightarrow> real list list \<Rightarrow> nat \<Rightarrow> nat \<Rightarrow> nat \<Rightarrow> real \<Rightarrow> nat \<Rightarrow> (nat \<Rightarrow> real) \<Rightarrow> (nat \<Rightarrow> nat \<Rightarrow> nat) \<Rightarrow>
   cluster list option" where
  "run_kmeans distance_type vs dm k_clusters max_iterations tolerance first target rnd =
     (if k_clusters = 0 \<or> k_clusters > length vs then None
      else do {
        let dst = vm_distance distance_type dm;
        cs \<leftarrow> initialize_centroids dst vs dm k_clusters first target;
        st \<leftarrow> kmeans_loop dst vs dm k_clusters rnd tolerance max_iterations FLT_MAX
          \<lparr>centroids = cs, assignments = replicate (length vs) 0,
           clusters = replicate k_clusters []\<rparr>;
        Some (convert_to_cluster_info st)
      })"

subsection \<open>Assignment\<close>

lemma nearest_inv:
  "min_dist = dst v (all ! best) \<or> (best = 0 \<and> min_dist = FLT_MAX) \<Longrightarrow>
   all = prev @ cs \<Longrightarrow> k = length prev \<Longrightarrow>
   (\<forall>c \<in> set prev. min_dist \<le> dst v c) \<or> (\<forall>c \<in> set prev. FLT_MAX \<le> dst v c \<and> min_dist = FLT_MAX) \<Longrightarrow>
   best < length all \<or> best = 0 \<Longrightarrow> min_dist \<le> FLT_MAX \<Longrightarrow>
   (\<exists>c \<in> set all. dst v c < FLT_MAX) \<Longrightarrow>
   nearest dst v k cs min_dist best < length all \<and>
   (\<forall>c \<in> set all. dst v (all ! nearest dst v k cs min_dist best) \<le> dst v c)"
proof (induction dst v k cs min_dist best arbitrary: prev rule: nearest.induct)
  case (1 dst v k min_dist best)
  then obtain c where c: "c \<in> set all" "dst v c < FLT_MAX" by blast
  have "min_dist \<le> dst v c" using 1(2,4) c by auto
  then have "min_dist < FLT_MAX" using c(2) by linarith
  then have "min_dist = dst v (all ! best)" "\<forall>c \<in> set all. min_dist \<le> dst v c"
    using 1(1,2,4) by auto
  moreover have "best < length all" using 1(5) c(1) by (cases all) auto
  ultimately show ?case by simp
next
  case (2 dst v k c cs min_dist best)
  show ?case
  proof (cases "dst v c < min_dist")
    case True
    have "nearest dst v (k + 1) cs (dst v c) k < length all \<and>
      (\<forall>c' \<in> set all. dst v (all ! nearest dst v (k + 1) cs (dst v c) k) \<le> dst v c')"
    proof (rule 2(1) [OF True, of "prev @ [c]"])
      show "(\<forall>c' \<in> set (prev @ [c]). dst v c \<le> dst v c') \<or>
        (\<forall>c' \<in> set (prev @ [c]). FLT_MAX \<le> dst v c' \<and> dst v c = FLT_MAX)"
        using 2(6) True by fastforce
    qed (use 2(4,5,7-9) True in \<open>auto simp: nth_append\<close>)
    then show ?thesis using True by simp
  next
    case False
    have "nearest dst v (k + 1) cs min_dist best < length all \<and>
      (\<forall>c' \<in> set all. dst v (all ! nearest dst v (k + 1) cs min_dist best) \<le> dst v c')"
    proof (rule 2(2) [OF False, of "prev @ [c]"])
      show "(\<forall>c' \<in> set (prev @ [c]). min_dist \<le> dst v c') \<or>
        (\<forall>c' \<in> set (prev @ [c]). FLT_MAX \<le> dst v c' \<and> min_dist = FLT_MAX)"
        using 2(6) False by fastforce
    qed (use 2(3,4,5,7-9) in auto)
    then show ?thesis using False by simp
  qed
qed

lemma best_cluster_nearest:
  assumes "\<exists>c \<in> set cs. dst v c < FLT_MAX"
  shows "best_cluster dst cs v < length cs \<and>
    (\<forall>c \<in> set cs. dst v (cs ! best_cluster dst cs v) \<le> dst v c)"
  unfolding best_cluster_def using nearest_inv [of FLT_MAX dst v cs 0 "[]" cs 0] assms by auto

lemma nearest_less: "best < k + length cs \<Longrightarrow> nearest dst v k cs m best < k + length cs"
  by (induction dst v k cs m best rule: nearest.induct) auto

lemma best_cluster_less: "cs \<noteq> [] \<Longrightarrow> best_cluster dst cs v < length cs"
  unfolding best_cluster_def using nearest_less [of 0 0 cs dst v FLT_MAX] by simp

lemma mset_filter_classes:
  assumes "\<forall>x \<in> set xs. f x < (k::nat)"
  shows "mset (concat (map (\<lambda>j. filter (\<lambda>x. f x = j) xs) [0..<k])) = mset xs"
  using assms
proof (induction xs)
  case Nil
  then show ?case by (induction k) auto
next
  case (Cons x xs)
  have "mset (concat (map (\<lambda>j. filter (\<lambda>y. f y = j) (x # xs)) js)) =
    (if f x \<in> set js then {#x#} else {#}) + mset (concat (map (\<lambda>j. filter (\<lambda>y. f y = j) xs) js))"
    if "distinct js" for js
    using that by (induction js) auto
  from this [of "[0..<k]"] show ?case using Cons by simp
qed

lemma fill_clusters_mset:
  "\<forall>a \<in> set as. a < k \<Longrightarrow> mset (concat (fill_clusters k as)) = mset [0..<length as]"
  unfolding fill_clusters_def using mset_filter_classes [of "[0..<length as]" "\<lambda>i. as ! i" k] by auto

text \<open> The assignment step gives every point a nearest centroid (whenever some centroid is at
  a distance below \<open>FLT_MAX\<close>), and puts every point on the one list of its centroid.\<close>

theorem assign_points_nearest:
  assumes "length (centroids st) = k" "0 < k"
    and "\<forall>v \<in> set vs. \<exists>c \<in> set (centroids st). dst v c < FLT_MAX"
    and "assign_points_to_clusters dst vs k st = (changed, st')"
  shows "(\<forall>i < length vs. assignments st' ! i < k \<and>
      (\<forall>j < k. dst (vs ! i) (centroids st ! (assignments st' ! i)) \<le> dst (vs ! i) (centroids st ! j))) \<and>
    mset (concat (clusters st')) = mset [0..<length vs] \<and>
    (\<forall>i < length vs. i \<in> set (clusters st' ! (assignments st' ! i)))"
proof -
  let ?as = "map (best_cluster dst (centroids st)) vs"
  have st': "assignments st' = ?as" "clusters st' = fill_clusters k ?as" "centroids st' = centroids st"
    using assms(4) by (auto simp: assign_points_to_clusters_def Let_def)
  have best: "?as ! i < k \<and> (\<forall>j < k. dst (vs ! i) (centroids st ! (?as ! i)) \<le> dst (vs ! i) (centroids st ! j))"
    if "i < length vs" for i
    using best_cluster_nearest [of "centroids st" dst "vs ! i"] assms(1,3) that by auto
  moreover have "mset (concat (fill_clusters k ?as)) = mset [0..<length vs]"
    using fill_clusters_mset [of ?as k] best_cluster_less [of "centroids st" dst] assms(1,2) by auto
  moreover have "i \<in> set (fill_clusters k ?as ! (?as ! i))" if "i < length vs" for i
    using best [OF that] that by (auto simp: fill_clusters_def)
  ultimately show ?thesis unfolding st' by blast
qed

lemma assign_points_nearest_witness:
  "assignments (snd (assign_points_to_clusters (vm_distance ''L2'' 1) [[0], [5]] 2
      \<lparr>centroids = [[4], [1]], assignments = [0, 0], clusters = []\<rparr>)) ! 1 < 2"
proof -
  let ?st = "\<lparr>centroids = [[4], [1]], assignments = [0, 0], clusters = []\<rparr>"
  have near: "\<forall>v \<in> set [[0], [5]]. \<exists>c \<in> set (centroids ?st). vm_distance ''L2'' 1 v c < FLT_MAX"
    by (auto simp: vm_distance_def l2_distance_def FLT_MAX_def)
  show ?thesis
    using assign_points_nearest [of ?st 2 "[[0], [5]]" "vm_distance ''L2'' 1", OF _ _ near prod.collapse [symmetric]]
    by (auto simp: numeral_2_eq_2)
qed

subsection \<open>The mean minimises the sum of squares\<close>

lemma mean_least_squares:
  fixes x :: "'b \<Rightarrow> real"
  assumes "finite S" "S \<noteq> {}" "m = (\<Sum>i\<in>S. x i) * (1 / real (card S))"
  shows "(\<Sum>i\<in>S. (x i - m) * (x i - m)) \<le> (\<Sum>i\<in>S. (x i - c) * (x i - c))"
proof -
  have "(\<Sum>i\<in>S. x i) = real (card S) * m" using assms by (simp add: card_gt_0_iff)
  then have zero: "(\<Sum>i\<in>S. x i - m) = 0" by (simp add: sum_subtractf)
  have "(x i - c) * (x i - c) = (x i - m) * (x i - m) + (x i - m) * (2 * (m - c)) + (m - c) * (m - c)" for i
    by (simp add: algebra_simps)
  then have "(\<Sum>i\<in>S. (x i - c) * (x i - c)) =
    (\<Sum>i\<in>S. (x i - m) * (x i - m)) + (\<Sum>i\<in>S. x i - m) * (2 * (m - c)) + (\<Sum>i\<in>S. (m - c) * (m - c))"
    by (simp add: sum.distrib sum_distrib_right)
  also have "\<dots> = (\<Sum>i\<in>S. (x i - m) * (x i - m)) + real (card S) * ((m - c) * (m - c))"
    using zero by simp
  finally show ?thesis by simp
qed

definition sq_dist :: "nat \<Rightarrow> real list \<Rightarrow> real list \<Rightarrow> real" where
  "sq_dist dm v c = (\<Sum>d<dm. (v ! d - c ! d) * (v ! d - c ! d))"

lemma l2_squared: "l2_distance dm v c * l2_distance dm v c = sq_dist dm v c"
  by (simp add: l2_distance_def sq_dist_def sum_nonneg flip: power2_eq_square)

lemma l2_le_iff: "l2_distance dm v c \<le> l2_distance dm v c' \<longleftrightarrow> sq_dist dm v c \<le> sq_dist dm v c'"
  by (simp add: l2_distance_def sq_dist_def)

lemma add_vectors_nth:
  assumes "\<forall>n \<in> set ns. n < length vs" "\<forall>v \<in> set vs. length v = dm" "length acc = dm"
  shows "\<exists>s. add_vectors vs ns acc = Some s \<and> length s = dm \<and>
    (\<forall>d < dm. s ! d = acc ! d + (\<Sum>n\<leftarrow>ns. vs ! n ! d))"
  using assms
proof (induction ns arbitrary: acc)
  case (Cons n ns)
  let ?acc = "map (\<lambda>(a, x). a + x) (zip acc (vs ! n))"
  have n: "n < length vs" "length (vs ! n) = dm" using Cons.prems by auto
  have "length ?acc = dm" using n Cons.prems(3) by simp
  then obtain s where "add_vectors vs ns ?acc = Some s" "length s = dm"
      "\<forall>d < dm. s ! d = ?acc ! d + (\<Sum>n\<leftarrow>ns. vs ! n ! d)"
    using Cons.IH [of ?acc] Cons.prems by auto
  then show ?case using n Cons.prems(3) by (intro exI [of _ s]) (auto simp: vec_at_in)
qed simp

lemma update_centroids_nth:
  assumes "\<forall>v \<in> set vs. length v = dm" "\<forall>c \<in> set cls. \<forall>n \<in> set c. n < length vs"
    and "\<forall>j. rnd j < length vs"
  shows "\<exists>cs. update_centroids vs dm rnd k cls = Some cs \<and> length cs = length cls \<and>
    (\<forall>j < length cls. length (cs ! j) = dm \<and> (cls ! j \<noteq> [] \<longrightarrow>
      (\<forall>d < dm. cs ! j ! d = (\<Sum>n\<leftarrow>cls ! j. vs ! n ! d) * (1 / real (length (cls ! j))))))"
  using assms(2)
proof (induction cls arbitrary: k)
  case (Cons c cls)
  have "\<forall>c \<in> set cls. \<forall>n \<in> set c. n < length vs" using Cons.prems by simp
  from Cons.IH [OF this, of "k + 1"] obtain cs where
      cs: "update_centroids vs dm rnd (k + 1) cls = Some cs" "length cs = length cls"
      "\<forall>j < length cls. length (cs ! j) = dm \<and> (cls ! j \<noteq> [] \<longrightarrow>
        (\<forall>d < dm. cs ! j ! d = (\<Sum>n\<leftarrow>cls ! j. vs ! n ! d) * (1 / real (length (cls ! j)))))"
    by blast
  show ?case
  proof (cases "c = []")
    case True
    have "length (vs ! rnd k) = dm" using assms(1,3) by simp
    then have "update_centroids vs dm rnd k (c # cls) = Some ((vs ! rnd k) # cs)"
      using True cs assms(3) by (simp add: vec_at_in)
    then show ?thesis
      using cs True \<open>length (vs ! rnd k) = dm\<close>
      by (intro exI [of _ "(vs ! rnd k) # cs"]) (auto simp: nth_Cons split: nat.split)
  next
    case False
    obtain s where s: "add_vectors vs c (replicate dm 0) = Some s" "length s = dm"
        "\<forall>d < dm. s ! d = replicate dm 0 ! d + (\<Sum>n\<leftarrow>c. vs ! n ! d)"
      using add_vectors_nth [of c vs dm "replicate dm 0"] assms(1) Cons.prems by auto
    let ?m = "map (\<lambda>x. x * (1 / real (length c))) s"
    have "update_centroids vs dm rnd k (c # cls) = Some (?m # cs)"
      using False cs s(1) by simp
    then show ?thesis
      using cs s by (intro exI [of _ "?m # cs"]) (auto simp: nth_Cons split: nat.split)
  qed
qed simp

lemma sum_over_clusters:
  fixes h :: "nat \<Rightarrow> nat \<Rightarrow> real"
  assumes "\<forall>i < n. a i < k"
  shows "(\<Sum>i<n. h i (a i)) = (\<Sum>j<k. \<Sum>i\<in>{i. i < n \<and> a i = j}. h i j)"
proof -
  have "(\<Sum>i<n. h i (a i)) = (\<Sum>j<k. \<Sum>i\<in>{i \<in> {..<n}. a i = j}. h i (a i))"
    using assms by (intro sum.group [symmetric]) auto
  also have "\<dots> = (\<Sum>j<k. \<Sum>i\<in>{i. i < n \<and> a i = j}. h i j)"
    by (intro sum.cong) auto
  finally show ?thesis .
qed

lemma nth_fill_clusters:
  "j < k \<Longrightarrow> fill_clusters k as ! j = filter (\<lambda>i. as ! i = j) [0..<length as]"
  by (simp add: fill_clusters_def)

lemma members_fill_clusters:
  "j < k \<Longrightarrow> set (fill_clusters k as ! j) = {i. i < length as \<and> as ! i = j}"
  by (auto simp: nth_fill_clusters)

lemma distinct_fill_clusters: "j < k \<Longrightarrow> distinct (fill_clusters k as ! j)"
  by (simp add: nth_fill_clusters)

text \<open>
  Replacing the centroid of every cluster by the mean of its members does not increase the sum of
  squares.
\<close>

lemma update_least_squares:
  assumes vs: "\<forall>v \<in> set vs. length v = dm" and as: "length as = length vs" "\<forall>i < length vs. as ! i < k"
    and rnd: "\<forall>j. rnd j < length vs" and run: "update_centroids vs dm rnd 0 (fill_clusters k as) = Some cs'"
  shows "(\<Sum>i<length vs. sq_dist dm (vs ! i) (cs' ! (as ! i))) \<le>
    (\<Sum>i<length vs. sq_dist dm (vs ! i) (cs ! (as ! i)))"
proof -
  let ?cls = "fill_clusters k as"
  have len: "length ?cls = k" by (simp add: fill_clusters_def)
  have "\<forall>c \<in> set ?cls. \<forall>n \<in> set c. n < length vs" using as(1) by (auto simp: fill_clusters_def)
  then have cs': "\<forall>j < k. ?cls ! j \<noteq> [] \<longrightarrow>
      (\<forall>d < dm. cs' ! j ! d = (\<Sum>n\<leftarrow>?cls ! j. vs ! n ! d) * (1 / real (length (?cls ! j))))"
    using update_centroids_nth [OF vs _ rnd, of ?cls 0] run len by auto
  have part: "(\<Sum>i\<in>{i. i < length vs \<and> as ! i = j}. sq_dist dm (vs ! i) (cs' ! j)) \<le>
      (\<Sum>i\<in>{i. i < length vs \<and> as ! i = j}. sq_dist dm (vs ! i) (cs ! j))" if j: "j < k" for j
  proof (cases "{i. i < length vs \<and> as ! i = j} = {}")
    case True
    then show ?thesis by (simp only: sum.empty)
  next
    case False
    let ?S = "{i. i < length vs \<and> as ! i = j}"
    have S: "set (?cls ! j) = ?S" "distinct (?cls ! j)"
      using members_fill_clusters [OF j, of as] distinct_fill_clusters [OF j, of as] as(1) by auto
    have ne: "?cls ! j \<noteq> []" using S(1) False by (metis empty_set)
    have card: "length (?cls ! j) = card ?S" using distinct_card [OF S(2)] S(1) by simp
    have mean: "cs' ! j ! d = (\<Sum>i\<in>?S. vs ! i ! d) * (1 / real (card ?S))" if "d < dm" for d
      using cs' j ne that S card by (simp add: sum_list_distinct_conv_sum_set)
    have "(\<Sum>i\<in>?S. sq_dist dm (vs ! i) (cs' ! j)) =
        (\<Sum>d<dm. \<Sum>i\<in>?S. (vs ! i ! d - cs' ! j ! d) * (vs ! i ! d - cs' ! j ! d))"
      unfolding sq_dist_def by (rule sum.swap)
    also have "\<dots> \<le> (\<Sum>d<dm. \<Sum>i\<in>?S. (vs ! i ! d - cs ! j ! d) * (vs ! i ! d - cs ! j ! d))"
    proof (rule sum_mono)
      fix d assume "d \<in> {..<dm}"
      then have "d < dm" by simp
      then show "(\<Sum>i\<in>?S. (vs ! i ! d - cs' ! j ! d) * (vs ! i ! d - cs' ! j ! d)) \<le>
          (\<Sum>i\<in>?S. (vs ! i ! d - cs ! j ! d) * (vs ! i ! d - cs ! j ! d))"
        by (intro mean_least_squares [OF _ False mean]) simp_all
    qed
    also have "\<dots> = (\<Sum>i\<in>?S. sq_dist dm (vs ! i) (cs ! j))"
      unfolding sq_dist_def by (rule sum.swap)
    finally show ?thesis .
  qed
  have regroup: "(\<Sum>i<length vs. sq_dist dm (vs ! i) (c ! (as ! i))) =
      (\<Sum>j<k. \<Sum>i\<in>{i. i < length vs \<and> as ! i = j}. sq_dist dm (vs ! i) (c ! j))" for c
    using sum_over_clusters [OF as(2), of "\<lambda>i j. sq_dist dm (vs ! i) (c ! j)"] .
  show ?thesis unfolding regroup by (rule sum_mono, rule part) simp
qed

text \<open> C31. With the L2 distance (in exact arithmetic) an iteration of assignment and update never
  increases the inertia, whatever nodes are drawn for empty clusters.\<close>

theorem kmeans_iteration_improves:
  assumes "\<forall>v \<in> set vs. length v = dm" and "length (centroids st) = k"
    and "length (assignments st) = length vs" and "\<forall>i < length vs. assignments st ! i < k"
    and "\<forall>v \<in> set vs. \<exists>c \<in> set (centroids st). l2_distance dm v c < FLT_MAX"
    and "\<forall>j. rnd j < length vs"
    and "assign_points_to_clusters (l2_distance dm) vs k st = (changed, st1)"
    and "update_centroids vs dm rnd 0 (clusters st1) = Some cs"
  shows "compute_inertia (l2_distance dm) vs (st1\<lparr>centroids := cs\<rparr>) \<le>
    compute_inertia (l2_distance dm) vs st"
proof -
  let ?as = "assignments st1"
  have st1: "?as = map (best_cluster (l2_distance dm) (centroids st)) vs"
      "clusters st1 = fill_clusters k ?as"
    using assms(7) by (auto simp: assign_points_to_clusters_def Let_def)
  have best: "?as ! i < k \<and> sq_dist dm (vs ! i) (centroids st ! (?as ! i)) \<le>
      sq_dist dm (vs ! i) (centroids st ! (assignments st ! i))" if "i < length vs" for i
    using best_cluster_nearest [of "centroids st" "l2_distance dm" "vs ! i"] assms(2,4,5) that
    by (auto simp: st1 l2_le_iff)
  have "(\<Sum>i<length vs. sq_dist dm (vs ! i) (cs ! (?as ! i))) \<le>
      (\<Sum>i<length vs. sq_dist dm (vs ! i) (centroids st ! (?as ! i)))"
    using update_least_squares [OF assms(1) _ _ assms(6), of ?as k cs] assms(8) best st1 by auto
  also have "\<dots> \<le> (\<Sum>i<length vs. sq_dist dm (vs ! i) (centroids st ! (assignments st ! i)))"
    using best by (intro sum_mono) auto
  finally show ?thesis by (simp add: compute_inertia_def l2_squared)
qed

lemma kmeans_iteration_improves_witness:
  "compute_inertia (l2_distance 1) [[0], [2]] \<lparr>centroids = [[1]], assignments = [0, 0], clusters = [[0, 1]]\<rparr> \<le>
   compute_inertia (l2_distance 1) [[0], [2]] \<lparr>centroids = [[0]], assignments = [0, 0], clusters = []\<rparr>"
proof -
  let ?st = "\<lparr>centroids = [[0]], assignments = [0, 0], clusters = []\<rparr>"
  let ?st1 = "\<lparr>centroids = [[0]], assignments = [0, 0], clusters = [[0, 1]]\<rparr>"
  have a: "assign_points_to_clusters (l2_distance 1) [[0], [2]] 1 ?st = (False, ?st1)"
    by (simp add: assign_points_to_clusters_def best_cluster_def fill_clusters_def)
  have u: "update_centroids [[0], [2]] 1 (\<lambda>_. 0) 0 (clusters ?st1) = Some [[1]]"
    by (simp add: vec_at_def)
  have near: "\<forall>v \<in> set [[0], [2]]. \<exists>c \<in> set (centroids ?st). l2_distance 1 v c < FLT_MAX"
    by (auto simp: l2_distance_def FLT_MAX_def)
  have asg: "\<forall>i < length [[0], [2::real]]. assignments ?st ! i < 1"
    by (auto simp: less_Suc_eq)
  show ?thesis
    using kmeans_iteration_improves [OF _ _ _ asg near _ a u] by simp
qed

subsection \<open>The clusters found\<close>

text \<open>After an assignment the clusters are those of the assignments.\<close>

definition kmeans_ok :: "nat \<Rightarrow> nat \<Rightarrow> nat \<Rightarrow> kmeans_st \<Rightarrow> bool" where
  [inv_defs]: "kmeans_ok n dm k st \<longleftrightarrow>
     length (centroids st) = k \<and> clusters st = fill_clusters k (assignments st) \<and>
     length (assignments st) = n \<and> (\<forall>a \<in> set (assignments st). a < k)"

lemma kmeans_loop_ok:
  assumes "\<forall>v \<in> set vs. length v = dm" "0 < k" "\<forall>i j. rnd i j < length vs"
    and "length (centroids st) = k" "kmeans_ok (length vs) dm k st \<or> 0 < n"
  shows "\<exists>st'. kmeans_loop dst vs dm k rnd tol n prev st = Some st' \<and> kmeans_ok (length vs) dm k st'"
  using assms(4,5)
proof (induction n arbitrary: prev st)
  case (Suc n)
  obtain changed st1 where a: "assign_points_to_clusters dst vs k st = (changed, st1)" by force
  have st1: "assignments st1 = map (best_cluster dst (centroids st)) vs"
      "clusters st1 = fill_clusters k (assignments st1)"
    using a by (auto simp: assign_points_to_clusters_def Let_def)
  have lt: "\<forall>x \<in> set (assignments st1). x < k"
    using best_cluster_less [of "centroids st" dst] Suc.prems(1) assms(2) st1(1) by auto
  have "\<forall>c \<in> set (clusters st1). \<forall>m \<in> set c. m < length vs"
    using st1 by (auto simp: fill_clusters_def)
  then obtain cs where cs: "update_centroids vs dm (rnd n) 0 (clusters st1) = Some cs"
      "length cs = length (clusters st1)"
    using update_centroids_nth [OF assms(1), of "clusters st1" "rnd n" 0] assms(3) by auto
  have ok: "kmeans_ok (length vs) dm k (st1\<lparr>centroids := cs\<rparr>)"
    using st1 lt cs(2) by (auto simp: kmeans_ok_def fill_clusters_def)
  then have len: "length (centroids (st1\<lparr>centroids := cs\<rparr>)) = k" by (simp add: kmeans_ok_def)
  show ?case
    using Suc.IH [OF len disjI1 [OF ok]] a cs(1) ok by (auto simp: Let_def)
qed simp

lemma seed_centroids_ok:
  assumes "0 < length vs" "0 < k" "k + n \<le> length cs" "length md = length vs"
  shows "\<exists>cs'. seed_centroids dst vs target k n md cs = Some cs' \<and> length cs' = length cs"
  using assms
proof (induction n arbitrary: k md cs)
  case (Suc n)
  have reach: "reach t c i ds < i + length ds \<or> reach t c i ds = 0" for t c i ds
    by (induction t c i ds rule: reach.induct) auto
  let ?c = "cs ! (k - 1)"
  let ?md = "closer vs dst ?c md"
  have md: "length ?md = length vs" using Suc.prems(4) by (simp add: closer_def)
  have r: "reach (target k) 0 0 ?md < length vs"
    using reach [of "target k" 0 0 ?md] md Suc.prems(1) by auto
  let ?cs = "cs[k := vs ! reach (target k) 0 0 ?md]"
  have step: "copy_vector_to_centroid vs (reach (target k) 0 0 ?md) cs k = Some ?cs"
    using r Suc.prems(3) by (simp add: copy_vector_to_centroid_def vec_simps)
  have c: "vec_at cs (k - 1) = Some ?c" using Suc.prems(3) by (simp add: vec_at_def)
  obtain cs' where "seed_centroids dst vs target (k + 1) n ?md ?cs = Some cs'"
      "length cs' = length ?cs"
    using Suc.IH [of "k + 1" ?cs ?md] Suc.prems md by auto
  then show ?case using step c by (simp add: Let_def)
qed simp

lemma initialize_centroids_ok:
  assumes "first < length vs" "0 < k"
  shows "\<exists>cs. initialize_centroids dst vs dm k first target = Some cs \<and> length cs = k"
proof -
  let ?cs = "(replicate k (replicate dm 0))[0 := vs ! first]"
  have "copy_vector_to_centroid vs first (replicate k (replicate dm 0)) 0 = Some ?cs"
    using assms by (simp add: copy_vector_to_centroid_def vec_simps)
  moreover have "vs \<noteq> []" using assms(1) by auto
  ultimately show ?thesis
    using seed_centroids_ok [of vs 1 "k - 1" ?cs "replicate (length vs) FLT_MAX" dst target] assms
    by (auto simp: initialize_centroids_def)
qed

lemma convert_clusters:
  "map cnodes (convert_to_cluster_info st) = filter (\<lambda>c. c \<noteq> []) (clusters st)"
proof -
  have "map cnodes (map (\<lambda>(k, c). \<lparr>cnodes = c, cpage = k\<rparr>) (filter (\<lambda>(k, c). c \<noteq> []) (enumerate n xs))) =
    filter (\<lambda>c. c \<noteq> []) xs" for n and xs :: "nat list list"
    by (induction xs arbitrary: n) auto
  then show ?thesis by (simp add: convert_to_cluster_info_def)
qed

lemma concat_filter_Nil: "concat (filter (\<lambda>c. c \<noteq> []) xs) = concat xs"
  by (induction xs) auto

text \<open> Clustering followed by the page layout: for every data set, number of clusters, random
  draw and at least one iteration, k-means returns, and laying out its clusters puts every node
  on exactly one page, all pages but possibly the last being full.\<close>

theorem kmeans_layout_complete:
  assumes "\<forall>v \<in> set vs. length v = dm" and "0 < k" "k \<le> length vs" and "0 < max_iterations"
    and "first < length vs" and "\<forall>i j. rnd i j < length vs"
    and "\<And>cs. mset (srt cs) = mset cs" and "0 < P"
  shows "\<exists>cls. run_kmeans distance_type vs dm k max_iterations tolerance first target rnd = Some cls \<and>
    mset (concat (map cnodes (optimize_layout srt g P cls))) = mset [0..<length vs] \<and>
    (\<forall>c \<in> set (butlast (optimize_layout srt g P cls)). length (cnodes c) = P)"
proof -
  let ?d = "vm_distance distance_type dm"
  obtain cs where cs: "initialize_centroids ?d vs dm k first target = Some cs" "length cs = k"
    using initialize_centroids_ok [OF assms(5,2)] by blast
  let ?st = "\<lparr>centroids = cs, assignments = replicate (length vs) 0, clusters = replicate k []\<rparr>"
  obtain st where st: "kmeans_loop ?d vs dm k rnd tolerance max_iterations FLT_MAX ?st = Some st"
      "kmeans_ok (length vs) dm k st"
    using kmeans_loop_ok [OF assms(1,2,6), where st = ?st and n = max_iterations and dst = ?d
        and tol = tolerance and prev = FLT_MAX] cs(2) assms(4) by auto
  let ?cls = "convert_to_cluster_info st"
  have run: "run_kmeans distance_type vs dm k max_iterations tolerance first target rnd = Some ?cls"
    using cs(1) st(1) assms(2,3) by (simp add: run_kmeans_def Let_def)
  have "mset (concat (map cnodes ?cls)) = mset (concat (clusters st))"
    by (simp add: convert_clusters concat_filter_Nil)
  also have "\<dots> = mset [0..<length vs]"
    using st(2) fill_clusters_mset [of "assignments st" k] by (simp add: kmeans_ok_def)
  finally have nodes: "mset (concat (map cnodes ?cls)) = mset [0..<length vs]" .
  have "distinct c" if "c \<in> set (clusters st)" for c
    using that st(2) by (auto simp: kmeans_ok_def fill_clusters_def)
  moreover have "cnodes c \<in> set (clusters st)" if "c \<in> set ?cls" for c
  proof -
    have "cnodes c \<in> set (map cnodes ?cls)" using that by simp
    then show ?thesis unfolding convert_clusters by simp
  qed
  ultimately have "\<forall>c \<in> set ?cls. distinct (cnodes c)" by blast
  from optimize_layout_packs_nodes [OF assms(7,8) this] run nodes show ?thesis by metis
qed

lemma kmeans_layout_complete_witness:
  "\<exists>cls. run_kmeans ''L2'' [[0], [1], [9]] 1 2 20 (1 / 10000) 0 (\<lambda>_. 5) (\<lambda>i j. 1) = Some cls \<and>
    mset (concat (map cnodes (optimize_layout (isort longer) [] 2 cls))) = mset [0, 1, 2]"
proof -
  have "[0..<length [[0], [1], [9::real]]] = [0, 1, 2]" by simp
  then show ?thesis
    using kmeans_layout_complete [of "[[0], [1], [9]]" 1 2 20 0 "\<lambda>i j. 1" "isort longer" 2 "''L2''" "1 / 10000" "\<lambda>_. 5" "[]"]
    by auto
qed

end
