(* ===== verification/LockTable.thy ===== *)
theory LockTable
  imports Prelude
begin

text \<open>
  \<open>PipeANN/include/utils/lock_table.h\<close>: the sparse table of reader-writer locks, the hashed lock
  array, and the shared mutex that is optimised for readers. A \<open>pthread_rwlock_t\<close> or
  \<open>std::shared_mutex\<close> is its number of readers or its writer; the concurrent hash map is a map
  whose \<open>upsert\<close> and \<open>erase_fn\<close> are atomic, as its documentation promises.
\<close>

datatype rwlock = Rd nat | Wr

definition try_rd :: "rwlock \<Rightarrow> rwlock option" where
  "try_rd l = (case l of Rd n \<Rightarrow> Some (Rd (n + 1)) | Wr \<Rightarrow> None)"

definition try_wr :: "rwlock \<Rightarrow> rwlock option" where
  "try_wr l = (if l = Rd 0 then Some Wr else None)"

definition rw_unlock :: "rwlock \<Rightarrow> rwlock" where
  "rw_unlock l = (case l of Rd n \<Rightarrow> Rd (n - 1) | Wr \<Rightarrow> Rd 0)"

subsection \<open>SparseLockTable\<close>

type_synonym 'k lock_map = "'k \<rightharpoonup> rwlock \<times> int"

text \<open>The entry an operation works on: a fresh lock for a new key.\<close>

definition lt_entry :: "'k lock_map \<Rightarrow> 'k \<Rightarrow> rwlock \<times> int" where
  "lt_entry t key = (case t key of Some v \<Rightarrow> v | None \<Rightarrow> (Rd 0, 0))"

definition lt_tryrdlock :: "'k lock_map \<Rightarrow> 'k \<Rightarrow> bool \<times> 'k lock_map" where
  "lt_tryrdlock t key =
     (let (l, c) = lt_entry t key in
      case try_rd l of Some l' \<Rightarrow> (True, t(key \<mapsto> (l', c + 1))) | None \<Rightarrow> (False, t(key \<mapsto> (l, c))))"

definition lt_trywrlock :: "'k lock_map \<Rightarrow> 'k \<Rightarrow> bool \<times> 'k lock_map" where
  "lt_trywrlock t key =
     (let (l, c) = lt_entry t key in
      case try_wr l of Some l' \<Rightarrow> (True, t(key \<mapsto> (l', c + 1))) | None \<Rightarrow> (False, t(key \<mapsto> (l, c))))"

text \<open>\<open>None\<close> is the trap for a key that is in the table and not locked.\<close>

definition lt_unlock :: "'k lock_map \<Rightarrow> 'k \<Rightarrow> 'k lock_map option" where
  "lt_unlock t key =
     (case t key of
        None \<Rightarrow> Some t
      | Some (l, c) \<Rightarrow>
          if c = 0 then None
          else if c - 1 = 0 then Some (t(key := None))
          else Some (t(key \<mapsto> (rw_unlock l, c - 1))))"

text \<open>
  The threads' view: \<open>held\<close> is the multiset of guards alive, with their key and whether they
  write. A guard is made by the successful try of its spinning constructor and unlocks when it is
  destroyed; a failing try changes nothing but the table.
\<close>

inductive lt_step ::
  "'k lock_map \<times> ('k \<times> bool) multiset \<Rightarrow> 'k lock_map \<times> ('k \<times> bool) multiset \<Rightarrow> bool" where
  rdlock: "lt_tryrdlock t key = (True, t') \<Longrightarrow> lt_step (t, held) (t', add_mset (key, False) held)"
| rdspin: "lt_tryrdlock t key = (False, t') \<Longrightarrow> lt_step (t, held) (t', held)"
| wrlock: "lt_trywrlock t key = (True, t') \<Longrightarrow> lt_step (t, held) (t', add_mset (key, True) held)"
| wrspin: "lt_trywrlock t key = (False, t') \<Longrightarrow> lt_step (t, held) (t', held)"
| unlock: "(key, w) \<in># held \<Longrightarrow> lt_unlock t key = Some t' \<Longrightarrow> lt_step (t, held) (t', held - {#(key, w)#})"

inductive lt_reach :: "'k lock_map \<times> ('k \<times> bool) multiset \<Rightarrow> bool" where
  start: "lt_reach (Map.empty, {#})"
| step: "lt_reach s \<Longrightarrow> lt_step s s' \<Longrightarrow> lt_reach s'"

text \<open>The entry of a key says exactly which guards are alive, and there is none when there are none.\<close>

definition lt_ok :: "nat \<Rightarrow> nat \<Rightarrow> (rwlock \<times> int) option \<Rightarrow> bool" where
  "lt_ok r w e \<longleftrightarrow>
     (case e of None \<Rightarrow> r = 0 \<and> w = 0
      | Some (Rd n, c) \<Rightarrow> n = r \<and> w = 0 \<and> c = int r \<and> 0 < r
      | Some (Wr, c) \<Rightarrow> r = 0 \<and> w = 1 \<and> c = 1)"

definition lt_inv :: "'k lock_map \<times> ('k \<times> bool) multiset \<Rightarrow> bool" where
  [inv_defs]: "lt_inv s \<longleftrightarrow>
     (\<forall>key. lt_ok (count (snd s) (key, False)) (count (snd s) (key, True)) (fst s key))"

lemma lt_ok_rd:
  assumes "lt_ok r w (t key)" "lt_tryrdlock t key = (b, t')"
  shows "(if b then lt_ok (r + 1) (w) (t' key) else lt_ok r w (t' key)) \<and> (\<forall>k. k \<noteq> key \<longrightarrow> t' k = t k)"
proof (cases "t key")
  case None
  then show ?thesis using assms
    by (auto simp: lt_ok_def lt_tryrdlock_def lt_entry_def try_rd_def)
next
  case (Some v)
  obtain l c where "v = (l, c)" by force
  with Some show ?thesis using assms
    by (cases l) (auto simp: lt_ok_def lt_tryrdlock_def lt_entry_def try_rd_def)
qed

lemma lt_ok_wr:
  assumes "lt_ok r w (t key)" "lt_trywrlock t key = (b, t')"
  shows "(if b then lt_ok (r) (w + 1) (t' key) else lt_ok r w (t' key)) \<and> (\<forall>k. k \<noteq> key \<longrightarrow> t' k = t k)"
proof (cases "t key")
  case None
  then show ?thesis using assms
    by (auto simp: lt_ok_def lt_trywrlock_def lt_entry_def try_wr_def)
next
  case (Some v)
  obtain l c where "v = (l, c)" by force
  with Some show ?thesis using assms
    by (cases l) (auto simp: lt_ok_def lt_trywrlock_def lt_entry_def try_wr_def)
qed

lemma lt_ok_unlock_rd:
  "lt_ok (Suc r) w (t key) \<Longrightarrow> \<exists>t'. lt_unlock t key = Some t' \<and> lt_ok r w (t' key) \<and>
   (\<forall>k. k \<noteq> key \<longrightarrow> t' k = t k)"
  by (auto simp: lt_ok_def lt_unlock_def rw_unlock_def split: option.splits rwlock.splits)

lemma lt_ok_unlock_wr:
  "lt_ok r (Suc w) (t key) \<Longrightarrow> \<exists>t'. lt_unlock t key = Some t' \<and> lt_ok r w (t' key) \<and>
   (\<forall>k. k \<noteq> key \<longrightarrow> t' k = t k)"
  by (auto simp: lt_ok_def lt_unlock_def rw_unlock_def split: option.splits rwlock.splits)

lemma lt_ok_entry: "lt_ok r w e \<Longrightarrow> e \<noteq> None \<longleftrightarrow> 0 < r \<or> 0 < w"
  by (cases e; cases "fst (the e)") (auto simp: lt_ok_def)

lemma lt_ok_writer: "lt_ok r w e \<Longrightarrow> 0 < w \<Longrightarrow> w = 1 \<and> r = 0"
  by (cases e; cases "fst (the e)") (auto simp: lt_ok_def)

lemma lt_step_inv: "lt_step s s' \<Longrightarrow> lt_inv s \<Longrightarrow> lt_inv s'"
proof (induction rule: lt_step.induct)
  case (rdlock t key t' held)
  then have A: "lt_ok (count held (k, False)) (count held (k, True)) (t k)" for k
    by (simp add: lt_inv_def)
  show ?case
    using lt_ok_rd [OF A rdlock(1)] A by (auto simp: lt_inv_def)
next
  case (rdspin t key t' held)
  then have A: "lt_ok (count held (k, False)) (count held (k, True)) (t k)" for k
    by (simp add: lt_inv_def)
  have "lt_ok (count held (k, False)) (count held (k, True)) (t' k)" for k
    using lt_ok_rd [OF A rdspin(1)] A by (cases "k = key") auto
  then show ?case by (simp add: lt_inv_def)
next
  case (wrlock t key t' held)
  then have A: "lt_ok (count held (k, False)) (count held (k, True)) (t k)" for k
    by (simp add: lt_inv_def)
  show ?case
    using lt_ok_wr [OF A wrlock(1)] A by (auto simp: lt_inv_def)
next
  case (wrspin t key t' held)
  then have A: "lt_ok (count held (k, False)) (count held (k, True)) (t k)" for k
    by (simp add: lt_inv_def)
  have "lt_ok (count held (k, False)) (count held (k, True)) (t' k)" for k
    using lt_ok_wr [OF A wrspin(1)] A by (cases "k = key") auto
  then show ?case by (simp add: lt_inv_def)
next
  case (unlock key w held t t')
  then have A: "lt_ok (count held (k, False)) (count held (k, True)) (t k)" for k
    by (simp add: lt_inv_def)
  obtain h where h: "held = add_mset (key, w) h" using unlock(1) by (metis insert_DiffM)
  have "lt_ok (count h (key, False)) (count h (key, True)) (t' key) \<and> (\<forall>k. k \<noteq> key \<longrightarrow> t' k = t k)"
    using A [of key] lt_ok_unlock_rd [of "count h (key, False)" "count h (key, True)" t key]
      lt_ok_unlock_wr [of "count h (key, False)" "count h (key, True)" t key] unlock(2) h
    by (cases w) auto
  then have "lt_ok (count h (k, False)) (count h (k, True)) (t' k)" for k
    using A [of k] h by (cases "k = key") auto
  then show ?case using h by (simp add: lt_inv_def)
qed

lemma lt_reach_inv: "lt_reach s \<Longrightarrow> lt_inv s"
proof (induction rule: lt_reach.induct)
  case start
  show ?case by (simp add: lt_inv_def lt_ok_def)
next
  case (step s s')
  then show ?case using lt_step_inv by blast
qed

text \<open> C12. In every reachable state of the sparse lock table a writer excludes every other guard of
  its key, the table has an entry for exactly the keys that are locked, so that it is empty again
  when all guards are gone, and destroying a guard never traps.\<close>

theorem lock_table_exclusion:
  assumes "lt_reach (t, held)"
  shows "(\<forall>key. (key, True) \<in># held \<longrightarrow> count held (key, True) = 1 \<and> (key, False) \<notin># held) \<and>
    dom t = fst ` set_mset held \<and>
    (\<forall>(key, w) \<in># held. \<exists>t'. lt_unlock t key = Some t')"
proof -
  have A: "lt_ok (count held (key, False)) (count held (key, True)) (t key)" for key
    using lt_reach_inv [OF assms] by (simp add: lt_inv_def)
  have "count held (key, True) = 1 \<and> (key, False) \<notin># held" if "(key, True) \<in># held" for key
    using lt_ok_writer [OF A [of key]] that unfolding count_greater_zero_iff not_in_iff by blast
  moreover have "key \<in> dom t \<longleftrightarrow> (key, False) \<in># held \<or> (key, True) \<in># held" for key
    using lt_ok_entry [OF A [of key]] unfolding count_greater_zero_iff domIff by blast
  then have "key \<in> dom t \<longleftrightarrow> (\<exists>w. (key, w) \<in># held)" for key unfolding ex_bool_eq by blast
  then have "dom t = fst ` set_mset held"
  proof (intro set_eqI)
    fix x assume dom: "\<And>key. key \<in> dom t \<longleftrightarrow> (\<exists>w. (key, w) \<in># held)"
    have "x \<in> fst ` set_mset held \<longleftrightarrow> (\<exists>w. (x, w) \<in># held)" by force
    then show "x \<in> dom t \<longleftrightarrow> x \<in> fst ` set_mset held" unfolding dom by blast
  qed
  moreover have "\<exists>t'. lt_unlock t key = Some t'" if "(key, w) \<in># held" for key w
  proof -
    have "0 < count held (key, w)" using that by simp
    then show ?thesis
      using A [of key]
        lt_ok_unlock_rd [of "count held (key, False) - 1" "count held (key, True)" t key]
        lt_ok_unlock_wr [of "count held (key, False)" "count held (key, True) - 1" t key]
      by (cases w) auto
  qed
  ultimately show ?thesis by auto
qed

lemma lock_table_exclusion_witness:
  "dom (snd (lt_trywrlock (Map.empty :: nat lock_map) 3)) = {3}"
proof -
  have "lt_step (Map.empty, {#}) (snd (lt_trywrlock Map.empty (3::nat)), {#(3, True)#})"
    using lt_step.wrlock [of Map.empty "3::nat" "snd (lt_trywrlock Map.empty 3)" "{#}"]
    by (simp add: lt_trywrlock_def lt_entry_def try_wr_def)
  then have "lt_reach (snd (lt_trywrlock Map.empty (3::nat)), {#(3, True)#})"
    using lt_reach.start lt_reach.step by blast
  from lock_table_exclusion [OF this] show ?thesis by simp
qed

subsection \<open>The hash of LockTable\<close>

definition c1 :: u32 where "c1 = 0xcc9e2d51"
definition c2 :: u32 where "c2 = 0x1b873593"

definition fmix :: "u32 \<Rightarrow> u32" where
  "fmix h =
     (let h = h XOR drop_bit 16 h; h = h * 0x85ebca6b; h = h XOR drop_bit 13 h;
          h = h * 0xc2b2ae35 in h XOR drop_bit 16 h)"

definition Rotate32 :: "u32 \<Rightarrow> nat \<Rightarrow> u32" where
  "Rotate32 val shift = (if shift = 0 then val else drop_bit shift val OR push_bit (32 - shift) val)"

definition Mur :: "u32 \<Rightarrow> u32 \<Rightarrow> u32" where
  "Mur a h =
     (let a = a * c1; a = Rotate32 a 17; a = a * c2; h = h XOR a; h = Rotate32 h 19
      in h * 5 + 0xe6546b64)"

text \<open>The loop over the bytes of the key, each sign-extended; the state is \<open>b\<close> and \<open>c\<close>.\<close>

fun hash_bytes :: "u8 list \<Rightarrow> u32 \<Rightarrow> u32 \<Rightarrow> u32 \<times> u32" where
  "hash_bytes [] b c = (b, c)"
| "hash_bytes (s # ss) b c =
     (let v = (signed_take_bit 7 (ucast s) :: u32); b = b * c1 + v; c = c XOR b in hash_bytes ss b c)"

definition Hash32Len0to4 :: "u8 list \<Rightarrow> u32" where
  "Hash32Len0to4 s =
     (let (b, c) = hash_bytes s 0 9 in fmix (Mur b (Mur (of_nat (length s)) c)))"

definition key_bytes :: "u32 \<Rightarrow> u8 list" where
  "key_bytes x = [ucast x, ucast (drop_bit 8 x), ucast (drop_bit 16 x), ucast (drop_bit 24 x)]"

definition Hash :: "u32 \<Rightarrow> u32" where
  "Hash x = Hash32Len0to4 (key_bytes x)"

definition lock_pos :: "nat \<Rightarrow> u64 \<Rightarrow> nat" where
  "lock_pos sz key = unat (Hash (ucast key)) mod sz"

text \<open>The final mix loses nothing: multiplications by odd constants and shifts can be undone.\<close>

definition fmix_inv :: "u32 \<Rightarrow> u32" where
  "fmix_inv h =
     (let h = h XOR drop_bit 16 h; h = h * 0x7ed1b41d; h = h XOR drop_bit 13 h XOR drop_bit 26 h;
          h = h * 0xa5cb9243 in h XOR drop_bit 16 h)"

lemma xor_drop_bit_inv:
  fixes h :: u32
  assumes "32 \<le> n + n"
  shows "(h XOR drop_bit n h) XOR drop_bit n (h XOR drop_bit n h) = h"
proof -
  have "drop_bit n (drop_bit n h) = 0"
    using assms by (intro bit_word_eqI) (auto simp: bit_simps bit_imp_le_length dest: bit_imp_le_length)
  then show ?thesis by (simp add: drop_bit_xor xor.assoc)
qed

lemma xor_drop_bit_13_inv:
  fixes h :: u32
  shows "(h XOR drop_bit 13 h) XOR drop_bit 13 (h XOR drop_bit 13 h) XOR drop_bit 26 (h XOR drop_bit 13 h) = h"
proof -
  have zero: "drop_bit 13 (drop_bit 26 h) = 0"
    by (intro bit_word_eqI) (auto simp: bit_simps dest: bit_imp_le_length)
  have two: "drop_bit 13 (drop_bit 13 h) = drop_bit 26 h" by simp
  have comm: "drop_bit 26 (drop_bit 13 h) = drop_bit 13 (drop_bit 26 h)" by simp
  show ?thesis
    unfolding drop_bit_xor two comm zero
    by (simp add: xor.assoc xor.left_commute)
qed

lemma odd_constants: "(0x85ebca6b :: u32) * 0xa5cb9243 = 1" "(0xc2b2ae35 :: u32) * 0x7ed1b41d = 1"
  by simp_all

text \<open> The final mix of the hash can be undone, so it maps different values to different ones.\<close>

theorem fmix_roundtrip: "fmix_inv (fmix h) = h"
proof -
  define a where "a = h XOR drop_bit 16 h"
  define b where "b = a * 0x85ebca6b XOR drop_bit 13 (a * 0x85ebca6b)"
  define d where "d = b * 0xc2b2ae35 XOR drop_bit 16 (b * 0xc2b2ae35)"
  have "d XOR drop_bit 16 d = b * 0xc2b2ae35"
    unfolding d_def by (rule xor_drop_bit_inv) simp
  then have 1: "(d XOR drop_bit 16 d) * 0x7ed1b41d = b"
    using odd_constants(2) by (simp only: mult.assoc mult_1_right)
  have "b XOR drop_bit 13 b XOR drop_bit 26 b = a * 0x85ebca6b"
    unfolding b_def by (rule xor_drop_bit_13_inv)
  then have 2: "(b XOR drop_bit 13 b XOR drop_bit 26 b) * 0xa5cb9243 = a"
    using odd_constants(1) by (simp only: mult.assoc mult_1_right)
  have 3: "a XOR drop_bit 16 a = h" unfolding a_def by (rule xor_drop_bit_inv) simp
  have "fmix h = d" by (simp add: fmix_def Let_def a_def b_def d_def)
  then show ?thesis
    unfolding fmix_inv_def Let_def by (simp only: 1 2 3)
qed

lemma Rotate32_rotr:
  assumes s: "s < 32"
  shows "Rotate32 v s = word_rotr s v"
proof (rule bit_word_eqI)
  fix n assume "n < LENGTH(32)"
  then have n: "n < 32" by simp
  have rotr: "bit (word_rotr s v) n \<longleftrightarrow> bit v ((n + s) mod 32)"
    using n by (simp add: bit_word_rotr_iff add.commute)
  have rot: "bit (Rotate32 v s) n \<longleftrightarrow> bit v (n + s) \<or> (0 < s \<and> 32 - s \<le> n \<and> bit v (n - (32 - s)))"
    using n by (auto simp: Rotate32_def bit_simps add.commute)
  show "bit (Rotate32 v s) n \<longleftrightarrow> bit (word_rotr s v) n"
  proof (cases "n + s < 32")
    case True
    then show ?thesis unfolding rotr rot by auto
  next
    case False
    then have "(n + s) mod 32 = n - (32 - s)" using n s by (simp add: le_mod_geq)
    moreover have "\<not> bit v (n + s)" using False bit_imp_le_length [of v "n + s"] by auto
    ultimately show ?thesis unfolding rotr rot using False n by auto
  qed
qed

subsection \<open>LockTable\<close>

text \<open>
  The locks are shared by all keys with the same hash modulo the size. \<open>None\<close> is a wait that the
  caller cannot get through by itself, or a modulus of zero.
\<close>

definition tab_rdlock :: "rwlock list \<Rightarrow> u32 \<Rightarrow> (nat \<times> rwlock list) option" where
  "tab_rdlock locks key =
     (let i = unat (Hash key) mod length locks in do {
        l \<leftarrow> vec_at locks i;
        l \<leftarrow> try_rd l;
        locks \<leftarrow> vec_put locks i l;
        Some (i, locks)
      })"

definition tab_wrlock :: "rwlock list \<Rightarrow> u32 \<Rightarrow> (nat \<times> rwlock list) option" where
  "tab_wrlock locks key =
     (let i = unat (Hash key) mod length locks in do {
        l \<leftarrow> vec_at locks i;
        l \<leftarrow> try_wr l;
        locks \<leftarrow> vec_put locks i l;
        Some (i, locks)
      })"

definition tab_tryrdlock :: "rwlock list \<Rightarrow> u32 \<Rightarrow> bool \<times> rwlock list" where
  "tab_tryrdlock locks key =
     (case tab_rdlock locks key of Some (i, l) \<Rightarrow> (True, l) | None \<Rightarrow> (False, locks))"

definition tab_trywrlock :: "rwlock list \<Rightarrow> u32 \<Rightarrow> bool \<times> rwlock list" where
  "tab_trywrlock locks key =
     (case tab_wrlock locks key of Some (i, l) \<Rightarrow> (True, l) | None \<Rightarrow> (False, locks))"

definition tab_unlock_at :: "rwlock list \<Rightarrow> nat \<Rightarrow> rwlock list option" where
  "tab_unlock_at locks i = do { l \<leftarrow> vec_at locks i; vec_put locks i (rw_unlock l) }"

definition tab_unlock :: "rwlock list \<Rightarrow> u32 \<Rightarrow> rwlock list option" where
  "tab_unlock locks key = tab_unlock_at locks (unat (Hash key) mod length locks)"

text \<open> A write lock on one key of the hashed table keeps out exactly the keys of the same slot,
  readers and writers alike, and unlocking by key or by the returned lock restores the table.\<close>

theorem hashed_lock_excludes_slot:
  assumes "tab_wrlock locks key = Some (i, locks')"
  shows "i < length locks \<and> tab_unlock_at locks' i = Some locks \<and> tab_unlock locks' key = Some locks \<and>
    (fst (tab_tryrdlock locks' key') \<longleftrightarrow>
      i \<noteq> unat (Hash key') mod length locks \<and> fst (tab_tryrdlock locks key')) \<and>
    (fst (tab_trywrlock locks' key') \<longleftrightarrow>
      i \<noteq> unat (Hash key') mod length locks \<and> fst (tab_trywrlock locks key'))"
proof -
  let ?i' = "unat (Hash key') mod length locks"
  have i: "i = unat (Hash key) mod length locks" "i < length locks" "locks ! i = Rd 0"
      "locks' = locks[i := Wr]"
    using assms
    by (auto simp: tab_wrlock_def Let_def vec_at_def vec_put_def try_wr_def split: bind_splits if_splits)
  have same: "locks'[i := Rd 0] = locks" using i(3,4) by (metis list_update_id list_update_overwrite)
  have len: "length locks' = length locks" using i(4) by simp
  have "?i' < length locks" using i(2) by (intro mod_less_divisor) linarith
  then have nth: "locks' ! ?i' = (if ?i' = i then Wr else locks ! ?i')" using i(4) by simp
  have unlock: "tab_unlock_at locks' i = Some locks"
    using i(2,4) same by (simp add: tab_unlock_at_def vec_simps rw_unlock_def)
  then have "tab_unlock locks' key = Some locks" using i(1) len by (simp add: tab_unlock_def)
  moreover have "fst (tab_tryrdlock locks' key') \<longleftrightarrow> i \<noteq> ?i' \<and> fst (tab_tryrdlock locks key')"
    using \<open>?i' < length locks\<close> len nth
    by (auto simp: tab_tryrdlock_def tab_rdlock_def Let_def vec_simps try_rd_def split: rwlock.splits)
  moreover have "fst (tab_trywrlock locks' key') \<longleftrightarrow> i \<noteq> ?i' \<and> fst (tab_trywrlock locks key')"
    using \<open>?i' < length locks\<close> len nth
    by (auto simp: tab_trywrlock_def tab_wrlock_def Let_def vec_simps try_wr_def)
  ultimately show ?thesis using i(2) unlock by simp
qed

lemma hashed_lock_excludes_slot_witness:
  "\<not> fst (tab_tryrdlock [Wr] 7)"
proof -
  have "tab_wrlock [Rd 0] 3 = Some (0, [Wr])"
    by (simp add: tab_wrlock_def vec_at_def vec_put_def try_wr_def)
  from hashed_lock_excludes_slot [OF this, of 7] show ?thesis by simp
qed

end
