(* ===== verification/ReaderOptMutex.thy ===== *)
theory ReaderOptMutex
  imports LockTable
begin

text \<open>
  \<open>ReaderOptSharedMutex\<close> of \<open>PipeANN/include/utils/lock_table.h\<close>: an array of \<open>N = 128\<close> shared
  mutexes of which a reader takes one and a writer all, one after the other. The steps of
  several threads interleave: \<open>pc t\<close> is what thread \<open>t\<close> is doing, and each step locks or unlocks
  one mutex. A thread that finds a mutex taken waits: it has no step.
\<close>

definition roN :: nat where
  "roN = 128"

datatype ro_pc = Idle | Reading nat | Locking nat | Writing | Unlocking nat

type_synonym ro_st = "rwlock list \<times> (nat \<Rightarrow> ro_pc)"

text \<open>\<open>Locking i\<close> and \<open>Unlocking i\<close>: the loops of \<open>lock\<close> and \<open>unlock\<close> before iteration \<open>i\<close>.\<close>

inductive ro_step :: "ro_st \<Rightarrow> ro_st \<Rightarrow> bool" where
  lock_shared: "pc t = Idle \<Longrightarrow> vec_at locks (idx mod roN) = Some l \<Longrightarrow> try_rd l = Some l' \<Longrightarrow>
    ro_step (locks, pc) (locks[idx mod roN := l'], pc(t := Reading idx))"
| unlock_shared: "pc t = Reading idx \<Longrightarrow> vec_at locks (idx mod roN) = Some l \<Longrightarrow>
    ro_step (locks, pc) (locks[idx mod roN := rw_unlock l], pc(t := Idle))"
| lock_start: "pc t = Idle \<Longrightarrow> ro_step (locks, pc) (locks, pc(t := Locking 0))"
| lock_next: "pc t = Locking i \<Longrightarrow> vec_at locks i = Some l \<Longrightarrow> try_wr l = Some l' \<Longrightarrow>
    ro_step (locks, pc) (locks[i := l'], pc(t := (if i + 1 < roN then Locking (i + 1) else Writing)))"
| unlock_start: "pc t = Writing \<Longrightarrow> ro_step (locks, pc) (locks, pc(t := Unlocking 0))"
| unlock_next: "pc t = Unlocking i \<Longrightarrow> vec_at locks i = Some l \<Longrightarrow>
    ro_step (locks, pc)
      (locks[i := rw_unlock l], pc(t := (if i + 1 < roN then Unlocking (i + 1) else Idle)))"

inductive ro_reach :: "ro_st \<Rightarrow> bool" where
  start: "ro_reach (replicate roN (Rd 0), \<lambda>t. Idle)"
| step: "ro_reach s \<Longrightarrow> ro_step s s' \<Longrightarrow> ro_reach s'"

definition owns :: "ro_pc \<Rightarrow> nat \<Rightarrow> bool" where
  "owns p j = (case p of Locking i \<Rightarrow> j < i | Writing \<Rightarrow> True | Unlocking i \<Rightarrow> i \<le> j | _ \<Rightarrow> False)"

definition reads :: "ro_pc \<Rightarrow> nat \<Rightarrow> bool" where
  "reads p j = (case p of Reading idx \<Rightarrow> idx mod roN = j | _ \<Rightarrow> False)"

text \<open>Mutex \<open>j\<close> says who has passed it: one writer, or some readers.\<close>

definition ro_ok :: "rwlock \<Rightarrow> nat set \<Rightarrow> nat set \<Rightarrow> bool" where
  "ro_ok l ow re \<longleftrightarrow>
     (case l of Wr \<Rightarrow> (\<exists>t. ow = {t}) \<and> re = {} | Rd n \<Rightarrow> ow = {} \<and> finite re \<and> card re = n)"

definition pc_ok :: "ro_pc \<Rightarrow> bool" where
  "pc_ok p = (case p of Locking i \<Rightarrow> i < roN | Unlocking i \<Rightarrow> i < roN | _ \<Rightarrow> True)"

definition ro_inv :: "ro_st \<Rightarrow> bool" where
  [inv_defs]: "ro_inv s \<longleftrightarrow> length (fst s) = roN \<and> (\<forall>t. pc_ok (snd s t)) \<and>
     (\<forall>j < roN. ro_ok (fst s ! j) {t. owns (snd s t) j} {t. reads (snd s t) j})"

lemma owns_upd: "{t'. owns ((pc(t := p)) t') j} =
  (if owns p j then insert t {t'. owns (pc t') j} else {t'. owns (pc t') j} - {t})"
  by auto

lemma reads_upd: "{t'. reads ((pc(t := p)) t') j} =
  (if reads p j then insert t {t'. reads (pc t') j} else {t'. reads (pc t') j} - {t})"
  by auto

lemmas ro_upd = owns_upd reads_upd

lemma owns_simps [simp]:
  "\<not> owns Idle j" "\<not> owns (Reading idx) j" "owns (Locking i) j \<longleftrightarrow> j < i" "owns Writing j"
  "owns (Unlocking i) j \<longleftrightarrow> i \<le> j"
  by (simp_all add: owns_def)

lemma reads_simps [simp]:
  "\<not> reads Idle j" "reads (Reading idx) j \<longleftrightarrow> idx mod roN = j" "\<not> reads (Locking i) j"
  "\<not> reads Writing j" "\<not> reads (Unlocking i) j"
  by (simp_all add: reads_def)

lemma roN_pos [simp]: "0 < roN"
  by (simp add: roN_def)

lemma ro_ok_same:
  assumes "ro_ok l {t'. owns (pc t') j} {t'. reads (pc t') j}"
    and "owns p j \<longleftrightarrow> owns (pc t) j" "reads p j \<longleftrightarrow> reads (pc t) j"
  shows "ro_ok l {t'. owns ((pc(t := p)) t') j} {t'. reads ((pc(t := p)) t') j}"
proof -
  have "{t'. owns ((pc(t := p)) t') j} = {t'. owns (pc t') j}"
    "{t'. reads ((pc(t := p)) t') j} = {t'. reads (pc t') j}"
    using assms(2,3) by auto
  then show ?thesis using assms(1) by simp
qed

lemma ro_ok_owner: "ro_ok l A B \<Longrightarrow> t \<in> A \<Longrightarrow> A = {t} \<and> B = {}"
  by (cases l) (auto simp: ro_ok_def)

lemma ro_ok_leave: "ro_ok l A B \<Longrightarrow> t \<in> B \<Longrightarrow> ro_ok (rw_unlock l) (A - {t}) (B - {t})"
  by (cases l) (auto simp: ro_ok_def rw_unlock_def card_Diff_singleton)

lemma ro_ok_release: "ro_ok l A B \<Longrightarrow> t \<in> A \<Longrightarrow> ro_ok (rw_unlock l) (A - {t}) (B - {t})"
  by (cases l) (auto simp: ro_ok_def rw_unlock_def)

text \<open>A step that touches mutex \<open>k\<close> only.\<close>

lemma ro_inv_touch:
  assumes inv: "ro_inv (locks, pc)" and k: "k < roN" and pc: "pc_ok p"
    and other: "\<And>j. j \<noteq> k \<Longrightarrow> j < roN \<Longrightarrow> (owns p j \<longleftrightarrow> owns (pc t) j) \<and> (reads p j \<longleftrightarrow> reads (pc t) j)"
    and here: "ro_ok l' {t'. owns ((pc(t := p)) t') k} {t'. reads ((pc(t := p)) t') k}"
  shows "ro_inv (locks[k := l'], pc(t := p))"
proof -
  have "ro_ok (locks[k := l'] ! j) {t'. owns ((pc(t := p)) t') j} {t'. reads ((pc(t := p)) t') j}"
    if j: "j < roN" for j
  proof (cases "j = k")
    case True
    then show ?thesis using here k inv by (simp add: ro_inv_def)
  next
    case False
    have "ro_ok (locks ! j) {t'. owns (pc t') j} {t'. reads (pc t') j}"
      using inv j by (simp add: ro_inv_def)
    from ro_ok_same [OF this] other [OF False j] False show ?thesis by simp
  qed
  then show ?thesis using inv pc by (simp add: ro_inv_def)
qed

lemma ro_step_inv: "ro_step s s' \<Longrightarrow> ro_inv s \<Longrightarrow> ro_inv s'"
proof (induction rule: ro_step.induct)
  case (lock_shared pc t locks idx l l')
  let ?k = "idx mod roN"
  have k: "?k < roN" by simp
  have l: "l = locks ! ?k" using lock_shared by (simp add: vec_at_eq_Some)
  have "ro_ok l {t'. owns (pc t') ?k} {t'. reads (pc t') ?k}"
    using lock_shared l k by (simp add: ro_inv_def)
  moreover have "t \<notin> {t'. reads (pc t') ?k}" using lock_shared(1) by simp
  moreover have "{t'. owns (pc t') ?k} - {t} = {t'. owns (pc t') ?k}" using lock_shared(1) by auto
  ultimately have "ro_ok l' {t'. owns ((pc(t := Reading idx)) t') ?k}
      {t'. reads ((pc(t := Reading idx)) t') ?k}"
    using lock_shared(3) unfolding ro_upd
    by (auto simp: ro_ok_def try_rd_def split: rwlock.splits)
  then show ?case
    using lock_shared(1)
    by (intro ro_inv_touch [OF lock_shared(4) k]) (auto simp: pc_ok_def)
next
  case (unlock_shared pc t idx locks l)
  let ?k = "idx mod roN"
  have k: "?k < roN" by simp
  have l: "l = locks ! ?k" using unlock_shared by (simp add: vec_at_eq_Some)
  have t: "t \<in> {t'. reads (pc t') ?k}" using unlock_shared(1) by simp
  have "ro_ok l {t'. owns (pc t') ?k} {t'. reads (pc t') ?k}"
    using unlock_shared l k by (simp add: ro_inv_def)
  from ro_ok_leave [OF this t] have "ro_ok (rw_unlock l) {t'. owns ((pc(t := Idle)) t') ?k}
      {t'. reads ((pc(t := Idle)) t') ?k}"
    unfolding ro_upd by simp
  then show ?case
    using unlock_shared(1) by (intro ro_inv_touch [OF unlock_shared(3) k]) (auto simp: pc_ok_def)
next
  case (lock_start pc t locks)
  then have "ro_inv (locks[0 := locks ! 0], pc(t := Locking 0))"
    by (intro ro_inv_touch ro_ok_same) (auto simp: pc_ok_def ro_inv_def)
  then show ?case by simp
next
  case (lock_next pc t i locks l l')
  have k: "i < roN" using lock_next(1,4) by (auto simp: ro_inv_def pc_ok_def split: ro_pc.splits)
  have l: "l = locks ! i" using lock_next by (simp add: vec_at_eq_Some)
  have "ro_ok l {t'. owns (pc t') i} {t'. reads (pc t') i}"
    using lock_next l k by (simp add: ro_inv_def)
  then show ?case
    using lock_next(1,3) k
    by (intro ro_inv_touch [OF lock_next(4) k])
      (auto simp: pc_ok_def ro_upd ro_ok_def try_wr_def split: if_splits)
next
  case (unlock_start pc t locks)
  then have "ro_inv (locks[0 := locks ! 0], pc(t := Unlocking 0))"
    by (intro ro_inv_touch ro_ok_same) (auto simp: pc_ok_def ro_inv_def)
  then show ?case by simp
next
  case (unlock_next pc t i locks l)
  have k: "i < roN" using unlock_next(1,3) by (auto simp: ro_inv_def pc_ok_def split: ro_pc.splits)
  have l: "l = locks ! i" using unlock_next by (simp add: vec_at_eq_Some)
  have t: "t \<in> {t'. owns (pc t') i}" using unlock_next(1) by simp
  have "ro_ok l {t'. owns (pc t') i} {t'. reads (pc t') i}"
    using unlock_next l k by (simp add: ro_inv_def)
  from ro_ok_release [OF this t]
  have "ro_ok (rw_unlock l)
      {t'. owns ((pc(t := (if i + 1 < roN then Unlocking (i + 1) else Idle))) t') i}
      {t'. reads ((pc(t := (if i + 1 < roN then Unlocking (i + 1) else Idle))) t') i}"
    unfolding ro_upd by simp
  then show ?case
    using unlock_next(1) k
    by (intro ro_inv_touch [OF unlock_next(3) k]) (auto simp: pc_ok_def)
qed

lemma ro_reach_inv: "ro_reach s \<Longrightarrow> ro_inv s"
proof (induction rule: ro_reach.induct)
  case start
  show ?case by (simp add: ro_inv_def pc_ok_def ro_ok_def)
next
  case (step s s')
  then show ?case using ro_step_inv by blast
qed

text \<open> C37. However the threads' steps interleave, a thread that has finished \<open>lock\<close> is alone: no
  other thread writes, and no other thread holds a shared lock, whichever of the 128 mutexes it
  took.\<close>

theorem reader_opt_exclusion:
  assumes "ro_reach (locks, pc)" and "pc t = Writing" and "t' \<noteq> t"
  shows "pc t' \<noteq> Writing \<and> (\<forall>idx. pc t' \<noteq> Reading idx)"
proof -
  have inv: "ro_inv (locks, pc)" using assms(1) by (rule ro_reach_inv)
  have alone: "{t. owns (pc t) j} = {t} \<and> {t. reads (pc t) j} = {}" if "j < roN" for j
  proof -
    have "ro_ok (locks ! j) {t. owns (pc t) j} {t. reads (pc t) j}" "t \<in> {t. owns (pc t) j}"
      using inv that assms(2) by (auto simp: ro_inv_def)
    then show ?thesis by (rule ro_ok_owner)
  qed
  have "\<not> owns (pc t') 0" using alone [of 0] assms(3) by auto
  moreover have "\<not> reads (pc t') (idx mod roN)" for idx using alone [of "idx mod roN"] by auto
  ultimately show ?thesis by (metis owns_simps(4) reads_simps(2))
qed

lemma reader_opt_exclusion_witness:
  "\<exists>locks pc. ro_reach (locks, pc) \<and> pc 1 \<noteq> Writing \<and> pc 5 = Writing"
proof -
  let ?st = "\<lambda>i. (replicate i Wr @ replicate (roN - i) (Rd 0), (\<lambda>t. Idle)(5 := if i < roN then Locking i else Writing))"
  have run: "i \<le> roN \<Longrightarrow> ro_reach (?st i)" for i
  proof (induction i)
    case 0
    show ?case
      using ro_reach.step [OF ro_reach.start ro_step.lock_start [of "\<lambda>t. Idle" 5]]
      by (simp add: fun_upd_def)
  next
    case (Suc i)
    let ?locks = "replicate i Wr @ replicate (roN - i) (Rd 0)"
    let ?pc = "(\<lambda>t. Idle)(5 := Locking i)"
    have i: "i < roN" using Suc by simp
    have at: "vec_at ?locks i = Some (Rd 0)" using i by (simp add: vec_at_def nth_append)
    have "ro_step (?locks, ?pc) (?locks[i := Wr], ?pc(5 := (if i + 1 < roN then Locking (i + 1) else Writing)))"
      using ro_step.lock_next [of ?pc 5 i ?locks "Rd 0" Wr] at by (simp add: try_wr_def)
    moreover have "?locks[i := Wr] = replicate (Suc i) Wr @ replicate (roN - Suc i) (Rd 0)"
    proof -
      have "replicate (roN - i) (Rd 0) = Rd 0 # replicate (roN - Suc i) (Rd 0)"
        using i by (metis Suc_diff_Suc replicate_Suc)
      then have "?locks[i := Wr] = replicate i Wr @ Wr # replicate (roN - Suc i) (Rd 0)"
        by (simp add: list_update_append)
      also have "\<dots> = (replicate i Wr @ [Wr]) @ replicate (roN - Suc i) (Rd 0)" by simp
      also have "replicate i Wr @ [Wr] = replicate (Suc i) Wr"
        by (simp add: replicate_append_same)
      finally show ?thesis .
    qed
    moreover have "ro_reach (?locks, ?pc)" using Suc i by (simp add: fun_upd_def)
    ultimately have "ro_reach (replicate (Suc i) Wr @ replicate (roN - Suc i) (Rd 0),
        ?pc(5 := (if i + 1 < roN then Locking (i + 1) else Writing)))"
      using ro_reach.step by metis
    then show ?case by (cases "Suc i < roN") (simp_all add: fun_upd_def cong: if_cong)
  qed
  have "ro_reach (?st roN)" by (rule run) simp
  then have r: "ro_reach (replicate roN Wr, (\<lambda>t. Idle)(5 := Writing))" by simp
  from reader_opt_exclusion [OF r, of 5 1] r show ?thesis
    by (intro exI [of _ "replicate roN Wr"] exI [of _ "(\<lambda>t. Idle)(5 := Writing)"]) simp
qed

end
