(* ===== verification/PageCache.thy ===== *)
theory PageCache
  imports Prelude
begin

text \<open>
  \<open>PageCache\<close> of \<open>PipeANN/include/utils/page_cache.h\<close>: the pages of the current updates with a
  reference count each. A page is the list of its bytes; the count is a 64-bit word. The
  concurrent hash map is a map whose updates are atomic.
\<close>

record cache_item =
  cbuf :: "u8 list"
  cref :: u64

type_synonym page_cache = "u64 \<rightharpoonup> cache_item"

definition item_ref :: "cache_item \<Rightarrow> cache_item" where
  "item_ref v = v\<lparr>cref := cref v + 1\<rparr>"

definition item_deref :: "cache_item \<Rightarrow> cache_item" where
  "item_deref v = v\<lparr>cref := cref v - 1\<rparr>"

text \<open>\<open>Some value\<close> when the page is cached.\<close>

definition pc_get :: "page_cache \<Rightarrow> u64 \<Rightarrow> bool \<Rightarrow> u8 list option \<times> page_cache" where
  "pc_get c block_no r =
     (case c block_no of
        None \<Rightarrow> (None, c)
      | Some v \<Rightarrow> (Some (cbuf v), if r then c(block_no \<mapsto> item_ref v) else c))"

text \<open>The result says whether the page was newly inserted.\<close>

definition pc_put :: "page_cache \<Rightarrow> u64 \<Rightarrow> u8 list \<Rightarrow> bool \<Rightarrow> bool \<times> page_cache" where
  "pc_put c block_no value r =
     (let v = (case c block_no of Some v \<Rightarrow> v | None \<Rightarrow> \<lparr>cbuf = value, cref = 0\<rparr>);
          v = (if r then item_ref v else v)
      in (c block_no = None, c(block_no \<mapsto> v\<lparr>cbuf := value\<rparr>)))"

text \<open>
  For a page that is not cached the error branch erases the entry just inserted; the result is
  \<open>uprase_fn\<close>'s: whether it was newly inserted.
\<close>

definition pc_deref :: "page_cache \<Rightarrow> u64 \<Rightarrow> bool \<times> page_cache" where
  "pc_deref c block_no =
     (case c block_no of
        None \<Rightarrow> (True, c(block_no := None))
      | Some v \<Rightarrow>
          (let v = item_deref v in
           (False, if cref v = 0 then c(block_no := None) else c(block_no \<mapsto> v))))"

definition pc_clear :: "page_cache \<Rightarrow> page_cache" where
  "pc_clear c = Map.empty"

subsection \<open>Updates in flight\<close>

text \<open>
  An update puts a page with a reference, may read it with or without one, and drops each
  reference once. \<open>refs b\<close> is the number of references to block \<open>b\<close> in flight and \<open>val b\<close> the
  last value put.
\<close>

inductive pc_step ::
  "page_cache \<times> (u64 \<Rightarrow> nat) \<times> (u64 \<Rightarrow> u8 list) \<Rightarrow> page_cache \<times> (u64 \<Rightarrow> nat) \<times> (u64 \<Rightarrow> u8 list) \<Rightarrow> bool"
  where
  put: "refs b + 1 < 2 ^ 64 \<Longrightarrow> pc_put c b v True = (new, c') \<Longrightarrow>
    pc_step (c, refs, val) (c', refs(b := refs b + 1), val(b := v))"
| update: "0 < refs b \<Longrightarrow> pc_put c b v False = (new, c') \<Longrightarrow>
    pc_step (c, refs, val) (c', refs, val(b := v))"
| get: "pc_get c b False = (r, c') \<Longrightarrow> pc_step (c, refs, val) (c', refs, val)"
| get_ref: "refs b + 1 < 2 ^ 64 \<Longrightarrow> pc_get c b True = (Some v, c') \<Longrightarrow>
    pc_step (c, refs, val) (c', refs(b := refs b + 1), val)"
| drop: "0 < refs b \<Longrightarrow> pc_deref c b = (r, c') \<Longrightarrow>
    pc_step (c, refs, val) (c', refs(b := refs b - 1), val)"

inductive pc_reach :: "page_cache \<times> (u64 \<Rightarrow> nat) \<times> (u64 \<Rightarrow> u8 list) \<Rightarrow> bool" where
  start: "pc_reach (Map.empty, \<lambda>b. 0, val)"
| step: "pc_reach s \<Longrightarrow> pc_step s s' \<Longrightarrow> pc_reach s'"

definition pc_ok :: "cache_item option \<Rightarrow> nat \<Rightarrow> u8 list \<Rightarrow> bool" where
  "pc_ok e n v \<longleftrightarrow> n < 2 ^ 64 \<and>
     (case e of None \<Rightarrow> n = 0 | Some i \<Rightarrow> 0 < n \<and> cref i = of_nat n \<and> cbuf i = v)"

definition pc_inv :: "page_cache \<times> (u64 \<Rightarrow> nat) \<times> (u64 \<Rightarrow> u8 list) \<Rightarrow> bool" where
  [inv_defs]: "pc_inv s \<longleftrightarrow> (case s of (c, refs, val) \<Rightarrow> \<forall>b. pc_ok (c b) (refs b) (val b))"

lemma of_nat_u64_zero: "0 < n \<Longrightarrow> n < 2 ^ 64 \<Longrightarrow> (of_nat n - 1 :: u64) = 0 \<longleftrightarrow> n = 1"
proof -
  assume n: "0 < n" "n < 2 ^ 64"
  then have "(of_nat n - 1 :: u64) = of_nat (n - 1)" by (simp add: of_nat_diff)
  moreover have "(of_nat (n - 1) :: u64) = 0 \<longleftrightarrow> n - 1 = 0"
  proof
    assume "(of_nat (n - 1) :: u64) = 0"
    then have "unat (of_nat (n - 1) :: u64) = 0" by simp
    then have "(n - 1) mod 2 ^ 64 = 0" by (simp add: unat_of_nat)
    then show "n - 1 = 0" using n by simp
  qed simp
  ultimately show ?thesis using n by auto
qed

lemma pc_step_inv: "pc_step s s' \<Longrightarrow> pc_inv s \<Longrightarrow> pc_inv s'"
proof (induction rule: pc_step.induct)
  case (put refs b c v new c' val)
  then have A: "pc_ok (c k) (refs k) (val k)" for k by (simp add: pc_inv_def)
  have "pc_ok (c' b) (refs b + 1) v"
    using put(1,2) A [of b]
    by (auto simp: pc_ok_def pc_put_def item_ref_def Let_def add.commute split: option.splits)
  moreover have "c' k = c k" if "k \<noteq> b" for k
    using put(2) that by (auto simp: pc_put_def Let_def)
  ultimately show ?case using A by (auto simp: pc_inv_def)
next
  case (update refs b c v new c' val)
  then have A: "pc_ok (c k) (refs k) (val k)" for k by (simp add: pc_inv_def)
  have "pc_ok (c' b) (refs b) v"
    using update(1,2) A [of b] by (auto simp: pc_ok_def pc_put_def Let_def split: option.splits)
  moreover have "c' k = c k" if "k \<noteq> b" for k
    using update(2) that by (auto simp: pc_put_def Let_def)
  ultimately show ?case using A by (auto simp: pc_inv_def)
next
  case (get c b r c' refs val)
  then show ?case by (auto simp: pc_get_def split: option.splits)
next
  case (get_ref refs b c v c' val)
  then have A: "pc_ok (c k) (refs k) (val k)" for k by (simp add: pc_inv_def)
  have "pc_ok (c' b) (refs b + 1) (val b)"
    using get_ref(1,2) A [of b]
    by (auto simp: pc_ok_def pc_get_def item_ref_def add.commute split: option.splits)
  moreover have "c' k = c k" if "k \<noteq> b" for k
    using get_ref(2) that by (auto simp: pc_get_def split: option.splits)
  ultimately show ?case using A by (auto simp: pc_inv_def)
next
  case (drop refs b c r c' val)
  then have A: "pc_ok (c k) (refs k) (val k)" for k by (simp add: pc_inv_def)
  obtain i where i: "c b = Some i" "cref i = of_nat (refs b)" "cbuf i = val b" "refs b < 2 ^ 64"
    using A [of b] drop(1) by (auto simp: pc_ok_def split: option.splits)
  have "pc_ok (c' b) (refs b - 1) (val b)"
    using drop(1,2) i of_nat_u64_zero [of "refs b"]
    by (auto simp: pc_ok_def pc_deref_def item_deref_def Let_def of_nat_diff)
  moreover have "c' k = c k" if "k \<noteq> b" for k
    using drop(2) that by (auto simp: pc_deref_def Let_def split: option.splits if_splits)
  ultimately show ?case using A by (auto simp: pc_inv_def)
qed

lemma pc_reach_inv: "pc_reach s \<Longrightarrow> pc_inv s"
proof (induction rule: pc_reach.induct)
  case (start val)
  show ?case by (simp add: pc_inv_def pc_ok_def)
next
  case (step s s')
  then show ?case using pc_step_inv by blast
qed

text \<open> While every update that puts or takes a page with a reference drops it once, the cache
  holds exactly the pages with references in flight, and reading one gives the value put last;
  after the last drop the page is gone.\<close>

theorem page_cache_holds_referenced:
  assumes "pc_reach (c, refs, val)"
  shows "fst (pc_get c b r) = (if refs b = 0 then None else Some (val b)) \<and>
    (refs b = 1 \<longrightarrow> snd (pc_deref c b) b = None)"
proof -
  have ok: "pc_ok (c b) (refs b) (val b)"
    using pc_reach_inv [OF assms] by (simp add: pc_inv_def)
  show ?thesis
    using ok by (auto simp: pc_ok_def pc_get_def pc_deref_def item_deref_def Let_def split: option.splits)
qed

lemma page_cache_holds_referenced_witness:
  "fst (pc_get (snd (pc_put Map.empty 7 [1, 2] True)) 7 False) = Some [1, 2]"
proof -
  have "pc_step (Map.empty, \<lambda>b. 0, \<lambda>b. []) (snd (pc_put Map.empty 7 [1, 2] True), (\<lambda>b. 0)(7 := 1), (\<lambda>b. [])(7 := [1, 2]))"
    using pc_step.put [of "\<lambda>b. 0" 7 Map.empty "[1, 2]" _ _ "\<lambda>b. []", OF _ prod.collapse [symmetric]]
    by simp
  then have "pc_reach (snd (pc_put Map.empty 7 [1, 2] True), (\<lambda>b. 0)(7 := 1), (\<lambda>b. [])(7 := [1, 2]))"
    using pc_reach.start pc_reach.step by blast
  from page_cache_holds_referenced [OF this, of 7 False] show ?thesis by simp
qed

text \<open> A page put without a reference is not freed by a drop: its count wraps to the largest
  64-bit number and the page stays.\<close>

theorem page_cache_deref_wraps:
  "\<exists>i. snd (pc_deref (snd (pc_put Map.empty b v False)) b) b = Some i \<and> cref i = - 1"
  by (simp add: pc_deref_def pc_put_def item_deref_def Let_def)

end
