(* ===== verification/SsdMeta.thy ===== *)
theory SsdMeta
  imports Bytes
begin

text \<open>
  \<open>PipeANN/include/ssd_index_defs.h\<close>: the metadata in the first sector of a disk index, and where
  the parts of a node record lie in its page. The 64-bit fields are words, as in the code.
\<close>

definition SECTOR_LEN :: nat where
  "SECTOR_LEN = 4096"

subsection \<open>IORequest\<close>

record io_request =
  ior_offset :: u64
  ior_len :: u64
  ior_buf :: u64
  ior_u_offset :: u64
  ior_u_len :: u64

text \<open>The constructor; \<open>None\<close> is a failing assertion.\<close>

definition mk_io_request :: "u64 \<Rightarrow> u64 \<Rightarrow> u64 \<Rightarrow> u64 \<Rightarrow> u64 \<Rightarrow> io_request option" where
  "mk_io_request offset len buf u_offset u_len =
     (if unat buf mod SECTOR_LEN = 0 \<and> unat offset mod SECTOR_LEN = 0 \<and> unat len mod SECTOR_LEN = 0
      then Some \<lparr>ior_offset = offset, ior_len = len, ior_buf = buf, ior_u_offset = u_offset,
                 ior_u_len = u_len\<rparr>
      else None)"

subsection \<open>SSDIndexMetadata\<close>

record ssd_meta =
  sm_nr :: u32
  sm_nc :: u32
  sm_npoints :: u64
  sm_data_dim :: u64
  sm_entry_point :: u64
  sm_max_node_len :: u64
  sm_nnodes_per_sector :: u64
  sm_npts_cur_shard :: u64
  sm_label_size :: u64
  sm_max_npts :: u64
  sm_range :: u64
  sm_entry_point_id :: u32

text \<open>\<open>sizeof_T\<close> is the size of a vector element; \<open>None\<close> is the failing assertion on the entry point.\<close>

definition init_temporary_fields :: "u64 \<Rightarrow> ssd_meta \<Rightarrow> ssd_meta option" where
  "init_temporary_fields sizeof_T m =
     (let m = m\<lparr>sm_max_npts := sm_npoints m,
                sm_range := (sm_max_node_len m - sm_data_dim m * sizeof_T - sm_label_size m) div 4 - 1,
                sm_entry_point_id := ucast (sm_entry_point m)\<rparr>
      in if (ucast (sm_entry_point_id m) :: u64) = sm_entry_point m then Some m else None)"

definition mk_ssd_meta ::
  "u64 \<Rightarrow> ssd_meta \<Rightarrow> u64 \<Rightarrow> u64 \<Rightarrow> u64 \<Rightarrow> u64 \<Rightarrow> u64 \<Rightarrow> u64 \<Rightarrow> ssd_meta option" where
  "mk_ssd_meta sizeof_T junk npoints data_dim entry_point max_node_len nnodes_per_sector label_size =
     init_temporary_fields sizeof_T
       (junk\<lparr>sm_npoints := npoints, sm_data_dim := data_dim, sm_entry_point := entry_point,
             sm_max_node_len := max_node_len, sm_nnodes_per_sector := nnodes_per_sector,
             sm_npts_cur_shard := npoints, sm_label_size := label_size\<rparr>)"

definition rd_u64 :: "bytes \<Rightarrow> (u64 \<times> bytes) option" where
  "rd_u64 s = map_option (\<lambda>(n, s). (of_nat n, s)) (rd_le 8 s)"

definition rd_u32 :: "bytes \<Rightarrow> (u32 \<times> bytes) option" where
  "rd_u32 s = map_option (\<lambda>(n, s). (of_nat n, s)) (rd_le 4 s)"

definition load_from_disk_index :: "u64 \<Rightarrow> bool \<Rightarrow> bytes \<Rightarrow> ssd_meta option" where
  "load_from_disk_index sizeof_T sharded s = do {
     (nr, s) \<leftarrow> rd_u32 s;
     (nc, s) \<leftarrow> rd_u32 s;
     (npoints, s) \<leftarrow> rd_u64 s;
     (data_dim, s) \<leftarrow> rd_u64 s;
     (entry_point, s) \<leftarrow> rd_u64 s;
     (max_node_len, s) \<leftarrow> rd_u64 s;
     (nnodes_per_sector, s) \<leftarrow> rd_u64 s;
     (npts_cur_shard, s) \<leftarrow> rd_u64 s;
     (label_size, s) \<leftarrow> rd_u64 s;
     let npts_cur_shard = (if \<not> sharded then npoints else npts_cur_shard);
     let label_size = (if nr < 7 then 0 else label_size);
     init_temporary_fields sizeof_T
       \<lparr>sm_nr = nr, sm_nc = nc, sm_npoints = npoints, sm_data_dim = data_dim,
        sm_entry_point = entry_point, sm_max_node_len = max_node_len,
        sm_nnodes_per_sector = nnodes_per_sector, sm_npts_cur_shard = npts_cur_shard,
        sm_label_size = label_size, sm_max_npts = 0, sm_range = 0, sm_entry_point_id = 0\<rparr>
   }"

text \<open>The header overwrites the first bytes of the existing file; the rest stays.\<close>

definition meta_bytes :: "ssd_meta \<Rightarrow> bytes" where
  "meta_bytes m = le_put 4 7 @ le_put 4 1 @ le_put 8 (unat (sm_npoints m)) @
     le_put 8 (unat (sm_data_dim m)) @ le_put 8 (unat (sm_entry_point m)) @
     le_put 8 (unat (sm_max_node_len m)) @ le_put 8 (unat (sm_nnodes_per_sector m)) @
     le_put 8 (unat (sm_npts_cur_shard m)) @ le_put 8 (unat (sm_label_size m))"

definition save_to_disk_index :: "ssd_meta \<Rightarrow> bytes \<Rightarrow> ssd_meta \<times> bytes" where
  "save_to_disk_index m f =
     (m\<lparr>sm_nr := 7, sm_nc := 1\<rparr>, meta_bytes m @ drop (length (meta_bytes m)) f)"

lemma unat_u64: "unat (x :: u64) < 256 ^ 8"
proof -
  have "unat x < 2 ^ LENGTH(64)" by (rule unsigned_less)
  then show ?thesis by simp
qed

lemma unat_u32: "unat (x :: u32) < 2 ^ 32"
proof -
  have "unat x < 2 ^ LENGTH(32)" by (rule unsigned_less)
  then show ?thesis by simp
qed

lemma rd_u64_put [simp]: "rd_u64 (le_put 8 (unat x) @ s) = Some (x, s)"
  using unat_u64 [of x] by (simp add: rd_u64_def)

lemma rd_u32_put [simp]: "n < 256 ^ 4 \<Longrightarrow> rd_u32 (le_put 4 n @ s) = Some (of_nat n, s)"
  by (simp add: rd_u32_def)

lemma init_fixed:
  assumes "init_temporary_fields T m = Some m"
  shows "sm_max_npts m = sm_npoints m"
    and "sm_range m = (sm_max_node_len m - sm_data_dim m * T - sm_label_size m) div 4 - 1"
    and "sm_entry_point_id m = ucast (sm_entry_point m)"
    and "(ucast (ucast (sm_entry_point m) :: u32) :: u64) = sm_entry_point m"
proof -
  let ?m = "m\<lparr>sm_max_npts := sm_npoints m,
      sm_range := (sm_max_node_len m - sm_data_dim m * T - sm_label_size m) div 4 - 1,
      sm_entry_point_id := ucast (sm_entry_point m)\<rparr>"
  have eq: "?m = m" and entry: "(ucast (ucast (sm_entry_point m) :: u32) :: u64) = sm_entry_point m"
    using assms by (auto simp: init_temporary_fields_def Let_def split: if_splits)
  from arg_cong [OF eq, of sm_max_npts] show "sm_max_npts m = sm_npoints m" by simp
  from arg_cong [OF eq, of sm_range]
  show "sm_range m = (sm_max_node_len m - sm_data_dim m * T - sm_label_size m) div 4 - 1" by simp
  from arg_cong [OF eq, of sm_entry_point_id]
  show "sm_entry_point_id m = ucast (sm_entry_point m)" by simp
  show "(ucast (ucast (sm_entry_point m) :: u32) :: u64) = sm_entry_point m" by (rule entry)
qed

text \<open> Metadata saved over an index file is loaded back as it was, with the shard size as saved
  only when the index is loaded as sharded; the derived fields are computed from the loaded ones,
  so they agree when the saved metadata was consistent. The rest of the file is kept.\<close>

theorem ssd_meta_roundtrip:
  assumes "init_temporary_fields T m = Some m" and "save_to_disk_index m f = (m', f')"
  shows "load_from_disk_index T sharded f' =
      Some (m'\<lparr>sm_npts_cur_shard := if sharded then sm_npts_cur_shard m else sm_npoints m\<rparr>) \<and>
    drop 64 f' = drop 64 f"
proof -
  have len: "length (meta_bytes m) = 64" by (simp add: meta_bytes_def)
  have f': "f' = meta_bytes m @ drop 64 f" "m' = m\<lparr>sm_nr := 7, sm_nc := 1\<rparr>"
    using assms(2) len by (auto simp: save_to_disk_index_def)
  show ?thesis
    unfolding f' load_from_disk_index_def meta_bytes_def
    using init_fixed [OF assms(1)] len by (simp add: init_temporary_fields_def Let_def)
qed

definition sample_meta :: ssd_meta where
  "sample_meta = \<lparr>sm_nr = 7, sm_nc = 1, sm_npoints = 100, sm_data_dim = 4, sm_entry_point = 5,
     sm_max_node_len = 40, sm_nnodes_per_sector = 3, sm_npts_cur_shard = 100, sm_label_size = 4,
     sm_max_npts = 100, sm_range = 4, sm_entry_point_id = 5\<rparr>"

lemma sample_meta_ok: "init_temporary_fields 4 sample_meta = Some sample_meta"
  by (simp add: init_temporary_fields_def sample_meta_def Let_def)

lemma ssd_meta_roundtrip_witness:
  "load_from_disk_index 4 True (snd (save_to_disk_index sample_meta (replicate 80 7))) = Some sample_meta"
  using ssd_meta_roundtrip [OF sample_meta_ok prod.collapse [symmetric],
      where f = "replicate 80 7" and sharded = True]
  by (simp add: save_to_disk_index_def sample_meta_def)

subsection \<open>DiskNode\<close>

text \<open>Offsets in the page buffer of the parts of the record in slot \<open>loc\<close>.\<close>

record disk_node =
  dn_coords :: u64
  dn_nnbrs :: u64
  dn_nbrs :: u64
  dn_labels :: u64

definition mk_disk_node :: "u64 \<Rightarrow> u32 \<Rightarrow> ssd_meta \<Rightarrow> disk_node" where
  "mk_disk_node sizeof_T loc m =
     (let coords = (if sm_nnodes_per_sector m = 0 then 0
                    else (ucast loc mod sm_nnodes_per_sector m) * sm_max_node_len m)
      in \<lparr>dn_coords = coords, dn_nnbrs = coords + sm_data_dim m * sizeof_T,
          dn_nbrs = coords + sm_data_dim m * sizeof_T + 4,
          dn_labels = coords + sm_data_dim m * sizeof_T + (1 + sm_range m) * 4\<rparr>)"

text \<open>A node record holds a vector, the neighbor count, at least one neighbor and the labels, and
  the records of a page fit the page.\<close>

definition meta_fits :: "u64 \<Rightarrow> nat \<Rightarrow> ssd_meta \<Rightarrow> bool" where
  [inv_defs]: "meta_fits T page m \<longleftrightarrow>
     unat (sm_data_dim m) * unat T + unat (sm_label_size m) + 8 \<le> unat (sm_max_node_len m) \<and>
     0 < unat (sm_nnodes_per_sector m) \<and>
     unat (sm_nnodes_per_sector m) * unat (sm_max_node_len m) \<le> page \<and> page < 2 ^ 63"

lemma unat_ucast_u32: "unat (ucast (l :: u32) :: u64) = unat l"
  using unat_u32 [of l] by (simp add: unsigned_ucast_eq take_bit_nat_eq_self)

lemma unat_add_u64: "unat a + unat b < 2 ^ 64 \<Longrightarrow> unat (a + b :: u64) = unat a + unat b"
  by (simp add: unat_word_ariths)

lemma unat_mult_u64: "unat a * unat b < 2 ^ 64 \<Longrightarrow> unat (a * b :: u64) = unat a * unat b"
  by (simp add: unat_word_ariths)

lemma unat_sub_u64: "unat b \<le> unat a \<Longrightarrow> unat (a - b :: u64) = unat a - unat b"
  by (simp add: unat_sub word_le_nat_alt)

text \<open> In a page of consistent metadata the parts of every node record follow each other without
  overlap, the record ends within the page, and records of different slots do not overlap; no
  offset computation wraps.\<close>

theorem disk_node_layout:
  assumes "init_temporary_fields T m = Some m" and "meta_fits T page m"
    and "d = mk_disk_node T loc m" and "d' = mk_disk_node T loc' m"
  shows "unat (dn_nnbrs d) = unat (dn_coords d) + unat (sm_data_dim m) * unat T \<and>
    unat (dn_nbrs d) = unat (dn_nnbrs d) + 4 \<and>
    unat (dn_labels d) = unat (dn_nbrs d) + 4 * unat (sm_range m) \<and>
    unat (dn_labels d) + unat (sm_label_size m) \<le> unat (dn_coords d) + unat (sm_max_node_len m) \<and>
    unat (dn_coords d) + unat (sm_max_node_len m) \<le> page \<and>
    (unat loc mod unat (sm_nnodes_per_sector m) < unat loc' mod unat (sm_nnodes_per_sector m) \<longrightarrow>
      unat (dn_coords d) + unat (sm_max_node_len m) \<le> unat (dn_coords d'))"
proof -
  let ?N = "unat (sm_nnodes_per_sector m)" and ?L = "unat (sm_max_node_len m)"
  let ?v = "unat (sm_data_dim m) * unat T"
  have fits: "?v + unat (sm_label_size m) + 8 \<le> ?L" "0 < ?N" "?N * ?L \<le> page" "page < 2 ^ 63"
    using assms(2) by (auto simp: meta_fits_def)
  have slot: "unat (dn_coords (mk_disk_node T l m)) = (unat l mod ?N) * ?L \<and>
      (unat l mod ?N) * ?L + ?L \<le> page" for l
  proof -
    have "unat l mod ?N + 1 \<le> ?N" using fits(2) mod_less_divisor [of ?N "unat l"] by linarith
    then have "(unat l mod ?N + 1) * ?L \<le> ?N * ?L" by (rule mult_le_mono1)
    then have le: "(unat l mod ?N) * ?L + ?L \<le> page" using fits(3) by simp
    have "unat (ucast l mod sm_nnodes_per_sector m :: u64) = unat l mod ?N"
      by (simp add: unat_mod_distrib unat_ucast_u32)
    moreover have "sm_nnodes_per_sector m \<noteq> 0" using fits(2) by auto
    ultimately have "unat (dn_coords (mk_disk_node T l m)) = (unat l mod ?N) * ?L"
      using le fits(4) by (simp add: mk_disk_node_def Let_def unat_mult_u64)
    then show ?thesis using le by blast
  qed
  have c: "unat (dn_coords d) + ?L \<le> page" "unat (dn_coords d) = (unat loc mod ?N) * ?L"
    using slot [of loc] assms(3) by auto
  have v: "unat (sm_data_dim m * T) = ?v"
    using fits(1) unat_u64 [of "sm_max_node_len m"] by (simp add: unat_mult_u64)
  have range: "sm_range m = (sm_max_node_len m - sm_data_dim m * T - sm_label_size m) div 4 - 1"
    by (rule init_fixed(2) [OF assms(1)])
  have "unat (sm_max_node_len m - sm_data_dim m * T) = ?L - ?v"
    using v fits(1) by (simp add: unat_sub_u64)
  moreover from this have "unat (sm_max_node_len m - sm_data_dim m * T - sm_label_size m) =
      ?L - ?v - unat (sm_label_size m)"
    using fits(1) by (simp add: unat_sub_u64)
  ultimately have "unat ((sm_max_node_len m - sm_data_dim m * T - sm_label_size m) div 4) =
      (?L - ?v - unat (sm_label_size m)) div 4"
    by (simp add: unat_div_distrib)
  moreover have "1 \<le> (?L - ?v - unat (sm_label_size m)) div 4" using fits(1) by linarith
  ultimately have r: "unat (sm_range m) = (?L - ?v - unat (sm_label_size m)) div 4 - 1"
    unfolding range by (simp add: unat_sub_u64)
  have r4: "4 * unat (sm_range m) + 4 + ?v + unat (sm_label_size m) \<le> ?L"
    unfolding r using fits(1) by linarith
  have big: "page < 2 ^ 64" using fits(4) by simp
  have n1: "unat (dn_nnbrs d) = unat (dn_coords d) + ?v"
    using c(1) v r4 big unfolding assms(3)
    by (simp add: mk_disk_node_def Let_def unat_add_u64)
  have n2: "unat (dn_nbrs d) = unat (dn_nnbrs d) + 4"
  proof -
    have "dn_nbrs d = dn_nnbrs d + 4" by (simp add: assms(3) mk_disk_node_def Let_def)
    then show ?thesis using n1 c(1) r4 big by (simp add: unat_add_u64)
  qed
  have n3: "unat (dn_labels d) = unat (dn_nbrs d) + 4 * unat (sm_range m)"
  proof -
    have "dn_labels d = dn_nbrs d + sm_range m * 4"
      by (simp add: assms(3) mk_disk_node_def Let_def algebra_simps)
    moreover have "unat (sm_range m * 4) = unat (sm_range m) * 4"
      using r4 c(1) big by (simp add: unat_mult_u64)
    ultimately show ?thesis using n1 n2 c(1) r4 big by (simp add: unat_add_u64)
  qed
  have other: "unat (dn_coords d) + ?L \<le> unat (dn_coords d')"
    if "unat loc mod ?N < unat loc' mod ?N"
  proof -
    have "(unat loc mod ?N + 1) * ?L \<le> (unat loc' mod ?N) * ?L"
      using that by (intro mult_le_mono1) simp
    then show ?thesis using slot [of loc'] c(2) assms(4) by simp
  qed
  show ?thesis using n1 n2 n3 r4 c(1) other by (intro conjI impI) auto
qed

lemma disk_node_layout_witness:
  "unat (dn_labels (mk_disk_node 4 7 sample_meta)) + 4 \<le> unat (dn_coords (mk_disk_node 4 7 sample_meta)) + 40"
  using disk_node_layout [OF sample_meta_ok _ refl refl, of 4096 7 8]
  by (simp add: meta_fits_def sample_meta_def)

end
