(* ===== verification/PruneNeighbors.thy ===== *)
theory PruneNeighbors
  imports Complex_Main StdSort
begin

text \<open>
  Neighbor pruning of the Vamana graph: \<open>PipeANN/include/utils/prune_neighbors.h\<close> with \<open>Neighbor\<close>
  and \<open>IndexBuildParameters\<close> of \<open>PipeANN/include/utils.h\<close>. A float is a rational that the
  distance function or a float operation yields: every product and quotient goes through the
  rounding function \<open>rnd\<close>, an argument (identity is exact arithmetic); infinities and NaN are left
  out. Ids are below \<open>2 ^ 32\<close>. The distance functions are arguments, as in the code, and so is
  \<open>std::sort\<close>. The two loops over \<open>cur_alpha\<close> end only because rounding is good enough, so they are
  partial functions: \<open>None\<close> is a run that does not return.
\<close>

datatype metric = L2 | INNER_PRODUCT | COSINE

record build_params =
  bR :: nat
  bC :: nat
  balpha :: rat
  bsaturate :: bool

record cand =
  cid :: nat
  cdist :: rat

definition cand_less :: "cand \<Rightarrow> cand \<Rightarrow> bool" where
  "cand_less a b \<longleftrightarrow> cdist a < cdist b \<or> (cdist a = cdist b \<and> cid a < cid b)"

text \<open>The literals \<open>1.2f\<close>, \<open>1.0f - 1e-5f\<close> and \<open>std::numeric_limits<float>::max()\<close>.\<close>

definition f12 :: rat where "f12 = 10066330 / 8388608"
definition f_near1 :: rat where "f_near1 = 16777048 / 16777216"
definition float_max :: rat where "float_max = 340282346638528859811704183484516925440"

definition kInvalidID :: nat where "kInvalidID = 4294967295"

definition get_occlude_factor :: "(rat \<Rightarrow> rat) \<Rightarrow> metric \<Rightarrow> rat \<Rightarrow> rat \<Rightarrow> rat" where
  "get_occlude_factor rnd m dik djk =
     (if m = L2 \<or> m = COSINE then if djk = 0 then float_max else rnd (dik / djk)
      else if m = INNER_PRODUCT
      then if dik > djk
        then if djk > 0 then rnd (dik / djk)
          else if dik < 0 then rnd (djk / dik)
          else float_max
        else 0
      else 0)"

subsection \<open>prune_neighbors\<close>

text \<open>\<open>std::set::insert\<close>: an element equivalent to one of the set is not inserted.\<close>

fun set_insert :: "('a \<Rightarrow> 'a \<Rightarrow> bool) \<Rightarrow> 'a \<Rightarrow> 'a list \<Rightarrow> 'a list" where
  "set_insert lt x [] = [x]"
| "set_insert lt x (y # ys) =
     (if lt y x then y # set_insert lt x ys else if lt x y then x # y # ys else y # ys)"

text \<open>The loop over \<open>t\<close>: the factors of the entries behind \<open>p\<close>.\<close>

fun relax_factors ::
  "(rat \<Rightarrow> rat) \<Rightarrow> metric \<Rightarrow> rat \<Rightarrow> nat \<Rightarrow> (nat \<Rightarrow> nat \<Rightarrow> rat) \<Rightarrow> cand \<Rightarrow> nat \<Rightarrow>
   (cand \<times> rat) list \<Rightarrow> (cand \<times> rat) list" where
  "relax_factors rnd m alpha maxc cd p t [] = []"
| "relax_factors rnd m alpha maxc cd p t ((c, f) # rest) =
     (if t < maxc
      then (c, if f > alpha then f
               else max f (get_occlude_factor rnd m (cdist c) (cd (cid p) (cid c)))) #
        relax_factors rnd m alpha maxc cd p (Suc t) rest
      else (c, f) # rest)"

lemma length_relax [simp]: "length (relax_factors rnd m alpha maxc cd p t rest) = length rest"
  by (induction rnd m alpha maxc cd p t rest rule: relax_factors.induct) auto

text \<open>
  The loop over \<open>start\<close> at one \<open>cur_alpha\<close>: the pool from \<open>start\<close> on, each entry with its factor,
  and the result set.
\<close>

function prune_pass ::
  "(rat \<Rightarrow> rat) \<Rightarrow> metric \<Rightarrow> rat \<Rightarrow> nat \<Rightarrow> nat \<Rightarrow> (nat \<Rightarrow> nat \<Rightarrow> rat) \<Rightarrow> rat \<Rightarrow> nat \<Rightarrow>
   (cand \<times> rat) list \<Rightarrow> cand list \<Rightarrow> (cand \<times> rat) list \<times> cand list" where
  "prune_pass rnd m alpha R maxc cd cur start [] res = ([], res)"
| "prune_pass rnd m alpha R maxc cd cur start ((p, f) # rest) res =
     (if length res < R
      then if f > cur
        then let (rest', res') = prune_pass rnd m alpha R maxc cd cur (Suc start) rest res
             in ((p, f) # rest', res')
        else let res1 = set_insert cand_less p res;
                 rest1 = relax_factors rnd m alpha maxc cd p (Suc start) rest;
                 (rest', res') = prune_pass rnd m alpha R maxc cd cur (Suc start) rest1 res1
             in ((p, float_max) # rest', res')
      else ((p, f) # rest, res))"
  by pat_completeness auto
termination
  by (relation "measure (\<lambda>(rnd, m, alpha, R, maxc, cd, cur, start, pool, res). length pool)") auto

partial_function (option) prune_loop ::
  "(rat \<Rightarrow> rat) \<Rightarrow> metric \<Rightarrow> rat \<Rightarrow> nat \<Rightarrow> nat \<Rightarrow> (nat \<Rightarrow> nat \<Rightarrow> rat) \<Rightarrow> rat \<Rightarrow>
   (cand \<times> rat) list \<Rightarrow> cand list \<Rightarrow> cand list option" where
  "prune_loop rnd m alpha R maxc cd cur pool res =
     (if cur \<le> alpha \<and> length res < R
      then prune_loop rnd m alpha R maxc cd (rnd (cur * f12))
             (fst (prune_pass rnd m alpha R maxc cd cur 0 pool res))
             (snd (prune_pass rnd m alpha R maxc cd cur 0 pool res))
      else Some res)"

text \<open>Filling up with the nearest candidates that are not selected.\<close>

fun saturate :: "nat \<Rightarrow> cand list \<Rightarrow> nat list \<Rightarrow> nat list" where
  "saturate R [] ids = ids"
| "saturate R (c # cs) ids =
     (if length ids < R
      then saturate R cs (if cid c \<in> set ids then ids else ids @ [cid c])
      else ids)"

definition prune_pool :: "(cand list \<Rightarrow> cand list) \<Rightarrow> build_params \<Rightarrow> cand list \<Rightarrow> cand list" where
  "prune_pool srt P pool = (let s = srt pool in if length s > bC P then take (bC P) s else s)"

text \<open>The result is \<open>pool\<close> and \<open>pruned_list\<close>; an empty pool leaves the list as it was.\<close>

definition prune_neighbors ::
  "(rat \<Rightarrow> rat) \<Rightarrow> (cand list \<Rightarrow> cand list) \<Rightarrow> cand list \<Rightarrow> nat list \<Rightarrow> build_params \<Rightarrow> metric \<Rightarrow>
   (nat \<Rightarrow> nat \<Rightarrow> rat) \<Rightarrow> (cand list \<times> nat list) option" where
  "prune_neighbors rnd srt pool pruned P m cd =
     (if pool = [] then Some (pool, pruned)
      else let pool = prune_pool srt P pool in
        case prune_loop rnd m (balpha P) (bR P) (bC P) cd 1 (map (\<lambda>c. (c, 0)) pool) [] of
          None \<Rightarrow> None
        | Some res \<Rightarrow>
            let ids = map cid res
            in Some (pool, if bsaturate P \<and> balpha P > 1 then saturate (bR P) pool ids else ids))"

subsection \<open>delta_prune_neighbors\<close>

record tri =
  tid :: nat
  ttgt :: rat
  tdist :: rat

definition tri_less :: "tri \<Rightarrow> tri \<Rightarrow> bool" where
  "tri_less a b \<longleftrightarrow> tdist a < tdist b \<or> (tdist a = tdist b \<and> tid a < tid b)"

text \<open>
  The loop over \<open>i\<close>, from the farthest entry down; \<open>Suc i\<close> is the number of entries left. The
  result is \<open>to_evict\<close> and \<open>tgt_idx\<close>.
\<close>

fun fast_pass ::
  "(rat \<Rightarrow> rat) \<Rightarrow> metric \<Rightarrow> rat \<Rightarrow> nat \<Rightarrow> rat \<Rightarrow> tri list \<Rightarrow> nat \<Rightarrow> nat \<Rightarrow> nat \<times> nat" where
  "fast_pass rnd m cur target tcd pool 0 tgt = (kInvalidID, tgt)"
| "fast_pass rnd m cur target tcd pool (Suc i) tgt =
     (if tid (pool ! i) = target then fast_pass rnd m cur target tcd pool i i
      else if tdist (pool ! i) > tcd
      then if get_occlude_factor rnd m (tdist (pool ! i)) (ttgt (pool ! i)) > cur then (i, tgt)
           else fast_pass rnd m cur target tcd pool i tgt
      else if get_occlude_factor rnd m tcd (ttgt (pool ! i)) > cur then (tgt, tgt)
           else fast_pass rnd m cur target tcd pool i tgt)"

partial_function (option) fast_loop ::
  "(rat \<Rightarrow> rat) \<Rightarrow> metric \<Rightarrow> nat \<Rightarrow> rat \<Rightarrow> tri list \<Rightarrow> rat \<Rightarrow> nat \<Rightarrow> nat \<Rightarrow> (nat \<times> nat) option" where
  "fast_loop rnd m target tcd pool cur evict tgt =
     (if cur \<ge> f_near1 \<and> evict = kInvalidID
      then fast_loop rnd m target tcd pool (rnd (cur / f12))
             (fst (fast_pass rnd m cur target tcd pool (length pool) tgt))
             (snd (fast_pass rnd m cur target tcd pool (length pool) tgt))
      else Some (evict, tgt))"

text \<open>The loops over \<open>t\<close> and over \<open>start\<close> of the full check, with the first occluded entry.\<close>

fun first_occluded ::
  "(rat \<Rightarrow> rat) \<Rightarrow> metric \<Rightarrow> rat \<Rightarrow> (nat \<Rightarrow> nat \<Rightarrow> rat) \<Rightarrow> nat \<Rightarrow> nat \<Rightarrow> tri list \<Rightarrow> nat option" where
  "first_occluded rnd m alpha cd s t [] = None"
| "first_occluded rnd m alpha cd s t (c # cs) =
     (if get_occlude_factor rnd m (tdist c) (cd s (tid c)) > alpha then Some t
      else first_occluded rnd m alpha cd s (Suc t) cs)"

fun full_check ::
  "(rat \<Rightarrow> rat) \<Rightarrow> metric \<Rightarrow> rat \<Rightarrow> (nat \<Rightarrow> nat \<Rightarrow> rat) \<Rightarrow> nat \<Rightarrow> nat \<Rightarrow> tri list \<Rightarrow> nat option" where
  "full_check rnd m alpha cd tgt start [] = None"
| "full_check rnd m alpha cd tgt start (c # cs) =
     (if start = tgt then full_check rnd m alpha cd tgt (Suc start) cs
      else case first_occluded rnd m alpha cd (tid c) (Suc start) cs of
        Some t \<Rightarrow> Some t
      | None \<Rightarrow> full_check rnd m alpha cd tgt (Suc start) cs)"

fun keep_ids :: "nat \<Rightarrow> nat \<Rightarrow> tri list \<Rightarrow> nat list" where
  "keep_ids evict i [] = []"
| "keep_ids evict i (c # cs) =
     (if i \<noteq> evict then tid c # keep_ids evict (Suc i) cs else keep_ids evict (Suc i) cs)"

text \<open>
  An empty \<open>nhood\<close> has no last element, and the size is kept below \<open>kInvalidID\<close>, the index that
  means none; both are undefined here.
\<close>

definition delta_prune_neighbors ::
  "(rat \<Rightarrow> rat) \<Rightarrow> (tri list \<Rightarrow> tri list) \<Rightarrow> nat list \<Rightarrow> nat \<Rightarrow> nat \<Rightarrow> build_params \<Rightarrow> metric \<Rightarrow>
   (nat \<Rightarrow> nat \<Rightarrow> rat) \<Rightarrow> nat list option" where
  "delta_prune_neighbors rnd srt nhood center target P m cd =
     (if nhood = [] \<or> length nhood \<ge> kInvalidID then None
      else let tcd = cd center (last nhood);
               pool = srt (map (\<lambda>v. \<lparr>tid = v, ttgt = cd target v, tdist = cd center v\<rparr>) nhood)
        in case fast_loop rnd m target tcd pool (balpha P) kInvalidID kInvalidID of
             None \<Rightarrow> None
           | Some (evict, tgt) \<Rightarrow>
               if evict \<noteq> kInvalidID then Some (keep_ids evict 0 pool)
               else case full_check rnd m (balpha P) cd tgt 0 pool of
                 Some t \<Rightarrow> Some (keep_ids t 0 pool)
               | None \<Rightarrow> Some (keep_ids (length pool - 1) 0 pool))"

subsection \<open>The result set\<close>

interpretation cand_less: strict_weak_order cand_less
  by unfold_locales (auto simp: cand_less_def)

interpretation tri_less: strict_weak_order tri_less
  by unfold_locales (auto simp: tri_less_def)

lemma cand_less_cases: "cand_less a b \<or> a = b \<or> cand_less b a"
  by (cases a; cases b) (auto simp: cand_less_def)

lemma cand_less_trans: "cand_less a b \<Longrightarrow> cand_less b c \<Longrightarrow> cand_less a c"
  by (auto simp: cand_less_def)

lemma set_insert_cand [simp]: "set (set_insert cand_less x xs) = insert x (set xs)"
  using cand_less_cases by (induction xs) auto

lemma length_set_insert: "length (set_insert lt x xs) \<le> Suc (length xs)"
  by (induction xs) auto

lemma sorted_set_insert:
  "sorted_wrt cand_less xs \<Longrightarrow> sorted_wrt cand_less (set_insert cand_less x xs)"
  by (induction xs) (auto intro: cand_less_trans)

lemma sorted_cand_distinct: "sorted_wrt cand_less xs \<Longrightarrow> distinct xs"
  by (induction xs) (auto simp: cand_less_def)

subsection \<open>One pass\<close>

text \<open>
  A factor is still zero, belongs to a selected entry, or is the occlusion factor of a selected
  entry that is not farther.
\<close>

definition factor_ok ::
  "(rat \<Rightarrow> rat) \<Rightarrow> metric \<Rightarrow> (nat \<Rightarrow> nat \<Rightarrow> rat) \<Rightarrow> cand list \<Rightarrow> cand \<times> rat \<Rightarrow> bool" where
  "factor_ok rnd m cd res cf \<longleftrightarrow> snd cf = 0 \<or> fst cf \<in> set res \<or>
     (\<exists>p \<in> set res. \<not> cand_less (fst cf) p \<and>
        snd cf = get_occlude_factor rnd m (cdist (fst cf)) (cd (cid p) (cid (fst cf))))"

lemma factor_ok_mono: "factor_ok rnd m cd res cf \<Longrightarrow> set res \<subseteq> set res' \<Longrightarrow> factor_ok rnd m cd res' cf"
  by (auto simp: factor_ok_def)

lemma map_fst_relax [simp]: "map fst (relax_factors rnd m alpha maxc cd p t rest) = map fst rest"
  by (induction rnd m alpha maxc cd p t rest rule: relax_factors.induct) auto

lemma factor_ok_relax:
  assumes "p \<in> set res" "\<forall>cf \<in> set rest. factor_ok rnd m cd res cf \<and> \<not> cand_less (fst cf) p"
  shows "\<forall>cf \<in> set (relax_factors rnd m alpha maxc cd p t rest). factor_ok rnd m cd res cf"
  using assms
proof (induction rnd m alpha maxc cd p t rest rule: relax_factors.induct)
  case (2 rnd m alpha maxc cd p t c f rest)
  have ok: "factor_ok rnd m cd res (c, f)" "\<not> cand_less c p" "\<forall>cf \<in> set rest. factor_ok rnd m cd res cf"
    using 2(3) by auto
  show ?case
  proof (cases "t < maxc")
    case True
    then show ?thesis
      using 2(1) [OF True 2(2)] 2(2,3) ok by (auto simp: factor_ok_def max_def)
  qed (use ok in auto)
qed simp

definition pass_inv :: "nat \<Rightarrow> (rat \<Rightarrow> rat) \<Rightarrow> metric \<Rightarrow> (nat \<Rightarrow> nat \<Rightarrow> rat) \<Rightarrow> (cand \<times> rat) list \<Rightarrow> cand list \<Rightarrow> bool" where
  "pass_inv R rnd m cd pool res \<longleftrightarrow> length res \<le> R \<and> sorted_wrt cand_less res \<and>
     sorted_wrt (\<lambda>a b. \<not> cand_less b a) (map fst pool) \<and> (\<forall>cf \<in> set pool. factor_ok rnd m cd res cf)"

lemma prune_pass_inv:
  assumes "pass_inv R rnd m cd pool res"
    and "prune_pass rnd m alpha R maxc cd cur start pool res = (pool', res')"
  shows "pass_inv R rnd m cd pool' res' \<and> map fst pool' = map fst pool \<and>
    set res \<subseteq> set res' \<and> set res' \<subseteq> set res \<union> fst ` set pool \<and>
    (length res' < R \<longrightarrow> (\<forall>cf \<in> set pool'. snd cf > cur \<or> fst cf \<in> set res'))"
  using assms
proof (induction rnd m alpha R maxc cd cur start pool res arbitrary: pool' res' rule: prune_pass.induct)
  case (1 rnd m alpha R maxc cd cur start res)
  then show ?case by (auto simp: pass_inv_def)
next
  case step: (2 rnd m alpha R maxc cd cur start p f rest res)
  have rest: "pass_inv R rnd m cd rest res" "\<forall>cf \<in> set rest. \<not> cand_less (fst cf) p"
    "factor_ok rnd m cd res (p, f)"
    using step.prems(1) by (auto simp: pass_inv_def)
  show ?case
  proof (cases "length res < R")
    case False
    then show ?thesis using step.prems by (auto simp: pass_inv_def)
  next
    case room: True
    show ?thesis
    proof (cases "f > cur")
      case True
      obtain r' where r: "prune_pass rnd m alpha R maxc cd cur (Suc start) rest res = (r', res')"
        "pool' = (p, f) # r'"
        using step.prems(2) room True by (auto split: prod.splits)
      note IH = step.IH(1) [OF room True rest(1) r(1)]
      have "factor_ok rnd m cd res' (p, f)"
        using factor_ok_mono [OF rest(3)] IH by blast
      then show ?thesis
        using IH r(2) True step.prems(1) by (auto simp: pass_inv_def)
    next
      case False
      define res1 where "res1 = set_insert cand_less p res"
      define rest1 where "rest1 = relax_factors rnd m alpha maxc cd p (Suc start) rest"
      obtain r' where r: "prune_pass rnd m alpha R maxc cd cur (Suc start) rest1 res1 = (r', res')"
        "pool' = (p, float_max) # r'"
        using step.prems(2) room False by (auto simp: res1_def rest1_def split: prod.splits)
      have "\<forall>cf \<in> set rest. factor_ok rnd m cd res1 cf \<and> \<not> cand_less (fst cf) p"
        using rest(1,2) factor_ok_mono [of rnd m cd res _ res1] by (auto simp: pass_inv_def res1_def)
      then have ok: "\<forall>cf \<in> set rest1. factor_ok rnd m cd res1 cf"
        unfolding rest1_def by (intro factor_ok_relax) (auto simp: res1_def)
      have inv: "pass_inv R rnd m cd rest1 res1"
        using rest(1) room ok sorted_set_insert [of res p] length_set_insert [of cand_less p res]
        by (auto simp: pass_inv_def res1_def rest1_def)
      note IH = step.IH(2) [OF room False res1_def rest1_def inv r(1)]
      have p: "p \<in> set res'"
        using IH by (auto simp: res1_def)
      have fsts: "fst ` set rest1 = fst ` set rest" "map fst r' = map fst rest"
        using IH by (simp_all add: rest1_def flip: set_map)
      show ?thesis
        using IH p fsts step.prems(1) r(2) by (auto simp: pass_inv_def res1_def factor_ok_def)
    qed
  qed
qed

subsection \<open>The loop over alpha\<close>

text \<open>
  The relative error of rounding to nearest, for results of the size of \<open>cur_alpha\<close>; overflow to
  infinity rounds up.
\<close>

definition rounds_nearest :: "(rat \<Rightarrow> rat) \<Rightarrow> bool" where
  "rounds_nearest rnd \<longleftrightarrow> (\<forall>x \<ge> 1 / 2. x * (1 - 1 / 16777216) \<le> rnd x \<and>
     (x \<le> float_max \<longrightarrow> rnd x \<le> x * (1 + 1 / 16777216)))"

lemma rounds_nearest_id [simp]: "rounds_nearest id"
  by (simp add: rounds_nearest_def)

definition dominated ::
  "(rat \<Rightarrow> rat) \<Rightarrow> metric \<Rightarrow> (nat \<Rightarrow> nat \<Rightarrow> rat) \<Rightarrow> cand list \<Rightarrow> cand \<Rightarrow> bool" where
  "dominated rnd m cd res c \<longleftrightarrow>
     (\<exists>p \<in> set res. \<not> cand_less c p \<and>
        get_occlude_factor rnd m (cdist c) (cd (cid p) (cid c)) > 1)"

lemma alpha_grows:
  assumes "rounds_nearest rnd" "1 \<le> cur"
  shows "cur + 1 / 16 \<le> rnd (cur * f12)"
proof -
  have "cur * f12 * (1 - 1 / 16777216) \<le> rnd (cur * f12)"
    using assms(1) [unfolded rounds_nearest_def, rule_format, of "cur * f12"] assms(2)
    by (simp add: f12_def)
  moreover have "cur + 1 / 16 \<le> cur * f12 * (1 - 1 / 16777216)"
    using assms(2) by (simp add: f12_def)
  ultimately show ?thesis by linarith
qed

lemma prune_loop_result:
  assumes "rounds_nearest rnd" "1 \<le> cur" "alpha < cur + of_nat n / 16" "pass_inv R rnd m cd pool res"
    and "cur \<le> alpha \<or> (length res < R \<longrightarrow> (\<forall>cf \<in> set pool. snd cf > 1 \<or> fst cf \<in> set res))"
  shows "\<exists>res'. prune_loop rnd m alpha R maxc cd cur pool res = Some res' \<and> length res' \<le> R \<and>
    sorted_wrt cand_less res' \<and> set res' \<subseteq> set res \<union> fst ` set pool \<and>
    (length res' < R \<longrightarrow> (\<forall>c \<in> fst ` set pool. c \<in> set res' \<or> dominated rnd m cd res' c))"
  using assms(2-)
proof (induction n arbitrary: cur pool res)
  case 0
  then have "prune_loop rnd m alpha R maxc cd cur pool res = Some res"
    by (subst prune_loop.simps) auto
  moreover have "\<forall>c \<in> fst ` set pool. c \<in> set res \<or> dominated rnd m cd res c" if "length res < R"
    using that 0 by (fastforce simp: pass_inv_def factor_ok_def dominated_def)
  ultimately show ?case using 0 by (auto simp: pass_inv_def)
next
  case (Suc n)
  show ?case
  proof (cases "cur \<le> alpha \<and> length res < R")
    case False
    then have "prune_loop rnd m alpha R maxc cd cur pool res = Some res"
      by (subst prune_loop.simps) auto
    moreover have "\<forall>c \<in> fst ` set pool. c \<in> set res \<or> dominated rnd m cd res c" if "length res < R"
      using that Suc.prems False by (fastforce simp: pass_inv_def factor_ok_def dominated_def)
    ultimately show ?thesis using Suc.prems by (auto simp: pass_inv_def)
  next
    case True
    obtain pool1 res1 where pass: "prune_pass rnd m alpha R maxc cd cur 0 pool res = (pool1, res1)"
      by fastforce
    note inv = prune_pass_inv [OF Suc.prems(3) pass]
    have step: "prune_loop rnd m alpha R maxc cd cur pool res =
      prune_loop rnd m alpha R maxc cd (rnd (cur * f12)) pool1 res1"
      using True pass by (subst prune_loop.simps) simp
    have grow: "cur + 1 / 16 \<le> rnd (cur * f12)"
      by (rule alpha_grows [OF assms(1) Suc.prems(1)])
    have fsts: "fst ` set pool1 = fst ` set pool"
      using inv by (metis set_map)
    have "\<exists>res'. prune_loop rnd m alpha R maxc cd (rnd (cur * f12)) pool1 res1 = Some res' \<and>
      length res' \<le> R \<and> sorted_wrt cand_less res' \<and> set res' \<subseteq> set res1 \<union> fst ` set pool1 \<and>
      (length res' < R \<longrightarrow> (\<forall>c \<in> fst ` set pool1. c \<in> set res' \<or> dominated rnd m cd res' c))"
    proof (rule Suc.IH)
      show "1 \<le> rnd (cur * f12)" using grow Suc.prems(1) by linarith
      show "alpha < rnd (cur * f12) + of_nat n / 16" using grow Suc.prems(2) by (simp add: add_divide_distrib)
      show "pass_inv R rnd m cd pool1 res1" using inv by blast
      show "rnd (cur * f12) \<le> alpha \<or>
        (length res1 < R \<longrightarrow> (\<forall>cf \<in> set pool1. snd cf > 1 \<or> fst cf \<in> set res1))"
        using inv Suc.prems(1) by fastforce
    qed
    moreover have "set res1 \<union> fst ` set pool \<subseteq> set res \<union> fst ` set pool"
      using inv by blast
    ultimately show ?thesis
      unfolding step fsts by (meson order_trans)
  qed
qed

subsection \<open>What prune_neighbors selects\<close>

lemma saturate_result:
  assumes "length ids \<le> R"
  shows "length (saturate R cs ids) \<le> R \<and> set ids \<subseteq> set (saturate R cs ids) \<and>
    set (saturate R cs ids) \<subseteq> set ids \<union> cid ` set cs \<and>
    (distinct ids \<longrightarrow> distinct (saturate R cs ids)) \<and>
    (length (saturate R cs ids) < R \<longrightarrow> cid ` set cs \<subseteq> set (saturate R cs ids)) \<and>
    (\<exists>more. saturate R cs ids = ids @ more)"
  using assms
proof (induction R cs ids rule: saturate.induct)
  case (2 R c cs ids)
  show ?case
  proof (cases "length ids < R")
    case True
    define ids1 where "ids1 = (if cid c \<in> set ids then ids else ids @ [cid c])"
    have eq: "saturate R (c # cs) ids = saturate R cs ids1"
      using True by (simp add: ids1_def)
    have len: "length ids1 \<le> R"
      using True by (simp add: ids1_def)
    note IH = 2(1) [OF True len [unfolded ids1_def], folded ids1_def]
    have "\<exists>more. saturate R cs ids1 = ids @ more"
      using IH by (auto simp: ids1_def split: if_splits)
    then show ?thesis
      using IH unfolding eq by (auto simp: ids1_def split: if_splits)
  qed (use 2 in auto)
qed simp

lemma prune_pool_facts:
  assumes "mset (srt pool) = mset pool" "sorted_wrt (\<lambda>a b. \<not> cand_less b a) (srt pool)"
  shows "prune_pool srt P pool = take (bC P) (srt pool)"
    "sorted_wrt (\<lambda>a b. \<not> cand_less b a) (prune_pool srt P pool)"
    "set (prune_pool srt P pool) \<subseteq> set pool"
proof -
  show eq: "prune_pool srt P pool = take (bC P) (srt pool)"
    by (simp add: prune_pool_def Let_def)
  show "sorted_wrt (\<lambda>a b. \<not> cand_less b a) (prune_pool srt P pool)"
    unfolding eq by (rule sorted_wrt_take) (rule assms)
  show "set (prune_pool srt P pool) \<subseteq> set pool"
    unfolding eq using set_take_subset mset_eq_setD [OF assms(1)] by metis
qed

lemma prune_neighbors_result:
  assumes "rounds_nearest rnd" "pool \<noteq> []" "1 \<le> balpha P" "mset (srt pool) = mset pool"
    and "sorted_wrt (\<lambda>a b. \<not> cand_less b a) (srt pool)"
  shows "\<exists>res. prune_loop rnd m (balpha P) (bR P) (bC P) cd 1
        (map (\<lambda>c. (c, 0)) (prune_pool srt P pool)) [] = Some res \<and>
    prune_neighbors rnd srt pool old P m cd = Some (prune_pool srt P pool,
      if bsaturate P \<and> balpha P > 1 then saturate (bR P) (prune_pool srt P pool) (map cid res)
      else map cid res) \<and>
    length res \<le> bR P \<and> sorted_wrt cand_less res \<and> set res \<subseteq> set (prune_pool srt P pool) \<and>
    (length res < bR P \<longrightarrow>
      (\<forall>c \<in> set (prune_pool srt P pool). c \<in> set res \<or> dominated rnd m cd res c))"
proof -
  obtain n where n: "16 * (balpha P - 1) < of_nat n"
    using reals_Archimedean2 by blast
  have inv: "pass_inv (bR P) rnd m cd (map (\<lambda>c. (c, 0)) (prune_pool srt P pool)) []"
    using prune_pool_facts(2) [of srt pool P, OF assms(4,5)]
    by (auto simp: pass_inv_def factor_ok_def comp_def)
  have fsts: "fst ` set (map (\<lambda>c. (c, 0 :: rat)) (prune_pool srt P pool)) = set (prune_pool srt P pool)"
    by force
  obtain res where res: "prune_loop rnd m (balpha P) (bR P) (bC P) cd 1
        (map (\<lambda>c. (c, 0)) (prune_pool srt P pool)) [] = Some res \<and> length res \<le> bR P \<and>
      sorted_wrt cand_less res \<and> set res \<subseteq> set (prune_pool srt P pool) \<and>
      (length res < bR P \<longrightarrow>
        (\<forall>c \<in> set (prune_pool srt P pool). c \<in> set res \<or> dominated rnd m cd res c))"
    using prune_loop_result [OF assms(1) _ _ inv, of 1 "balpha P" n "bC P"] n assms(3)
    unfolding fsts by auto
  then show ?thesis
    using assms(2) by (intro exI [of _ res]) (simp add: prune_neighbors_def Let_def)
qed

text \<open> C11. Without saturation, pruning returns (rounding to nearest is good enough for
  \<open>cur_alpha\<close> to pass \<open>alpha\<close>): the kept ids are at most \<open>R\<close>, in order of distance, from the
  nearest \<open>C\<close> candidates, without repetition; when fewer than \<open>R\<close> are kept, every dropped
  candidate is occluded by a kept one that is not farther.\<close>

theorem prune_neighbors_dominates:
  assumes "rounds_nearest rnd" "pool \<noteq> []" "1 \<le> balpha P" "mset (srt pool) = mset pool"
    and "sorted_wrt (\<lambda>a b. \<not> cand_less b a) (srt pool)" and "inj_on cid (set pool)"
    and "\<not> bsaturate P"
  shows "\<exists>res. prune_neighbors rnd srt pool old P m cd = Some (take (bC P) (srt pool), map cid res) \<and>
    length res \<le> bR P \<and> sorted_wrt cand_less res \<and> distinct (map cid res) \<and>
    set res \<subseteq> set (take (bC P) (srt pool)) \<and>
    (length res < bR P \<longrightarrow> (\<forall>c \<in> set (take (bC P) (srt pool)). c \<in> set res \<or> dominated rnd m cd res c))"
proof -
  note pool = prune_pool_facts [of srt pool P, OF assms(4,5)]
  obtain res where res: "prune_neighbors rnd srt pool old P m cd = Some (prune_pool srt P pool, map cid res)"
    "length res \<le> bR P" "sorted_wrt cand_less res" "set res \<subseteq> set (prune_pool srt P pool)"
    "length res < bR P \<longrightarrow>
      (\<forall>c \<in> set (prune_pool srt P pool). c \<in> set res \<or> dominated rnd m cd res c)"
    using prune_neighbors_result [where srt = srt and P = P and pool = pool, OF assms(1-5), of m cd old] assms(7) by auto
  have "distinct (map cid res)"
    using sorted_cand_distinct [OF res(3)] inj_on_subset [OF assms(6)] res(4) pool(3)
    by (simp add: distinct_map)
  then show ?thesis
    using res unfolding pool(1) by blast
qed

theorem prune_neighbors_dominates_witness:
  "\<exists>ids. prune_neighbors id (isort cand_less)
      [\<lparr>cid = 1, cdist = 4\<rparr>, \<lparr>cid = 2, cdist = 1\<rparr>] [] \<lparr>bR = 2, bC = 5, balpha = 1, bsaturate = False\<rparr> L2
      (\<lambda>a b. 3) = Some (take 5 (isort cand_less [\<lparr>cid = 1, cdist = 4\<rparr>, \<lparr>cid = 2, cdist = 1\<rparr>]), ids) \<and>
    distinct ids"
proof -
  from prune_neighbors_dominates [OF rounds_nearest_id, of "[\<lparr>cid = 1, cdist = 4\<rparr>, \<lparr>cid = 2, cdist = 1\<rparr>]"
    "\<lparr>bR = 2, bC = 5, balpha = 1, bsaturate = False\<rparr>" "isort cand_less" "[]" L2 "\<lambda>a b. 3"]
  show ?thesis
    using cand_less.sorted_isort by (auto simp: cand_less_def)
qed

text \<open> With saturation (and \<open>alpha > 1\<close>) the list is filled up with the nearest candidates:
  it has exactly \<open>R\<close> ids, or all of the (different) candidates when there are fewer, without repetition, and
  starts with those the occlusion test selects.\<close>

theorem prune_neighbors_saturates:
  assumes "rounds_nearest rnd" "pool \<noteq> []" "1 < balpha P" "mset (srt pool) = mset pool"
    and "sorted_wrt (\<lambda>a b. \<not> cand_less b a) (srt pool)" and "inj_on cid (set pool)"
    and "bsaturate P"
  shows "\<exists>ids kept more. prune_neighbors rnd srt pool old P m cd = Some (take (bC P) (srt pool), ids) \<and>
    prune_neighbors rnd srt pool old (P\<lparr>bsaturate := False\<rparr>) m cd = Some (take (bC P) (srt pool), kept) \<and>
    ids = kept @ more \<and> distinct ids \<and> set ids \<subseteq> cid ` set (take (bC P) (srt pool)) \<and>
    length ids = min (bR P) (card (set (take (bC P) (srt pool))))"
proof -
  have alpha: "1 \<le> balpha P" using assms(3) by simp
  note pool = prune_pool_facts [of srt pool P, OF assms(4,5)]
  obtain res where res: "prune_loop rnd m (balpha P) (bR P) (bC P) cd 1
      (map (\<lambda>c. (c, 0)) (prune_pool srt P pool)) [] = Some res"
    "prune_neighbors rnd srt pool old P m cd =
      Some (prune_pool srt P pool, saturate (bR P) (prune_pool srt P pool) (map cid res))"
    "length res \<le> bR P" "sorted_wrt cand_less res" "set res \<subseteq> set (prune_pool srt P pool)"
    using prune_neighbors_result
      [where srt = srt and P = P and pool = pool, OF assms(1,2) alpha assms(4,5), of m cd old] assms(3,7) by auto
  let ?pool = "take (bC P) (srt pool)"
  let ?ids = "saturate (bR P) ?pool (map cid res)"
  have inj: "inj_on cid (set ?pool)"
    using inj_on_subset [OF assms(6)] pool(3) unfolding pool(1) by blast
  have kept: "distinct (map cid res)"
    using sorted_cand_distinct [OF res(4)] inj_on_subset [OF inj] res(5) unfolding pool(1)
    by (simp add: distinct_map)
  have sub: "cid ` set res \<subseteq> cid ` set ?pool"
    using res(5) unfolding pool(1) by blast
  have sat: "length ?ids \<le> bR P" "set ?ids \<subseteq> cid ` set ?pool" "distinct ?ids"
    "length ?ids < bR P \<longrightarrow> cid ` set ?pool \<subseteq> set ?ids" "\<exists>more. ?ids = map cid res @ more"
    using saturate_result [of "map cid res" "bR P" ?pool] kept sub res(3) by (simp_all add: image_subset_iff) blast
  have unsat: "prune_neighbors rnd srt pool old (P\<lparr>bsaturate := False\<rparr>) m cd = Some (?pool, map cid res)"
    using res(1) assms(2) pool(1)
    by (simp add: prune_neighbors_def Let_def prune_pool_def split: if_splits)
  have "length ?ids = card (set ?ids)"
    using sat(3) by (simp add: distinct_card)
  moreover have "card (set ?ids) \<le> card (set ?pool)"
    using card_mono [OF _ sat(2)] card_image [OF inj] by simp
  moreover have "card (set ?pool) \<le> card (set ?ids)" if "length ?ids < bR P"
    using card_mono [of "set ?ids" "cid ` set ?pool"] card_image [OF inj] sat(4) that by simp
  ultimately have "length ?ids = min (bR P) (card (set ?pool))"
    using sat(1) by linarith
  then show ?thesis
    using res(2) unsat sat pool(1) by auto
qed

theorem prune_neighbors_saturates_witness:
  "\<exists>ids. prune_neighbors id (isort cand_less)
      [\<lparr>cid = 1, cdist = 4\<rparr>, \<lparr>cid = 2, cdist = 1\<rparr>] [] \<lparr>bR = 2, bC = 5, balpha = 2, bsaturate = True\<rparr> L2
      (\<lambda>a b. 1) = Some (take 5 (isort cand_less [\<lparr>cid = 1, cdist = 4\<rparr>, \<lparr>cid = 2, cdist = 1\<rparr>]), ids) \<and>
    distinct ids \<and> length ids = 2"
proof -
  from prune_neighbors_saturates [OF rounds_nearest_id, of "[\<lparr>cid = 1, cdist = 4\<rparr>, \<lparr>cid = 2, cdist = 1\<rparr>]"
    "\<lparr>bR = 2, bC = 5, balpha = 2, bsaturate = True\<rparr>" "isort cand_less" "[]" L2 "\<lambda>a b. 1"]
  show ?thesis
    using cand_less.sorted_isort by (auto simp: cand_less_def)
qed

subsection \<open>Evicting one neighbor\<close>

lemma keep_ids_all: "evict < i \<Longrightarrow> keep_ids evict i cs = map tid cs"
  by (induction evict i cs rule: keep_ids.induct) auto

lemma keep_ids_eq:
  assumes "i \<le> evict"
  shows "keep_ids evict i cs = map tid (take (evict - i) cs @ drop (Suc (evict - i)) cs)"
  using assms
proof (induction evict i cs rule: keep_ids.induct)
  case (2 evict i c cs)
  show ?case
  proof (cases "i = evict")
    case False
    then have "evict - i = Suc (evict - Suc i)" using 2(3) by simp
    then show ?thesis using 2 False by simp
  next
    case True
    then show ?thesis by (simp add: keep_ids_all)
  qed
qed simp

text \<open>Entry \<open>e\<close> may go: another entry is no farther from the center.\<close>

definition evictable :: "tri list \<Rightarrow> nat \<Rightarrow> bool" where
  "evictable pool e \<longleftrightarrow> e < length pool \<and>
     (\<exists>j < length pool. j \<noteq> e \<and> tdist (pool ! j) \<le> tdist (pool ! e))"

definition is_target :: "nat \<Rightarrow> tri list \<Rightarrow> nat \<Rightarrow> bool" where
  "is_target target pool t \<longleftrightarrow> t = kInvalidID \<or> (t < length pool \<and> tid (pool ! t) = target)"

lemma fast_pass_evictable:
  assumes "fast_pass rnd m cur target tcd pool k tgt = (e, t)" "k \<le> length pool"
    and "is_target target pool tgt" "\<forall>x \<in> set pool. tid x = target \<longrightarrow> tdist x = tcd"
    and "\<exists>x \<in> set pool. tid x = target"
  shows "is_target target pool t \<and> (e = kInvalidID \<or> evictable pool e)"
  using assms(1-3)
proof (induction k arbitrary: tgt)
  case (Suc i)
  obtain j where j: "j < length pool" "tid (pool ! j) = target" "tdist (pool ! j) = tcd"
    using assms(4,5) by (metis in_set_conv_nth)
  consider "tid (pool ! i) = target"
    | "tid (pool ! i) \<noteq> target" "tdist (pool ! i) > tcd"
    | "tid (pool ! i) \<noteq> target" "\<not> tdist (pool ! i) > tcd"
    by blast
  then show ?case
  proof cases
    case 1
    then show ?thesis using Suc by (auto simp: is_target_def)
  next
    case 2
    have "evictable pool i"
      unfolding evictable_def using Suc.prems(2) j 2 by (intro conjI exI [of _ j]) auto
    then show ?thesis using Suc 2 by (auto split: if_splits)
  next
    case 3
    have "tgt = kInvalidID \<or> evictable pool tgt"
      using Suc.prems(2,3) 3 assms(4)
      by (auto simp: evictable_def is_target_def intro!: exI [of _ i])
    then show ?thesis using Suc 3 by (auto split: if_splits)
  qed
qed simp

lemma alpha_shrinks:
  assumes "rounds_nearest rnd" "f_near1 \<le> cur" "cur \<le> float_max"
  shows "rnd (cur / f12) \<le> cur - 1 / 16"
proof -
  have "1 / 2 \<le> cur / f12" "cur / f12 \<le> float_max"
    using assms(2,3) by (simp_all add: f12_def f_near1_def float_max_def)
  then have "rnd (cur / f12) \<le> cur / f12 * (1 + 1 / 16777216)"
    using assms(1) unfolding rounds_nearest_def by blast
  moreover have "cur / f12 * (1 + 1 / 16777216) \<le> cur - 1 / 16"
    using assms(2) by (simp add: f12_def f_near1_def field_simps)
  ultimately show ?thesis by linarith
qed

lemma fast_loop_returns:
  assumes "rounds_nearest rnd" "cur \<le> float_max" "cur < f_near1 + of_nat n / 16"
    and "is_target target pool tgt" "\<forall>x \<in> set pool. tid x = target \<longrightarrow> tdist x = tcd"
    and "\<exists>x \<in> set pool. tid x = target" "evict = kInvalidID \<or> evictable pool evict"
  shows "\<exists>e t. fast_loop rnd m target tcd pool cur evict tgt = Some (e, t) \<and>
    (e = kInvalidID \<or> evictable pool e)"
  using assms(2-4,7)
proof (induction n arbitrary: cur evict tgt)
  case 0
  then show ?case by (subst fast_loop.simps) auto
next
  case (Suc n)
  show ?case
  proof (cases "cur \<ge> f_near1 \<and> evict = kInvalidID")
    case False
    then show ?thesis using Suc.prems by (subst fast_loop.simps) auto
  next
    case True
    obtain e1 t1 where pass: "fast_pass rnd m cur target tcd pool (length pool) tgt = (e1, t1)"
      by fastforce
    note ok = fast_pass_evictable [OF pass order_refl Suc.prems(3) assms(5,6)]
    have less: "rnd (cur / f12) \<le> cur - 1 / 16"
      using alpha_shrinks [OF assms(1)] True Suc.prems(1) by blast
    have "\<exists>e t. fast_loop rnd m target tcd pool (rnd (cur / f12)) e1 t1 = Some (e, t) \<and>
      (e = kInvalidID \<or> evictable pool e)"
    proof (rule Suc.IH)
      show "rnd (cur / f12) \<le> float_max" using less Suc.prems(1) by linarith
      show "rnd (cur / f12) < f_near1 + of_nat n / 16"
        using less Suc.prems(2) by (simp add: add_divide_distrib)
    qed (use ok in auto)
    then show ?thesis
      using True pass by (subst fast_loop.simps) simp
  qed
qed

lemma first_occluded_range:
  "first_occluded rnd m alpha cd s t cs = Some u \<Longrightarrow> t \<le> u \<and> u < t + length cs"
  by (induction rnd m alpha cd s t cs rule: first_occluded.induct) (auto split: if_splits)

lemma full_check_range:
  "full_check rnd m alpha cd tgt start cs = Some u \<Longrightarrow> start < u \<and> u < start + length cs"
proof (induction rnd m alpha cd tgt start cs rule: full_check.induct)
  case (2 rnd m alpha cd tgt start c cs)
  show ?case
  proof (cases "start = tgt")
    case True
    then show ?thesis using 2(1) [OF True] 2(3) by simp
  next
    case False
    show ?thesis
    proof (cases "first_occluded rnd m alpha cd (tid c) (Suc start) cs")
      case None
      then show ?thesis using 2(2) [OF False None] 2(3) False by simp
    next
      case (Some v)
      then show ?thesis using first_occluded_range [OF Some] 2(3) False by simp
    qed
  qed
qed simp

lemma sorted_evictable:
  assumes "sorted_wrt (\<lambda>a b. \<not> tri_less b a) pool" "0 < e" "e < length pool"
  shows "evictable pool e"
proof -
  have "\<not> tri_less (pool ! e) (pool ! 0)"
    using sorted_wrt_nth_less [OF assms(1)] assms(2,3) by blast
  then have "tdist (pool ! 0) \<le> tdist (pool ! e)"
    by (auto simp: tri_less_def)
  then show ?thesis
    unfolding evictable_def using assms(2,3) by (intro conjI exI [of _ 0]) auto
qed

lemma keep_ids_evicts:
  assumes "evictable pool e"
  shows "\<exists>kept. keep_ids e 0 pool = map tid kept \<and> add_mset (pool ! e) (mset kept) = mset pool \<and>
    (\<forall>z \<in> set pool. \<exists>y \<in> set kept. tdist y \<le> tdist z)"
proof -
  obtain j where e: "e < length pool" and j: "j < length pool" "j \<noteq> e" "tdist (pool ! j) \<le> tdist (pool ! e)"
    using assms by (auto simp: evictable_def)
  let ?kept = "take e pool @ drop (Suc e) pool"
  have split: "pool = take e pool @ pool ! e # drop (Suc e) pool"
    by (rule id_take_nth_drop [OF e])
  have ms: "add_mset (pool ! e) (mset ?kept) = mset pool"
    by (subst (4) split) simp
  have pool: "set pool = insert (pool ! e) (set ?kept)"
    using arg_cong [OF ms, of set_mset] by simp
  have "pool ! j \<in> set ?kept"
  proof (cases "j < e")
    case True
    then show ?thesis using j(1) by (auto simp: set_take_nth)
  next
    case False
    then have "drop (Suc e) pool ! (j - Suc e) = pool ! j" "j - Suc e < length (drop (Suc e) pool)"
      using j(1,2) by auto
    then show ?thesis by (metis UnI2 nth_mem set_append)
  qed
  then have "\<exists>y \<in> set ?kept. tdist y \<le> tdist z" if "z \<in> set pool" for z
    using that j(3) pool
    by (cases "z = pool ! e") auto
  then show ?thesis
    using keep_ids_eq [of 0 e pool] ms by (intro exI [of _ ?kept]) simp
qed

text \<open> C17. \<open>delta_prune_neighbors\<close> returns and drops exactly one entry of the list, so that a list
  of \<open>R + 1\<close> neighbors becomes one of \<open>R\<close>; with at least two neighbors the distance from the center
  to the nearest one does not grow.\<close>

theorem delta_prune_evicts_one:
  assumes "rounds_nearest rnd" "balpha P \<le> float_max" "\<And>xs. mset (srt xs) = mset xs"
    and "\<And>xs. sorted_wrt (\<lambda>a b. \<not> tri_less b a) (srt xs)"
    and "2 \<le> length nhood" "length nhood < kInvalidID" "last nhood = target"
  shows "\<exists>ids x. delta_prune_neighbors rnd srt nhood center target P m cd = Some ids \<and>
    add_mset x (mset ids) = mset nhood \<and>
    (\<forall>z \<in> set nhood. \<exists>y \<in> set ids. cd center y \<le> cd center z)"
proof -
  let ?tri = "\<lambda>v. \<lparr>tid = v, ttgt = cd target v, tdist = cd center v\<rparr>"
  define pool where "pool = srt (map ?tri nhood)"
  have ms: "mset pool = mset (map ?tri nhood)"
    by (simp add: pool_def assms(3))
  have len: "length pool = length nhood" and set: "set pool = ?tri ` set nhood"
    using ms by (metis length_map size_mset, metis list.set_map mset_eq_setD)
  obtain n where n: "16 * (balpha P - f_near1) < of_nat n"
    using reals_Archimedean2 by blast
  have "target \<in> set nhood"
    using assms(5,7) by (metis last_in_set list.size(3) not_numeral_le_zero)
  then obtain e t where loop:
    "fast_loop rnd m target (cd center target) pool (balpha P) kInvalidID kInvalidID = Some (e, t)"
    "e = kInvalidID \<or> evictable pool e"
    using fast_loop_returns [OF assms(1,2), of n target pool kInvalidID "cd center target" kInvalidID m] n
    by (auto simp: set is_target_def)
  have sorted: "sorted_wrt (\<lambda>a b. \<not> tri_less b a) pool"
    by (simp add: pool_def assms(4))
  have "\<exists>e. evictable pool e \<and>
    delta_prune_neighbors rnd srt nhood center target P m cd = Some (keep_ids e 0 pool)"
  proof (cases "e = kInvalidID")
    case False
    then show ?thesis
      using loop assms(5-7) by (auto simp: delta_prune_neighbors_def Let_def simp flip: pool_def)
  next
    case True
    show ?thesis
    proof (cases "full_check rnd m (balpha P) cd t 0 pool")
      case None
      then show ?thesis
        using True loop assms(5-7) sorted_evictable [OF sorted, of "length pool - 1"] len
        by (auto simp: delta_prune_neighbors_def Let_def simp flip: pool_def)
    next
      case (Some u)
      then show ?thesis
        using True loop assms(5-7) sorted_evictable [OF sorted, of u] full_check_range [OF Some]
        by (auto simp: delta_prune_neighbors_def Let_def simp flip: pool_def)
    qed
  qed
  then obtain e kept where e: "evictable pool e" "keep_ids e 0 pool = map tid kept"
    "delta_prune_neighbors rnd srt nhood center target P m cd = Some (map tid kept)"
    "add_mset (pool ! e) (mset kept) = mset pool" "\<forall>z \<in> set pool. \<exists>y \<in> set kept. tdist y \<le> tdist z"
    using keep_ids_evicts by metis
  have "mset (map tid pool) = mset nhood"
    using ms by (simp add: image_mset.compositionality comp_def)
  then have "add_mset (tid (pool ! e)) (mset (map tid kept)) = mset nhood"
    by (simp flip: e(4))
  moreover have "\<forall>z \<in> set nhood. \<exists>y \<in> set (map tid kept). cd center y \<le> cd center z"
  proof
    fix z assume "z \<in> set nhood"
    then have "?tri z \<in> set pool" by (simp add: set)
    then obtain y where y: "y \<in> set kept" "tdist y \<le> cd center z"
      using e(5) by fastforce
    moreover have "y \<in> set pool"
      using y(1) e(4) by (metis insert_iff set_mset_add_mset_insert set_mset_mset)
    ultimately have "cd center (tid y) \<le> cd center z"
      by (auto simp: set)
    then show "\<exists>y \<in> set (map tid kept). cd center y \<le> cd center z"
      using y(1) by auto
  qed
  ultimately show ?thesis using e(3) by blast
qed

theorem delta_prune_evicts_one_witness:
  "\<exists>ids x. delta_prune_neighbors id (isort tri_less) [3, 5, 9] 1 9
      \<lparr>bR = 2, bC = 5, balpha = 6 / 5, bsaturate = False\<rparr> L2 (\<lambda>a b. of_nat (a + b)) = Some ids \<and>
    add_mset x (mset ids) = {#3, 5, 9#}"
  using delta_prune_evicts_one [OF rounds_nearest_id,
      of "\<lparr>bR = 2, bC = 5, balpha = 6 / 5, bsaturate = False\<rparr>" "isort tri_less" "[3, 5, 9]" 9 1 L2
         "\<lambda>a b. of_nat (a + b)"]
    tri_less.sorted_isort
  by (auto simp: float_max_def kInvalidID_def)

end
