(* ===== verification/BoundedCache.thy ===== *)
theory BoundedCache
  imports Prelude
begin

text \<open>
  What the searches rely on of a page cache of bounded capacity, whatever it evicts: a page that
  was just put is found with its data, any other page keeps its data or is gone, looking pages up
  changes no data, and there are never more pages than the capacity. \<open>look\<close> is the contents as a
  map, \<open>get\<close> the lookup of the code, which may also update counters, and \<open>room\<close> says that the
  counters involved have room for one more use of the page.
\<close>

locale bounded_cache =
  fixes look :: "'s \<Rightarrow> nat \<Rightarrow> 'd option"
    and get :: "'s \<Rightarrow> nat \<Rightarrow> 'd option \<times> 's"
    and put :: "'s \<Rightarrow> nat \<Rightarrow> 'd \<Rightarrow> 's"
    and cap :: "'s \<Rightarrow> nat"
    and room :: "'s \<Rightarrow> nat \<Rightarrow> bool"
    and inv :: "'s \<Rightarrow> bool"
  assumes get_result: "inv s \<Longrightarrow> room s p \<Longrightarrow> fst (get s p) = look s p"
    and look_get: "inv s \<Longrightarrow> room s p \<Longrightarrow> look (snd (get s p)) = look s"
    and inv_get: "inv s \<Longrightarrow> room s p \<Longrightarrow> inv (snd (get s p))"
    and cap_get: "inv s \<Longrightarrow> room s p \<Longrightarrow> cap (snd (get s p)) = cap s"
    and inv_put: "inv s \<Longrightarrow> room s p \<Longrightarrow> inv (put s p d)"
    and cap_put: "inv s \<Longrightarrow> room s p \<Longrightarrow> cap (put s p d) = cap s"
    and look_put: "inv s \<Longrightarrow> room s p \<Longrightarrow> 0 < cap s \<Longrightarrow> look (put s p d) p = Some d"
    and look_put_other: "inv s \<Longrightarrow> room s p \<Longrightarrow> q \<noteq> p \<Longrightarrow>
      look (put s p d) q = None \<or> look (put s p d) q = look s q"
    and put_zero: "cap s = 0 \<Longrightarrow> put s p d = s"
    and bounded: "inv s \<Longrightarrow> finite (dom (look s)) \<and> card (dom (look s)) \<le> cap s"

text \<open>A batch of puts, and that every one of them has room.\<close>

fun put_all :: "('s \<Rightarrow> nat \<Rightarrow> 'd \<Rightarrow> 's) \<Rightarrow> 's \<Rightarrow> (nat \<times> 'd) list \<Rightarrow> 's" where
  "put_all put s [] = s"
| "put_all put s ((p, d) # pds) = put_all put (put s p d) pds"

fun batch_room ::
  "('s \<Rightarrow> nat \<Rightarrow> bool) \<Rightarrow> ('s \<Rightarrow> nat \<Rightarrow> 'd \<Rightarrow> 's) \<Rightarrow> 's \<Rightarrow> (nat \<times> 'd) list \<Rightarrow> bool" where
  "batch_room room put s [] \<longleftrightarrow> True"
| "batch_room room put s ((p, d) # pds) \<longleftrightarrow> room s p \<and> batch_room room put (put s p d) pds"

text \<open>What a batch leaves a page with: the data put last, or what it had.\<close>

definition batch_value :: "(nat \<Rightarrow> 'd option) \<Rightarrow> (nat \<times> 'd) list \<Rightarrow> nat \<Rightarrow> 'd option" where
  "batch_value m pds q = (case map_of (rev pds) q of Some d \<Rightarrow> Some d | None \<Rightarrow> m q)"

lemma batch_value_Cons:
  "batch_value m ((p, d) # pds) q = batch_value (m(p \<mapsto> d)) pds q"
  by (auto simp: batch_value_def map_add_def split: option.splits)

context bounded_cache begin

lemma put_look_cases:
  assumes "inv s" "room s p" "0 < cap s"
  shows "look (put s p d) q = None \<or> look (put s p d) q = ((look s)(p \<mapsto> d)) q"
  using look_put [OF assms] look_put_other [OF assms(1,2)] by auto

lemma put_all_inv:
  "inv s \<Longrightarrow> batch_room room put s pds \<Longrightarrow> inv (put_all put s pds) \<and> cap (put_all put s pds) = cap s"
proof (induction pds arbitrary: s)
  case (Cons a pds)
  then show ?case
    using inv_put [of s "fst a" "snd a"] cap_put [of s "fst a" "snd a"] by (cases a) auto
qed simp

lemma batch_value_weaken:
  assumes "m q = None \<or> m q = m' q" "x = None \<or> x = batch_value m pds q"
  shows "x = None \<or> x = batch_value m' pds q"
  using assms by (auto simp: batch_value_def split: option.splits)

lemma put_all_look:
  assumes "inv s" "batch_room room put s pds" "0 < cap s"
  shows "look (put_all put s pds) q = None \<or> look (put_all put s pds) q = batch_value (look s) pds q"
  using assms
proof (induction pds arbitrary: s)
  case Nil
  then show ?case by (simp add: batch_value_def)
next
  case (Cons a pds)
  obtain p d where a: "a = (p, d)" by fastforce
  have room: "room s p" "batch_room room put (put s p d) pds"
    using Cons.prems(2) by (simp_all add: a)
  have "look (put_all put (put s p d) pds) q = None \<or>
    look (put_all put (put s p d) pds) q = batch_value (look (put s p d)) pds q"
    using Cons.IH [OF inv_put [OF Cons.prems(1) room(1)] room(2)] Cons.prems(3)
      cap_put [OF Cons.prems(1) room(1)] by simp
  with put_look_cases [OF Cons.prems(1) room(1) Cons.prems(3), of d q] show ?case
    unfolding a put_all.simps batch_value_Cons by (rule batch_value_weaken)
qed

lemma put_all_last:
  assumes "inv s" "batch_room room put s (pds @ [(p, d)])" "0 < cap s"
  shows "look (put_all put s (pds @ [(p, d)])) p = Some d"
  using assms
proof (induction pds arbitrary: s)
  case Nil
  then show ?case using look_put by simp
next
  case (Cons a pds)
  then show ?case
    using inv_put [of s "fst a" "snd a"] cap_put [of s "fst a" "snd a"] by (cases a) auto
qed

end

end
