(* ===== verification/LfuCache.thy ===== *)
theory LfuCache
  imports BoundedCache
begin

text \<open>
  \<open>LFUCache\<close> of \<open>Gorgeous/include/hybridcache_cache.h\<close>. A page's data is a value; the pointer the
  code returns points to it as long as the page is cached. \<open>lmap\<close> is \<open>cache_map_\<close> with the data and
  frequency of the node, \<open>lfreq\<close> is \<open>freq_lists_\<close>, and \<open>liter\<close> holds the pages with an entry in
  \<open>page_to_iter_\<close>: the iterator of a page is the list node that holds it. Frequencies are 32-bit
  counters.
\<close>

record 'd lfu =
  lcap :: nat
  lmap :: "nat \<rightharpoonup> 'd \<times> nat"
  lfreq :: "nat \<rightharpoonup> nat list"
  liter :: "nat set"
  lmin :: nat
  lsize :: nat

definition lfu_empty :: "nat \<Rightarrow> 'd lfu" where
  "lfu_empty capacity =
     \<lparr>lcap = capacity, lmap = Map.empty, lfreq = Map.empty, liter = {}, lmin = 0, lsize = 0\<rparr>"

definition inc32 :: "nat \<Rightarrow> nat" where
  "inc32 n = (n + 1) mod 2 ^ 32"

text \<open>\<open>freq_lists_[f]\<close>, empty when there is no entry.\<close>

definition flist :: "(nat \<rightharpoonup> nat list) \<Rightarrow> nat \<Rightarrow> nat list" where
  "flist fl f = (case fl f of Some l \<Rightarrow> l | None \<Rightarrow> [])"

definition lfu_unlink :: "'d lfu \<Rightarrow> nat \<Rightarrow> nat \<Rightarrow> 'd lfu" where
  "lfu_unlink s page old_freq =
     (if page \<in> liter s
      then let l = remove1 page (flist (lfreq s) old_freq)
        in if l = []
           then s\<lparr>lfreq := (lfreq s)(old_freq := None),
                  lmin := (if lmin s = old_freq then inc32 (lmin s) else lmin s)\<rparr>
           else s\<lparr>lfreq := (lfreq s)(old_freq \<mapsto> l)\<rparr>
      else s)"

definition lfu_update_frequency :: "'d lfu \<Rightarrow> nat \<Rightarrow> nat \<Rightarrow> 'd lfu" where
  "lfu_update_frequency s page old_freq =
     (let s = lfu_unlink s page old_freq; new_freq = inc32 old_freq
      in s\<lparr>lfreq := (lfreq s)(new_freq \<mapsto> flist (lfreq s) new_freq @ [page]),
           liter := insert page (liter s),
           lmap := (lmap s)(page := map_option (\<lambda>(d, f). (d, new_freq)) (lmap s page))\<rparr>)"

definition lfu_get :: "'d lfu \<Rightarrow> nat \<Rightarrow> 'd option \<times> 'd lfu" where
  "lfu_get s page =
     (case lmap s page of
        None \<Rightarrow> (None, s)
      | Some (d, f) \<Rightarrow> (Some d, lfu_update_frequency s page f))"

definition lfu_evict :: "'d lfu \<Rightarrow> 'd lfu" where
  "lfu_evict s =
     (if lfreq s = Map.empty then s
      else case flist (lfreq s) (lmin s) of
        [] \<Rightarrow> s\<lparr>lfreq := (lfreq s)(lmin s \<mapsto> [])\<rparr>
      | page # l \<Rightarrow>
          s\<lparr>lfreq := (if l = [] then (lfreq s)(lmin s := None) else (lfreq s)(lmin s \<mapsto> l)),
            lmap := (lmap s)(page := None), liter := liter s - {page}, lsize := lsize s - 1\<rparr>)"

definition lfu_add :: "'d lfu \<Rightarrow> nat \<Rightarrow> 'd \<Rightarrow> 'd lfu" where
  "lfu_add s page data =
     s\<lparr>lmap := (lmap s)(page \<mapsto> (data, 1)), lfreq := (lfreq s)(1 \<mapsto> flist (lfreq s) 1 @ [page]),
       liter := insert page (liter s), lmin := 1, lsize := lsize s + 1\<rparr>"

definition lfu_put :: "'d lfu \<Rightarrow> nat \<Rightarrow> 'd \<Rightarrow> 'd lfu" where
  "lfu_put s page data =
     (if lcap s = 0 then s
      else case lmap s page of
        Some (d, f) \<Rightarrow> lfu_update_frequency (s\<lparr>lmap := (lmap s)(page \<mapsto> (data, f))\<rparr>) page f
      | None \<Rightarrow> lfu_add (if lsize s \<ge> lcap s then lfu_evict s else s) page data)"

definition lfu_put_batch :: "'d lfu \<Rightarrow> nat list \<Rightarrow> 'd list \<Rightarrow> 'd lfu" where
  "lfu_put_batch s pages data = put_all lfu_put s (zip pages data)"

definition lfu_contains :: "'d lfu \<Rightarrow> nat \<Rightarrow> bool" where
  "lfu_contains s page \<longleftrightarrow> lmap s page \<noteq> None"

definition lfu_clear :: "'d lfu \<Rightarrow> 'd lfu" where
  "lfu_clear s =
     s\<lparr>lmap := Map.empty, lfreq := Map.empty, liter := {}, lsize := 0, lmin := 0\<rparr>"

subsection \<open>The specification\<close>

text \<open>
  The cached pages with their data and frequencies, in the order of their last use. A use moves the
  page to the end; a full cache gives up, of the pages used least often, the one not used for the
  longest time.
\<close>

type_synonym 'd uses = "(nat \<times> 'd \<times> nat) list"

definition use_page :: "nat \<Rightarrow> 'd \<Rightarrow> nat \<Rightarrow> 'd uses \<Rightarrow> 'd uses" where
  "use_page page data f xs = filter (\<lambda>x. fst x \<noteq> page) xs @ [(page, data, f)]"

definition least_freq :: "'d uses \<Rightarrow> nat" where
  "least_freq xs = Min (set (map (\<lambda>x. snd (snd x)) xs))"

fun drop_first :: "('a \<Rightarrow> bool) \<Rightarrow> 'a list \<Rightarrow> 'a list" where
  "drop_first P [] = []"
| "drop_first P (x # xs) = (if P x then xs else x # drop_first P xs)"

definition spec_evict :: "'d uses \<Rightarrow> 'd uses" where
  "spec_evict xs = drop_first (\<lambda>x. snd (snd x) = least_freq xs) xs"

definition spec_get :: "'d uses \<Rightarrow> nat \<Rightarrow> 'd option \<times> 'd uses" where
  "spec_get xs page =
     (case map_of xs page of
        None \<Rightarrow> (None, xs)
      | Some (d, f) \<Rightarrow> (Some d, use_page page d (f + 1) xs))"

definition spec_put :: "nat \<Rightarrow> 'd uses \<Rightarrow> nat \<Rightarrow> 'd \<Rightarrow> 'd uses" where
  "spec_put capacity xs page data =
     (if capacity = 0 then xs
      else case map_of xs page of
        Some (d, f) \<Rightarrow> use_page page data (f + 1) xs
      | None \<Rightarrow> use_page page data 1 (if length xs \<ge> capacity then spec_evict xs else xs))"

subsection \<open>The relation\<close>

definition pages_at :: "'d uses \<Rightarrow> nat \<Rightarrow> nat list" where
  "pages_at xs f = map fst (filter (\<lambda>x. snd (snd x) = f) xs)"

definition lists_of :: "'d uses \<Rightarrow> nat \<rightharpoonup> nat list" where
  "lists_of xs f = (if pages_at xs f = [] then None else Some (pages_at xs f))"

definition lfu_rel :: "'d lfu \<Rightarrow> 'd uses \<Rightarrow> bool" where
  "lfu_rel s xs \<longleftrightarrow> distinct (map fst xs) \<and> lmap s = map_of xs \<and> lfreq s = lists_of xs \<and>
     liter s = fst ` set xs \<and> lsize s = length xs \<and> length xs \<le> lcap s \<and>
     (xs \<noteq> [] \<longrightarrow> lmin s = least_freq xs) \<and> (\<forall>x \<in> set xs. 1 \<le> snd (snd x))"

text \<open>The counter of the page has room for one more use.\<close>

definition lfu_room :: "'d lfu \<Rightarrow> nat \<Rightarrow> bool" where
  "lfu_room s page \<longleftrightarrow> (\<forall>d f. lmap s page = Some (d, f) \<longrightarrow> f + 1 < 2 ^ 32)"

subsection \<open>Lists of uses\<close>

lemma pages_at_append [simp]: "pages_at (xs @ ys) f = pages_at xs f @ pages_at ys f"
  by (simp add: pages_at_def)

lemma pages_at_single [simp]: "pages_at [(p, d, g)] f = (if g = f then [p] else [])"
  by (simp add: pages_at_def)

lemma flist_lists_of [simp]: "flist (lists_of xs) f = pages_at xs f"
  by (simp add: flist_def lists_of_def)

lemma distinct_pages_at: "distinct (map fst xs) \<Longrightarrow> distinct (pages_at xs f)"
  unfolding pages_at_def by (induction xs) (auto simp: rev_image_eqI)

lemma filter_fst_other:
  "p \<notin> fst ` set xs \<Longrightarrow> filter (\<lambda>x. fst x \<noteq> p) xs = xs"
  by (induction xs) auto

lemma pages_at_without:
  "pages_at (filter (\<lambda>x. fst x \<noteq> p) xs) f = filter (\<lambda>q. q \<noteq> p) (pages_at xs f)"
  by (induction xs) (auto simp: pages_at_def)

lemma pages_at_iff: "distinct (map fst xs) \<Longrightarrow>
  q \<in> set (pages_at xs f) \<longleftrightarrow> (\<exists>d. map_of xs q = Some (d, f))"
  by (force simp: pages_at_def)

lemma remove1_pages_at:
  assumes "distinct (map fst xs)"
  shows "remove1 p (pages_at xs f) = pages_at (filter (\<lambda>x. fst x \<noteq> p) xs) f"
  using distinct_pages_at [OF assms, of f] by (auto simp: pages_at_without distinct_remove1_removeAll removeAll_filter_not_eq intro: filter_cong)

lemma least_freq_le: "x \<in> set xs \<Longrightarrow> least_freq xs \<le> snd (snd x)"
  by (auto simp: least_freq_def)

lemma least_freq_in: "xs \<noteq> [] \<Longrightarrow> \<exists>x \<in> set xs. snd (snd x) = least_freq xs"
proof -
  assume "xs \<noteq> []"
  then have "least_freq xs \<in> set (map (\<lambda>x. snd (snd x)) xs)"
    unfolding least_freq_def by (intro Min_in) auto
  then show ?thesis by force
qed

lemma least_freq_eqI: "x \<in> set xs \<Longrightarrow> snd (snd x) = f \<Longrightarrow> (\<And>y. y \<in> set xs \<Longrightarrow> f \<le> snd (snd y)) \<Longrightarrow> least_freq xs = f"
  unfolding least_freq_def by (intro Min_eqI) auto

lemma pages_at_least: "xs \<noteq> [] \<Longrightarrow> pages_at xs (least_freq xs) \<noteq> []"
  using least_freq_in by (fastforce simp: pages_at_def filter_empty_conv)

lemma map_of_without: "map_of (filter (\<lambda>x. fst x \<noteq> p) xs) = (map_of xs)(p := None)"
  by (induction xs) (auto simp: fun_eq_iff)

lemma map_of_remove_mid:
  assumes "distinct (map fst (as @ x # bs))"
  shows "map_of (as @ bs) = (map_of (as @ x # bs))(fst x := None)"
proof -
  have "filter (\<lambda>y. fst y \<noteq> fst x) (as @ x # bs) = as @ bs"
    using assms filter_fst_other [of "fst x" as] filter_fst_other [of "fst x" bs] by simp
  then show ?thesis by (metis map_of_without)
qed

lemma length_without:
  "distinct (map fst xs) \<Longrightarrow> map_of xs p \<noteq> None \<Longrightarrow> Suc (length (filter (\<lambda>x. fst x \<noteq> p) xs)) = length xs"
proof (induction xs)
  case (Cons a xs)
  then show ?case
    using filter_fst_other [of "fst a" xs] by (cases "fst a = p") (auto simp: map_of_eq_None_iff)
qed simp

lemma use_page_facts:
  assumes "distinct (map fst xs)"
  shows "distinct (map fst (use_page p d f xs))" "map_of (use_page p d f xs) = (map_of xs)(p \<mapsto> (d, f))"
    "fst ` set (use_page p d f xs) = insert p (fst ` set xs)"
proof -
  show "distinct (map fst (use_page p d f xs))"
    using assms by (auto simp: use_page_def distinct_map inj_on_def)
  have "map_of (filter (\<lambda>x. fst x \<noteq> p) xs) p = None"
    by (simp add: map_of_without)
  then show "map_of (use_page p d f xs) = (map_of xs)(p \<mapsto> (d, f))"
    by (auto simp: use_page_def fun_eq_iff map_add_def map_of_without split: option.split)
  show "fst ` set (use_page p d f xs) = insert p (fst ` set xs)"
    by (auto simp: use_page_def)
qed

subsection \<open>A use\<close>

lemma lists_of_unlink:
  assumes "distinct (map fst xs)" "map_of xs p = Some (d, f)"
  shows "lists_of (filter (\<lambda>x. fst x \<noteq> p) xs) = (lists_of xs)(f := lists_of (filter (\<lambda>x. fst x \<noteq> p) xs) f)"
proof
  fix g
  have "pages_at (filter (\<lambda>x. fst x \<noteq> p) xs) g = pages_at xs g" if "g \<noteq> f"
    using assms pages_at_iff [OF assms(1), of p g] that by (simp add: pages_at_without)
      (metis (mono_tags, lifting) filter_True)
  then show "lists_of (filter (\<lambda>x. fst x \<noteq> p) xs) g =
    ((lists_of xs)(f := lists_of (filter (\<lambda>x. fst x \<noteq> p) xs) f)) g"
    by (simp add: lists_of_def)
qed

lemma lists_of_append:
  "lists_of (xs @ [(p, d, f)]) = (lists_of xs)(f \<mapsto> pages_at xs f @ [p])"
  by (auto simp: lists_of_def fun_eq_iff)

lemma least_freq_use:
  assumes "distinct (map fst xs)" "map_of xs p = Some (d, f)"
  shows "least_freq (use_page p d' (f + 1) xs) =
    (if pages_at (filter (\<lambda>x. fst x \<noteq> p) xs) f = [] \<and> least_freq xs = f then f + 1 else least_freq xs)"
proof -
  let ?ys = "use_page p d' (f + 1) xs"
  have px: "(p, d, f) \<in> set xs" using assms(2) by (rule map_of_SomeD)
  have other: "x \<in> set xs \<Longrightarrow> fst x \<noteq> p \<or> snd (snd x) = f" for x
    using map_of_is_SomeI [OF assms(1), of "fst x" "snd x"] assms(2) by fastforce
  obtain x where x: "x \<in> set xs" "snd (snd x) = least_freq xs"
    using least_freq_in [of xs] px by (metis empty_iff empty_set)
  show ?thesis
  proof (cases "pages_at (filter (\<lambda>x. fst x \<noteq> p) xs) f = [] \<and> least_freq xs = f")
    case True
    have "f + 1 \<le> snd (snd y)" if "y \<in> set ?ys" for y
    proof (cases "y = (p, d', f + 1)")
      case False
      then have y: "y \<in> set xs" "fst y \<noteq> p" using that by (auto simp: use_page_def)
      then have "snd (snd y) \<noteq> f" using True by (auto simp: pages_at_def filter_empty_conv)
      then show ?thesis using least_freq_le [OF y(1)] True by simp
    qed simp
    then show ?thesis using True by (auto intro!: least_freq_eqI [of "(p, d', f + 1)"] simp: use_page_def)
  next
    case False
    have le: "least_freq xs \<le> snd (snd y)" if "y \<in> set ?ys" for y
      using that least_freq_le [of y xs] least_freq_le [OF px] by (auto simp: use_page_def)
    obtain y where y: "y \<in> set xs" "fst y \<noteq> p" "snd (snd y) = least_freq xs"
    proof (cases "fst x = p")
      case True
      then have "least_freq xs = f" using other [OF x(1)] x(2) by simp
      then have "pages_at (filter (\<lambda>x. fst x \<noteq> p) xs) (least_freq xs) \<noteq> []" using False by simp
      then show ?thesis using that by (auto simp: pages_at_def filter_empty_conv)
    qed (use x that in blast)
    show ?thesis
      using False le y by (subst if_not_P) (auto intro!: least_freq_eqI [of y] simp: use_page_def)
  qed
qed

lemma lfu_update_rel:
  assumes rel: "lfu_rel s xs" and p: "map_of xs p = Some (d, f)" and room: "f + 1 < 2 ^ 32"
  shows "lfu_rel (lfu_update_frequency (s\<lparr>lmap := (lmap s)(p \<mapsto> (d', f))\<rparr>) p f) (use_page p d' (f + 1) xs)"
proof -
  define g where "g = f + 1"
  define ys where "ys = use_page p d' g xs"
  let ?xs = "filter (\<lambda>x. fst x \<noteq> p) xs"
  have dist: "distinct (map fst xs)" and eqs: "lmap s = map_of xs" "lfreq s = lists_of xs"
    "liter s = fst ` set xs" "lsize s = length xs" "length xs \<le> lcap s"
    using rel by (auto simp: lfu_rel_def)
  have pin: "p \<in> fst ` set xs" using map_of_SomeD [OF p] by force
  then have min_s: "lmin s = least_freq xs" using rel by (auto simp: lfu_rel_def)
  have lmin: "least_freq ys = (if pages_at ?xs f = [] \<and> lmin s = f then g else lmin s)"
    using least_freq_use [OF dist p, of d'] min_s by (simp add: ys_def g_def)
  have lists: "lists_of ys = ((lists_of xs)(f := lists_of ?xs f))(g \<mapsto> pages_at ?xs g @ [p])"
    unfolding ys_def use_page_def lists_of_append by (subst lists_of_unlink [OF dist p]) simp
  have fl: "flist ((lists_of xs)(f := lists_of ?xs f)) g = pages_at ?xs g"
    by (metis flist_lists_of lists_of_unlink [OF dist p])
  have inc: "inc32 f = g" using room by (simp add: inc32_def g_def)
  have len: "length ys = length xs"
    using length_without [OF dist, of p] p by (simp add: use_page_def ys_def)
  have unlink: "lfu_unlink (s\<lparr>lmap := (lmap s)(p \<mapsto> (d', f))\<rparr>) p f = s\<lparr>lmap := (lmap s)(p \<mapsto> (d', f)),
      lfreq := (lists_of xs)(f := lists_of ?xs f), lmin := least_freq ys\<rparr>"
    using pin inc lmin
    by (intro lfu.equality)
      (auto simp: lfu_unlink_def eqs remove1_pages_at [OF dist] Let_def lists_of_def)
  have upd: "lfu_update_frequency (s\<lparr>lmap := (lmap s)(p \<mapsto> (d', f))\<rparr>) p f =
    s\<lparr>lmap := (lmap s)(p \<mapsto> (d', g)), lfreq := lists_of ys, liter := insert p (liter s),
      lmin := least_freq ys\<rparr>"
    unfolding lfu_update_frequency_def unlink Let_def inc by (simp add: lists fl)
  have "lfu_rel (s\<lparr>lmap := (lmap s)(p \<mapsto> (d', g)), lfreq := lists_of ys,
      liter := insert p (liter s), lmin := least_freq ys\<rparr>) ys"
    using use_page_facts [OF dist, of p d' g] len pin
      rel by (auto simp: lfu_rel_def eqs ys_def insert_absorb use_page_def g_def)
  then show ?thesis
    unfolding upd ys_def g_def .
qed

subsection \<open>Eviction\<close>

lemma drop_first_split:
  "(\<exists>x \<in> set xs. P x) \<Longrightarrow>
   \<exists>as x bs. xs = as @ x # bs \<and> P x \<and> (\<forall>a \<in> set as. \<not> P a) \<and> drop_first P xs = as @ bs"
proof (induction xs)
  case (Cons y xs)
  show ?case
  proof (cases "P y")
    case True
    then show ?thesis by (intro exI [of _ "[]"]) auto
  next
    case False
    then obtain as x bs where "xs = as @ x # bs" "P x" "\<forall>a \<in> set as. \<not> P a" "drop_first P xs = as @ bs"
      using Cons by auto
    then show ?thesis
      using False by (intro exI [of _ "y # as"]) auto
  qed
qed simp

lemma spec_evict_split:
  assumes "xs \<noteq> []"
  shows "\<exists>as x bs. xs = as @ x # bs \<and> snd (snd x) = least_freq xs \<and>
    (\<forall>a \<in> set as. snd (snd a) \<noteq> least_freq xs) \<and> spec_evict xs = as @ bs"
  unfolding spec_evict_def by (rule drop_first_split) (rule least_freq_in [OF assms])

lemma spec_evict_sub: "set (spec_evict xs) \<subseteq> set xs"
proof (cases "xs = []")
  case False
  then obtain as x bs where "xs = as @ x # bs" "spec_evict xs = as @ bs"
    using spec_evict_split by blast
  then show ?thesis by auto
qed (simp add: spec_evict_def)

text \<open>
  An evicted cache: the relation without the least frequency, which the code restores when it adds
  the new page.
\<close>

definition lfu_rel_min :: "'d lfu \<Rightarrow> 'd uses \<Rightarrow> bool" where
  "lfu_rel_min s xs \<longleftrightarrow> distinct (map fst xs) \<and> lmap s = map_of xs \<and> lfreq s = lists_of xs \<and>
     liter s = fst ` set xs \<and> lsize s = length xs"

lemma lfu_evict_rel:
  assumes rel: "lfu_rel s xs" and ne: "xs \<noteq> []"
  shows "lfu_rel_min (lfu_evict s) (spec_evict xs) \<and> Suc (length (spec_evict xs)) = length xs \<and>
    lcap (lfu_evict s) = lcap s"
proof -
  define f where "f = least_freq xs"
  have dist: "distinct (map fst xs)" and eqs: "lmap s = map_of xs" "lfreq s = lists_of xs"
    "liter s = fst ` set xs" "lsize s = length xs" and lmin: "lmin s = f"
    using rel ne by (auto simp: lfu_rel_def f_def)
  obtain as x bs where xs: "xs = as @ x # bs" "snd (snd x) = f" "\<forall>a \<in> set as. snd (snd a) \<noteq> f"
    "spec_evict xs = as @ bs"
    using spec_evict_split [OF ne] unfolding f_def by blast
  obtain p d where x: "x = (p, d, f)" using xs(2) by (cases x) auto
  have pages: "pages_at xs f = p # pages_at (as @ bs) f"
    using xs(1,3) by (auto simp: pages_at_def x filter_empty_conv)
  have others: "pages_at xs g = pages_at (as @ bs) g" if "g \<noteq> f" for g
    using xs(1) that by (auto simp: pages_at_def x)
  have lists: "lists_of (as @ bs) = (if pages_at (as @ bs) f = [] then (lists_of xs)(f := None)
      else (lists_of xs)(f \<mapsto> pages_at (as @ bs) f))"
    using others by (auto simp: lists_of_def fun_eq_iff)
  have p: "p \<notin> fst ` set (as @ bs)"
    using dist by (auto simp: xs(1) x)
  have maps: "map_of (as @ bs) = (map_of xs)(p := None)"
    using map_of_remove_mid [OF dist [unfolded xs(1)]] unfolding xs(1) x by simp
  have ne_freq: "lists_of xs \<noteq> Map.empty"
  proof
    assume "lists_of xs = Map.empty"
    then show False using pages by (simp add: lists_of_def fun_eq_iff) (metis list.distinct(1) option.distinct(1))
  qed
  have set: "fst ` set (as @ bs) = fst ` set xs - {p}"
    using p by (auto simp: xs(1) x)
  have len: "length xs = Suc (length (as @ bs))" by (simp add: xs(1))
  have "lfu_evict s = s\<lparr>lfreq := lists_of (as @ bs), lmap := (lmap s)(p := None),
      liter := liter s - {p}, lsize := lsize s - 1\<rparr>"
    using ne_freq by (simp add: lfu_evict_def eqs lmin pages lists)
  moreover have "distinct (map fst (as @ bs))" using dist by (simp add: xs(1))
  ultimately show ?thesis
    unfolding xs(4) lfu_rel_min_def using len by (simp add: eqs maps set del: map_of_append set_append)
qed

lemma lfu_add_rel:
  assumes "lfu_rel_min s xs" "length xs < lcap s" "p \<notin> fst ` set xs" "\<forall>x \<in> set xs. 1 \<le> snd (snd x)"
  shows "lfu_rel (lfu_add s p d) (use_page p d 1 xs)"
proof -
  have "least_freq (xs @ [(p, d, 1)]) = 1"
    using assms(4) by (intro least_freq_eqI [of "(p, d, 1)"]) auto
  moreover have "(map_of xs)(p \<mapsto> (d, 1)) = map_of (xs @ [(p, d, 1)])"
    using use_page_facts(2) [of xs p d 1] assms(1,3)
    by (simp add: use_page_def filter_fst_other lfu_rel_min_def)
  moreover have "lists_of (xs @ [(p, d, 1)]) = (lists_of xs)(1 \<mapsto> pages_at xs 1 @ [p])"
    by (rule lists_of_append)
  ultimately show ?thesis
    using assms by (simp add: lfu_rel_def lfu_rel_min_def lfu_add_def use_page_def filter_fst_other)
qed

lemma lfu_empty_rel: "lfu_rel (lfu_empty n) []"
  by (simp add: lfu_rel_def lfu_empty_def fun_eq_iff lists_of_def pages_at_def)

lemma lfu_get_rel:
  assumes "lfu_rel s xs" "lfu_room s p"
  shows "fst (lfu_get s p) = fst (spec_get xs p) \<and> lfu_rel (snd (lfu_get s p)) (snd (spec_get xs p)) \<and>
    lcap (snd (lfu_get s p)) = lcap s"
proof (cases "map_of xs p")
  case None
  then show ?thesis using assms by (simp add: lfu_get_def spec_get_def lfu_rel_def)
next
  case (Some df)
  obtain d f where df: "df = (d, f)" by fastforce
  have lm: "lmap s p = Some (d, f)" using assms(1) Some by (simp add: lfu_rel_def df)
  then have "f + 1 < 2 ^ 32" using assms(2) by (auto simp: lfu_room_def)
  moreover have "s\<lparr>lmap := (lmap s)(p \<mapsto> (d, f))\<rparr> = s" using lm by (simp add: fun_upd_idem)
  moreover have "lcap (lfu_update_frequency s p f) = lcap s"
    by (simp add: lfu_update_frequency_def lfu_unlink_def Let_def)
  ultimately show ?thesis
    using lfu_update_rel [OF assms(1), of p d f d] Some lm by (simp add: lfu_get_def spec_get_def df)
qed

lemma lfu_put_rel:
  assumes rel: "lfu_rel s xs" and room: "lfu_room s p"
  shows "lfu_rel (lfu_put s p d) (spec_put (lcap s) xs p d) \<and> lcap (lfu_put s p d) = lcap s"
proof (cases "lcap s = 0")
  case True
  then show ?thesis using rel by (simp add: lfu_put_def spec_put_def)
next
  case cap: False
  have lm: "lmap s = map_of xs" using rel by (simp add: lfu_rel_def)
  show ?thesis
  proof (cases "map_of xs p")
    case None
    have p: "p \<notin> fst ` set xs" using None by (simp add: map_of_eq_None_iff)
    have size: "lsize s = length xs" "length xs \<le> lcap s" "\<forall>x \<in> set xs. 1 \<le> snd (snd x)"
      using rel by (auto simp: lfu_rel_def)
    show ?thesis
    proof (cases "length xs \<ge> lcap s")
      case True
      then have ne: "xs \<noteq> []" using cap by auto
      note ev = lfu_evict_rel [OF rel ne]
      have "lfu_rel (lfu_add (lfu_evict s) p d) (use_page p d 1 (spec_evict xs))"
        using ev size spec_evict_sub [of xs] p by (intro lfu_add_rel) auto
      then show ?thesis
        using True cap None ev size by (simp add: lfu_put_def spec_put_def lm lfu_add_def)
    next
      case False
      have "lfu_rel_min s xs" using rel by (simp add: lfu_rel_def lfu_rel_min_def)
      then have "lfu_rel (lfu_add s p d) (use_page p d 1 xs)"
        using False p size(3) by (intro lfu_add_rel) auto
      then show ?thesis
        using False cap None size by (simp add: lfu_put_def spec_put_def lm lfu_add_def)
    qed
  next
    case (Some df)
    obtain d0 f where df: "df = (d0, f)" by fastforce
    have "f + 1 < 2 ^ 32" using room Some by (auto simp: lfu_room_def lm df)
    then show ?thesis
      using lfu_update_rel [OF rel, of p d0 f d] Some cap
      by (simp add: lfu_put_def spec_put_def lm df lfu_update_frequency_def lfu_unlink_def Let_def)
  qed
qed

text \<open> C13. \<open>LFUCache\<close> implements its specification: every lookup and every insertion, whether the
  page is cached or not and whether the cache is full or not, has the result and the effect of the
  list of uses, so what is evicted is the page used least often and, among those, not used for the
  longest time.\<close>

theorem lfu_refines:
  assumes "lfu_rel s xs" "lfu_room s p"
  shows "fst (lfu_get s p) = fst (spec_get xs p) \<and> lfu_rel (snd (lfu_get s p)) (snd (spec_get xs p)) \<and>
    lfu_rel (lfu_put s p d) (spec_put (lcap s) xs p d) \<and>
    lfu_contains s p = (p \<in> fst ` set xs) \<and> lsize s = length xs \<and> lfu_rel (lfu_clear s) []"
proof -
  have "lfu_contains s p = (p \<in> fst ` set xs)" "lsize s = length xs"
    using assms(1) by (auto simp: lfu_rel_def lfu_contains_def map_of_eq_None_iff)
  moreover have "lfu_rel (lfu_clear s) []"
    by (simp add: lfu_rel_def lfu_clear_def fun_eq_iff lists_of_def pages_at_def)
  ultimately show ?thesis
    using lfu_get_rel [OF assms] lfu_put_rel [OF assms] by blast
qed

theorem lfu_refines_witness:
  "fst (lfu_get (lfu_put (lfu_empty 2) 7 ''a'') 7) = Some ''a'' \<and> lfu_contains (lfu_put (lfu_empty 2) 7 ''a'') 7"
proof -
  have "lfu_rel (lfu_put (lfu_empty 2) 7 ''a'') [(7, ''a'', 1)]"
    using lfu_put_rel [OF lfu_empty_rel, of 2 7 "''a''"]
    by (simp add: lfu_room_def lfu_empty_def spec_put_def use_page_def)
  moreover have "lfu_room (lfu_put (lfu_empty 2) 7 ''a'') 7"
    by (simp add: lfu_room_def lfu_put_def lfu_add_def lfu_empty_def)
  ultimately show ?thesis
    using lfu_refines [of "lfu_put (lfu_empty 2) 7 ''a''" "[(7, ''a'', 1)]" 7] by (simp add: spec_get_def)
qed

subsection \<open>The interface of a bounded cache\<close>

definition lfu_look :: "'d lfu \<Rightarrow> nat \<Rightarrow> 'd option" where
  "lfu_look s p = map_option fst (lmap s p)"

definition lfu_inv :: "'d lfu \<Rightarrow> bool" where
  "lfu_inv s \<longleftrightarrow> (\<exists>xs. lfu_rel s xs)"

lemma lfu_rel_look: "lfu_rel s xs \<Longrightarrow> lfu_look s p = map_option fst (map_of xs p)"
  by (simp add: lfu_look_def lfu_rel_def)

lemma spec_evict_look:
  assumes "distinct (map fst xs)"
  shows "map_of (spec_evict xs) q = None \<or> map_of (spec_evict xs) q = map_of xs q"
proof (cases "xs = []")
  case False
  obtain as x bs where "xs = as @ x # bs" "spec_evict xs = as @ bs"
    using spec_evict_split [OF False] by blast
  then show ?thesis
    using assms map_of_remove_mid [of as x bs] by (simp del: map_of_append)
qed (simp add: spec_evict_def)

lemma spec_evict_distinct:
  assumes "distinct (map fst xs)"
  shows "distinct (map fst (spec_evict xs))"
proof (cases "xs = []")
  case False
  obtain as x bs where "xs = as @ x # bs" "spec_evict xs = as @ bs"
    using spec_evict_split [OF False] by blast
  then show ?thesis using assms by auto
qed (simp add: spec_evict_def)

lemma spec_put_look:
  assumes "distinct (map fst xs)" "0 < n"
  shows "map_option fst (map_of (spec_put n xs p d) p) = Some d"
    "q \<noteq> p \<Longrightarrow> map_of (spec_put n xs p d) q = None \<or> map_of (spec_put n xs p d) q = map_of xs q"
  using assms use_page_facts(2) [OF assms(1)] use_page_facts(2) [OF spec_evict_distinct [OF assms(1)]]
    spec_evict_look [OF assms(1), of q]
  by (auto simp: spec_put_def split: option.splits)

lemma spec_put_zero: "spec_put 0 xs p d = xs"
  by (simp add: spec_put_def)

interpretation lfu: bounded_cache lfu_look lfu_get lfu_put lcap lfu_room lfu_inv
proof
  fix s :: "'d lfu" and p q d
  assume "lfu_inv s" "lfu_room s p"
  then obtain xs where xs: "lfu_rel s xs" "lfu_room s p" by (auto simp: lfu_inv_def)
  note rels = lfu_get_rel [OF xs] lfu_put_rel [OF xs, of d]
  have dist: "distinct (map fst xs)" using xs(1) by (simp add: lfu_rel_def)
  show "fst (lfu_get s p) = lfu_look s p"
    by (auto simp: lfu_get_def lfu_look_def split: option.splits)
  show "lfu_look (snd (lfu_get s p)) = lfu_look s"
  proof
    fix r
    show "lfu_look (snd (lfu_get s p)) r = lfu_look s r"
      using rels(1) use_page_facts(2) [OF dist]
      by (auto simp: lfu_rel_look [OF xs(1)] lfu_rel_look [of "snd (lfu_get s p)" "snd (spec_get xs p)"]
          spec_get_def split: option.splits)
  qed
  show "lfu_inv (snd (lfu_get s p))" "lcap (snd (lfu_get s p)) = lcap s"
    "lfu_inv (lfu_put s p d)" "lcap (lfu_put s p d) = lcap s"
    using rels by (auto simp: lfu_inv_def)
  have put: "lfu_look (lfu_put s p d) r = map_option fst (map_of (spec_put (lcap s) xs p d) r)" for r
    using rels(2) by (simp add: lfu_rel_look)
  show "0 < lcap s \<Longrightarrow> lfu_look (lfu_put s p d) p = Some d"
    unfolding put by (rule spec_put_look(1) [OF dist])
  show "lfu_look (lfu_put s p d) q = None \<or> lfu_look (lfu_put s p d) q = lfu_look s q" if "q \<noteq> p"
  proof (cases "lcap s = 0")
    case True
    then show ?thesis unfolding put lfu_rel_look [OF xs(1)] by (simp add: spec_put_zero)
  next
    case False
    then show ?thesis
      using spec_put_look(2) [OF dist _ that, of "lcap s" d] unfolding put lfu_rel_look [OF xs(1)] by auto
  qed
next
  fix s :: "'d lfu" and p d
  show "lcap s = 0 \<Longrightarrow> lfu_put s p d = s" by (simp add: lfu_put_def)
next
  fix s :: "'d lfu"
  assume "lfu_inv s"
  then obtain xs where xs: "lfu_rel s xs" by (auto simp: lfu_inv_def)
  have "dom (lfu_look s) = set (map fst xs)"
    using lfu_rel_look [OF xs] by (auto simp: dom_def map_of_eq_None_iff rev_image_eqI)
  then show "finite (dom (lfu_look s)) \<and> card (dom (lfu_look s)) \<le> lcap s"
    using xs card_length [of "map fst xs"] by (simp add: lfu_rel_def)
qed

end
