(* ===== verification/HybridCache.thy ===== *)
theory HybridCache
  imports Complex_Main LfuCache
begin

text \<open>
  The caches in front of \<open>LFUCache\<close>: \<open>HybridCacheManager\<close> of
  \<open>Gorgeous/include/hybridcache_cache.h\<close>, a static cache that is filled once, the dynamic cache of
  the second phase, and prefetch buffers; and \<open>FIFOCache\<close> with the per-hop statistics of
  \<open>Gorgeous/include/dynamic_cache_search.h\<close>. A fresh prefetch buffer holds junk until the read into
  it completes, the step \<open>hc_fill\<close>.
\<close>

record 'd hybrid =
  hstatic :: "nat \<rightharpoonup> 'd"
  hstatic_size :: nat
  hdynamic :: "'d lfu"
  hphase2 :: bool
  hprefetch :: "nat \<rightharpoonup> 'd"

definition hc_new :: "nat \<Rightarrow> 'd hybrid" where
  "hc_new dynamic_capacity =
     \<lparr>hstatic = Map.empty, hstatic_size = 0, hdynamic = lfu_empty dynamic_capacity,
      hphase2 = False, hprefetch = Map.empty\<rparr>"

fun hc_static_all :: "(nat \<times> 'd) list \<Rightarrow> 'd hybrid \<Rightarrow> 'd hybrid" where
  "hc_static_all [] s = s"
| "hc_static_all ((p, d) # pds) s =
     hc_static_all pds (s\<lparr>hstatic := (hstatic s)(p \<mapsto> d), hstatic_size := hstatic_size s + 1\<rparr>)"

definition hc_init_static :: "nat list \<Rightarrow> 'd list \<Rightarrow> 'd hybrid \<Rightarrow> 'd hybrid" where
  "hc_init_static nodes data s = hc_static_all (zip nodes data) s"

definition hc_get :: "'d hybrid \<Rightarrow> nat \<Rightarrow> 'd option \<times> 'd hybrid" where
  "hc_get s page =
     (case hstatic s page of
        Some d \<Rightarrow> (Some d, s)
      | None \<Rightarrow>
          if hphase2 s
          then let (r, dyn) = lfu_get (hdynamic s) page in (r, s\<lparr>hdynamic := dyn\<rparr>)
          else (None, s))"

definition hc_put_dynamic :: "'d hybrid \<Rightarrow> nat \<Rightarrow> 'd \<Rightarrow> 'd hybrid" where
  "hc_put_dynamic s page data =
     (if hphase2 s then s\<lparr>hdynamic := lfu_put (hdynamic s) page data\<rparr> else s)"

definition hc_put_dynamic_batch :: "'d hybrid \<Rightarrow> nat list \<Rightarrow> 'd list \<Rightarrow> 'd hybrid" where
  "hc_put_dynamic_batch s pages data =
     (if hphase2 s then s\<lparr>hdynamic := lfu_put_batch (hdynamic s) pages data\<rparr> else s)"

definition hc_set_phase_2 :: "'d hybrid \<Rightarrow> bool \<Rightarrow> 'd hybrid" where
  "hc_set_phase_2 s active = s\<lparr>hphase2 := active\<rparr>"

definition hc_contains :: "'d hybrid \<Rightarrow> nat \<Rightarrow> bool" where
  "hc_contains s page \<longleftrightarrow>
     hstatic s page \<noteq> None \<or> (hphase2 s \<and> lfu_contains (hdynamic s) page)"

definition hc_clear_dynamic :: "'d hybrid \<Rightarrow> 'd hybrid" where
  "hc_clear_dynamic s =
     s\<lparr>hdynamic := lfu_clear (hdynamic s), hphase2 := False, hprefetch := Map.empty\<rparr>"

text \<open>\<open>True\<close> when a buffer was handed out.\<close>

definition hc_allocate :: "'d \<Rightarrow> 'd hybrid \<Rightarrow> nat \<Rightarrow> bool \<times> 'd hybrid" where
  "hc_allocate junk s page =
     (if hc_contains s page \<or> hprefetch s page \<noteq> None then (False, s)
      else (True, s\<lparr>hprefetch := (hprefetch s)(page \<mapsto> junk)\<rparr>))"

definition hc_fill :: "'d hybrid \<Rightarrow> nat \<Rightarrow> 'd \<Rightarrow> 'd hybrid" where
  "hc_fill s page data =
     s\<lparr>hprefetch := (hprefetch s)(page := map_option (\<lambda>_. data) (hprefetch s page))\<rparr>"

definition hc_commit :: "'d hybrid \<Rightarrow> nat \<Rightarrow> 'd hybrid" where
  "hc_commit s page =
     (case hprefetch s page of
        None \<Rightarrow> s
      | Some d \<Rightarrow> s\<lparr>hdynamic := lfu_put (hdynamic s) page d, hprefetch := (hprefetch s)(page := None)\<rparr>)"

definition hc_prefetch_buffer :: "'d hybrid \<Rightarrow> nat \<Rightarrow> 'd option" where
  "hc_prefetch_buffer s page = hprefetch s page"

subsection \<open>FIFOCache\<close>

record 'd fifo =
  fcap :: nat
  fqueue :: "nat list"
  fmap :: "nat \<rightharpoonup> 'd"

definition fifo_empty :: "nat \<Rightarrow> 'd fifo" where
  "fifo_empty capacity = \<lparr>fcap = capacity, fqueue = [], fmap = Map.empty\<rparr>"

definition fifo_get :: "'d fifo \<Rightarrow> nat \<Rightarrow> 'd option \<times> 'd fifo" where
  "fifo_get s page = (fmap s page, s)"

definition fifo_evict :: "'d fifo \<Rightarrow> 'd fifo" where
  "fifo_evict s =
     (case fqueue s of
        [] \<Rightarrow> s
      | page # q \<Rightarrow> s\<lparr>fqueue := q, fmap := (fmap s)(page := None)\<rparr>)"

definition fifo_put :: "'d fifo \<Rightarrow> nat \<Rightarrow> 'd \<Rightarrow> 'd fifo" where
  "fifo_put s page data =
     (if fcap s = 0 then s
      else if fmap s page \<noteq> None then s\<lparr>fmap := (fmap s)(page \<mapsto> data)\<rparr>
      else let s = (if length (fqueue s) \<ge> fcap s then fifo_evict s else s)
        in s\<lparr>fmap := (fmap s)(page \<mapsto> data), fqueue := fqueue s @ [page]\<rparr>)"

definition fifo_contains :: "'d fifo \<Rightarrow> nat \<Rightarrow> bool" where
  "fifo_contains s page \<longleftrightarrow> fmap s page \<noteq> None"

definition fifo_clear :: "'d fifo \<Rightarrow> 'd fifo" where
  "fifo_clear s = s\<lparr>fqueue := [], fmap := Map.empty\<rparr>"

subsection \<open>Per-hop statistics\<close>

definition MAX_HOP_STATS :: nat where "MAX_HOP_STATS = 100"

record hop_stats =
  hop_hits :: "nat list"
  hop_misses :: "nat list"
  total_hops :: nat

definition hop_reset :: hop_stats where
  "hop_reset = \<lparr>hop_hits = replicate MAX_HOP_STATS 0, hop_misses = replicate MAX_HOP_STATS 0, total_hops = 0\<rparr>"

definition record_hop_cache :: "hop_stats \<Rightarrow> nat \<Rightarrow> bool \<Rightarrow> hop_stats" where
  "record_hop_cache st hop is_hit =
     (let st = (if hop < MAX_HOP_STATS
                then if is_hit then st\<lparr>hop_hits := (hop_hits st)[hop := hop_hits st ! hop + 1]\<rparr>
                     else st\<lparr>hop_misses := (hop_misses st)[hop := hop_misses st ! hop + 1]\<rparr>
                else st)
      in st\<lparr>total_hops := max (total_hops st) (hop + 1)\<rparr>)"

definition hop_hit_rate :: "hop_stats \<Rightarrow> nat \<Rightarrow> rat" where
  "hop_hit_rate st hop =
     (if hop \<ge> MAX_HOP_STATS then 0
      else let total = hop_hits st ! hop + hop_misses st ! hop
        in if total = 0 then 0 else 100 * of_nat (hop_hits st ! hop) / of_nat total)"

subsection \<open>The FIFO cache as a bounded cache\<close>

definition fifo_inv :: "'d fifo \<Rightarrow> bool" where
  "fifo_inv s \<longleftrightarrow> distinct (fqueue s) \<and> set (fqueue s) = dom (fmap s) \<and> length (fqueue s) \<le> fcap s"

lemma fifo_put_cases:
  assumes "fifo_inv s" "0 < fcap s"
  shows "fifo_inv (fifo_put s p d) \<and> fcap (fifo_put s p d) = fcap s \<and>
    (if p \<in> set (fqueue s) then fqueue (fifo_put s p d) = fqueue s \<and> fmap (fifo_put s p d) = (fmap s)(p \<mapsto> d)
     else if length (fqueue s) < fcap s
     then fqueue (fifo_put s p d) = fqueue s @ [p] \<and> fmap (fifo_put s p d) = (fmap s)(p \<mapsto> d)
     else fqueue (fifo_put s p d) = tl (fqueue s) @ [p] \<and>
       fmap (fifo_put s p d) = (fmap s)(hd (fqueue s) := None, p \<mapsto> d))"
proof (cases "fqueue s")
  case Nil
  then show ?thesis
    using assms by (auto simp: fifo_inv_def fifo_put_def Let_def)
next
  case (Cons x q)
  have dom: "p \<in> set (fqueue s) \<longleftrightarrow> fmap s p \<noteq> None"
    using assms(1) by (auto simp: fifo_inv_def)
  show ?thesis
  proof (cases "fmap s p = None")
    case False
    then show ?thesis
      using assms dom by (auto simp: fifo_inv_def fifo_put_def)
  next
    case True
    then show ?thesis
      using assms dom Cons by (auto simp: fifo_inv_def fifo_put_def fifo_evict_def Let_def)
  qed
qed

interpretation fifo: bounded_cache fmap fifo_get fifo_put fcap "\<lambda>_ _. True" fifo_inv
proof
  fix s :: "'d fifo" and p q d
  assume inv: "fifo_inv s"
  show "fst (fifo_get s p) = fmap s p" "fmap (snd (fifo_get s p)) = fmap s"
    "fifo_inv (snd (fifo_get s p))" "fcap (snd (fifo_get s p)) = fcap s"
    using inv by (simp_all add: fifo_get_def)
  show "fifo_inv (fifo_put s p d)" "fcap (fifo_put s p d) = fcap s"
    using fifo_put_cases [OF inv, of p d] inv by (cases "fcap s = 0"; simp add: fifo_put_def)+
  show "0 < fcap s \<Longrightarrow> fmap (fifo_put s p d) p = Some d"
    using fifo_put_cases [OF inv, of p d] by (auto split: if_splits)
  show "fmap (fifo_put s p d) q = None \<or> fmap (fifo_put s p d) q = fmap s q" if "q \<noteq> p"
    using fifo_put_cases [OF inv, of p d] that
    by (cases "fcap s = 0") (auto simp: fifo_put_def split: if_splits)
  show "finite (dom (fmap s)) \<and> card (dom (fmap s)) \<le> fcap s"
    using inv distinct_card [of "fqueue s"] finite_set [of "fqueue s"] by (simp add: fifo_inv_def)
qed (simp add: fifo_put_def)

text \<open> The FIFO cache keeps its pages in the order of their insertion: a put of a cached page
  only replaces its data, any other page goes to the back, and only a full cache gives up a page,
  the one at the front; the cached pages are exactly those in the queue, never more than the
  capacity, and a put page is found.\<close>

theorem fifo_evicts_oldest:
  assumes "fifo_inv s" "0 < fcap s"
  shows "fifo_inv (fifo_put s p d) \<and> fst (fifo_get (fifo_put s p d) p) = Some d \<and>
    fqueue (fifo_put s p d) =
      (if fifo_contains s p then fqueue s
       else (if length (fqueue s) < fcap s then fqueue s else tl (fqueue s)) @ [p]) \<and>
    card (dom (fmap (fifo_put s p d))) \<le> fcap s \<and>
    (\<forall>q \<in> set (fqueue (fifo_put s p d)) - {p}. fmap (fifo_put s p d) q = fmap s q)"
proof -
  have dom: "fifo_contains s p \<longleftrightarrow> p \<in> set (fqueue s)"
    using assms(1) by (auto simp: fifo_inv_def fifo_contains_def)
  have look: "fst (fifo_get (fifo_put s p d) p) = Some d"
    using fifo.look_put [OF assms(1) _ assms(2)] by (simp add: fifo_get_def)
  have card: "card (dom (fmap (fifo_put s p d))) \<le> fcap s"
    using fifo.bounded [OF fifo.inv_put [OF assms(1)]] fifo.cap_put [OF assms(1)] by metis
  have others: "fmap (fifo_put s p d) q = fmap s q" if "q \<in> set (fqueue (fifo_put s p d)) - {p}" for q
  proof -
    have "fmap (fifo_put s p d) q \<noteq> None"
      using fifo.inv_put [OF assms(1), of p d] that by (auto simp: fifo_inv_def)
    then show ?thesis using fifo.look_put_other [OF assms(1), of q p d] that by auto
  qed
  show ?thesis
    using fifo_put_cases [OF assms, of p d] look card others unfolding dom by (simp split: if_splits)
qed

theorem fifo_evicts_oldest_witness:
  "fqueue (fifo_put (fifo_put (fifo_put (fifo_empty 2) 5 ''a'') 6 ''b'') 7 ''c'') = [6, 7]"
proof -
  let ?s = "fifo_put (fifo_put (fifo_empty 2) 5 ''a'') 6 ''b''"
  have s: "?s = \<lparr>fcap = 2, fqueue = [5, 6], fmap = [5 \<mapsto> ''a'', 6 \<mapsto> ''b'']\<rparr>"
    by (simp add: fifo_put_def fifo_empty_def)
  then have "fifo_inv ?s" by (auto simp: fifo_inv_def)
  then show ?thesis
    using fifo_evicts_oldest [of ?s 7 "''c''"] by (simp add: s fifo_contains_def)
qed

subsection \<open>The hybrid cache\<close>

text \<open>The operations of the manager in any order, as long as no use counter overflows.\<close>

inductive hc_step :: "'d hybrid \<Rightarrow> 'd hybrid \<Rightarrow> bool" where
  get: "lfu_room (hdynamic s) p \<Longrightarrow> hc_step s (snd (hc_get s p))"
| put: "lfu_room (hdynamic s) p \<Longrightarrow> hc_step s (hc_put_dynamic s p d)"
| put_batch: "batch_room lfu_room lfu_put (hdynamic s) (zip ps ds) \<Longrightarrow> hc_step s (hc_put_dynamic_batch s ps ds)"
| phase: "hc_step s (hc_set_phase_2 s b)"
| clear: "hc_step s (hc_clear_dynamic s)"
| alloc: "hc_step s (snd (hc_allocate junk s p))"
| fill: "hc_step s (hc_fill s p d)"
| commit: "lfu_room (hdynamic s) p \<Longrightarrow> hc_step s (hc_commit s p)"

inductive hc_reach :: "nat \<Rightarrow> nat list \<Rightarrow> 'd list \<Rightarrow> 'd hybrid \<Rightarrow> bool" for n ps ds where
  start: "hc_reach n ps ds (hc_init_static ps ds (hc_new n))"
| step: "hc_reach n ps ds s \<Longrightarrow> hc_step s s' \<Longrightarrow> hc_reach n ps ds s'"

definition hc_inv :: "nat \<Rightarrow> 'd hybrid \<Rightarrow> bool" where
  "hc_inv n s \<longleftrightarrow> lfu_inv (hdynamic s) \<and> lcap (hdynamic s) = n \<and> dom (hprefetch s) \<inter> dom (hstatic s) = {}"

lemma hc_static_all:
  "hstatic (hc_static_all pds s) = batch_value (hstatic s) pds \<and> hdynamic (hc_static_all pds s) = hdynamic s \<and>
   hprefetch (hc_static_all pds s) = hprefetch s \<and> hphase2 (hc_static_all pds s) = hphase2 s"
proof (induction pds s rule: hc_static_all.induct)
  case (1 s)
  then show ?case by (simp add: batch_value_def fun_eq_iff)
next
  case (2 p d pds s)
  have "batch_value ((hstatic s)(p \<mapsto> d)) pds = batch_value (hstatic s) ((p, d) # pds)"
    by (rule ext) (rule batch_value_Cons [symmetric])
  then show ?case using 2 by (simp add: fun_upd_def cong: if_cong)
qed

lemma lfu_inv_empty: "lfu_inv (lfu_empty n)"
  using lfu_empty_rel by (auto simp: lfu_inv_def)

lemma hc_new_inv: "hc_inv n (hc_new n)"
  using lfu_inv_empty by (simp add: hc_inv_def hc_new_def) (simp add: lfu_empty_def)

lemma lfu_inv_clear: "lfu_inv (lfu_clear s)"
  by (auto simp: lfu_inv_def lfu_rel_def lfu_clear_def fun_eq_iff lists_of_def pages_at_def intro!: exI [of _ "[]"])

lemma hc_step_keeps:
  assumes "hc_step s s'" "hc_inv n s"
  shows "hc_inv n s' \<and> hstatic s' = hstatic s"
  using assms
proof (induction rule: hc_step.induct)
  case (get s p)
  then show ?case
    using lfu.inv_get [of "hdynamic s" p] lfu.cap_get [of "hdynamic s" p]
    by (auto simp: hc_inv_def hc_get_def split: option.splits prod.splits)
next
  case (put s p d)
  then show ?case
    using lfu.inv_put [of "hdynamic s" p d] lfu.cap_put [of "hdynamic s" p d]
    by (auto simp: hc_inv_def hc_put_dynamic_def)
next
  case (put_batch s ps ds)
  then show ?case
    using lfu.put_all_inv [of "hdynamic s" "zip ps ds"]
    by (auto simp: hc_inv_def hc_put_dynamic_batch_def lfu_put_batch_def)
next
  case (phase s b)
  then show ?case by (simp add: hc_inv_def hc_set_phase_2_def)
next
  case (clear s)
  then show ?case by (simp add: hc_inv_def hc_clear_dynamic_def lfu_inv_clear) (simp add: lfu_clear_def)
next
  case (alloc junk s p)
  then show ?case by (auto simp: hc_inv_def hc_allocate_def hc_contains_def)
next
  case (fill s p d)
  then show ?case by (auto simp: hc_inv_def hc_fill_def dom_def split: if_splits)
next
  case (commit s p)
  then show ?case
    using lfu.inv_put [of "hdynamic s" p] lfu.cap_put [of "hdynamic s" p]
    by (auto simp: hc_inv_def hc_commit_def split: option.splits)
qed

lemma hc_reach_inv:
  "hc_reach n ps ds s \<Longrightarrow> hc_inv n s \<and> hstatic s = batch_value Map.empty (zip ps ds)"
proof (induction rule: hc_reach.induct)
  case start
  then show ?case
    using hc_static_all [of "zip ps ds" "hc_new n"]
    by (simp add: hc_inv_def hc_init_static_def hc_new_def lfu_inv_empty) (simp add: lfu_empty_def)
next
  case (step s s')
  then show ?case using hc_step_keeps [OF step(2)] by metis
qed

text \<open> Whatever is put, prefetched, committed or cleared: a page of the static cache is always
  found with the data it was filled with last, no prefetch buffer is handed out for it, and the
  dynamic cache, consulted only in the second phase, never holds more pages than its capacity.\<close>

theorem hybrid_static_stays:
  assumes "hc_reach n ps ds s"
  shows "(map_of (rev (zip ps ds)) p = Some d \<longrightarrow>
      fst (hc_get s p) = Some d \<and> \<not> fst (hc_allocate junk s p) \<and> hc_prefetch_buffer s p = None) \<and>
    card (dom (lfu_look (hdynamic s))) \<le> n \<and>
    (map_of (rev (zip ps ds)) p = None \<longrightarrow> \<not> hphase2 s \<longrightarrow> fst (hc_get s p) = None)"
proof -
  have inv: "hc_inv n s" "hstatic s = batch_value Map.empty (zip ps ds)"
    using hc_reach_inv [OF assms] by blast+
  have static: "hstatic s p = map_of (rev (zip ps ds)) p"
    by (auto simp: inv(2) batch_value_def split: option.split)
  have "card (dom (lfu_look (hdynamic s))) \<le> n"
    using inv(1) lfu.bounded by (auto simp: hc_inv_def)
  moreover have "hprefetch s p = None" if "hstatic s p = Some d"
    using inv(1) that by (auto simp: hc_inv_def)
  ultimately show ?thesis
    by (auto simp: static hc_get_def hc_allocate_def hc_contains_def hc_prefetch_buffer_def)
qed

theorem hybrid_static_stays_witness:
  "fst (hc_get (hc_clear_dynamic (hc_init_static [3, 4] [''x'', ''y''] (hc_new 1))) 4) = Some ''y''"
proof -
  have "hc_reach 1 [3, 4] [''x'', ''y''] (hc_clear_dynamic (hc_init_static [3, 4] [''x'', ''y''] (hc_new 1)))"
    by (rule hc_reach.step [OF hc_reach.start hc_step.clear])
  from hybrid_static_stays [OF this, of 4 "''y''" undefined] show ?thesis by simp
qed

text \<open> A prefetch works end to end: when a buffer is handed out for a page, and data is read
  into it and committed, a lookup in the second phase finds that data; committing twice changes
  nothing, and without the commit the cache is as before.\<close>

theorem hybrid_prefetch_commits:
  assumes "hc_inv n s" "0 < n" "hc_allocate junk s p = (True, s1)" "lfu_room (hdynamic s) p"
  shows "fst (hc_get (hc_set_phase_2 (hc_commit (hc_fill s1 p d) p) True) p) = Some d \<and>
    hc_commit (hc_commit (hc_fill s1 p d) p) p = hc_commit (hc_fill s1 p d) p \<and>
    hdynamic (hc_fill s1 p d) = hdynamic s \<and> hc_prefetch_buffer (hc_fill s1 p d) p = Some d"
proof -
  have s1: "s1 = s\<lparr>hprefetch := (hprefetch s)(p \<mapsto> junk)\<rparr>" "hstatic s p = None"
    using assms(3) by (auto simp: hc_allocate_def hc_contains_def split: if_splits)
  have dyn: "lfu_inv (hdynamic s)" "0 < lcap (hdynamic s)"
    using assms(1,2) by (auto simp: hc_inv_def)
  have "lfu_look (lfu_put (hdynamic s) p d) p = Some d"
    by (rule lfu.look_put [OF dyn(1) assms(4) dyn(2)])
  then have "fst (lfu_get (lfu_put (hdynamic s) p d) p) = Some d"
    by (auto simp: lfu_look_def lfu_get_def)
  then show ?thesis
    by (simp add: s1 hc_fill_def hc_commit_def hc_get_def hc_set_phase_2_def hc_prefetch_buffer_def
        split: prod.split) (metis fst_conv)
qed

theorem hybrid_prefetch_commits_witness:
  "fst (hc_get (hc_set_phase_2 (hc_commit (hc_fill (snd (hc_allocate ''?'' (hc_new 3) 9)) 9 ''z'') 9) True) 9)
    = Some ''z''"
proof -
  have alloc: "hc_allocate ''?'' (hc_new 3) 9 = (True, snd (hc_allocate ''?'' (hc_new 3) 9))"
    by (simp add: hc_allocate_def hc_contains_def hc_new_def)
  have room: "lfu_room (hdynamic (hc_new 3)) 9"
    by (simp add: lfu_room_def hc_new_def lfu_empty_def)
  show ?thesis
    by (rule conjunct1 [OF hybrid_prefetch_commits [OF hc_new_inv _ alloc room]]) simp
qed

subsection \<open>The counts of the hops\<close>

lemma record_hops:
  assumes "length (hop_hits st) = MAX_HOP_STATS" "length (hop_misses st) = MAX_HOP_STATS" "h < MAX_HOP_STATS"
  shows "hop_hits (fold (\<lambda>(k, hit) s. record_hop_cache s k hit) rs st) ! h = hop_hits st ! h + count_list rs (h, True) \<and>
    hop_misses (fold (\<lambda>(k, hit) s. record_hop_cache s k hit) rs st) ! h = hop_misses st ! h + count_list rs (h, False) \<and>
    total_hops (fold (\<lambda>(k, hit) s. record_hop_cache s k hit) rs st) = fold max (map (\<lambda>r. fst r + 1) rs) (total_hops st)"
  using assms(1,2)
proof (induction rs arbitrary: st)
  case (Cons r rs)
  obtain k hit where r: "r = (k, hit)" by fastforce
  have "length (hop_hits (record_hop_cache st k hit)) = MAX_HOP_STATS"
    "length (hop_misses (record_hop_cache st k hit)) = MAX_HOP_STATS"
    using Cons.prems by (auto simp: record_hop_cache_def Let_def)
  from Cons.IH [OF this] show ?case
    using Cons.prems assms(3)
    by (cases "h = k"; cases hit) (auto simp: r record_hop_cache_def Let_def max.commute)
qed simp

text \<open> After any sequence of recorded hops, the counters of every hop below 100 are the numbers
  of its hits and misses, and \<open>total_hops\<close> is the largest hop number plus one, whether or not it is
  below 100.\<close>

theorem hop_stats_count:
  "h < MAX_HOP_STATS \<Longrightarrow>
   hop_hits (fold (\<lambda>(k, hit) s. record_hop_cache s k hit) rs hop_reset) ! h = count_list rs (h, True) \<and>
   hop_misses (fold (\<lambda>(k, hit) s. record_hop_cache s k hit) rs hop_reset) ! h = count_list rs (h, False) \<and>
   total_hops (fold (\<lambda>(k, hit) s. record_hop_cache s k hit) rs hop_reset) = fold max (map (\<lambda>r. fst r + 1) rs) 0"
  using record_hops [of hop_reset h rs] by (simp add: hop_reset_def)

theorem hop_stats_count_witness:
  "hop_hits (fold (\<lambda>(k, hit) s. record_hop_cache s k hit) [(3, True), (3, False), (200, True)] hop_reset) ! 3 = 1"
  using hop_stats_count [of 3 "[(3, True), (3, False), (200, True)]"] by (simp add: MAX_HOP_STATS_def)

end
