(* ===== verification/CachedStream.thy ===== *)
theory CachedStream
  imports Bytes
begin

text \<open>
  The cached sequential streams of \<open>AiSAQ/include/cached_io.h\<close> over a file of bytes. The underlying
  stream is the file and its position; \<open>None\<close> is an exception. A position beyond the end of the
  file, which the arithmetic of \<open>read\<close> does not allow for, is left out: seeking there is \<open>None\<close>.
\<close>

subsection \<open>cached_ifstream\<close>

record cin =
  ifile :: bytes
  ipos :: nat
  ibuf :: bytes
  isize :: nat
  ioff :: nat

definition cin_open :: "bytes \<Rightarrow> nat \<Rightarrow> cin" where
  "cin_open file cache_size =
     (let n = min cache_size (length file)
      in \<lparr>ifile = file, ipos = n, ibuf = take n file, isize = n, ioff = 0\<rparr>)"

definition cin_file_size :: "cin \<Rightarrow> nat" where
  "cin_file_size s = length (ifile s)"

definition cin_read :: "cin \<Rightarrow> nat \<Rightarrow> (bytes \<times> cin) option" where
  "cin_read s n =
     (if n \<le> isize s - ioff s
      then Some (take n (drop (ioff s) (ibuf s)), s\<lparr>ioff := ioff s + n\<rparr>)
      else let cached = isize s - ioff s
        in if n - cached > length (ifile s) - ipos s then None
           else let data = take cached (drop (ioff s) (ibuf s)) @ take (n - cached) (drop (ipos s) (ifile s));
                    p = ipos s + (n - cached)
             in if length (ifile s) - p \<ge> isize s
                then Some (data, s\<lparr>ipos := p + isize s, ibuf := take (isize s) (drop p (ifile s)), ioff := 0\<rparr>)
                else Some (data, s\<lparr>ipos := p, ioff := isize s\<rparr>))"

definition cin_seek :: "cin \<Rightarrow> nat \<Rightarrow> cin option" where
  "cin_seek s p = (if p \<le> length (ifile s) then Some (s\<lparr>ipos := p, ioff := isize s\<rparr>) else None)"

text \<open>The new buffer is uninitialised: \<open>junk\<close>.\<close>

definition cin_set_cache_size :: "u8 \<Rightarrow> cin \<Rightarrow> nat \<Rightarrow> cin" where
  "cin_set_cache_size junk s cache_size =
     (let n = min cache_size (length (ifile s))
      in s\<lparr>ibuf := replicate n junk, isize := n, ioff := n\<rparr>)"

text \<open>The position of the stream as its user sees it, and the invariant of the cache.\<close>

definition cin_tell :: "cin \<Rightarrow> nat" where
  "cin_tell s = ipos s - (isize s - ioff s)"

definition cin_inv :: "cin \<Rightarrow> bool" where
  "cin_inv s \<longleftrightarrow> ioff s \<le> isize s \<and> length (ibuf s) = isize s \<and> ipos s \<le> length (ifile s) \<and>
     isize s - ioff s \<le> ipos s \<and>
     drop (ioff s) (ibuf s) = take (isize s - ioff s) (drop (cin_tell s) (ifile s))"

lemma take_add_drop: "take a xs @ take b (drop a xs) = take (a + b) xs"
  by (rule take_add [symmetric])

lemma cin_read_hit:
  assumes "cin_inv s" "n \<le> isize s - ioff s"
  shows "cin_tell s + n \<le> length (ifile s) \<and>
    (\<exists>s'. cin_read s n = Some (take n (drop (cin_tell s) (ifile s)), s') \<and> cin_inv s' \<and>
      cin_tell s' = cin_tell s + n \<and> ifile s' = ifile s)"
proof -
  let ?s = "s\<lparr>ioff := ioff s + n\<rparr>"
  have inv: "ioff s \<le> isize s" "length (ibuf s) = isize s" "ipos s \<le> length (ifile s)"
    "isize s - ioff s \<le> ipos s" "drop (ioff s) (ibuf s) = take (isize s - ioff s) (drop (cin_tell s) (ifile s))"
    using assms(1) by (auto simp: cin_inv_def)
  have tell: "cin_tell ?s = cin_tell s + n"
    using inv assms(2) by (simp add: cin_tell_def)
  have "drop (ioff s + n) (ibuf s) = drop n (drop (ioff s) (ibuf s))"
    by (simp add: add.commute)
  also have "\<dots> = take (isize s - (ioff s + n)) (drop (cin_tell s + n) (ifile s))"
    unfolding inv(5) by (simp add: drop_take add.commute)
  finally have buf: "drop (ioff s + n) (ibuf s) = take (isize s - (ioff s + n)) (drop (cin_tell s + n) (ifile s))" .
  have "ioff s + n \<le> isize s" "isize s - (ioff s + n) \<le> ipos s"
    using inv(1,4) assms(2) by linarith+
  then have "cin_inv ?s"
    using inv(2,3) buf by (simp add: cin_inv_def tell)
  moreover have "take n (drop (ioff s) (ibuf s)) = take n (drop (cin_tell s) (ifile s))"
    unfolding inv(5) using assms(2) by simp
  moreover have "cin_tell s + n \<le> length (ifile s)"
    using inv assms(2) by (simp add: cin_tell_def)
  ultimately show ?thesis
    using tell assms(2) by (simp add: cin_read_def)
qed

lemma cin_read_miss:
  assumes "cin_inv s" "\<not> n \<le> isize s - ioff s"
  shows "if cin_tell s + n \<le> length (ifile s)
    then \<exists>s'. cin_read s n = Some (take n (drop (cin_tell s) (ifile s)), s') \<and> cin_inv s' \<and>
      cin_tell s' = cin_tell s + n \<and> ifile s' = ifile s
    else cin_read s n = None"
proof -
  let ?c = "isize s - ioff s"
  let ?p = "ipos s + (n - ?c)"
  have inv: "ioff s \<le> isize s" "length (ibuf s) = isize s" "ipos s \<le> length (ifile s)"
    "?c \<le> ipos s" "drop (ioff s) (ibuf s) = take ?c (drop (cin_tell s) (ifile s))"
    using assms(1) by (auto simp: cin_inv_def)
  have tell: "ipos s = cin_tell s + ?c" "?p = cin_tell s + n"
    using inv assms(2) by (simp_all add: cin_tell_def)
  have fits: "n - ?c > length (ifile s) - ipos s \<longleftrightarrow> \<not> cin_tell s + n \<le> length (ifile s)"
    using tell inv(3) assms(2) by linarith
  have data: "take ?c (drop (ioff s) (ibuf s)) @ take (n - ?c) (drop (ipos s) (ifile s)) =
    take n (drop (cin_tell s) (ifile s))"
    unfolding inv(5) tell(1)
    using assms(2) take_add_drop [of ?c "drop (cin_tell s) (ifile s)" "n - ?c"]
    by (simp add: add.commute)
  show ?thesis
  proof (cases "cin_tell s + n \<le> length (ifile s)")
    case False
    then show ?thesis using assms(2) fits by (simp add: cin_read_def Let_def)
  next
    case True
    have "cin_inv (s\<lparr>ipos := ?p + isize s, ibuf := take (isize s) (drop ?p (ifile s)), ioff := 0\<rparr>)"
      if "length (ifile s) - ?p \<ge> isize s"
    proof -
      have "?p + isize s \<le> length (ifile s)"
        using that True tell(2) by linarith
      then show ?thesis by (simp add: cin_inv_def cin_tell_def)
    qed
    moreover have "cin_inv (s\<lparr>ipos := ?p, ioff := isize s\<rparr>)"
      using True tell(2) inv(2) by (simp add: cin_inv_def)
    moreover have "cin_tell (s\<lparr>ipos := ?p + isize s, ibuf := take (isize s) (drop ?p (ifile s)), ioff := 0\<rparr>) = ?p"
      "cin_tell (s\<lparr>ipos := ?p, ioff := isize s\<rparr>) = ?p"
      by (simp_all add: cin_tell_def)
    moreover have "\<not> length (ifile s) - ipos s < n - ?c"
      using fits True by blast
    ultimately show ?thesis
      unfolding cin_read_def Let_def data using assms(2) True tell(2)
      by (cases "length (ifile s) - ?p \<ge> isize s") auto
  qed
qed

lemma cin_open_inv: "cin_inv (cin_open file cs) \<and> cin_tell (cin_open file cs) = 0 \<and> ifile (cin_open file cs) = file"
  by (simp add: cin_inv_def cin_tell_def cin_open_def Let_def)

text \<open>\<open>open\<close> asserts a cache of positive size; it is as long as the file at most.\<close>

definition cin_cached :: "cin \<Rightarrow> bool" where
  "cin_cached s \<longleftrightarrow> (ifile s \<noteq> [] \<longrightarrow> 0 < isize s)"

lemma cin_size_kept:
  "cin_read s n = Some (data, s') \<Longrightarrow> isize s' = isize s" "cin_seek s p = Some s' \<Longrightarrow> isize s' = isize s"
  by (auto simp: cin_read_def cin_seek_def Let_def split: if_splits)



text \<open> \<open>set_cache_size\<close> drops the bytes that are cached and not yet read without moving the
  underlying stream back, so the position jumps forward by their number; only right after a seek,
  or when the cache is used up, nothing is lost.\<close>

theorem cached_resize_skips:
  assumes "cin_inv s"
  shows "cin_tell (cin_set_cache_size junk s cs) = cin_tell s + (isize s - ioff s) \<and>
    cin_inv (cin_set_cache_size junk s cs)"
proof -
  have "isize s - ioff s \<le> ipos s" "ipos s \<le> length (ifile s)"
    using assms by (auto simp: cin_inv_def)
  then show ?thesis
    by (simp add: cin_inv_def cin_set_cache_size_def Let_def cin_tell_def)
qed

theorem cached_resize_skips_witness:
  "cin_tell (cin_set_cache_size 0 (cin_open [1, 2, 3, 4, 5] 4) 2) = 4"
  using cached_resize_skips [of "cin_open [1, 2, 3, 4, 5] 4" 0 2] cin_open_inv [of "[1, 2, 3, 4, 5]" 4]
  by (simp add: cin_open_def)

subsection \<open>cached_ofstream\<close>

record cout =
  ofile :: bytes
  opos :: nat
  obuf :: bytes
  osize :: nat
  ooff :: nat
  ofsize :: nat

text \<open>Writing at a position of a file: overwriting, and extending it at its end.\<close>

definition put_at :: "bytes \<Rightarrow> nat \<Rightarrow> bytes \<Rightarrow> bytes" where
  "put_at f p data = take p f @ data @ drop (p + length data) f"

definition cout_open :: "u8 \<Rightarrow> nat \<Rightarrow> cout" where
  "cout_open junk cache_size =
     \<lparr>ofile = [], opos = 0, obuf = replicate cache_size junk, osize = cache_size, ooff = 0, ofsize = 0\<rparr>"

definition cout_flush :: "cout \<Rightarrow> cout" where
  "cout_flush s =
     s\<lparr>ofile := put_at (ofile s) (opos s) (take (ooff s) (obuf s)), opos := opos s + ooff s,
       ofsize := ofsize s + ooff s, obuf := replicate (osize s) 0, ooff := 0\<rparr>"

definition cout_write :: "cout \<Rightarrow> bytes \<Rightarrow> cout" where
  "cout_write s data =
     (if length data \<le> osize s - ooff s
      then s\<lparr>obuf := put_at (obuf s) (ooff s) data, ooff := ooff s + length data\<rparr>
      else s\<lparr>ofile := put_at (put_at (ofile s) (opos s) (take (ooff s) (obuf s))) (opos s + ooff s) data,
             opos := opos s + ooff s + length data, ofsize := ofsize s + ooff s + length data,
             obuf := replicate (osize s) 0, ooff := 0\<rparr>)"

definition cout_close :: "cout \<Rightarrow> cout" where
  "cout_close s = (if ooff s > 0 then cout_flush s else s)"

definition cout_reset :: "cout \<Rightarrow> cout" where
  "cout_reset s = (cout_flush s)\<lparr>opos := 0\<rparr>"

definition cout_inv :: "cout \<Rightarrow> bool" where
  "cout_inv s \<longleftrightarrow> ooff s \<le> osize s \<and> length (obuf s) = osize s \<and> opos s \<le> length (ofile s)"

text \<open>The file as it would be after a flush, and the position there.\<close>

definition cout_file :: "cout \<Rightarrow> bytes" where
  "cout_file s = put_at (ofile s) (opos s) (take (ooff s) (obuf s))"

lemma length_put_at: "p \<le> length f \<Longrightarrow> length (put_at f p d) = max (length f) (p + length d)"
  by (auto simp: put_at_def)

lemma put_at_put_at:
  "p \<le> length f \<Longrightarrow> put_at (put_at f p a) (p + length a) b = put_at f p (a @ b)"
  by (simp add: put_at_def ac_simps)

lemma put_at_end: "put_at f (length f) d = f @ d"
  by (simp add: put_at_def)

lemma take_put_at: "off + length d \<le> length b \<Longrightarrow> take (off + length d) (put_at b off d) = take off b @ d"
  by (simp add: put_at_def)

lemma cout_write_file:
  assumes "cout_inv s"
  shows "cout_inv (cout_write s d) \<and> cout_file (cout_write s d) = put_at (cout_file s) (opos s + ooff s) d \<and>
    opos (cout_write s d) + ooff (cout_write s d) = opos s + ooff s + length d \<and>
    ofsize (cout_write s d) + ooff (cout_write s d) = ofsize s + ooff s + length d"
proof -
  have pos: "opos s \<le> length (ofile s)" "ooff s \<le> length (obuf s)" "osize s = length (obuf s)"
    using assms by (auto simp: cout_inv_def)
  have eq: "put_at (cout_file s) (opos s + ooff s) d = put_at (ofile s) (opos s) (take (ooff s) (obuf s) @ d)"
    using put_at_put_at [OF pos(1), of "take (ooff s) (obuf s)" d] pos(2)
    by (simp add: cout_file_def min_absorb2)
  show ?thesis
  proof (cases "length d \<le> osize s - ooff s")
    case True
    then have "ooff s + length d \<le> length (obuf s)" using pos by simp
    then show ?thesis
      unfolding eq using True pos take_put_at [of "ooff s" d "obuf s"]
      by (simp add: cout_write_def cout_inv_def cout_file_def length_put_at)
  next
    case False
    then show ?thesis
      unfolding eq [symmetric] using pos
      by (simp add: cout_write_def cout_inv_def cout_file_def length_put_at)
        (simp add: put_at_def)
  qed
qed

lemma cout_writes_file:
  assumes "cout_inv s" "length (cout_file s) = opos s + ooff s"
  shows "cout_inv (fold (\<lambda>d s. cout_write s d) ds s) \<and>
    cout_file (fold (\<lambda>d s. cout_write s d) ds s) = cout_file s @ concat ds \<and>
    ofsize (fold (\<lambda>d s. cout_write s d) ds s) + ooff (fold (\<lambda>d s. cout_write s d) ds s) =
      ofsize s + ooff s + length (concat ds)"
  using assms
proof (induction ds arbitrary: s)
  case (Cons d ds)
  note w = cout_write_file [OF Cons.prems(1), of d]
  have "cout_file (cout_write s d) = cout_file s @ d"
    using w Cons.prems(2) put_at_end [of "cout_file s" d] by simp
  then show ?case
    using Cons.IH [of "cout_write s d"] w Cons.prems(2) by simp
qed simp

text \<open> Whatever the size of the cache and however the data is cut into writes, the closed file
  is the data in the order of the writes, and the reported size is its length.\<close>

theorem cached_write_concat:
  "ofile (cout_close (fold (\<lambda>d s. cout_write s d) ds (cout_open junk cs))) = concat ds \<and>
   ofsize (cout_close (fold (\<lambda>d s. cout_write s d) ds (cout_open junk cs))) = length (concat ds)"
proof -
  let ?s = "fold (\<lambda>d s. cout_write s d) ds (cout_open junk cs)"
  have "cout_inv (cout_open junk cs)" "cout_file (cout_open junk cs) = []"
    "opos (cout_open junk cs) + ooff (cout_open junk cs) = 0" "ofsize (cout_open junk cs) + ooff (cout_open junk cs) = 0"
    by (simp_all add: cout_inv_def cout_open_def cout_file_def put_at_def)
  then have s: "cout_inv ?s" "cout_file ?s = concat ds" "ofsize ?s + ooff ?s = length (concat ds)"
    using cout_writes_file [of "cout_open junk cs" ds] by auto
  show ?thesis
  proof (cases "ooff ?s = 0")
    case True
    then have "ofile ?s = cout_file ?s" by (simp add: cout_file_def put_at_def)
    then show ?thesis using s True by (simp add: cout_close_def)
  next
    case False
    then show ?thesis using s by (simp add: cout_close_def cout_flush_def cout_file_def)
  qed
qed

end
