(* ===== verification/Labels.thy ===== *)
theory Labels
  imports Bytes
begin

text \<open>
  Labels and selectors of filtered search: \<open>PipeANN/include/filter/label.h\<close> and \<open>selector.h\<close>.
  Label buffers and label files are byte lists. A float is its bit pattern; only whether it is zero
  matters, and both zeros are. \<open>None\<close> is \<open>crash()\<close>, an access outside a buffer or a vector, or a
  file that is too short, after which the code goes on with what it has.
\<close>

subsection \<open>SpmatLabel\<close>

record spmat_label =
  slabels :: "nat list list"
  smax_count :: nat
  slabel_size :: nat

definition float_zero :: "nat \<Rightarrow> bool" where
  "float_zero bits \<longleftrightarrow> bits = 0 \<or> bits = 2 ^ 31"

text \<open>The loop over \<open>j\<close> for the \<open>n\<close> entries from \<open>j\<close> on.\<close>

fun row_labels :: "nat list \<Rightarrow> nat list \<Rightarrow> nat \<Rightarrow> nat \<Rightarrow> nat list option" where
  "row_labels indices vals j 0 = Some []"
| "row_labels indices vals j (Suc n) = do {
     v \<leftarrow> vec_at vals j;
     c \<leftarrow> vec_at indices j;
     r \<leftarrow> row_labels indices vals (Suc j) n;
     Some (if float_zero v then r else c # r)
   }"

fun all_labels :: "nat list \<Rightarrow> nat list \<Rightarrow> nat list \<Rightarrow> nat \<Rightarrow> nat \<Rightarrow> nat list list option" where
  "all_labels indptr indices vals i 0 = Some []"
| "all_labels indptr indices vals i (Suc n) = do {
     start \<leftarrow> vec_at indptr i;
     stop \<leftarrow> vec_at indptr (i + 1);
     r \<leftarrow> row_labels indices vals start (stop - start);
     rs \<leftarrow> all_labels indptr indices vals (Suc i) n;
     Some (r # rs)
   }"

fun max_length :: "nat \<Rightarrow> nat list list \<Rightarrow> nat" where
  "max_length m [] = m"
| "max_length m (r # rs) = max_length (if length r > m then length r else m) rs"

definition spmat_load :: "bytes \<Rightarrow> spmat_label option" where
  "spmat_load f = do {
     (nrow, f) \<leftarrow> rd_le 8 f;
     (ncol, f) \<leftarrow> rd_le 8 f;
     (nnz, f) \<leftarrow> rd_le 8 f;
     (indptr, f) \<leftarrow> rd_les 8 (nrow + 1) f;
     (indices, f) \<leftarrow> rd_les 4 nnz f;
     (vals, f) \<leftarrow> rd_les 4 nnz f;
     ls \<leftarrow> all_labels indptr indices vals 0 nrow;
     Some \<lparr>slabels = ls, smax_count = max_length 0 ls, slabel_size = 4 + max_length 0 ls * 4\<rparr>
   }"

definition label_bytes :: "nat list \<Rightarrow> bytes" where
  "label_bytes ls = le_put 4 (length ls) @ (if length ls > 0 then les_put 4 ls else [])"

text \<open>Writing to a buffer: the labels go to its front.\<close>

definition spmat_write :: "spmat_label \<Rightarrow> nat \<Rightarrow> bytes \<Rightarrow> bytes option" where
  "spmat_write L i buffer =
     (if i \<ge> length (slabels L) then None
      else let b = label_bytes (slabels L ! i)
        in if length b \<le> length buffer then Some (b @ drop (length b) buffer) else None)"

definition get_label :: "string \<Rightarrow> bytes \<Rightarrow> spmat_label option option" where
  "get_label label_type f = (if label_type = ''spmat'' then Some (spmat_load f) else None)"

subsection \<open>Selectors\<close>

definition dummy_is_member :: "nat \<Rightarrow> bytes \<Rightarrow> bytes option \<Rightarrow> bool option" where
  "dummy_is_member target_id query target = Some True"

definition range_is_member :: "nat \<Rightarrow> bytes \<Rightarrow> bytes option \<Rightarrow> bool option" where
  "range_is_member target_id query target =
     (case target of
        None \<Rightarrow> Some False
      | Some t \<Rightarrow> do {
          (low, q) \<leftarrow> rd_le 4 query;
          (high, q) \<leftarrow> rd_le 4 q;
          (v, t) \<leftarrow> rd_le 4 t;
          Some (v \<ge> low \<and> v \<le> high)
        })"

fun label_found :: "nat \<Rightarrow> nat list \<Rightarrow> bool" where
  "label_found q [] = False"
| "label_found q (t # ts) = (if q = t then True else label_found q ts)"

fun some_found :: "nat list \<Rightarrow> nat list \<Rightarrow> bool" where
  "some_found [] ts = False"
| "some_found (q # qs) ts = (if label_found q ts then True else some_found qs ts)"

fun all_found :: "nat list \<Rightarrow> nat list \<Rightarrow> bool" where
  "all_found [] ts = True"
| "all_found (q # qs) ts = (if \<not> label_found q ts then False else all_found qs ts)"

definition intersect_is_member :: "nat \<Rightarrow> bytes \<Rightarrow> bytes \<Rightarrow> bool option" where
  "intersect_is_member target_id query target = do {
     (qn, q) \<leftarrow> rd_le 4 query;
     (tn, t) \<leftarrow> rd_le 4 target;
     if qn = 0 \<or> tn = 0 then Some False
     else do {
       (qs, q) \<leftarrow> rd_les 4 qn q;
       (ts, t) \<leftarrow> rd_les 4 tn t;
       Some (some_found qs ts)
     }
   }"

definition subset_is_member :: "nat \<Rightarrow> bytes \<Rightarrow> bytes \<Rightarrow> bool option" where
  "subset_is_member target_id query target = do {
     (qn, q) \<leftarrow> rd_le 4 query;
     (tn, t) \<leftarrow> rd_le 4 target;
     if qn = 0 then Some True
     else if tn = 0 then Some False
     else do {
       (qs, q) \<leftarrow> rd_les 4 qn q;
       (ts, t) \<leftarrow> rd_les 4 tn t;
       Some (all_found qs ts)
     }
   }"

datatype selector = RangeSelector | LabelIntersectionSelector | LabelSubsetSelector

definition get_selector :: "string \<Rightarrow> selector option" where
  "get_selector t =
     (if t = ''range'' then Some RangeSelector
      else if t = ''intersect'' then Some LabelIntersectionSelector
      else if t = ''subset'' then Some LabelSubsetSelector
      else None)"

subsection \<open>What the selectors decide\<close>

definition label_ok :: "nat list \<Rightarrow> bool" where
  "label_ok ls \<longleftrightarrow> length ls < 2 ^ 32 \<and> (\<forall>l \<in> set ls. l < 2 ^ 32)"

lemma label_found_iff: "label_found q ts \<longleftrightarrow> q \<in> set ts"
  by (induction q ts rule: label_found.induct) auto

lemma some_found_iff: "some_found qs ts \<longleftrightarrow> set qs \<inter> set ts \<noteq> {}"
  by (induction qs ts rule: some_found.induct) (auto simp: label_found_iff)

lemma all_found_iff: "all_found qs ts \<longleftrightarrow> set qs \<subseteq> set ts"
  by (induction qs ts rule: all_found.induct) (auto simp: label_found_iff)

lemma rd_label_bytes:
  assumes "label_ok ls"
  shows "rd_le 4 (label_bytes ls @ rest) = Some (length ls, les_put 4 ls @ rest)"
    "rd_les 4 (length ls) (les_put 4 ls @ rest) = Some (ls, rest)"
  using assms by (simp_all add: label_bytes_def label_ok_def)

lemma length_label_bytes [simp]: "length (label_bytes ls) = 4 + 4 * length ls"
  by (simp add: label_bytes_def)

text \<open> On label buffers, whatever follows the labels in them, the intersection selector decides
  whether query and target share a label, and the subset selector whether every label of the query
  is one of the target, repeated and unsorted labels included; the range selector decides whether
  the value lies between the bounds.\<close>

theorem selectors_decide:
  assumes "label_ok qs" "label_ok ts" "low < 2 ^ 32" "high < 2 ^ 32" "v < 2 ^ 32"
  shows "intersect_is_member i (label_bytes qs @ r) (label_bytes ts @ r') = Some (set qs \<inter> set ts \<noteq> {}) \<and>
    subset_is_member i (label_bytes qs @ r) (label_bytes ts @ r') = Some (set qs \<subseteq> set ts) \<and>
    range_is_member i (le_put 4 low @ le_put 4 high @ r) (Some (le_put 4 v @ r')) = Some (low \<le> v \<and> v \<le> high)"
proof -
  have inter: "intersect_is_member i (label_bytes qs @ r) (label_bytes ts @ r') = Some (set qs \<inter> set ts \<noteq> {})"
    using rd_label_bytes [OF assms(1)] rd_label_bytes [OF assms(2)]
    by (simp add: intersect_is_member_def some_found_iff)
  have sub: "subset_is_member i (label_bytes qs @ r) (label_bytes ts @ r') = Some (set qs \<subseteq> set ts)"
    using rd_label_bytes [OF assms(1)] rd_label_bytes [OF assms(2)]
    by (simp add: subset_is_member_def all_found_iff)
  show ?thesis
    using inter sub assms(3-5) by (simp add: range_is_member_def)
qed

theorem selectors_decide_witness:
  "subset_is_member 0 (label_bytes [7, 7, 2] @ [1]) (label_bytes [2, 9, 7] @ []) = Some True"
  using selectors_decide [of "[7, 7, 2]" "[2, 9, 7]" 0 0 0 0 "[1]" "[]"] by (simp add: label_ok_def)

subsection \<open>Reading a sparse matrix\<close>

text \<open>The file of a matrix given by its rows of columns and values.\<close>

fun row_starts :: "nat \<Rightarrow> 'a list list \<Rightarrow> nat list" where
  "row_starts n [] = [n]"
| "row_starts n (r # rs) = n # row_starts (n + length r) rs"

definition spmat_file :: "(nat \<times> nat) list list \<Rightarrow> nat \<Rightarrow> bytes" where
  "spmat_file rows ncol =
     le_put 8 (length rows) @ le_put 8 ncol @ le_put 8 (length (concat rows)) @
     les_put 8 (row_starts 0 rows) @ les_put 4 (map fst (concat rows)) @ les_put 4 (map snd (concat rows))"

definition nonzero_cols :: "(nat \<times> nat) list \<Rightarrow> nat list" where
  "nonzero_cols r = map fst (filter (\<lambda>(c, v). \<not> float_zero v) r)"

definition spmat_ok :: "(nat \<times> nat) list list \<Rightarrow> nat \<Rightarrow> bool" where
  "spmat_ok rows ncol \<longleftrightarrow> length rows < 256 ^ 8 \<and> ncol < 256 ^ 8 \<and> length (concat rows) < 256 ^ 4 \<and>
     (\<forall>(c, v) \<in> set (concat rows). c < 256 ^ 4 \<and> v < 256 ^ 4)"

lemma length_row_starts [simp]: "length (row_starts n rs) = Suc (length rs)"
  by (induction n rs rule: row_starts.induct) auto

lemma row_starts_nth: "i \<le> length rs \<Longrightarrow> row_starts n rs ! i = n + length (concat (take i rs))"
  by (induction n rs arbitrary: i rule: row_starts.induct) (auto simp: nth_Cons split: nat.split)

lemma row_labels_slice:
  "row_labels (as @ map fst r @ bs) (as' @ map snd r @ bs') (length as) (length r) = Some (nonzero_cols r)"
  if "length as = length as'" for as as' :: "nat list"
  using that
proof (induction r arbitrary: as as')
  case (Cons a r)
  have "row_labels ((as @ [fst a]) @ map fst r @ bs) ((as' @ [snd a]) @ map snd r @ bs')
      (length (as @ [fst a])) (length r) = Some (nonzero_cols r)"
    by (rule Cons.IH) (simp add: Cons.prems)
  then show ?case
    using Cons.prems by (auto simp: vec_at_def nth_append nonzero_cols_def split: prod.splits)
qed (simp add: nonzero_cols_def)

lemma all_labels_rows:
  assumes "n + i = length rows"
  shows "all_labels (row_starts 0 rows) (map fst (concat rows)) (map snd (concat rows)) i n =
    Some (map nonzero_cols (drop i rows))"
  using assms
proof (induction n arbitrary: i)
  case (Suc n)
  let ?a = "concat (take i rows)" and ?r = "rows ! i" and ?b = "concat (drop (Suc i) rows)"
  have i: "i < length rows" using Suc.prems by simp
  have split: "concat rows = ?a @ ?r @ ?b"
    by (subst id_take_nth_drop [OF i]) simp
  have "row_labels (map fst (concat rows)) (map snd (concat rows)) (length ?a) (length ?r) = Some (nonzero_cols ?r)"
    unfolding split map_append using row_labels_slice [of "map fst ?a" "map snd ?a" ?r] by simp
  moreover have "row_starts 0 rows ! i = length ?a" "row_starts 0 rows ! Suc i = length ?a + length ?r"
    using i by (simp_all add: row_starts_nth take_Suc_conv_app_nth)
  moreover have "drop i rows = ?r # drop (Suc i) rows"
    using i by (simp add: Cons_nth_drop_Suc)
  ultimately show ?case
    using Suc.IH [of "Suc i"] Suc.prems i by (simp add: vec_at_def)
qed simp

lemma max_length_ge:
  "m \<le> max_length m rs \<and> (\<forall>r \<in> set rs. length r \<le> max_length m rs)"
proof (induction m rs rule: max_length.induct)
  case (2 m r rs)
  then show ?case by (auto split: if_splits)
qed simp

lemma row_starts_less:
  assumes "length (concat rows) < k" "x \<in> set (row_starts 0 rows)"
  shows "x < k"
proof -
  obtain i where i: "i \<le> length rows" "x = length (concat (take i rows))"
    using assms(2) by (metis in_set_conv_nth length_row_starts less_Suc_eq_le row_starts_nth add_0)
  have "concat rows = concat (take i rows) @ concat (drop i rows)"
    by (metis append_take_drop_id concat_append)
  then show ?thesis using assms(1) i(2) by (metis length_append trans_less_add1 add_lessD1)
qed

text \<open> Loading a sparse matrix gives every vector the columns of its non-zero entries as labels
  (a negative zero is zero), and a buffer of \<open>label_size\<close> bytes takes the labels of every vector,
  from which the selectors read them.\<close>

theorem spmat_labels_roundtrip:
  assumes "spmat_ok rows ncol" "i < length rows"
  shows "\<exists>L. spmat_load (spmat_file rows ncol @ rest) = Some L \<and> slabels L = map nonzero_cols rows \<and>
    (\<forall>buffer. length buffer = slabel_size L \<longrightarrow>
      (\<exists>r. spmat_write L i buffer = Some (label_bytes (nonzero_cols (rows ! i)) @ r) \<and>
        length (label_bytes (nonzero_cols (rows ! i)) @ r) = slabel_size L))"
proof -
  define L where "L = \<lparr>slabels = map nonzero_cols rows, smax_count = max_length 0 (map nonzero_cols rows),
    slabel_size = 4 + max_length 0 (map nonzero_cols rows) * 4\<rparr>"
  have starts: "rd_les 8 (Suc (length rows)) (les_put 8 (row_starts 0 rows) @ s) = Some (row_starts 0 rows, s)" for s
    using rd_les_put [of "row_starts 0 rows" 8 s] row_starts_less [of rows "256 ^ 8"] assms(1)
    by (auto simp: spmat_ok_def simp del: rd_les.simps length_concat)
  have cols: "rd_les 4 (length (concat rows)) (les_put 4 (map fst (concat rows)) @ s) = Some (map fst (concat rows), s)"
    "rd_les 4 (length (concat rows)) (les_put 4 (map snd (concat rows)) @ s) = Some (map snd (concat rows), s)" for s
  proof -
    have "\<forall>x \<in> set (map fst (concat rows)). x < 256 ^ 4" "\<forall>x \<in> set (map snd (concat rows)). x < 256 ^ 4"
      using assms(1) by (fastforce simp: spmat_ok_def simp del: set_concat)+
    then show "rd_les 4 (length (concat rows)) (les_put 4 (map fst (concat rows)) @ s) = Some (map fst (concat rows), s)"
      "rd_les 4 (length (concat rows)) (les_put 4 (map snd (concat rows)) @ s) = Some (map snd (concat rows), s)"
      using rd_les_put [of "map fst (concat rows)" 4 s] rd_les_put [of "map snd (concat rows)" 4 s]
      by (simp_all del: set_map set_concat)
  qed
  have load: "spmat_load (spmat_file rows ncol @ rest) = Some L"
    using assms(1) all_labels_rows [of "length rows" 0 rows] starts cols
    by (simp add: spmat_load_def spmat_file_def spmat_ok_def L_def del: length_concat rd_les.simps)
  have "length (nonzero_cols (rows ! i)) \<le> max_length 0 (map nonzero_cols rows)"
    using max_length_ge [of 0 "map nonzero_cols rows"] assms(2) by auto
  then show ?thesis
    using load assms(2) by (auto simp: L_def spmat_write_def Let_def)
qed

theorem spmat_labels_roundtrip_witness:
  "\<exists>L. spmat_load (spmat_file [[(3, 1065353216), (5, 2147483648)], []] 8 @ []) = Some L \<and>
    slabels L = [[3], []]"
  using spmat_labels_roundtrip [of "[[(3, 1065353216), (5, 2147483648)], []]" 8 0 "[]"]
  by (simp add: spmat_ok_def nonzero_cols_def float_zero_def) blast

end
