(* ===== verification/BinFile.thy ===== *)
theory BinFile
  imports Complex_Main Bytes
begin

text \<open>
  The binary files of \<open>PipeANN/include/utils.h\<close>: \<open>save_bin\<close>, \<open>load_bin\<close>, \<open>get_bin_metadata\<close> and
  \<open>load_truthset\<close>, and \<open>calculate_recall\<close>. A file is its list of bytes; an element of a type of
  \<open>k\<close> bytes is the number with those bytes. \<open>None\<close> is a read past the end (the code goes on with
  what the memory holds), \<open>crash()\<close>, or an access through a null pointer.
\<close>

text \<open>Writing at an offset of an existing file; a gap is filled with zeros.\<close>

definition write_at :: "bytes \<Rightarrow> nat \<Rightarrow> bytes \<Rightarrow> bytes" where
  "write_at f off d =
     take off f @ replicate (off - length f) 0 @ d @ drop (off + length d) f"

definition save_bin :: "nat \<Rightarrow> bytes \<Rightarrow> nat list \<Rightarrow> nat \<Rightarrow> nat \<Rightarrow> nat \<Rightarrow> nat \<times> bytes" where
  "save_bin k f elems npts ndims offset =
     (npts * ndims * k + 2 * 4,
      write_at f offset (le_put 4 npts @ le_put 4 ndims @ les_put k (take (npts * ndims) elems)))"

text \<open>\<open>size_t\<close> from a signed 32-bit integer.\<close>

definition sign_extend :: "nat \<Rightarrow> nat" where
  "sign_extend n = (if n < 2 ^ 31 then n else n + (2 ^ 64 - 2 ^ 32))"

definition get_bin_metadata :: "bytes \<Rightarrow> nat \<Rightarrow> (nat \<times> nat) option" where
  "get_bin_metadata f offset = do {
     (nrows, s) \<leftarrow> rd_le 4 (drop offset f);
     (ncols, s) \<leftarrow> rd_le 4 s;
     Some (sign_extend nrows, sign_extend ncols)
   }"

definition load_bin_impl :: "nat \<Rightarrow> bytes \<Rightarrow> nat \<Rightarrow> (nat list \<times> nat \<times> nat) option" where
  "load_bin_impl k f offset = do {
     (npts, s) \<leftarrow> rd_le 4 (drop offset f);
     (ndims, s) \<leftarrow> rd_le 4 s;
     (elems, s) \<leftarrow> rd_les k (npts * ndims) s;
     Some (elems, npts, ndims)
   }"

definition load_bin :: "nat \<Rightarrow> bytes \<Rightarrow> nat \<Rightarrow> (nat list \<times> nat \<times> nat) option" where
  "load_bin k f offset = load_bin_impl k f offset"

subsection \<open>Ground truth\<close>

text \<open>1: ids and distances, 2: ids only, 3: ids, distances and tags; the last match counts.\<close>

definition truthset_type :: "nat \<Rightarrow> nat \<Rightarrow> nat option" where
  "truthset_type fsize n =
     (if fsize = 3 * n * 4 + 2 * 4 then Some 3
      else if fsize = n * 4 + 2 * 4 then Some 2
      else if fsize = 2 * n * 4 + 2 * 4 then Some 1
      else None)"

text \<open>\<open>want_tags\<close>: the caller passed a place for the tags.\<close>

definition load_truthset ::
  "bool \<Rightarrow> bytes \<Rightarrow> (nat list \<times> nat list option \<times> nat list option \<times> nat \<times> nat) option" where
  "load_truthset want_tags f = do {
     (npts, s) \<leftarrow> rd_le 4 f;
     (ndims, s) \<leftarrow> rd_le 4 s;
     t \<leftarrow> truthset_type (length f) (npts * ndims);
     (ids, s) \<leftarrow> rd_les 4 (npts * ndims) s;
     (dists, s) \<leftarrow> (if t = 1 \<or> t = 3 then do { (d, s) \<leftarrow> rd_les 4 (npts * ndims) s; Some (Some d, s) }
                   else Some (None, s));
     tags \<leftarrow> (if t = 3 then if want_tags then do { (g, s) \<leftarrow> rd_les 4 (npts * ndims) s; Some (Some g) } else None
             else Some None);
     Some (ids, dists, tags, npts, ndims)
   }"

subsection \<open>Recall\<close>

text \<open>The loop that extends the ground truth over ties; \<open>fuel\<close> is what is left of the row.\<close>

fun tie_break :: "'d list \<Rightarrow> 'd \<Rightarrow> nat \<Rightarrow> nat \<Rightarrow> nat" where
  "tie_break ds d t 0 = t"
| "tie_break ds d t (Suc fuel) = (if ds ! t = d then tie_break ds d (Suc t) fuel else t)"

definition ties :: "'d list option \<Rightarrow> nat \<Rightarrow> nat \<Rightarrow> nat" where
  "ties gs_dist dim_gs recall_at =
     (case gs_dist of
        None \<Rightarrow> recall_at
      | Some ds \<Rightarrow> tie_break ds (ds ! (recall_at - 1)) (recall_at - 1) (dim_gs - (recall_at - 1)))"

definition row_of :: "'a list \<Rightarrow> nat \<Rightarrow> nat \<Rightarrow> 'a list" where
  "row_of xs w i = take w (drop (w * i) xs)"

fun query_recall :: "nat list \<Rightarrow> nat list \<Rightarrow> nat list \<Rightarrow> nat" where
  "query_recall gt [] seen = 0"
| "query_recall gt (v # vs) seen =
     (if v \<in> set seen then query_recall gt vs seen
      else (if v \<in> set gt then 1 else 0) + query_recall gt vs (v # seen))"

definition calculate_recall ::
  "nat \<Rightarrow> nat list \<Rightarrow> 'd list option \<Rightarrow> nat \<Rightarrow> nat list \<Rightarrow> nat \<Rightarrow> nat \<Rightarrow> rat" where
  "calculate_recall num_queries gold_std gs_dist dim_gs our_results dim_or recall_at =
     of_nat (\<Sum>i \<leftarrow> [0..<num_queries].
       query_recall (take (ties (map_option (\<lambda>ds. row_of ds dim_gs i) gs_dist) dim_gs recall_at) (row_of gold_std dim_gs i))
         (take recall_at (row_of our_results dim_or i)) []) / of_nat num_queries * (100 / of_nat recall_at)"

subsection \<open>Round trips\<close>

lemma drop_write_at: "drop off (write_at f off d) = d @ drop (off + length d) f"
  by (simp add: write_at_def)

lemma length_write_at [simp]: "length (write_at f off d) = max (length f) (off + length d)"
  by (auto simp: write_at_def)

definition bin_ok :: "nat \<Rightarrow> nat list \<Rightarrow> nat \<Rightarrow> nat \<Rightarrow> bool" where
  "bin_ok k elems npts ndims \<longleftrightarrow> length elems = npts * ndims \<and> npts < 2 ^ 32 \<and> ndims < 2 ^ 32 \<and>
     (\<forall>x \<in> set elems. x < 256 ^ k)"

lemma load_save_bin:
  assumes "bin_ok k elems npts ndims" "drop offset f = le_put 4 npts @ le_put 4 ndims @ les_put k elems @ rest"
  shows "load_bin_impl k f offset = Some (elems, npts, ndims)"
proof -
  have "rd_les k (npts * ndims) (les_put k elems @ rest) = Some (elems, rest)"
    using assms(1) rd_les_put [of elems k rest] by (simp add: bin_ok_def)
  then show ?thesis
    using assms by (simp add: load_bin_impl_def bin_ok_def)
qed

lemma save_bin_eq:
  assumes "bin_ok k elems npts ndims"
  shows "save_bin k f elems npts ndims offset = (length (le_put 4 npts @ le_put 4 ndims @ les_put k elems),
    write_at f offset (le_put 4 npts @ le_put 4 ndims @ les_put k elems))"
  using assms by (simp add: save_bin_def bin_ok_def)

text \<open> What \<open>save_bin\<close> writes at an offset of a file, \<open>load_bin\<close> reads back from there with its
  counts; the returned size is that of the written part, everything else of the file stays (up to a
  gap of zeros), and \<open>get_bin_metadata\<close> agrees on the counts below \<open>2 ^ 31\<close> only.\<close>

theorem bin_file_roundtrip:
  assumes "bin_ok k elems npts ndims" "save_bin k f elems npts ndims offset = (n, f')"
  shows "load_bin k f' offset = Some (elems, npts, ndims) \<and> n = 8 + k * length elems \<and>
    (\<forall>i < length f. (i < offset \<or> offset + n \<le> i) \<longrightarrow> f' ! i = f ! i) \<and>
    (get_bin_metadata f' offset = Some (npts, ndims) \<longleftrightarrow> npts < 2 ^ 31 \<and> ndims < 2 ^ 31)"
proof -
  have n: "n = 8 + k * length elems"
    and f': "f' = write_at f offset (le_put 4 npts @ le_put 4 ndims @ les_put k elems)"
    using assms(2) unfolding save_bin_eq [OF assms(1)] by auto
  have d: "drop offset f' = le_put 4 npts @ le_put 4 ndims @ les_put k elems @ drop (offset + n) f"
    unfolding f' drop_write_at by (simp add: n)
  have meta: "get_bin_metadata f' offset = Some (sign_extend npts, sign_extend ndims)"
    using assms(1) by (simp add: get_bin_metadata_def d bin_ok_def)
  have ext: "sign_extend m = m \<longleftrightarrow> m < 2 ^ 31" for m
    by (simp add: sign_extend_def)
  have "f' ! i = f ! i" if "i < length f" "i < offset \<or> offset + n \<le> i" for i
  proof (cases "i < offset")
      case True
      then show ?thesis using that(1) by (simp add: f' write_at_def nth_append)
    next
      case False
      then have 2: "offset + n \<le> i" using that(2) by blast
      have "f' ! i = drop offset f' ! (i - offset)" using 2 by (simp add: f')
      also have "\<dots> = drop (offset + n) f ! (i - offset - n)"
        unfolding d using 2 nth_append_length_plus [of "le_put 4 npts @ le_put 4 ndims @ les_put k elems"
            "drop (offset + n) f" "i - offset - n"]
        by (simp add: n)
      also have "\<dots> = f ! i" using 2 that(1) by simp
      finally show ?thesis .
  qed
  then show ?thesis
    using load_save_bin [OF assms(1) d] n meta by (auto simp: load_bin_def ext)
qed

theorem bin_file_roundtrip_witness:
  "load_bin 1 (snd (save_bin 1 [9, 9] [5, 6] 2 1 3)) 3 = Some ([5, 6], 2, 1)"
  using bin_file_roundtrip [of 1 "[5, 6]" 2 1 "[9, 9]" 3, OF _ prod.collapse [symmetric]]
  by (simp add: bin_ok_def)

text \<open> A ground truth file of ids, of ids and distances, or of ids, distances and tags is
  recognised by its size and read back; an empty one is always taken for the last kind, so that it
  can only be read by a caller that asks for tags.\<close>

theorem truthset_roundtrip:
  assumes "bin_ok 4 ids npts ndims" "bin_ok 4 ds npts ndims" "bin_ok 4 tags npts ndims"
  shows "(0 < npts * ndims \<longrightarrow>
      load_truthset w (le_put 4 npts @ le_put 4 ndims @ les_put 4 ids) = Some (ids, None, None, npts, ndims) \<and>
      load_truthset w (le_put 4 npts @ le_put 4 ndims @ les_put 4 ids @ les_put 4 ds) =
        Some (ids, Some ds, None, npts, ndims)) \<and>
    load_truthset w (le_put 4 npts @ le_put 4 ndims @ les_put 4 ids @ les_put 4 ds @ les_put 4 tags) =
      (if w then Some (ids, Some ds, Some tags, npts, ndims) else None)"
proof -
  have len: "length ids = npts * ndims" "length ds = npts * ndims" "length tags = npts * ndims"
    and small: "npts < 2 ^ 32" "ndims < 2 ^ 32"
    using assms by (auto simp: bin_ok_def)
  have rd: "rd_les 4 (npts * ndims) (les_put 4 ids @ s) = Some (ids, s)"
    "rd_les 4 (npts * ndims) (les_put 4 ds @ s) = Some (ds, s)"
    "rd_les 4 (npts * ndims) (les_put 4 tags @ s) = Some (tags, s)" for s
    using assms rd_les_put [of ids 4 s] rd_les_put [of ds 4 s] rd_les_put [of tags 4 s]
    by (auto simp: bin_ok_def)
  note rd_end = rd [of "[]", simplified]
  have one: "load_truthset w (le_put 4 npts @ le_put 4 ndims @ les_put 4 ids) = Some (ids, None, None, npts, ndims)"
    "load_truthset w (le_put 4 npts @ le_put 4 ndims @ les_put 4 ids @ les_put 4 ds) =
      Some (ids, Some ds, None, npts, ndims)" if "0 < npts * ndims"
    using that small by (simp_all add: load_truthset_def truthset_type_def len rd rd_end)
  have "load_truthset w (le_put 4 npts @ le_put 4 ndims @ les_put 4 ids @ les_put 4 ds @ les_put 4 tags) =
      (if w then Some (ids, Some ds, Some tags, npts, ndims) else None)"
    using small by (simp add: load_truthset_def truthset_type_def len rd rd_end)
  then show ?thesis using one by blast
qed

theorem truthset_roundtrip_witness:
  "load_truthset False (le_put 4 1 @ le_put 4 2 @ les_put 4 [7, 8] @ les_put 4 [0, 0]) =
     Some ([7, 8], Some [0, 0], None, 1, 2)"
  using truthset_roundtrip [of "[7, 8]" 1 2 "[0, 0]" "[0, 0]" False] by (simp add: bin_ok_def)

subsection \<open>Bounds of the recall\<close>

lemma query_recall_card:
  "query_recall gt vs seen = card ((set vs - set seen) \<inter> set gt)"
proof (induction gt vs seen rule: query_recall.induct)
  case (2 gt v vs seen)
  show ?case
  proof (cases "v \<in> set seen")
    case True
    then show ?thesis using 2 by (simp add: insert_Diff_if)
  next
    case False
    have "(set (v # vs) - set seen) \<inter> set gt =
      (if v \<in> set gt then insert v ((set vs - set (v # seen)) \<inter> set gt) else (set vs - set (v # seen)) \<inter> set gt)"
      using False by auto
    then show ?thesis using 2 False by simp
  qed
qed simp

lemma query_recall_le: "query_recall gt (take k vs) [] \<le> k"
proof -
  have "card (set (take k vs) \<inter> set gt) \<le> card (set (take k vs))"
    by (rule card_mono) auto
  also have "\<dots> \<le> k" using card_length [of "take k vs"] by simp
  finally show ?thesis by (simp add: query_recall_card)
qed

text \<open> The recall is a percentage: between 0 and 100, and 100 exactly when the results of every
  query are \<open>recall_at\<close> different ids of its ground truth.\<close>

theorem recall_bounds:
  fixes gs_dist :: "'d list option"
  assumes "0 < nq" "0 < k" and r_def: "r = calculate_recall nq gold gs_dist dim_gs res dim_or k"
  shows "0 \<le> r \<and> r \<le> 100 \<and> (r = 100 \<longleftrightarrow> (\<forall>i < nq. card (set (take k (row_of res dim_or i)) \<inter>
    set (take (ties (map_option (\<lambda>ds. row_of ds dim_gs i) gs_dist) dim_gs k) (row_of gold dim_gs i))) = k))"
proof -
  define q where "q i = query_recall (take (ties (map_option (\<lambda>ds. row_of ds dim_gs i) gs_dist) dim_gs k) (row_of gold dim_gs i))
    (take k (row_of res dim_or i)) []" for i
  have le: "q i \<le> k" for i
    unfolding q_def by (rule query_recall_le)
  have sum: "r = of_nat (\<Sum>i<nq. q i) / of_nat nq * (100 / of_nat k)"
    by (simp add: r_def calculate_recall_def q_def interv_sum_list_conv_sum_set_nat atLeast0LessThan del: of_nat_sum)
  have total: "(\<Sum>i<nq. q i) \<le> nq * k"
    using sum_mono [of "{..<nq}" q "\<lambda>_. k"] le by simp
  have pos: "(0 :: rat) < of_nat nq * of_nat k" using assms(1,2) by simp
  have r: "r = 100 * (of_nat (\<Sum>i<nq. q i) / (of_nat (nq * k)))"
    unfolding sum by simp
  have eq: "r = 100 \<longleftrightarrow> (\<Sum>i<nq. q i) = nq * k"
    unfolding r using assms(1,2) of_nat_eq_iff [where 'a = rat, of "\<Sum>i<nq. q i" "nq * k"]
    by (simp add: field_simps del: of_nat_sum of_nat_eq_iff of_nat_mult)
  have all: "(\<Sum>i<nq. q i) = nq * k \<longleftrightarrow> (\<forall>i<nq. q i = k)"
  proof
    assume s: "(\<Sum>i<nq. q i) = nq * k"
    show "\<forall>i<nq. q i = k"
    proof (rule ccontr)
      assume "\<not> (\<forall>i<nq. q i = k)"
      then obtain j where "j < nq" "q j < k" using le by (meson le_neq_implies_less)
      then have "(\<Sum>i<nq. q i) < (\<Sum>i<nq. k)"
        using le by (intro sum_strict_mono_ex1) auto
      then show False using s by simp
    qed
  qed simp
  have "0 \<le> r" unfolding r by (simp del: of_nat_sum)
  moreover have "r \<le> 100"
  proof -
    have "(of_nat (\<Sum>i<nq. q i) :: rat) \<le> of_nat (nq * k)"
      using total by (simp only: of_nat_le_iff)
    then have "(of_nat (\<Sum>i<nq. q i) :: rat) / of_nat (nq * k) \<le> 1"
      using pos by (simp add: divide_le_eq_1 del: of_nat_sum)
    then show ?thesis unfolding r by simp
  qed
  ultimately show ?thesis
    unfolding eq all by (auto simp: q_def query_recall_card)
qed

theorem recall_bounds_witness:
  "calculate_recall 1 [4, 5, 6] (None :: rat list option) 3 [6, 9] 2 2 \<le> 100"
  by (rule conjunct1 [OF conjunct2 [OF recall_bounds [OF _ _ refl]]]) simp_all

end
