(* ===== verification/PqTable.thy ===== *)
theory PqTable
  imports PruneNeighbors BinFile SsdMeta
begin

text \<open>
  Product quantization: \<open>FixedChunkPQTable\<close> of \<open>PipeANN/include/nbr/pq_table.h\<close>. A table has 256
  centers, cut into chunks of dimensions by \<open>chunk_offsets\<close>; a vector is stored as one byte per
  chunk, the number of a center. Arrays are flat lists with the code's index arithmetic. Floats are
  rationals with exact arithmetic once they are loaded, and bit patterns in the pivot file, read by
  the function \<open>fl\<close>. The vectorised loops compute the same sums as the scalar ones modelled here.
\<close>

definition NUM_PQ_CENTROIDS :: nat where "NUM_PQ_CENTROIDS = 256"
definition NUM_PQ_OFFSETS :: nat where "NUM_PQ_OFFSETS = 5"

subsection \<open>The pivot file\<close>

record pq_file =
  pf_tables :: "nat list"
  pf_centroid :: "nat list"
  pf_offsets :: "nat list"
  pf_ndims :: nat
  pf_chunks :: nat

definition load_pq_pivots_new :: "bytes \<Rightarrow> nat \<Rightarrow> nat \<Rightarrow> pq_file option" where
  "load_pq_pivots_new f num_chunks offset = do {
     (offs, nr, nc) \<leftarrow> load_bin_impl 8 f offset;
     if nr \<noteq> NUM_PQ_OFFSETS then None else do {
     off0 \<leftarrow> vec_at offs 0;
     (tables, nr, nc) \<leftarrow> load_bin_impl 4 f (off0 + offset);
     if nr \<noteq> NUM_PQ_CENTROIDS then None else do {
     let ndims = nc;
     off1 \<leftarrow> vec_at offs 1;
     (centroid, nr, nc) \<leftarrow> load_bin_impl 4 f (off1 + offset);
     if nr \<noteq> ndims \<or> nc \<noteq> 1 then None else do {
     off2 \<leftarrow> vec_at offs 2;
     (rearrangement, nr, nc) \<leftarrow> load_bin_impl 4 f (off2 + offset);
     if nr \<noteq> ndims \<or> nc \<noteq> 1 then None else do {
     off3 \<leftarrow> vec_at offs 3;
     (chunk_offsets, nr, nc) \<leftarrow> load_bin_impl 4 f (off3 + offset);
     if nr \<noteq> num_chunks + 1 \<or> nc \<noteq> 1 then None
     else Some \<lparr>pf_tables = tables, pf_centroid = centroid, pf_offsets = chunk_offsets,
                pf_ndims = ndims, pf_chunks = num_chunks\<rparr>
     }}}}}"

definition save_pq_pivots :: "bytes \<Rightarrow> pq_file \<Rightarrow> bytes" where
  "save_pq_pivots f P =
     (let off0 = SECTOR_LEN;
          (n0, f) = save_bin 4 f (pf_tables P) NUM_PQ_CENTROIDS (pf_ndims P) off0; off1 = off0 + n0;
          (n1, f) = save_bin 4 f (pf_centroid P) (pf_ndims P) 1 off1; off2 = off1 + n1;
          (n2, f) = save_bin 4 f [0..<pf_ndims P] (pf_ndims P) 1 off2; off3 = off2 + n2;
          (n3, f) = save_bin 4 f (pf_offsets P) (pf_chunks P + 1) 1 off3; off4 = off3 + n3
      in snd (save_bin 8 f [off0, off1, off2, off3, off4] NUM_PQ_OFFSETS 1 0))"

subsection \<open>The table\<close>

record pq_table =
  pt_tables :: "rat list"
  pt_centroid :: "rat list"
  pt_offsets :: "nat list"
  pt_tables_T :: "rat list"
  pt_all :: "rat list"
  pt_metric :: metric
  pt_ndims :: nat
  pt_chunks :: nat

text \<open>\<open>arr[k] += v\<close> and the loops that do it.\<close>

definition add_at :: "nat \<Rightarrow> rat \<Rightarrow> rat list \<Rightarrow> rat list" where
  "add_at k v A = A[k := A ! k + v]"

abbreviation loop :: "nat \<Rightarrow> nat \<Rightarrow> (nat \<Rightarrow> 'a \<Rightarrow> 'a) \<Rightarrow> 'a \<Rightarrow> 'a" where
  "loop a b F \<equiv> fold F [a..<b]"

definition transposed :: "nat \<Rightarrow> rat list \<Rightarrow> rat list \<Rightarrow> rat list" where
  "transposed ndims tables junk =
     loop 0 256 (\<lambda>i. loop 0 ndims (\<lambda>j T. T[j * 256 + i := tables ! (i * ndims + j)])) junk"

definition all_to_all :: "metric \<Rightarrow> nat \<Rightarrow> nat \<Rightarrow> nat list \<Rightarrow> rat list \<Rightarrow> rat list" where
  "all_to_all m ndims n_chunks offs tables =
     loop 0 256 (\<lambda>i. loop 0 256 (\<lambda>j. loop 0 n_chunks (\<lambda>c. loop (offs ! c) (offs ! (c + 1)) (\<lambda>d.
       add_at (i * 256 * n_chunks + j * n_chunks + c)
         (if m = INNER_PRODUCT then - (tables ! (i * ndims + d) * tables ! (j * ndims + d))
          else (tables ! (i * ndims + d) - tables ! (j * ndims + d))\<^sup>2)))))
       (replicate (256 * 256 * n_chunks) 0)"

definition post_load_pq_table :: "rat list \<Rightarrow> pq_table \<Rightarrow> pq_table" where
  "post_load_pq_table junk t =
     t\<lparr>pt_tables_T := transposed (pt_ndims t) (pt_tables t) (take (256 * pt_ndims t) junk),
       pt_all := all_to_all (pt_metric t) (pt_ndims t) (pt_chunks t) (pt_offsets t) (pt_tables t)\<rparr>"

definition load_pq_centroid_bin ::
  "(nat \<Rightarrow> rat) \<Rightarrow> rat list \<Rightarrow> metric \<Rightarrow> bytes \<Rightarrow> nat \<Rightarrow> nat \<Rightarrow> pq_table option" where
  "load_pq_centroid_bin fl junk m f num_chunks offset =
     map_option (\<lambda>P. post_load_pq_table junk
         \<lparr>pt_tables = map fl (pf_tables P), pt_centroid = map fl (pf_centroid P), pt_offsets = pf_offsets P,
          pt_tables_T = [], pt_all = [], pt_metric = m, pt_ndims = pf_ndims P, pt_chunks = pf_chunks P\<rparr>)
       (load_pq_pivots_new f num_chunks offset)"

subsection \<open>Distances\<close>

definition populate_l2 :: "pq_table \<Rightarrow> rat list \<Rightarrow> rat list" where
  "populate_l2 t q =
     loop 0 (pt_chunks t) (\<lambda>chunk. loop (pt_offsets t ! chunk) (pt_offsets t ! (chunk + 1)) (\<lambda>j.
       loop 0 256 (\<lambda>idx. add_at (256 * chunk + idx)
         ((pt_tables_T t ! (256 * j + idx) - (q ! j - pt_centroid t ! j))\<^sup>2))))
       (replicate (256 * pt_chunks t) 0)"

definition populate_ip :: "pq_table \<Rightarrow> rat list \<Rightarrow> rat list" where
  "populate_ip t q =
     loop 0 (pt_chunks t) (\<lambda>chunk. loop (pt_offsets t ! chunk) (pt_offsets t ! (chunk + 1)) (\<lambda>j.
       loop 0 256 (\<lambda>idx. add_at (256 * chunk + idx) (- (q ! j * pt_tables_T t ! (256 * j + idx))))))
       (replicate (256 * pt_chunks t) 0)"

definition populate_chunk_distances :: "pq_table \<Rightarrow> rat list \<Rightarrow> rat list" where
  "populate_chunk_distances t q = (if pt_metric t = INNER_PRODUCT then populate_ip t q else populate_l2 t q)"

definition compute_distances_alltoall :: "pq_table \<Rightarrow> nat list \<Rightarrow> nat list \<Rightarrow> nat \<Rightarrow> rat list" where
  "compute_distances_alltoall t src dsts cnt =
     loop 0 cnt (\<lambda>i. loop 0 (pt_chunks t) (\<lambda>c. add_at i
       (pt_all t ! (src ! c * 256 * pt_chunks t + dsts ! (i * pt_chunks t + c) * pt_chunks t + c))))
       (replicate cnt 0)"

text \<open>The squared distance of the vector to center \<open>i\<close> over the dimensions of a chunk.\<close>

definition chunk_dist :: "pq_table \<Rightarrow> rat list \<Rightarrow> nat \<Rightarrow> nat \<Rightarrow> rat" where
  "chunk_dist t v c i =
     loop (pt_offsets t ! c) (pt_offsets t ! (c + 1))
       (\<lambda>d s. s + (pt_tables t ! (i * pt_ndims t + d) - (v ! d - pt_centroid t ! d))\<^sup>2) 0"

definition closest_center :: "pq_table \<Rightarrow> rat list \<Rightarrow> nat \<Rightarrow> nat \<Rightarrow> nat" where
  "closest_center t v c out =
     snd (loop 0 256 (\<lambda>i (best, code). if chunk_dist t v c i < best then (chunk_dist t v c i, i) else (best, code))
       (float_max, out))"

definition deflate_vec :: "pq_table \<Rightarrow> rat list \<Rightarrow> nat list \<Rightarrow> nat list" where
  "deflate_vec t v out = loop 0 (pt_chunks t) (\<lambda>c out. out[c := closest_center t v c (out ! c)]) out"

subsection \<open>Round trip of the pivot file\<close>

text \<open>File \<open>f\<close> has \<open>d\<close> at offset \<open>off\<close>.\<close>

definition holds :: "bytes \<Rightarrow> nat \<Rightarrow> bytes \<Rightarrow> bool" where
  "holds f off d \<longleftrightarrow> take (length d) (drop off f) = d"

lemma holds_write: "holds (write_at f off d) off d"
  by (simp add: holds_def drop_write_at)

lemma holds_length: "holds f off d \<Longrightarrow> d \<noteq> [] \<Longrightarrow> off + length d \<le> length f"
  unfolding holds_def by (metis length_drop length_take min.absorb_iff2 le_diff_conv2 length_greater_0_conv
      less_imp_le zero_less_diff add.commute linorder_not_less min_def)

lemma holds_write_before:
  assumes "holds f off d" "off + length d \<le> off'"
  shows "holds (write_at f off' d') off d"
proof (cases "d = []")
  case False
  have l: "off + length d \<le> length f" by (rule holds_length [OF assms(1) False])
  have "take (length d) (drop off (write_at f off' d')) = take (length d) (drop off (take off' f))"
    using l assms(2) by (simp add: write_at_def)
  also have "\<dots> = take (length d) (drop off f)"
    using assms(2) by (simp add: drop_take min_def)
  finally show ?thesis using assms(1) by (simp add: holds_def)
qed (simp add: holds_def)

lemma holds_write_after:
  assumes "holds f off d" "off' + length d' \<le> off"
  shows "holds (write_at f off' d') off d"
proof -
  have "drop off (write_at f off' d') = drop (off - off') (drop off' (write_at f off' d'))"
    using assms(2) by simp
  also have "\<dots> = drop off f"
    unfolding drop_write_at using assms(2) by simp
  finally show ?thesis using assms(1) by (simp add: holds_def)
qed

lemma load_holds:
  assumes "bin_ok k elems npts ndims" "holds f off (le_put 4 npts @ le_put 4 ndims @ les_put k elems)"
  shows "load_bin_impl k f off = Some (elems, npts, ndims)"
  using load_save_bin [OF assms(1), of off f "drop (8 + k * length elems) (drop off f)"] assms(2)
    append_take_drop_id [of "8 + k * length elems" "drop off f"]
  by (simp add: holds_def del: append_take_drop_id)

definition pq_file_ok :: "pq_file \<Rightarrow> bool" where
  "pq_file_ok P \<longleftrightarrow> bin_ok 4 (pf_tables P) NUM_PQ_CENTROIDS (pf_ndims P) \<and> bin_ok 4 (pf_centroid P) (pf_ndims P) 1 \<and>
     bin_ok 4 (pf_offsets P) (pf_chunks P + 1) 1"

lemma pivots_saved:
  assumes "pq_file_ok P"
  shows "load_pq_pivots_new (save_pq_pivots f P) (pf_chunks P) 0 = Some P \<and>
    (n \<noteq> pf_chunks P \<longrightarrow> load_pq_pivots_new (save_pq_pivots f P) n 0 = None)"
proof -
  define part where "part k npts ndims elems = le_put 4 npts @ le_put 4 ndims @ les_put k elems"
    for k npts ndims and elems :: "nat list"
  define d where "d = pf_ndims P"
  define c where "c = pf_chunks P + 1"
  have len: "length (pf_tables P) = 256 * d" "length (pf_centroid P) = d" "length (pf_offsets P) = c"
    and ok: "bin_ok 4 (pf_tables P) NUM_PQ_CENTROIDS d" "bin_ok 4 (pf_centroid P) d 1" "bin_ok 4 (pf_offsets P) c 1"
    and small: "d < 2 ^ 32" "c < 2 ^ 32"
    using assms by (auto simp: pq_file_ok_def bin_ok_def NUM_PQ_CENTROIDS_def d_def c_def)
  have ok2: "bin_ok 4 [0..<d] d 1" using small by (auto simp: bin_ok_def)
  let ?o0 = "4096"
  let ?o1 = "?o0 + (8 + 4 * (256 * d))"
  let ?o2 = "?o1 + (8 + 4 * d)"
  let ?o3 = "?o2 + (8 + 4 * d)"
  let ?o4 = "?o3 + (8 + 4 * c)"
  let ?offs = "[?o0, ?o1, ?o2, ?o3, ?o4]"
  have ok8: "bin_ok 8 ?offs NUM_PQ_OFFSETS 1"
    using small by (simp add: bin_ok_def NUM_PQ_OFFSETS_def)
  define f0 where "f0 = write_at f ?o0 (part 4 NUM_PQ_CENTROIDS d (pf_tables P))"
  define f1 where "f1 = write_at f0 ?o1 (part 4 d 1 (pf_centroid P))"
  define f2 where "f2 = write_at f1 ?o2 (part 4 d 1 [0..<d])"
  define f3 where "f3 = write_at f2 ?o3 (part 4 c 1 (pf_offsets P))"
  define f4 where "f4 = write_at f3 0 (part 8 NUM_PQ_OFFSETS 1 ?offs)"
  have lens: "length (part k npts ndims elems) = 8 + k * length elems" for k npts ndims elems
    by (simp add: part_def)
  have sb: "save_bin k g elems n m off = (8 + k * length elems, write_at g off (part k n m elems))"
    if "bin_ok k elems n m" for k g elems n m off
    unfolding save_bin_eq [OF that] part_def by simp
  have save: "save_pq_pivots f P = f4"
    unfolding save_pq_pivots_def d_def [symmetric] c_def [symmetric] Let_def SECTOR_LEN_def
    by (simp only: sb [OF ok(1)] sb [OF ok(2)] sb [OF ok(3)] sb [OF ok2] prod.case len length_upt minus_nat.diff_0
        f0_def [symmetric] f1_def [symmetric] f2_def [symmetric] f3_def [symmetric] sb [OF ok8] f4_def snd_conv)
  have h: "holds f4 0 (part 8 NUM_PQ_OFFSETS 1 ?offs)"
    unfolding f4_def by (rule holds_write)
  have h0: "holds f4 ?o0 (part 4 NUM_PQ_CENTROIDS d (pf_tables P))"
    unfolding f4_def f3_def f2_def f1_def f0_def
    by (rule holds_write_after, rule holds_write_before, rule holds_write_before, rule holds_write_before, rule holds_write) (simp_all add: lens len)
  have h1: "holds f4 ?o1 (part 4 d 1 (pf_centroid P))"
    unfolding f4_def f3_def f2_def f1_def
    by (rule holds_write_after, rule holds_write_before, rule holds_write_before, rule holds_write) (simp_all add: lens len)
  have h2: "holds f4 ?o2 (part 4 d 1 [0..<d])"
    unfolding f4_def f3_def f2_def
    by (rule holds_write_after, rule holds_write_before, rule holds_write) (simp_all add: lens len)
  have h3: "holds f4 ?o3 (part 4 c 1 (pf_offsets P))"
    unfolding f4_def f3_def by (rule holds_write_after, rule holds_write) (simp_all add: lens len)
  have l: "load_bin_impl 8 f4 0 = Some (?offs, NUM_PQ_OFFSETS, 1)"
    "load_bin_impl 4 f4 ?o0 = Some (pf_tables P, NUM_PQ_CENTROIDS, d)"
    "load_bin_impl 4 f4 ?o1 = Some (pf_centroid P, d, 1)" "load_bin_impl 4 f4 ?o2 = Some ([0..<d], d, 1)"
    "load_bin_impl 4 f4 ?o3 = Some (pf_offsets P, c, 1)"
    using load_holds [OF ok8] load_holds [OF ok(1)] load_holds [OF ok(2)] load_holds [OF ok2] load_holds [OF ok(3)]
      h h0 h1 h2 h3
    unfolding part_def by blast+
  show ?thesis
    unfolding save load_pq_pivots_new_def using l
    by (auto simp: vec_at_def c_def d_def)
qed

text \<open> What \<open>save_pq_pivots\<close> writes over any file, \<open>load_pq_pivots_new\<close> reads back: the five parts
  do not overlap, the offsets table finds them, and all the checks on the counts pass. A reader that
  expects another number of chunks refuses the file.\<close>

theorem pq_pivots_roundtrip:
  assumes "pq_file_ok P"
  shows "load_pq_pivots_new (save_pq_pivots f P) (pf_chunks P) 0 = Some P \<and>
    (n \<noteq> pf_chunks P \<longrightarrow> load_pq_pivots_new (save_pq_pivots f P) n 0 = None)"
  by (rule pivots_saved [OF assms])

theorem pq_pivots_roundtrip_witness:
  "load_pq_pivots_new (save_pq_pivots [1, 2, 3] \<lparr>pf_tables = replicate 512 9, pf_centroid = [3, 4],
     pf_offsets = [0, 2], pf_ndims = 2, pf_chunks = 1\<rparr>) 5 0 = None"
  using pq_pivots_roundtrip [of "\<lparr>pf_tables = replicate 512 9, pf_centroid = [3, 4],
     pf_offsets = [0, 2], pf_ndims = 2, pf_chunks = 1\<rparr>" "[1, 2, 3]" 5]
  by (simp add: pq_file_ok_def bin_ok_def NUM_PQ_CENTROIDS_def)

end
