(* ===== verification/PqDistance.thy ===== *)
theory PqDistance
  imports PqTable
begin

text \<open>
  What the distances of \<open>PqTable\<close> mean: a table of per-chunk distances, looked up at the entries of a
  code, adds up to the distance of the query to the vector the code stands for; \<open>deflate_vec\<close> picks
  the code whose vector is nearest.
\<close>

subsection \<open>Loops that add\<close>

definition adds :: "(rat list \<Rightarrow> rat list) \<Rightarrow> (nat \<Rightarrow> rat) \<Rightarrow> bool" where
  "adds F h \<longleftrightarrow> (\<forall>A. length (F A) = length A \<and> (\<forall>p < length A. F A ! p = A ! p + h p))"

lemma adds_add_at: "adds (add_at k v) (\<lambda>p. if p = k then v else 0)"
  by (auto simp: adds_def add_at_def nth_list_update)

lemma adds_fold: "(\<And>x. x \<in> set xs \<Longrightarrow> adds (F x) (h x)) \<Longrightarrow> adds (fold F xs) (\<lambda>p. \<Sum>x \<leftarrow> xs. h x p)"
proof (induction xs)
  case (Cons x xs)
  have "adds (fold F xs) (\<lambda>p. \<Sum>x \<leftarrow> xs. h x p)" "adds (F x) (h x)"
    using Cons by auto
  then show ?case by (auto simp: adds_def)
qed (simp add: adds_def)

lemma adds_loop:
  "(\<And>x. a \<le> x \<Longrightarrow> x < b \<Longrightarrow> adds (F x) (h x)) \<Longrightarrow> adds (loop a b F) (\<lambda>p. \<Sum>x = a..<b. h x p)"
  using adds_fold [of "[a..<b]" F h] by (simp add: interv_sum_list_conv_sum_set_nat)

lemma adds_zero: "adds F h \<Longrightarrow> p < n \<Longrightarrow> F (replicate n 0) ! p = h p \<and> length (F (replicate n 0)) = n"
  by (auto simp: adds_def)

lemma loop_sum: "loop a b (\<lambda>d s. s + g d) (z :: rat) = z + (\<Sum>d = a..<b. g d)"
proof -
  have "fold (\<lambda>d s. s + g d) xs z = z + (\<Sum>d \<leftarrow> xs. g d)" for xs and z :: rat
    by (induction xs arbitrary: z) auto
  then show ?thesis by (simp add: interv_sum_list_conv_sum_set_nat)
qed

text \<open>Loops that store: all that write position \<open>p\<close> write \<open>v\<close>, and one does.\<close>

lemma fold_store:
  assumes "\<And>x A. x \<in> set xs \<Longrightarrow> length (F x A) = length A \<and> (F x A ! p = A ! p \<or> F x A ! p = v)"
  shows "length (fold F xs A) = length A \<and> (fold F xs A ! p = A ! p \<or> fold F xs A ! p = v)"
  using assms
proof (induction xs arbitrary: A)
  case (Cons x xs)
  have "length (F x A) = length A \<and> (F x A ! p = A ! p \<or> F x A ! p = v)"
    by (rule Cons.prems) simp
  moreover have "length (fold F xs (F x A)) = length (F x A) \<and>
      (fold F xs (F x A) ! p = F x A ! p \<or> fold F xs (F x A) ! p = v)"
    by (rule Cons.IH, rule Cons.prems) simp
  ultimately show ?case by (metis fold_simps(2))
qed simp

lemma fold_store_hit:
  assumes "\<And>x A. x \<in> set xs \<Longrightarrow> length (F x A) = length A \<and> (F x A ! p = A ! p \<or> F x A ! p = v)"
    and "y \<in> set xs" "\<And>A. p < length A \<Longrightarrow> F y A ! p = v" "p < length A"
  shows "fold F xs A ! p = v"
proof -
  obtain as bs where xs: "xs = as @ y # bs" using assms(2) by (meson split_list)
  have "length (fold F as A) = length A"
    using fold_store [of as F p v A] assms(1) xs by auto
  then have "F y (fold F as A) ! p = v" using assms(3,4) by simp
  then show ?thesis
    using fold_store [of bs F p v "F y (fold F as A)"] assms(1) xs by auto
qed

lemma mix_inj: "i < K \<Longrightarrow> i' < K \<Longrightarrow> j' * K + i' = j * K + i \<longleftrightarrow> i' = i \<and> j' = (j :: nat)"
  by (metis Euclidean_Rings.div_eq_0_iff add.right_neutral div_mult_self3 mod_less mod_mult_self3 not_less0)

lemma transposed_gen:
  fixes g :: "nat \<Rightarrow> nat \<Rightarrow> rat"
  assumes "i < K" "j < n" "length junk = n * K"
  shows "loop 0 K (\<lambda>i. loop 0 n (\<lambda>j T. T[j * K + i := g i j])) junk ! (j * K + i) = g i j"
proof -
  let ?p = "j * K + i"
  have inner: "length (loop 0 n (\<lambda>j T. T[j * K + i' := g i' j]) A) = length A \<and>
      (loop 0 n (\<lambda>j T. T[j * K + i' := g i' j]) A ! ?p = A ! ?p \<or>
       loop 0 n (\<lambda>j T. T[j * K + i' := g i' j]) A ! ?p = g i j)" if i': "i' < K" for i' A
  proof (rule fold_store)
    fix x and A :: "rat list"
    show "length (A[x * K + i' := g i' x]) = length A \<and>
        (A[x * K + i' := g i' x] ! ?p = A ! ?p \<or> A[x * K + i' := g i' x] ! ?p = g i j)"
      using mix_inj [OF assms(1) i', of x j] by (cases "?p < length A") (auto simp: nth_list_update list_update_beyond)
  qed
  have hit: "loop 0 n (\<lambda>j T. T[j * K + i := g i j]) A ! ?p = g i j" if "?p < length A" for A
  proof (rule fold_store_hit [where y = j])
    fix x and A :: "rat list"
    show "length (A[x * K + i := g i x]) = length A \<and>
        (A[x * K + i := g i x] ! ?p = A ! ?p \<or> A[x * K + i := g i x] ! ?p = g i j)"
      using mix_inj [OF assms(1,1), of x j] by (cases "?p < length A") (auto simp: nth_list_update list_update_beyond)
  qed (use assms that in auto)
  have "Suc j * K \<le> n * K" using assms(2) by (intro mult_le_mono1) simp
  then have p: "?p < length junk" using assms by simp
  show ?thesis
  proof (rule fold_store_hit [where y = i])
    show "length (loop 0 n (\<lambda>j T. T[j * K + i' := g i' j]) A) = length A \<and>
      (loop 0 n (\<lambda>j T. T[j * K + i' := g i' j]) A ! ?p = A ! ?p \<or>
       loop 0 n (\<lambda>j T. T[j * K + i' := g i' j]) A ! ?p = g i j)" if "i' \<in> set [0..<K]" for i' A
      using inner that by simp
  qed (use assms hit p in auto)
qed

lemma transposed_nth:
  assumes "i < 256" "j < ndims" "length junk = ndims * 256"
  shows "transposed ndims tables junk ! (j * 256 + i) = tables ! (i * ndims + j)"
  unfolding transposed_def by (rule transposed_gen [OF assms])

subsection \<open>Decoding\<close>

text \<open>The chunk of a dimension, and the vector that a code stands for.\<close>

definition chunk_of :: "nat list \<Rightarrow> nat \<Rightarrow> nat" where
  "chunk_of offs d = length (takeWhile (\<lambda>e. e \<le> d) (tl offs))"

definition pq_decode :: "pq_table \<Rightarrow> nat list \<Rightarrow> rat list" where
  "pq_decode t code = map (\<lambda>d. pt_tables t ! (code ! chunk_of (pt_offsets t) d * pt_ndims t + d)) [0..<pt_ndims t]"

definition pq_table_ok :: "pq_table \<Rightarrow> bool" where
  "pq_table_ok t \<longleftrightarrow> length (pt_offsets t) = pt_chunks t + 1 \<and> sorted (pt_offsets t) \<and> pt_offsets t ! 0 = 0 \<and>
     pt_offsets t ! pt_chunks t = pt_ndims t"

definition code_ok :: "pq_table \<Rightarrow> nat list \<Rightarrow> bool" where
  "code_ok t code \<longleftrightarrow> length code = pt_chunks t \<and> (\<forall>x \<in> set code. x < 256)"

text \<open>The squared distance of a vector (less the centroid) to the vector of a code.\<close>

definition sq_err :: "pq_table \<Rightarrow> rat list \<Rightarrow> nat list \<Rightarrow> rat" where
  "sq_err t v code = (\<Sum>d < pt_ndims t. (pq_decode t code ! d - (v ! d - pt_centroid t ! d))\<^sup>2)"

lemma chunk_of_eq:
  assumes "sorted offs" "Suc c < length offs" "offs ! c \<le> d" "d < offs ! Suc c"
  shows "chunk_of offs d = c"
proof -
  have "takeWhile (\<lambda>e. e \<le> d) (tl offs) = take c (tl offs)"
  proof (rule takeWhile_eq_take_P_nth)
    fix i assume "i < c" "i < length (tl offs)"
    then have "offs ! Suc i \<le> offs ! c" using assms by (intro sorted_nth_mono) auto
    then show "tl offs ! i \<le> d" using assms \<open>i < length (tl offs)\<close> by (simp add: nth_tl)
  qed (use assms in \<open>auto simp: nth_tl\<close>)
  then show ?thesis using assms(2) by (simp add: chunk_of_def)
qed

lemma offset_mono: "pq_table_ok t \<Longrightarrow> i \<le> j \<Longrightarrow> j \<le> pt_chunks t \<Longrightarrow> pt_offsets t ! i \<le> pt_offsets t ! j"
  by (simp add: pq_table_ok_def sorted_nth_mono)

lemma chunk_dim: "pq_table_ok t \<Longrightarrow> c < pt_chunks t \<Longrightarrow> d < pt_offsets t ! Suc c \<Longrightarrow> d < pt_ndims t"
  using offset_mono [of t "Suc c" "pt_chunks t"] by (simp add: pq_table_ok_def)

lemma decode_nth:
  assumes "pq_table_ok t" "c < pt_chunks t" "pt_offsets t ! c \<le> d" "d < pt_offsets t ! Suc c"
  shows "pq_decode t code ! d = pt_tables t ! (code ! c * pt_ndims t + d)"
  using assms chunk_of_eq [of "pt_offsets t" c d] chunk_dim [of t c d]
  by (simp add: pq_decode_def pq_table_ok_def)

lemma sum_chunks:
  fixes g :: "nat \<Rightarrow> rat"
  assumes "pq_table_ok t"
  shows "(\<Sum>c < pt_chunks t. \<Sum>d = pt_offsets t ! c..<pt_offsets t ! Suc c. g d) = (\<Sum>d < pt_ndims t. g d)"
proof -
  have "(\<Sum>c < n. \<Sum>d = pt_offsets t ! c..<pt_offsets t ! Suc c. g d) = (\<Sum>d = 0..<pt_offsets t ! n. g d)"
    if "n \<le> pt_chunks t" for n
    using that
  proof (induction n)
    case 0
    show ?case using assms by (simp add: pq_table_ok_def)
  next
    case (Suc n)
    have "pt_offsets t ! n \<le> pt_offsets t ! Suc n" using Suc.prems by (intro offset_mono [OF assms]) auto
    then show ?case using Suc by (simp add: sum.atLeastLessThan_concat)
  qed
  from this [of "pt_chunks t"] show ?thesis using assms by (simp add: pq_table_ok_def atLeast0LessThan)
qed

subsection \<open>The lookup tables\<close>

text \<open>An array of \<open>K\<close> sums for each chunk.\<close>

lemma chunk_sums:
  assumes "c < n" "i < K"
  shows "loop 0 n (\<lambda>chunk. loop (lo chunk) (hi chunk) (\<lambda>j. loop 0 K (\<lambda>idx. add_at (chunk * K + idx) (g j idx))))
      (replicate (n * K) 0) ! (c * K + i) = (\<Sum>j = lo c..<hi c. g j i)"
proof -
  let ?h = "\<lambda>p. \<Sum>chunk = 0..<n. \<Sum>j = lo chunk..<hi chunk. \<Sum>idx = 0..<K. if p = chunk * K + idx then g j idx else 0"
  have "adds (loop 0 n (\<lambda>chunk. loop (lo chunk) (hi chunk) (\<lambda>j. loop 0 K (\<lambda>idx. add_at (chunk * K + idx) (g j idx))))) ?h"
    by (intro adds_loop adds_add_at)
  moreover have "c * K + i < n * K"
    using mult_le_mono1 [of "Suc c" n K] assms by simp
  ultimately have "loop 0 n (\<lambda>chunk. loop (lo chunk) (hi chunk) (\<lambda>j. loop 0 K (\<lambda>idx. add_at (chunk * K + idx) (g j idx))))
      (replicate (n * K) 0) ! (c * K + i) = ?h (c * K + i)"
    by (rule adds_zero [THEN conjunct1])
  also have "\<dots> = (\<Sum>chunk = 0..<n. if chunk = c then \<Sum>j = lo c..<hi c. g j i else 0)"
  proof (rule sum.cong [OF refl])
    fix chunk
    have "(\<Sum>idx = 0..<K. if c * K + i = chunk * K + idx then g j idx else 0) = (if chunk = c then g j i else 0)" for j
    proof -
      have "(\<Sum>idx = 0..<K. if c * K + i = chunk * K + idx then g j idx else 0) =
          (\<Sum>idx = 0..<K. if idx = i then if chunk = c then g j i else 0 else 0)"
        using mix_inj [OF _ assms(2), of _ c chunk] by (intro sum.cong) auto
      then show ?thesis using assms(2) by (simp add: sum.delta)
    qed
    then show "(\<Sum>j = lo chunk..<hi chunk. \<Sum>idx = 0..<K. if c * K + i = chunk * K + idx then g j idx else 0) =
      (if chunk = c then \<Sum>j = lo c..<hi c. g j i else 0)" by simp
  qed
  also have "\<dots> = (\<Sum>j = lo c..<hi c. g j i)"
    using assms(1) by (simp add: sum.delta)
  finally show ?thesis .
qed

text \<open>An array of \<open>n\<close> sums for each pair of centers.\<close>

lemma pair_sums:
  assumes "i < K" "j < K" "c < n"
  shows "loop 0 K (\<lambda>i. loop 0 K (\<lambda>j. loop 0 n (\<lambda>c. loop (lo c) (hi c) (\<lambda>d.
      add_at (i * K * n + j * n + c) (g i j d))))) (replicate (K * K * n) 0) ! (i * K * n + j * n + c) =
    (\<Sum>d = lo c..<hi c. g i j d)"
proof -
  let ?h = "\<lambda>p. \<Sum>i = 0..<K. \<Sum>j = 0..<K. \<Sum>c = 0..<n. \<Sum>d = lo c..<hi c. if p = i * K * n + j * n + c then g i j d else 0"
  have "adds (loop 0 K (\<lambda>i. loop 0 K (\<lambda>j. loop 0 n (\<lambda>c. loop (lo c) (hi c) (\<lambda>d.
      add_at (i * K * n + j * n + c) (g i j d)))))) ?h"
    by (intro adds_loop adds_add_at)
  moreover have "i * K * n + j * n + c < K * K * n"
  proof -
    have "Suc i * K \<le> K * K" using assms(1) by (intro mult_le_mono1) simp
    then have "i * K + j < K * K" using assms(2) by simp
    then have "Suc (i * K + j) * n \<le> K * K * n" by (intro mult_le_mono1) simp
    then show ?thesis using assms(3) by (simp add: algebra_simps)
  qed
  ultimately have "loop 0 K (\<lambda>i. loop 0 K (\<lambda>j. loop 0 n (\<lambda>c. loop (lo c) (hi c) (\<lambda>d.
      add_at (i * K * n + j * n + c) (g i j d))))) (replicate (K * K * n) 0) ! (i * K * n + j * n + c) =
      ?h (i * K * n + j * n + c)"
    by (rule adds_zero [THEN conjunct1])
  also have "\<dots> = (\<Sum>i' = 0..<K. if i' = i then \<Sum>d = lo c..<hi c. g i j d else 0)"
  proof (rule sum.cong [OF refl])
    fix i' assume "i' \<in> {0..<K}"
    then have i': "i' < K" by simp
    have same: "i * K * n + j * n + c = i' * K * n + j' * n + c' \<longleftrightarrow> i' = i \<and> j' = j \<and> c' = c"
      if "j' < K" "c' < n" for j' c'
      using mix_inj [OF assms(3) that(2), of "i' * K + j'" "i * K + j"] mix_inj [OF assms(2) that(1), of i' i]
      by (auto simp: algebra_simps)
    have inner: "(\<Sum>c' = 0..<n. \<Sum>d = lo c'..<hi c'. if i * K * n + j * n + c = i' * K * n + j' * n + c'
        then g i' j' d else 0) = (if j' = j then if i' = i then \<Sum>d = lo c..<hi c. g i j d else 0 else 0)"
      if j': "j' < K" for j'
    proof -
      have "(\<Sum>c' = 0..<n. \<Sum>d = lo c'..<hi c'. if i * K * n + j * n + c = i' * K * n + j' * n + c'
          then g i' j' d else 0) = (\<Sum>c' = 0..<n. if c' = c then
          if j' = j then if i' = i then \<Sum>d = lo c..<hi c. g i j d else 0 else 0 else 0)"
        by (rule sum.cong) (auto simp: same j')
      then show ?thesis using assms(3) by (simp add: sum.delta)
    qed
    have "(\<Sum>j' = 0..<K. \<Sum>c' = 0..<n. \<Sum>d = lo c'..<hi c'. if i * K * n + j * n + c = i' * K * n + j' * n + c'
        then g i' j' d else 0) = (\<Sum>j' = 0..<K. if j' = j then if i' = i then \<Sum>d = lo c..<hi c. g i j d else 0 else 0)"
      by (rule sum.cong) (simp_all add: inner)
    then show "(\<Sum>j' = 0..<K. \<Sum>c' = 0..<n. \<Sum>d = lo c'..<hi c'. if i * K * n + j * n + c = i' * K * n + j' * n + c'
        then g i' j' d else 0) = (if i' = i then \<Sum>d = lo c..<hi c. g i j d else 0)"
      using assms(2) by (simp add: sum.delta)
  qed
  also have "\<dots> = (\<Sum>d = lo c..<hi c. g i j d)"
    using assms by (simp add: sum.delta)
  finally show ?thesis .
qed

subsection \<open>Distances of the decoded vectors\<close>

text \<open>What the tables hold for the metric of the table.\<close>

definition pq_dist :: "pq_table \<Rightarrow> rat list \<Rightarrow> nat list \<Rightarrow> rat" where
  "pq_dist t q code = (if pt_metric t = INNER_PRODUCT then - (\<Sum>d < pt_ndims t. q ! d * pq_decode t code ! d)
     else sq_err t q code)"

lemma code_nth: "code_ok t code \<Longrightarrow> c < pt_chunks t \<Longrightarrow> code ! c < 256"
  by (simp add: code_ok_def)

lemma post_load_same [simp]:
  "pt_offsets (post_load_pq_table junk t) = pt_offsets t" "pt_chunks (post_load_pq_table junk t) = pt_chunks t"
  "pt_ndims (post_load_pq_table junk t) = pt_ndims t" "pt_metric (post_load_pq_table junk t) = pt_metric t"
  "pt_centroid (post_load_pq_table junk t) = pt_centroid t" "pt_tables (post_load_pq_table junk t) = pt_tables t"
  by (simp_all add: post_load_pq_table_def)

lemma all_loaded:
  "pt_all (post_load_pq_table junk t) = all_to_all (pt_metric t) (pt_ndims t) (pt_chunks t) (pt_offsets t) (pt_tables t)"
  by (simp add: post_load_pq_table_def)

lemma table_T_nth:
  assumes "pt_ndims t * 256 \<le> length junk" "i < 256" "j < pt_ndims t"
  shows "pt_tables_T (post_load_pq_table junk t) ! (256 * j + i) = pt_tables t ! (i * pt_ndims t + j)"
  using transposed_nth [OF assms(2,3), of "take (256 * pt_ndims t) junk"] assms(1)
  by (simp add: post_load_pq_table_def mult.commute)

lemma populate_nth:
  assumes "c < pt_chunks t" "i < 256"
  shows "populate_chunk_distances t q ! (256 * c + i) = (\<Sum>j = pt_offsets t ! c..<pt_offsets t ! Suc c.
    if pt_metric t = INNER_PRODUCT then - (q ! j * pt_tables_T t ! (256 * j + i))
    else (pt_tables_T t ! (256 * j + i) - (q ! j - pt_centroid t ! j))\<^sup>2)"
  using chunk_sums [OF assms]
  by (cases "pt_metric t = INNER_PRODUCT")
    (simp_all add: populate_chunk_distances_def populate_ip_def populate_l2_def mult.commute [of _ 256])

lemma lookup_sum:
  assumes ok: "pq_table_ok t" and code: "code_ok t code" and junk: "pt_ndims t * 256 \<le> length junk"
  shows "(\<Sum>c < pt_chunks t. populate_chunk_distances (post_load_pq_table junk t) q ! (256 * c + code ! c)) =
    pq_dist t q code"
proof -
  let ?g = "\<lambda>d. if pt_metric t = INNER_PRODUCT then - (q ! d * pq_decode t code ! d)
    else (pq_decode t code ! d - (q ! d - pt_centroid t ! d))\<^sup>2"
  have "populate_chunk_distances (post_load_pq_table junk t) q ! (256 * c + code ! c) =
      (\<Sum>d = pt_offsets t ! c..<pt_offsets t ! Suc c. ?g d)" if c: "c < pt_chunks t" for c
    unfolding populate_nth [of c "post_load_pq_table junk t", simplified, OF c code_nth [OF code c]]
    by (intro sum.cong refl)
      (auto simp: table_T_nth [OF junk code_nth [OF code c] chunk_dim [OF ok c]] decode_nth [OF ok c])
  then have "(\<Sum>c < pt_chunks t. populate_chunk_distances (post_load_pq_table junk t) q ! (256 * c + code ! c)) =
      (\<Sum>c < pt_chunks t. \<Sum>d = pt_offsets t ! c..<pt_offsets t ! Suc c. ?g d)"
    by (intro sum.cong) auto
  then show ?thesis
    unfolding sum_chunks [OF ok] by (simp add: pq_dist_def sq_err_def sum_negf)
qed

lemma all_to_all_sum:
  assumes ok: "pq_table_ok t" and a: "code_ok t a" and b: "code_ok t b"
  shows "(\<Sum>c < pt_chunks t. pt_all (post_load_pq_table junk t) !
      (a ! c * 256 * pt_chunks t + b ! c * pt_chunks t + c)) =
    (\<Sum>d < pt_ndims t. if pt_metric t = INNER_PRODUCT then - (pq_decode t a ! d * pq_decode t b ! d)
      else (pq_decode t a ! d - pq_decode t b ! d)\<^sup>2)"
proof -
  let ?g = "\<lambda>d. if pt_metric t = INNER_PRODUCT then - (pq_decode t a ! d * pq_decode t b ! d)
      else (pq_decode t a ! d - pq_decode t b ! d)\<^sup>2"
  have "pt_all (post_load_pq_table junk t) ! (a ! c * 256 * pt_chunks t + b ! c * pt_chunks t + c) =
      (\<Sum>d = pt_offsets t ! c..<pt_offsets t ! Suc c. ?g d)" if c: "c < pt_chunks t" for c
    unfolding all_loaded all_to_all_def
      pair_sums [OF code_nth [OF a c] code_nth [OF b c] c, where lo = "\<lambda>c. pt_offsets t ! c" and hi = "\<lambda>c. pt_offsets t ! (c + 1)"]
    by (intro sum.cong) (auto simp: decode_nth [OF ok c])
  then have "(\<Sum>c < pt_chunks t. pt_all (post_load_pq_table junk t) !
      (a ! c * 256 * pt_chunks t + b ! c * pt_chunks t + c)) =
      (\<Sum>c < pt_chunks t. \<Sum>d = pt_offsets t ! c..<pt_offsets t ! Suc c. ?g d)"
    by (intro sum.cong) auto
  then show ?thesis unfolding sum_chunks [OF ok] .
qed

subsection \<open>The nearest code\<close>

lemma fold_argmin:
  fixes f :: "nat \<Rightarrow> rat"
  assumes "fold (\<lambda>i (best, code). if f i < best then (f i, i) else (best, code)) xs (b0, k0) = (b, k)"
  shows "b \<le> b0 \<and> (\<forall>i \<in> set xs. b \<le> f i) \<and> (b = b0 \<and> k = k0 \<or> k \<in> set xs \<and> b = f k)"
  using assms
proof (induction xs arbitrary: b0 k0)
  case (Cons x xs)
  then show ?case
    by (cases "f x < b0") (fastforce dest: Cons.IH)+
qed simp

lemma closest_center_min:
  assumes "j < 256" "chunk_dist t v c j < float_max"
  shows "closest_center t v c out < 256 \<and>
    (\<forall>i < 256. chunk_dist t v c (closest_center t v c out) \<le> chunk_dist t v c i)"
proof -
  obtain b k where f: "fold (\<lambda>i (best, code). if chunk_dist t v c i < best then (chunk_dist t v c i, i) else (best, code))
      [0..<256] (float_max, out) = (b, k)" (is "?F = _")
    by (cases ?F)
  from fold_argmin [OF f] have "(\<forall>i \<in> set [0..<256]. b \<le> chunk_dist t v c i)"
    and k: "b = float_max \<and> k = out \<or> k \<in> set [0..<256] \<and> b = chunk_dist t v c k"
    by blast+
  then have le: "\<forall>i < 256. b \<le> chunk_dist t v c i" unfolding set_upt by simp
  then have "b < float_max" using assms by fastforce
  then have "k < 256 \<and> b = chunk_dist t v c k" using k unfolding set_upt by auto
  moreover have "closest_center t v c out = k" unfolding closest_center_def f by simp
  ultimately show ?thesis using le by simp
qed

lemma deflate_nth:
  assumes "c < pt_chunks t" "pt_chunks t \<le> length out"
  shows "deflate_vec t v out ! c = closest_center t v c (out ! c)" "length (deflate_vec t v out) = length out"
proof -
  have "length (loop 0 n (\<lambda>c out. out[c := closest_center t v c (out ! c)]) out) = length out \<and>
    (\<forall>c < length out. loop 0 n (\<lambda>c out. out[c := closest_center t v c (out ! c)]) out ! c =
      (if c < n then closest_center t v c (out ! c) else out ! c))" for n
    by (induction n) (auto simp: nth_list_update less_Suc_eq)
  from this [of "pt_chunks t"] show "deflate_vec t v out ! c = closest_center t v c (out ! c)"
    "length (deflate_vec t v out) = length out"
    using assms by (auto simp: deflate_vec_def)
qed

lemma chunk_dist_decode:
  assumes "pq_table_ok t" "c < pt_chunks t"
  shows "chunk_dist t v c (code ! c) =
    (\<Sum>d = pt_offsets t ! c..<pt_offsets t ! Suc c. (pq_decode t code ! d - (v ! d - pt_centroid t ! d))\<^sup>2)"
proof -
  have "chunk_dist t v c (code ! c) = (\<Sum>d = pt_offsets t ! c..<pt_offsets t ! Suc c.
      (pt_tables t ! (code ! c * pt_ndims t + d) - (v ! d - pt_centroid t ! d))\<^sup>2)"
    using loop_sum [where z = 0] by (simp add: chunk_dist_def)
  also have "\<dots> = (\<Sum>d = pt_offsets t ! c..<pt_offsets t ! Suc c.
      (pq_decode t code ! d - (v ! d - pt_centroid t ! d))\<^sup>2)"
    by (rule sum.cong) (simp_all add: decode_nth [OF assms])
  finally show ?thesis .
qed

lemma sq_err_chunks:
  "pq_table_ok t \<Longrightarrow> sq_err t v code = (\<Sum>c < pt_chunks t. chunk_dist t v c (code ! c))"
  by (simp add: sq_err_def sum_chunks [symmetric] chunk_dist_decode)

text \<open> C30. The code that \<open>deflate_vec\<close> stores for a vector is a code of the table, and among all
  codes it stands for a vector at the least distance from the (centered) vector, as long as no
  distance reaches the largest float.\<close>

theorem deflate_nearest:
  assumes "pq_table_ok t" "length out = pt_chunks t"
    and "\<forall>c < pt_chunks t. \<exists>i < 256. chunk_dist t v c i < float_max"
  shows "code_ok t (deflate_vec t v out) \<and>
    (\<forall>code. code_ok t code \<longrightarrow> sq_err t v (deflate_vec t v out) \<le> sq_err t v code)"
proof -
  let ?d = "deflate_vec t v out"
  have nth: "?d ! c = closest_center t v c (out ! c)" if "c < pt_chunks t" for c
    using deflate_nth(1) [OF that, of out] assms(2) by simp
  have best: "?d ! c < 256 \<and> (\<forall>i < 256. chunk_dist t v c (?d ! c) \<le> chunk_dist t v c i)" if "c < pt_chunks t" for c
    unfolding nth [OF that] using assms(3) that by (meson closest_center_min)
  have "length ?d = pt_chunks t"
    using deflate_nth(2) [of 0 t out] assms(2) by (cases "pt_chunks t") (auto simp: deflate_vec_def)
  then have "code_ok t ?d" using best by (auto simp: code_ok_def in_set_conv_nth)
  moreover have "sq_err t v ?d \<le> sq_err t v code" if "code_ok t code" for code
    unfolding sq_err_chunks [OF assms(1)] using best code_nth [OF that] by (intro sum_mono) simp
  ultimately show ?thesis by blast
qed

definition tiny_table :: pq_table where
  "tiny_table = \<lparr>pt_tables = 3 # replicate 255 7, pt_centroid = [1], pt_offsets = [0, 1], pt_tables_T = [], pt_all = [],
     pt_metric = L2, pt_ndims = 1, pt_chunks = 1\<rparr>"

theorem deflate_nearest_witness:
  "code_ok tiny_table (deflate_vec tiny_table [5] [9]) \<and>
   sq_err tiny_table [5] (deflate_vec tiny_table [5] [9]) \<le> sq_err tiny_table [5] [0]"
proof -
  have "chunk_dist tiny_table [5] 0 0 < float_max"
    by (simp add: chunk_dist_def tiny_table_def float_max_def)
  then have "code_ok tiny_table (deflate_vec tiny_table [5] [9]) \<and>
      (\<forall>code. code_ok tiny_table code \<longrightarrow> sq_err tiny_table [5] (deflate_vec tiny_table [5] [9]) \<le> sq_err tiny_table [5] code)"
    by (intro deflate_nearest) (auto simp: pq_table_ok_def tiny_table_def intro!: exI [of _ 0])
  then show ?thesis by (auto simp: code_ok_def tiny_table_def)
qed

end
