(* ===== verification/PqNeighbor.thy ===== *)
theory PqNeighbor
  imports PqDistance
begin

text \<open>
  The store of compressed vectors, \<open>PQNeighbor\<close> of \<open>PipeANN/include/nbr/pq_nbr.h\<close>: one code of
  \<open>n_chunks\<close> bytes for each id, in one growing array. Reading a code that the array does not hold is
  undefined in the code; the models read what is there. The reader/writer mutex around the
  operations is modelled in \<open>ReaderOptMutex\<close>.
\<close>

record pq_nbr =
  pn_npoints :: nat
  pn_data :: "nat list"
  pn_table :: pq_table

text \<open>\<open>memcpy(out + p, seg, size)\<close>\<close>

definition copy_at :: "nat \<Rightarrow> nat list \<Rightarrow> nat list \<Rightarrow> nat list" where
  "copy_at p seg out = take p out @ seg @ drop (p + length seg) out"

definition aggregate_coords :: "nat list \<Rightarrow> nat \<Rightarrow> nat list \<Rightarrow> nat \<Rightarrow> nat list \<Rightarrow> nat list" where
  "aggregate_coords ids n_ids all_coords ndims out =
     loop 0 n_ids (\<lambda>i. copy_at (i * ndims) (take ndims (drop (ids ! i * ndims) all_coords))) out"

definition pq_dist_lookup :: "nat list \<Rightarrow> nat \<Rightarrow> nat \<Rightarrow> rat list \<Rightarrow> rat list" where
  "pq_dist_lookup pq_ids n_pts pq_nchunks pq_dists =
     loop 0 pq_nchunks (\<lambda>chunk. loop 0 n_pts (\<lambda>idx.
       add_at idx (pq_dists ! (256 * chunk + pq_ids ! (pq_nchunks * idx + chunk)))))
       (replicate n_pts 0)"

definition initialize_query :: "pq_nbr \<Rightarrow> rat list \<Rightarrow> rat list" where
  "initialize_query nb q = populate_chunk_distances (pn_table nb) q"

definition compute_dists :: "pq_nbr \<Rightarrow> rat list \<Rightarrow> nat list \<Rightarrow> nat list \<Rightarrow> rat list" where
  "compute_dists nb ctx scratch ids =
     (let coords = aggregate_coords ids (length ids) (pn_data nb) (pt_chunks (pn_table nb)) scratch
      in pq_dist_lookup coords (length ids) (pt_chunks (pn_table nb)) ctx)"

definition compute_dists_of :: "pq_nbr \<Rightarrow> nat \<Rightarrow> nat list \<Rightarrow> nat list \<Rightarrow> rat list" where
  "compute_dists_of nb query_id scratch ids =
     (let src = drop (pt_chunks (pn_table nb) * query_id) (pn_data nb);
          coords = aggregate_coords ids (length ids) (pn_data nb) (pt_chunks (pn_table nb)) scratch
      in compute_distances_alltoall (pn_table nb) src coords (length ids))"

text \<open>\<open>resize(n)\<close> of a vector of bytes.\<close>

definition resized :: "nat \<Rightarrow> nat list \<Rightarrow> nat list" where
  "resized n xs = take n xs @ replicate (n - length xs) 0"

definition nbr_insert :: "pq_nbr \<Rightarrow> rat list \<Rightarrow> nat \<Rightarrow> pq_nbr" where
  "nbr_insert nb point loc =
     (let n = pt_chunks (pn_table nb);
          pq_coords = deflate_vec (pn_table nb) point (replicate n 0);
          pq_offset = loc * n;
          data = (if length (pn_data nb) < pq_offset + n then resized (3 * (pq_offset + n) div 2) (pn_data nb)
                  else pn_data nb)
      in nb\<lparr>pn_data := copy_at pq_offset pq_coords data,
            pn_npoints := max (pn_npoints nb) ((loc + 1) mod 2 ^ 32)\<rparr>)"

text \<open>The move leaves null pointers behind.\<close>

definition moved_from :: "pq_table \<Rightarrow> pq_table" where
  "moved_from t = t\<lparr>pt_tables := [], pt_tables_T := [], pt_offsets := [], pt_centroid := [], pt_all := []\<rparr>"

text \<open>
  The reordered copy and what is left of the old store; \<open>None\<close>: \<open>find\<close> throws for a new id that
  has no old one.
\<close>

definition shuffle_nbrs :: "pq_nbr \<Rightarrow> (nat \<rightharpoonup> nat) \<Rightarrow> nat \<Rightarrow> (pq_nbr \<times> pq_nbr) option" where
  "shuffle_nbrs nb rev_id_map new_npoints = do {
     ids \<leftarrow> those (map rev_id_map [0..<new_npoints]);
     let n = pt_chunks (pn_table nb);
     let data = aggregate_coords ids new_npoints (pn_data nb) n (replicate (new_npoints * n) 0);
     Some (\<lparr>pn_npoints = new_npoints, pn_data = data, pn_table = pn_table nb\<rparr>,
           nb\<lparr>pn_table := moved_from (pn_table nb)\<rparr>)
   }"

subsection \<open>The two files of a store\<close>

text \<open>\<open>enc\<close> gives the bit pattern of a float.\<close>

definition nbr_save :: "(rat \<Rightarrow> nat) \<Rightarrow> pq_nbr \<Rightarrow> bytes \<Rightarrow> bytes \<Rightarrow> bytes \<times> bytes" where
  "nbr_save enc nb compressed pivots =
     (let t = pn_table nb
      in (snd (save_bin 1 compressed (pn_data nb) (pn_npoints nb) (pt_chunks t) 0),
          save_pq_pivots pivots \<lparr>pf_tables = map enc (pt_tables t), pf_centroid = map enc (pt_centroid t),
            pf_offsets = pt_offsets t, pf_ndims = pt_ndims t, pf_chunks = pt_chunks t\<rparr>))"

definition nbr_load :: "(nat \<Rightarrow> rat) \<Rightarrow> rat list \<Rightarrow> metric \<Rightarrow> bytes \<Rightarrow> bytes \<Rightarrow> pq_nbr option" where
  "nbr_load fl junk m compressed pivots = do {
     (data, npts, nchunks) \<leftarrow> load_bin 1 compressed 0;
     t \<leftarrow> load_pq_centroid_bin fl junk m pivots nchunks 0;
     Some \<lparr>pn_npoints = npts, pn_data = data, pn_table = t\<rparr>
   }"

subsection \<open>Chunks\<close>

text \<open>How \<open>generate_pq_pivots\<close> cuts \<open>d\<close> dimensions into \<open>n\<close> chunks; the quotients of doubles are
  exact for 32-bit integers.\<close>

definition pq_chunk_offsets :: "nat \<Rightarrow> nat \<Rightarrow> nat list" where
  "pq_chunk_offsets d n =
     (let low_val = d div n; high_val = (d + n - 1) div n; max_num_high = d - low_val * n
      in loop 0 n (\<lambda>b offs. offs @ [offs ! b + (if b < max_num_high then high_val else low_val)]) [0])"

lemma pq_chunk_offsets_eq:
  assumes "0 < n"
  shows "pq_chunk_offsets d n = map (\<lambda>b. b * (d div n) + min b (d mod n)) [0..<Suc n]"
proof -
  define low where "low = d div n"
  define r where "r = d mod n"
  have d: "d = low * n + r" by (simp add: low_def r_def)
  have r: "r < n" using assms by (simp add: r_def)
  have high: "(d + n - 1) div n = low + (if r = 0 then 0 else 1)"
  proof (cases "r = 0")
    case True
    then have "d + n - 1 = (n - 1) + low * n" using d assms by simp
    then have "(d + n - 1) div n = low + (n - 1) div n"
      using div_mult_self1 [of n "n - 1" low] assms by (simp only: neq0_conv)
    then show ?thesis using assms True by simp
  next
    case False
    then have "d + n - 1 = (r - 1) + (low + 1) * n" using d assms by (simp add: algebra_simps)
    then have "(d + n - 1) div n = (low + 1) + (r - 1) div n"
      using div_mult_self1 [of n "r - 1" "low + 1"] assms by (simp only: neq0_conv)
    then show ?thesis using r False by simp
  qed
  have size: "(if b < d - low * n then (d + n - 1) div n else low) = (if b < r then low + 1 else low)" for b
    unfolding high using d by simp
  let ?f = "\<lambda>b. b * low + min b r"
  have "loop 0 k (\<lambda>b offs. offs @ [offs ! b + (if b < r then low + 1 else low)]) [0] = map ?f [0..<Suc k]" for k
  proof (induction k)
    case (Suc k)
    have "map ?f [0..<Suc k] ! k = ?f k" by (simp del: upt_Suc)
    moreover have "map ?f [0..<Suc (Suc k)] = map ?f [0..<Suc k] @ [?f (Suc k)]" by simp
    moreover have "?f (Suc k) = ?f k + (if k < r then low + 1 else low)" by simp
    ultimately show ?case using Suc by (simp del: upt_Suc add: upt_Suc [of 0 k])
  qed simp
  then have "loop 0 n (\<lambda>b offs. offs @ [offs ! b + (if b < d - low * n then (d + n - 1) div n else low)]) [0] =
      map ?f [0..<Suc n]"
    unfolding size .
  then show ?thesis by (simp only: pq_chunk_offsets_def Let_def low_def [symmetric] r_def [symmetric])
qed

text \<open> The chunks of \<open>generate_pq_pivots\<close> cut the dimensions into \<open>n\<close> non-empty intervals, in
  order, without gaps, whose sizes differ by one at most, larger ones first; so a table with these
  offsets is well-formed.\<close>

theorem chunk_offsets_cover:
  assumes "0 < n" "n \<le> d" "offs = pq_chunk_offsets d n"
  shows "length offs = n + 1 \<and> offs ! 0 = 0 \<and> offs ! n = d \<and>
    (\<forall>b < n. offs ! Suc b = offs ! b + (if b < d mod n then d div n + 1 else d div n)) \<and>
    sorted_wrt (<) offs \<and> (pt_offsets t = offs \<and> pt_chunks t = n \<and> pt_ndims t = d \<longrightarrow> pq_table_ok t)"
proof -
  have offs: "offs = map (\<lambda>b. b * (d div n) + min b (d mod n)) [0..<Suc n]"
    using assms(1,3) by (simp only: pq_chunk_offsets_eq)
  have nth: "offs ! b = b * (d div n) + min b (d mod n)" if "b \<le> n" for b
    using that by (simp add: offs del: upt_Suc)
  have len: "length offs = n + 1" by (simp add: offs)
  have last: "offs ! n = d" using assms(1) by (simp add: nth)
  have step: "offs ! Suc b = offs ! b + (if b < d mod n then d div n + 1 else d div n)" if "b < n" for b
    using that by (simp add: nth)
  have "0 < d div n" using assms(1,2) by (simp add: div_greater_zero_iff)
  then have "offs ! i < offs ! j" if "i < j" "j \<le> n" for i j
    using that by (simp add: nth add_less_le_mono mult_less_mono1 min.coboundedI1)
  then have sw: "sorted_wrt (<) offs" by (auto simp: sorted_wrt_iff_nth_less len)
  moreover have "sorted offs" using sw strict_sorted_imp_sorted by blast
  ultimately show ?thesis
    using len last step nth [of 0] by (auto simp: pq_table_ok_def)
qed

theorem chunk_offsets_cover_witness:
  "pq_chunk_offsets 10 4 ! 4 = 10 \<and> sorted_wrt (<) (pq_chunk_offsets 10 4)"
  using chunk_offsets_cover [of 4 10 "pq_chunk_offsets 10 4" tiny_table] by simp

subsection \<open>Gathering codes\<close>

definition code_at :: "pq_nbr \<Rightarrow> nat \<Rightarrow> nat list" where
  "code_at nb i = take (pt_chunks (pn_table nb)) (drop (i * pt_chunks (pn_table nb)) (pn_data nb))"

definition stored :: "pq_nbr \<Rightarrow> nat \<Rightarrow> bool" where
  "stored nb i \<longleftrightarrow> Suc i * pt_chunks (pn_table nb) \<le> length (pn_data nb)"

definition nbr_ok :: "pq_nbr \<Rightarrow> bool" where
  "nbr_ok nb \<longleftrightarrow> pq_table_ok (pn_table nb) \<and> (\<forall>x \<in> set (pn_data nb). x < 256) \<and>
     pn_npoints nb * pt_chunks (pn_table nb) \<le> length (pn_data nb)"

lemma copy_at_nth:
  assumes "p + length seg \<le> length out" "k < length out"
  shows "copy_at p seg out ! k = (if p \<le> k \<and> k < p + length seg then seg ! (k - p) else out ! k)"
  using assms by (auto simp: copy_at_def nth_append)

lemma length_copy_at [simp]: "p + length seg \<le> length out \<Longrightarrow> length (copy_at p seg out) = length out"
  by (simp add: copy_at_def)

lemma row_disjoint: "i < j \<Longrightarrow> c < n \<Longrightarrow> i * n + c < j * (n :: nat)"
  using mult_le_mono1 [of "Suc i" j n] by simp

lemma gather_nth:
  assumes "m * n \<le> length out" "\<forall>i < m. Suc (ids ! i) * n \<le> length all"
  shows "length (aggregate_coords ids m all n out) = length out \<and>
    (\<forall>i < m. \<forall>c < n. aggregate_coords ids m all n out ! (i * n + c) = all ! (ids ! i * n + c))"
  using assms
proof (induction m)
  case (Suc m)
  let ?f = "aggregate_coords ids m all n out"
  let ?seg = "take n (drop (ids ! m * n) all)"
  have IH: "length ?f = length out" "\<forall>i < m. \<forall>c < n. ?f ! (i * n + c) = all ! (ids ! i * n + c)"
    using Suc by auto
  have seg: "length ?seg = n" using Suc.prems(2) by (auto dest!: spec [of _ m])
  have step: "aggregate_coords ids (Suc m) all n out = copy_at (m * n) ?seg ?f"
    by (simp add: aggregate_coords_def)
  have fits: "m * n + length ?seg \<le> length ?f" using Suc.prems(1) IH(1) seg by simp
  have "copy_at (m * n) ?seg ?f ! (i * n + c) = all ! (ids ! i * n + c)" if "i < Suc m" "c < n" for i c
  proof (cases "i = m")
    case True
    have "ids ! m * n + c < length all" using Suc.prems(2) that(2) by (auto dest!: spec [of _ m])
    then show ?thesis
      using True that(2) seg fits copy_at_nth [OF fits, of "m * n + c"] by simp
  next
    case False
    then have "i < m" using that(1) by simp
    then have "i * n + c < m * n" using that(2) by (rule row_disjoint)
    then show ?thesis
      using IH(2) \<open>i < m\<close> that(2) fits copy_at_nth [OF fits, of "i * n + c"] by simp
  qed
  then show ?case unfolding step using fits IH(1) by simp
qed (simp add: aggregate_coords_def)

lemma lookup_adds:
  "adds (loop 0 n (\<lambda>chunk. loop 0 m (\<lambda>idx. add_at idx (ds ! (256 * chunk + ids ! (n * idx + chunk))))))
    (\<lambda>p. \<Sum>chunk = 0..<n. \<Sum>idx = 0..<m. if p = idx then ds ! (256 * chunk + ids ! (n * idx + chunk)) else 0)"
  by (intro adds_loop adds_add_at)

lemma length_lookup [simp]: "length (pq_dist_lookup ids m n ds) = m"
  using lookup_adds [where n = n and m = m and ds = ds and ids = ids] by (simp add: pq_dist_lookup_def adds_def)

lemma lookup_nth:
  "k < m \<Longrightarrow> pq_dist_lookup ids m n ds ! k = (\<Sum>c < n. ds ! (256 * c + ids ! (n * k + c)))"
  using adds_zero [OF lookup_adds [where n = n and m = m and ds = ds and ids = ids], where p = k and n = m]
  by (simp add: pq_dist_lookup_def sum.delta atLeast0LessThan)

abbreviation pair_entry :: "pq_table \<Rightarrow> nat list \<Rightarrow> nat list \<Rightarrow> nat \<Rightarrow> nat \<Rightarrow> rat" where
  "pair_entry t src dsts i c \<equiv>
     pt_all t ! (src ! c * 256 * pt_chunks t + dsts ! (i * pt_chunks t + c) * pt_chunks t + c)"

lemma alltoall_adds:
  "adds (loop 0 m (\<lambda>i. loop 0 (pt_chunks t) (\<lambda>c. add_at i (pair_entry t src dsts i c))))
    (\<lambda>p. \<Sum>i = 0..<m. \<Sum>c = 0..<pt_chunks t. if p = i then pair_entry t src dsts i c else 0)"
  by (intro adds_loop adds_add_at)

lemma length_alltoall [simp]: "length (compute_distances_alltoall t src dsts m) = m"
  using alltoall_adds [where m = m and t = t and src = src and dsts = dsts] by (simp add: compute_distances_alltoall_def adds_def)

lemma alltoall_nth:
  assumes "k < m"
  shows "compute_distances_alltoall t src dsts m ! k = (\<Sum>c < pt_chunks t. pair_entry t src dsts k c)"
proof -
  have "compute_distances_alltoall t src dsts m ! k =
      (\<Sum>i = 0..<m. \<Sum>c = 0..<pt_chunks t. if k = i then pair_entry t src dsts i c else 0)"
    using adds_zero [OF alltoall_adds [where m = m and t = t and src = src and dsts = dsts], where p = k and n = m] assms
    by (simp add: compute_distances_alltoall_def)
  also have "\<dots> = (\<Sum>i = 0..<m. if k = i then \<Sum>c = 0..<pt_chunks t. pair_entry t src dsts k c else 0)"
    by (rule sum.cong) auto
  finally show ?thesis
    using assms by (simp add: sum.delta' atLeast0LessThan)
qed

lemma code_at_nth:
  "stored nb i \<Longrightarrow> c < pt_chunks (pn_table nb) \<Longrightarrow>
    code_at nb i ! c = pn_data nb ! (i * pt_chunks (pn_table nb) + c)"
  by (simp add: code_at_def stored_def)

lemma code_at_ok:
  assumes "stored nb i" "\<forall>x \<in> set (pn_data nb). x < 256" "pt_chunks t = pt_chunks (pn_table nb)"
  shows "code_ok t (code_at nb i)"
  using assms by (auto simp: code_ok_def code_at_def stored_def dest!: in_set_takeD in_set_dropD)

text \<open>A store whose table was loaded: the derived arrays were filled by \<open>post_load_pq_table\<close>.\<close>

definition loaded :: "pq_table \<Rightarrow> pq_nbr \<Rightarrow> bool" where
  "loaded t nb \<longleftrightarrow> pq_table_ok t \<and> (\<exists>junk. pt_ndims t * 256 \<le> length junk \<and> pn_table nb = post_load_pq_table junk t) \<and>
     (\<forall>x \<in> set (pn_data nb). x < 256)"

lemma gathered_nth:
  assumes "\<forall>i \<in> set ids. stored nb i" "length ids * pt_chunks (pn_table nb) \<le> length scratch"
    "k < length ids" "c < pt_chunks (pn_table nb)"
  shows "aggregate_coords ids (length ids) (pn_data nb) (pt_chunks (pn_table nb)) scratch !
    (k * pt_chunks (pn_table nb) + c) = code_at nb (ids ! k) ! c"
  using gather_nth [of "length ids" "pt_chunks (pn_table nb)" scratch ids "pn_data nb"] assms code_at_nth [of nb "ids ! k" c]
  by (simp add: stored_def)

text \<open> C15. \<open>initialize_query\<close> and \<open>compute_dists\<close> together give, for each id, the exact distance of the
  query to the vector its code stands for: the inner product negated, or the squared distance to the
  centered query. The scratch space is large enough when it holds one code for each id.\<close>

theorem compute_dists_decodes:
  assumes "loaded t nb" "\<forall>i \<in> set ids. stored nb i" "length ids * pt_chunks t \<le> length scratch"
  shows "compute_dists nb (initialize_query nb q) scratch ids = map (\<lambda>i. pq_dist t q (code_at nb i)) ids"
proof (rule nth_equalityI)
  obtain junk where junk: "pt_ndims t * 256 \<le> length junk" "pn_table nb = post_load_pq_table junk t"
    and ok: "pq_table_ok t" "\<forall>x \<in> set (pn_data nb). x < 256"
    using assms(1) unfolding loaded_def by blast
  have n: "pt_chunks (pn_table nb) = pt_chunks t" by (simp add: junk)
  show "length (compute_dists nb (initialize_query nb q) scratch ids) =
      length (map (\<lambda>i. pq_dist t q (code_at nb i)) ids)"
    by (simp add: compute_dists_def)
  fix k assume "k < length (compute_dists nb (initialize_query nb q) scratch ids)"
  then have k: "k < length ids"
    by (simp add: compute_dists_def)
  have "code_ok t (code_at nb (ids ! k))"
    using assms(2) k ok n by (intro code_at_ok) auto
  from lookup_sum [OF ok(1) this junk(1), of q]
  show "compute_dists nb (initialize_query nb q) scratch ids ! k = map (\<lambda>i. pq_dist t q (code_at nb i)) ids ! k"
    using k gathered_nth [OF assms(2) _ k] assms(3)
    by (simp add: compute_dists_def initialize_query_def lookup_nth n junk(2) [symmetric] mult.commute [of "pt_chunks t"])
qed

definition tiny_nbrs :: pq_nbr where
  "tiny_nbrs = \<lparr>pn_npoints = 2, pn_data = [0, 1], pn_table = post_load_pq_table (replicate 256 0) tiny_table\<rparr>"

lemma tiny_loaded: "loaded tiny_table tiny_nbrs"
  by (auto simp: loaded_def tiny_nbrs_def tiny_table_def pq_table_ok_def intro!: exI [of _ "replicate 256 0"])

lemma tiny_stored: "stored tiny_nbrs 0" "stored tiny_nbrs 1"
  by (simp_all add: stored_def tiny_nbrs_def tiny_table_def)

lemma tiny_code: "code_at tiny_nbrs (Suc 0) = [1]"
  by (simp add: code_at_def tiny_nbrs_def tiny_table_def)

theorem compute_dists_decodes_witness:
  "compute_dists tiny_nbrs (initialize_query tiny_nbrs [5]) [9, 9] [1, 0] = [9, 1]"
  by (subst compute_dists_decodes [OF tiny_loaded])
    (simp_all add: tiny_stored tiny_stored(2) [simplified], simp_all add: tiny_table_def tiny_nbrs_def pq_dist_def sq_err_def pq_decode_def
      code_at_def chunk_of_def)

text \<open> \<open>compute_dists\<close> of a stored id against others uses the table of all pairs of centers, and
  gives the distance of the two decoded vectors.\<close>

theorem compute_dists_of_decodes:
  assumes "loaded t nb" "\<forall>i \<in> set (j # ids). stored nb i" "length ids * pt_chunks t \<le> length scratch"
  shows "compute_dists_of nb j scratch ids = map (\<lambda>i. \<Sum>d < pt_ndims t.
    if pt_metric t = INNER_PRODUCT then - (pq_decode t (code_at nb j) ! d * pq_decode t (code_at nb i) ! d)
    else (pq_decode t (code_at nb j) ! d - pq_decode t (code_at nb i) ! d)\<^sup>2) ids"
proof (rule nth_equalityI)
  obtain junk where junk: "pn_table nb = post_load_pq_table junk t"
    and ok: "pq_table_ok t" "\<forall>x \<in> set (pn_data nb). x < 256"
    using assms(1) unfolding loaded_def by blast
  have n: "pt_chunks (pn_table nb) = pt_chunks t" by (simp add: junk)
  show len: "length (compute_dists_of nb j scratch ids) = length (map (\<lambda>i. \<Sum>d < pt_ndims t.
    if pt_metric t = INNER_PRODUCT then - (pq_decode t (code_at nb j) ! d * pq_decode t (code_at nb i) ! d)
    else (pq_decode t (code_at nb j) ! d - pq_decode t (code_at nb i) ! d)\<^sup>2) ids)"
    by (simp add: compute_dists_of_def)
  fix k assume "k < length (compute_dists_of nb j scratch ids)"
  then have k: "k < length ids" using len by simp
  have i: "stored nb (ids ! k)" and j: "stored nb j" using assms(2) k by auto
  have src: "drop (pt_chunks t * j) (pn_data nb) ! c = code_at nb j ! c" if "c < pt_chunks t" for c
    using that j n by (simp add: code_at_nth stored_def mult.commute)
  show "compute_dists_of nb j scratch ids ! k = map (\<lambda>i. \<Sum>d < pt_ndims t.
    if pt_metric t = INNER_PRODUCT then - (pq_decode t (code_at nb j) ! d * pq_decode t (code_at nb i) ! d)
    else (pq_decode t (code_at nb j) ! d - pq_decode t (code_at nb i) ! d)\<^sup>2) ids ! k"
    using k gathered_nth [of ids nb scratch k] assms(2,3) src
      all_to_all_sum [OF ok(1) code_at_ok [OF j ok(2) n [symmetric]] code_at_ok [OF i ok(2) n [symmetric]], of junk]
    by (simp add: compute_dists_of_def alltoall_nth n junk)
qed

theorem compute_dists_of_decodes_witness: "compute_dists_of tiny_nbrs 1 [9, 9] [0, 1] = [16, 0]"
  by (subst compute_dists_of_decodes [OF tiny_loaded])
    (simp_all add: tiny_stored tiny_stored(2) [simplified], simp_all add: tiny_table_def tiny_nbrs_def pq_decode_def code_at_def chunk_of_def)

subsection \<open>Insertion\<close>

lemma closest_center_lt: "out < 256 \<Longrightarrow> closest_center t v c out < 256"
proof -
  assume out: "out < 256"
  obtain b k where f: "fold (\<lambda>i (best, code). if chunk_dist t v c i < best then (chunk_dist t v c i, i) else (best, code))
      [0..<256] (float_max, out) = (b, k)" (is "?F = _")
    by (cases ?F)
  have "k = out \<or> k \<in> set [0..<256]" using fold_argmin [OF f] by blast
  then have "k < 256" using out unfolding set_upt by auto
  then show ?thesis unfolding closest_center_def f by simp
qed

lemma length_deflate [simp]: "length (deflate_vec t v out) = length out"
proof -
  have "length (loop 0 n (\<lambda>c out. out[c := closest_center t v c (out ! c)]) out) = length out" for n
    by (induction n) auto
  then show ?thesis by (simp add: deflate_vec_def)
qed

lemma deflate_lt: "\<forall>x \<in> set (deflate_vec t v (replicate (pt_chunks t) 0)). x < 256"
  by (auto simp: in_set_conv_nth deflate_nth(1) closest_center_lt)

lemma resized_nth [simp]: "k < length xs \<Longrightarrow> length xs \<le> n \<Longrightarrow> resized n xs ! k = xs ! k"
  by (simp add: resized_def nth_append)

lemma length_resized [simp]: "length (resized n xs) = n"
  by (simp add: resized_def)

lemma set_resized: "set (resized n xs) \<subseteq> insert 0 (set xs)"
  by (auto simp: resized_def dest: in_set_takeD)

lemma set_copy_at: "set (copy_at p seg out) \<subseteq> set seg \<union> set out"
  by (auto simp: copy_at_def dest: in_set_takeD in_set_dropD)

text \<open> \<open>insert\<close> keeps the store well-formed, growing the array where needed; the new id then has
  the nearest code of its point and every other stored id keeps its code. The count of points covers
  the new id, except that for the id \<open>2 ^ 32 - 1\<close> the sum \<open>loc + 1\<close> wraps to zero.\<close>

theorem nbr_insert_stores:
  assumes "nbr_ok nb" "loc < 2 ^ 32" "nb' = nbr_insert nb point loc"
  shows "nbr_ok nb' \<and> stored nb' loc \<and>
    code_at nb' loc = deflate_vec (pn_table nb) point (replicate (pt_chunks (pn_table nb)) 0) \<and>
    (\<forall>i. stored nb i \<and> i \<noteq> loc \<longrightarrow> stored nb' i \<and> code_at nb' i = code_at nb i) \<and>
    pn_npoints nb' = (if loc = 2 ^ 32 - 1 then pn_npoints nb else max (pn_npoints nb) (loc + 1))"
proof -
  define n where "n = pt_chunks (pn_table nb)"
  define code where "code = deflate_vec (pn_table nb) point (replicate n 0)"
  define data where "data = (if length (pn_data nb) < loc * n + n then resized (3 * (loc * n + n) div 2) (pn_data nb)
    else pn_data nb)"
  have nb': "nb' = nb\<lparr>pn_data := copy_at (loc * n) code data, pn_npoints := max (pn_npoints nb) ((loc + 1) mod 2 ^ 32)\<rparr>"
    unfolding assms(3) nbr_insert_def Let_def n_def code_def data_def ..
  have len: "length code = n" by (simp add: code_def)
  have data: "loc * n + n \<le> length data" "length (pn_data nb) \<le> length data"
    "\<And>k. k < length (pn_data nb) \<Longrightarrow> data ! k = pn_data nb ! k"
    by (auto simp: data_def)
  have lt: "\<forall>x \<in> set (copy_at (loc * n) code data). x < 256"
  proof -
    have "\<forall>x \<in> set code. x < 256" using deflate_lt [of "pn_table nb" point] by (simp add: code_def n_def)
    moreover have "\<forall>x \<in> set (pn_data nb). x < 256" using assms(1) by (simp add: nbr_ok_def)
    then have "\<forall>x \<in> set data. x < 256"
      unfolding data_def using set_resized [of "3 * (loc * n + n) div 2" "pn_data nb"] by (simp add: subset_iff) fastforce
    ultimately show ?thesis using set_copy_at [of "loc * n" code data] by blast
  qed
  have fits: "loc * n + length code \<le> length data" using data len by simp
  have chunks: "pt_chunks (pn_table nb') = n" "length (pn_data nb') = length data"
    using fits by (simp_all add: nb' n_def)
  have st: "stored nb' loc" using data by (simp add: stored_def chunks add.commute)
  have new: "code_at nb' loc = code"
    using fits len by (simp add: code_at_def chunks(1)) (simp add: nb' copy_at_def)
  have old: "stored nb' i \<and> code_at nb' i = code_at nb i" if "stored nb i" "i \<noteq> loc" for i
  proof -
    have s: "stored nb' i" using that(1) data(2) by (simp add: stored_def chunks n_def [symmetric])
    have "code_at nb' i ! c = code_at nb i ! c" if c: "c < n" for c
    proof -
      have k: "i * n + c < length (pn_data nb)" using \<open>stored nb i\<close> c by (simp add: stored_def n_def [symmetric])
      have "\<not> (loc * n \<le> i * n + c \<and> i * n + c < loc * n + n)"
        using row_disjoint [of i loc c n] row_disjoint [of loc "Suc i" 0 n] mult_le_mono1 [of "Suc loc" i n] c \<open>i \<noteq> loc\<close>
        by (cases i loc rule: linorder_cases) auto
      then show ?thesis
        using c k data len copy_at_nth [OF fits, of "i * n + c"]
          code_at_nth [OF s, of c] code_at_nth [OF \<open>stored nb i\<close>, of c] chunks
        by (auto simp: nb' n_def [symmetric])
    qed
    moreover have "length (code_at nb' i) = n" "length (code_at nb i) = n"
      using s \<open>stored nb i\<close> by (auto simp: code_at_def stored_def chunks n_def [symmetric])
    ultimately show ?thesis using s by (simp add: list_eq_iff_nth_eq)
  qed
  have np: "pn_npoints nb' = (if loc = 2 ^ 32 - 1 then pn_npoints nb else max (pn_npoints nb) (loc + 1))"
    using assms(2) by (auto simp: nb')
  have "(loc + 1) * n \<le> length data" using data(1) by (simp add: algebra_simps)
  then have "pn_npoints nb' * n \<le> length data"
    using assms(1) data(2) unfolding np by (auto simp: nbr_ok_def n_def [symmetric] max_def)
  then have "nbr_ok nb'" using lt assms(1) fits by (simp add: nbr_ok_def chunks) (simp add: nb')
  then show ?thesis using st new old np unfolding code_def n_def by blast
qed

theorem nbr_insert_stores_witness:
  "code_at (nbr_insert tiny_nbrs [4] 5) 1 = [1] \<and> pn_npoints (nbr_insert tiny_nbrs [4] 5) = 6"
proof -
  have "nbr_ok tiny_nbrs"
    by (simp add: nbr_ok_def tiny_nbrs_def tiny_table_def pq_table_ok_def)
  from nbr_insert_stores [OF this _ refl, of 5 "[4]"]
  have "code_at (nbr_insert tiny_nbrs [4] 5) 1 = code_at tiny_nbrs 1"
    "pn_npoints (nbr_insert tiny_nbrs [4] 5) = max (pn_npoints tiny_nbrs) 6"
    using tiny_stored by simp_all
  then show ?thesis by (simp add: tiny_code) (simp add: tiny_nbrs_def)
qed

subsection \<open>Reordering, saving and loading\<close>

lemma those_Some: "those (map f xs) = Some ys \<longleftrightarrow> map f xs = map Some ys"
  by (induction xs arbitrary: ys) (auto split: option.splits)

lemma those_None: "those (map f xs) = None \<longleftrightarrow> (\<exists>x \<in> set xs. f x = None)"
  by (induction xs) (auto split: option.splits)

text \<open> \<open>shuffle\<close> throws exactly when some new id has no old one; otherwise the code of each new id
  in the new store is that of its old id, the new store takes the table over and the old one loses it.\<close>

theorem shuffle_moves_codes:
  assumes "\<forall>i < m. \<forall>j. old_of i = Some j \<longrightarrow> stored nb j"
  shows "(shuffle_nbrs nb old_of m = None \<longleftrightarrow> (\<exists>i < m. old_of i = None)) \<and>
    (\<forall>nb' left. shuffle_nbrs nb old_of m = Some (nb', left) \<longrightarrow>
      pn_npoints nb' = m \<and> pn_table nb' = pn_table nb \<and> pt_tables (pn_table left) = [] \<and>
      (\<forall>i < m. stored nb' i \<and> code_at nb' i = code_at nb (the (old_of i))))"
proof -
  have none: "shuffle_nbrs nb old_of m = None \<longleftrightarrow> (\<exists>i < m. old_of i = None)"
    by (auto simp: shuffle_nbrs_def Let_def bind_eq_None_conv those_None)
  have "pn_npoints nb' = m \<and> pn_table nb' = pn_table nb \<and> pt_tables (pn_table left) = [] \<and>
      (\<forall>i < m. stored nb' i \<and> code_at nb' i = code_at nb (the (old_of i)))"
    if moved: "shuffle_nbrs nb old_of m = Some (nb', left)" for nb' left
  proof -
    define n where "n = pt_chunks (pn_table nb)"
    obtain ids where ids: "those (map old_of [0..<m]) = Some ids"
      and nb': "nb' = \<lparr>pn_npoints = m, pn_data = aggregate_coords ids m (pn_data nb) n (replicate (m * n) 0), pn_table = pn_table nb\<rparr>"
      and left: "left = nb\<lparr>pn_table := moved_from (pn_table nb)\<rparr>"
      using moved unfolding shuffle_nbrs_def Let_def n_def bind_eq_Some_conv by blast
    have "map old_of [0..<m] = map Some ids" using ids by (simp only: those_Some)
    then have len: "length ids = m" and old_of: "old_of i = Some (ids ! i)" if "i < m" for i
      using that by (auto dest: arg_cong [of _ _ length] simp: list_eq_iff_nth_eq)
    have old: "stored nb (ids ! i)" if "i < m" for i using assms old_of that by blast
    have g: "length (pn_data nb') = m * n"
      "\<And>i c. i < m \<Longrightarrow> c < n \<Longrightarrow> pn_data nb' ! (i * n + c) = pn_data nb ! (ids ! i * n + c)"
      using gather_nth [of m n "replicate (m * n) 0" ids "pn_data nb"] old
      by (simp_all add: nb' stored_def n_def [symmetric])
    have st: "stored nb' i" if "i < m" for i
      using mult_le_mono1 [of "Suc i" m n] that g(1) by (simp add: stored_def nb' n_def [symmetric])
    have "code_at nb' i = code_at nb (the (old_of i))" if i: "i < m" for i
    proof (rule nth_equalityI)
      show "length (code_at nb' i) = length (code_at nb (the (old_of i)))"
        using st [OF i] old [OF i] old_of [OF i] by (simp add: code_at_def stored_def nb' n_def [symmetric])
      fix c assume "c < length (code_at nb' i)"
      then have c: "c < n" by (simp add: code_at_def nb' n_def)
      then show "code_at nb' i ! c = code_at nb (the (old_of i)) ! c"
        using code_at_nth [OF st [OF i], of c] code_at_nth [OF old [OF i], of c] g(2) [OF i c] old_of [OF i]
        by (simp add: nb' n_def [symmetric])
    qed
    then show ?thesis using st by (simp add: nb' left moved_from_def)
  qed
  then show ?thesis using none by blast
qed

theorem shuffle_moves_codes_witness:
  "code_at (fst (the (shuffle_nbrs tiny_nbrs [0 \<mapsto> 1, 1 \<mapsto> 0, 2 \<mapsto> 1] 3))) 2 = [1]"
proof -
  have "\<forall>i < 3. \<forall>j. [0 \<mapsto> 1, 1 \<mapsto> 0, 2 \<mapsto> 1] i = Some j \<longrightarrow> stored tiny_nbrs j"
    using tiny_stored by (auto split: if_splits)
  note t = shuffle_moves_codes [OF this]
  have "shuffle_nbrs tiny_nbrs [0 \<mapsto> 1, 1 \<mapsto> 0, 2 \<mapsto> 1] 3 \<noteq> None"
    unfolding t [THEN conjunct1] by (auto simp: numeral_3_eq_3 less_Suc_eq)
  then obtain nb left where s: "shuffle_nbrs tiny_nbrs [0 \<mapsto> 1, 1 \<mapsto> 0, 2 \<mapsto> 1] 3 = Some (nb, left)" by auto
  then have "code_at nb 2 = code_at tiny_nbrs 1"
    using t [THEN conjunct2, rule_format, OF s] by simp
  then show ?thesis unfolding s by (simp add: tiny_code)
qed

definition saveable :: "(nat \<Rightarrow> rat) \<Rightarrow> (rat \<Rightarrow> nat) \<Rightarrow> pq_nbr \<Rightarrow> bool" where
  "saveable fl enc nb \<longleftrightarrow> (\<forall>x \<in> set (pt_tables (pn_table nb)) \<union> set (pt_centroid (pn_table nb)). fl (enc x) = x \<and> enc x < 2 ^ 32) \<and>
     length (pt_tables (pn_table nb)) = 256 * pt_ndims (pn_table nb) \<and>
     length (pt_centroid (pn_table nb)) = pt_ndims (pn_table nb) \<and> pt_ndims (pn_table nb) < 2 ^ 32 \<and>
     pn_npoints nb < 2 ^ 32 \<and> pt_chunks (pn_table nb) + 1 < 2 ^ 32"

lemma save_bin_take: "save_bin k f xs n m off = save_bin k f (take (n * m) xs) n m off"
  by (simp add: save_bin_def)

text \<open> C32. A store that is saved over any two files and loaded again has the codes of its points, their
  number, and the same table with its derived arrays recomputed. Floats are kept when their bit
  patterns are; the spare room of the array is dropped.\<close>

theorem nbr_save_load:
  assumes "nbr_ok nb" "saveable fl enc nb" "nbr_save enc nb f g = (f', g')"
  shows "nbr_load fl junk m f' g' = Some \<lparr>pn_npoints = pn_npoints nb,
    pn_data = take (pn_npoints nb * pt_chunks (pn_table nb)) (pn_data nb),
    pn_table = post_load_pq_table junk ((pn_table nb)\<lparr>pt_tables_T := [], pt_all := [], pt_metric := m\<rparr>)\<rparr>"
proof -
  define t where "t = pn_table nb"
  define P where "P = \<lparr>pf_tables = map enc (pt_tables t), pf_centroid = map enc (pt_centroid t),
    pf_offsets = pt_offsets t, pf_ndims = pt_ndims t, pf_chunks = pt_chunks t\<rparr>"
  define data where "data = take (pn_npoints nb * pt_chunks t) (pn_data nb)"
  have f': "f' = snd (save_bin 1 f data (pn_npoints nb) (pt_chunks t) 0)" and g': "g' = save_pq_pivots g P"
    using assms(3) save_bin_take [of 1 f "pn_data nb" "pn_npoints nb" "pt_chunks t" 0]
    unfolding nbr_save_def t_def [symmetric] Let_def P_def data_def by simp_all
  have bits: "fl (enc x) = x \<and> enc x < 2 ^ 32" if "x \<in> set (pt_tables t) \<union> set (pt_centroid t)" for x
    using assms(2) that unfolding saveable_def t_def by blast
  have ok: "pq_table_ok t" "pt_ndims t < 2 ^ 32" "pt_chunks t + 1 < 2 ^ 32" "pn_npoints nb < 2 ^ 32"
    "length (pt_tables t) = 256 * pt_ndims t" "length (pt_centroid t) = pt_ndims t"
    using assms(1,2) by (simp_all add: nbr_ok_def saveable_def t_def)
  have offs: "x < 256 ^ 4" if x: "x \<in> set (pt_offsets t)" for x
  proof -
    obtain i where "x = pt_offsets t ! i" "i \<le> pt_chunks t"
      using x ok(1) by (auto simp: in_set_conv_nth pq_table_ok_def less_Suc_eq_le)
    then have "x \<le> pt_ndims t" using offset_mono [OF ok(1), of i "pt_chunks t"] ok(1) by (simp add: pq_table_ok_def)
    then show ?thesis using ok(2) by simp
  qed
  have "pq_file_ok P"
    using ok bits offs by (auto simp: pq_file_ok_def bin_ok_def P_def NUM_PQ_CENTROIDS_def pq_table_ok_def)
  then have pivots: "load_pq_pivots_new g' (pt_chunks t) 0 = Some P"
    unfolding g' using pivots_saved [of P g] by (simp add: P_def)
  have "length data = pn_npoints nb * pt_chunks t" "\<forall>x \<in> set data. x < 256 ^ 1"
    using assms(1) by (auto simp: data_def nbr_ok_def t_def dest: in_set_takeD)
  then have d: "bin_ok 1 data (pn_npoints nb) (pt_chunks t)" using ok by (simp add: bin_ok_def)
  have "drop 0 f' = le_put 4 (pn_npoints nb) @ le_put 4 (pt_chunks t) @ les_put 1 data @
      drop (length (le_put 4 (pn_npoints nb) @ le_put 4 (pt_chunks t) @ les_put 1 data)) f"
    unfolding f' save_bin_eq [OF d] snd_conv drop_write_at by simp
  then have "load_bin 1 f' 0 = Some (data, pn_npoints nb, pt_chunks t)"
    unfolding load_bin_def by (rule load_save_bin [OF d])
  moreover have "map fl (map enc (pt_tables t)) = pt_tables t" "map fl (map enc (pt_centroid t)) = pt_centroid t"
    using bits by (auto simp: map_idI)
  ultimately show ?thesis
    by (simp add: nbr_load_def load_pq_centroid_bin_def pivots P_def data_def t_def [symmetric] post_load_pq_table_def)
qed

theorem nbr_save_load_witness:
  "nbr_load (\<lambda>x. of_nat x) [] L2 (fst (nbr_save (\<lambda>x. nat \<lfloor>x\<rfloor>) tiny_nbrs [9] [])) (snd (nbr_save (\<lambda>x. nat \<lfloor>x\<rfloor>) tiny_nbrs [9] [])) =
   Some \<lparr>pn_npoints = 2, pn_data = [0, 1], pn_table = post_load_pq_table [] tiny_table\<rparr>"
proof -
  have ok: "nbr_ok tiny_nbrs" "saveable (\<lambda>x. of_nat x) (\<lambda>x. nat \<lfloor>x\<rfloor>) tiny_nbrs"
    by (simp_all add: nbr_ok_def saveable_def tiny_nbrs_def tiny_table_def pq_table_ok_def)
  show ?thesis
    unfolding nbr_save_load [OF ok prod.collapse [symmetric]]
    by (simp add: tiny_nbrs_def tiny_table_def post_load_pq_table_def)
qed

end
