(* ===== verification/LocAllocator.thy ===== *)
theory LocAllocator
  imports Prelude
begin

text \<open>
  Where the nodes of an updatable index lie: the location maps and the allocator of \<open>SSDIndex\<close> in
  \<open>DGAI/include/ssd_index.h\<close>. A location is a slot of a page; \<open>page_layout\<close> gives the ids in the
  slots of each page, \<open>empty_pages\<close> queues the pages that ran empty, and \<open>cur_loc\<close> is the end of the
  file. Ids, locations and pages are \<open>nat\<close> below \<open>2 ^ 32\<close>; the number of slots of a page is positive
  (the code divides by it) and at most that of the array the code keeps for it. The concurrent map is
  a map whose updates are atomic, and the allocator lock makes the operations atomic. This is
  the store of whole nodes; those of topology and coordinates, which also queue each location that is freed, are in
  \<open>PartLocs\<close>. \<open>None\<close> is a call of \<open>crash\<close>.
\<close>

definition invalid_id :: nat where "invalid_id = 4294967295"
definition allocated_id :: nat where "allocated_id = 4294967294"

record locs =
  per :: nat
  node_len :: nat
  layout :: "nat \<rightharpoonup> nat list"
  empties :: "nat list"
  cur_loc :: nat

definition loc_sector_no :: "locs \<Rightarrow> nat \<Rightarrow> nat" where
  "loc_sector_no s loc = 1 + (if 0 < per s then loc div per s else loc * ((node_len s + 4096 - 1) div 4096))"

definition sector_to_loc :: "locs \<Rightarrow> nat \<Rightarrow> nat \<Rightarrow> nat" where
  "sector_to_loc s sector_no sector_off = (sector_no - 1) * per s + sector_off"

definition loc2id :: "locs \<Rightarrow> nat \<Rightarrow> nat" where
  "loc2id s loc =
     (case layout s (loc_sector_no s loc) of
        None \<Rightarrow> invalid_id
      | Some v \<Rightarrow> v ! (loc mod per s))"

text \<open>\<open>upsert\<close> with a context: a new page starts with invalid slots.\<close>

definition upsert_slot :: "nat \<Rightarrow> nat \<Rightarrow> nat \<Rightarrow> nat list option \<Rightarrow> nat list" where
  "upsert_slot n off i v = (case v of None \<Rightarrow> (replicate n invalid_id)[off := i] | Some v \<Rightarrow> v[off := i])"

definition set_loc2id :: "locs \<Rightarrow> nat \<Rightarrow> nat \<Rightarrow> locs" where
  "set_loc2id s loc i =
     s\<lparr>layout := (layout s)(loc_sector_no s loc \<mapsto>
       upsert_slot (per s) (loc mod per s) i (layout s (loc_sector_no s loc)))\<rparr>"

text \<open>\<open>upsert\<close> without a context only inserts a zero array for a new page.\<close>

definition erase_loc2id :: "locs \<Rightarrow> nat \<Rightarrow> locs" where
  "erase_loc2id s loc =
     (let page = loc_sector_no s loc
      in case layout s page of
           None \<Rightarrow> s\<lparr>layout := (layout s)(page \<mapsto> replicate (per s) 0)\<rparr>
         | Some v \<Rightarrow>
             let v = v[loc mod per s := invalid_id];
                 s = s\<lparr>layout := (layout s)(page \<mapsto> v)\<rparr>
             in if list_all (\<lambda>x. x = invalid_id) v then s\<lparr>empties := empties s @ [page]\<rparr> else s)"

fun set_locs :: "locs \<Rightarrow> (nat \<times> nat) list \<Rightarrow> locs" where
  "set_locs s [] = s"
| "set_locs s ((l, i) # rest) = set_locs (set_loc2id s l i) rest"

fun erase_locs :: "locs \<Rightarrow> nat list \<Rightarrow> locs" where
  "erase_locs s [] = s"
| "erase_locs s (l # ls) = erase_locs (erase_loc2id s l) ls"

definition erase_and_set_loc :: "locs \<Rightarrow> nat list \<Rightarrow> nat list \<Rightarrow> nat list \<Rightarrow> locs" where
  "erase_and_set_loc s old_locs new_locs new_ids = erase_locs (set_locs s (zip new_locs new_ids)) old_locs"

subsection \<open>Allocation\<close>

text \<open>
  The loops over the slots of a page: \<open>base\<close> is the location of the first slot, \<open>cur\<close> the number
  allocated so far of \<open>n\<close>. An empty page is taken from its front; in a page with holes the holes are.
\<close>

fun take_all :: "nat \<Rightarrow> nat \<Rightarrow> nat \<Rightarrow> nat list \<Rightarrow> (nat list \<times> nat list \<times> nat) option" where
  "take_all n cur base [] = Some ([], [], cur)"
| "take_all n cur base (x # xs) =
     (if x \<noteq> invalid_id then None
      else if cur + 1 = n then Some (allocated_id # xs, [base], cur + 1)
      else do {
        (v, ls, c) \<leftarrow> take_all n (cur + 1) (base + 1) xs;
        Some (allocated_id # v, base # ls, c)
      })"

fun take_holes :: "nat \<Rightarrow> nat \<Rightarrow> nat \<Rightarrow> nat list \<Rightarrow> nat list \<times> nat list \<times> nat" where
  "take_holes n cur base [] = ([], [], cur)"
| "take_holes n cur base (x # xs) =
     (if x = invalid_id
      then if cur + 1 = n then (allocated_id # xs, [base], cur + 1)
           else let (v, ls, c) = take_holes n (cur + 1) (base + 1) xs in (allocated_id # v, base # ls, c)
      else let (v, ls, c) = take_holes n cur (base + 1) xs in (x # v, ls, c))"

text \<open>The loop over the queue of empty pages; \<open>update_fn\<close> does nothing for a page without layout.\<close>

fun reuse_empty :: "nat \<Rightarrow> nat \<Rightarrow> nat list \<Rightarrow> nat list \<Rightarrow> locs \<Rightarrow> (nat list \<times> nat \<times> locs) option" where
  "reuse_empty n cur ret [] s = Some (ret, cur, s\<lparr>empties := []\<rparr>)"
| "reuse_empty n cur ret (p # ps) s =
     (case layout s p of
        None \<Rightarrow> reuse_empty n cur ret ps s
      | Some v \<Rightarrow> do {
          (v, ls, cur) \<leftarrow> take_all n cur (sector_to_loc s p 0) v;
          let s = s\<lparr>layout := (layout s)(p \<mapsto> v)\<rparr>;
          if cur = n then Some (ret @ ls, cur, s\<lparr>empties := ps\<rparr>) else reuse_empty n cur (ret @ ls) ps s
        })"

definition holes :: "nat list \<Rightarrow> nat" where
  "holes v = length (filter (\<lambda>x. x = invalid_id) v)"

fun use_hints ::
  "nat \<Rightarrow> nat \<Rightarrow> nat list \<Rightarrow> nat set \<Rightarrow> nat list \<Rightarrow> locs \<Rightarrow> nat list \<times> nat \<times> nat set \<times> locs" where
  "use_hints n cur ret need [] s = (ret, cur, need, s)"
| "use_hints n cur ret need (p # ps) s =
     (case layout s p of
        None \<Rightarrow> use_hints n cur ret need ps s
      | Some v \<Rightarrow>
          if holes v < (per s + 2 - 1) div 2 then use_hints n cur ret need ps s
          else let need = (if holes v < per s then insert p need else need);
                   (v, ls, cur) = take_holes n cur (sector_to_loc s p 0) v;
                   s = s\<lparr>layout := (layout s)(p \<mapsto> v)\<rparr>
               in if cur = n then (ret @ ls, cur, need, s) else use_hints n cur (ret @ ls) need ps s)"

definition extend_locs :: "nat \<Rightarrow> locs \<Rightarrow> nat list \<times> locs" where
  "extend_locs remaining s =
     (let ls = [cur_loc s..<cur_loc s + remaining];
          s = set_locs s (map (\<lambda>l. (l, allocated_id)) ls);
          c = cur_loc s + remaining
      in (ls, s\<lparr>cur_loc := (if c mod per s \<noteq> 0 then c + (per s - c mod per s) else c)\<rparr>))"

definition alloc_loc :: "nat \<Rightarrow> nat list \<Rightarrow> nat set \<Rightarrow> locs \<Rightarrow> (nat list \<times> nat set \<times> locs) option" where
  "alloc_loc n hint_pages page_need_to_read s = do {
     (ret, cur, s) \<leftarrow> reuse_empty n 0 [] (empties s) s;
     if cur = n then Some (ret, page_need_to_read, s)
     else let (ret, cur, need, s) = use_hints n cur ret page_need_to_read hint_pages s
       in if cur = n then Some (ret, need, s)
          else let (ls, s) = extend_locs (n - cur) s in Some (ret @ ls, need, s)
   }"

subsection \<open>Well-formed states\<close>

definition locs_ok :: "locs \<Rightarrow> bool" where
  "locs_ok s \<longleftrightarrow> 0 < per s \<and> per s \<le> 32 \<and> per s dvd cur_loc s \<and>
     (\<forall>p v. layout s p = Some v \<longrightarrow> length v = per s \<and> 0 < p \<and> p * per s \<le> cur_loc s) \<and>
     distinct (empties s) \<and> (\<forall>p \<in> set (empties s). \<exists>v. layout s p = Some v \<and> list_all (\<lambda>x. x = invalid_id) v)"

text \<open>The locations \<open>ls\<close> went from free to allocated and nothing else changed.\<close>

definition taken :: "locs \<Rightarrow> nat list \<Rightarrow> locs \<Rightarrow> bool" where
  "taken s ls s' \<longleftrightarrow> distinct ls \<and> per s' = per s \<and> (\<forall>l \<in> set ls. loc2id s l = invalid_id) \<and>
     (\<forall>l. loc2id s' l = (if l \<in> set ls then allocated_id else loc2id s l))"

lemma ids_differ [simp]: "allocated_id \<noteq> invalid_id" "invalid_id \<noteq> allocated_id"
  by (simp_all add: allocated_id_def invalid_id_def)

lemma taken_refl: "per s' = per s \<Longrightarrow> (\<And>l. loc2id s' l = loc2id s l) \<Longrightarrow> taken s [] s'"
  by (simp add: taken_def)

lemma taken_trans:
  assumes "taken s ls s1" "taken s1 ls' s2"
  shows "taken s (ls @ ls') s2"
proof -
  have "l \<notin> set ls" if "l \<in> set ls'" for l
    using assms that by (metis ids_differ(1) taken_def)
  then show ?thesis using assms by (auto simp: taken_def)
qed

lemma loc_page: "0 < per s \<Longrightarrow> loc_sector_no s l = Suc (l div per s)"
  by (simp add: loc_sector_no_def)

text \<open>What the loop over the slots of a page does to it.\<close>

definition slots_taken :: "nat \<Rightarrow> nat list \<Rightarrow> nat list \<Rightarrow> nat list \<Rightarrow> bool" where
  "slots_taken base v ls v' \<longleftrightarrow> length v' = length v \<and> distinct ls \<and> set ls \<subseteq> {base..<base + length v} \<and>
     (\<forall>i < length v. (base + i \<in> set ls \<longrightarrow> v ! i = invalid_id) \<and>
       v' ! i = (if base + i \<in> set ls then allocated_id else v ! i))"

lemma slots_taken_Cons:
  assumes S: "slots_taken (Suc base) xs ls v" and t: "t \<longrightarrow> x = invalid_id"
  shows "slots_taken base (x # xs) (if t then base # ls else ls) ((if t then allocated_id else x) # v)"
proof -
  let ?ls = "if t then base # ls else ls"
  have S': "length v = length xs" "distinct ls" "set ls \<subseteq> {Suc base..<Suc base + length xs}"
    "\<And>i. i < length xs \<Longrightarrow> Suc base + i \<in> set ls \<Longrightarrow> xs ! i = invalid_id"
    "\<And>i. i < length xs \<Longrightarrow> v ! i = (if Suc base + i \<in> set ls then allocated_id else xs ! i)"
    using S by (auto simp: slots_taken_def)
  have new: "base \<notin> set ls" using S'(3) by fastforce
  have mem: "base + i \<in> set ?ls \<longleftrightarrow> (case i of 0 \<Rightarrow> t | Suc j \<Rightarrow> Suc base + j \<in> set ls)" for i
    using new by (cases i) auto
  have slot: "(base + i \<in> set ?ls \<longrightarrow> (x # xs) ! i = invalid_id) \<and>
      ((if t then allocated_id else x) # v) ! i = (if base + i \<in> set ?ls then allocated_id else (x # xs) ! i)"
    if "i < length (x # xs)" for i
    unfolding mem using that t S'(4,5) by (cases i) auto
  have "set ?ls \<subseteq> {base..<base + length (x # xs)}" using S'(3) by (auto simp: subset_iff Suc_le_eq)
  moreover have "distinct ?ls" using S'(2) new by simp
  ultimately show ?thesis using S'(1) slot by (simp only: slots_taken_def) simp
qed

lemmas slots_taken_hole = slots_taken_Cons [of _ _ _ _ True, simplified]
lemmas slots_taken_skip = slots_taken_Cons [of _ _ _ _ False, simplified]

lemma slots_taken_nil: "slots_taken base v [] v"
  by (simp add: slots_taken_def)

lemma slots_taken_one: "slots_taken base (invalid_id # xs) [base] (allocated_id # xs)"
  using slots_taken_hole [OF slots_taken_nil] by simp

lemma take_holes_spec:
  "take_holes n cur base v = (v', ls, c) \<Longrightarrow> cur < n \<Longrightarrow> slots_taken base v ls v' \<and> c = cur + length ls \<and> c \<le> n"
proof (induction n cur base v arbitrary: v' ls c rule: take_holes.induct)
  case (1 n cur base)
  then show ?case by (auto simp: slots_taken_def)
next
  case (2 n cur base x xs)
  show ?case
  proof (cases "x = invalid_id \<and> cur + 1 = n")
    case True
    then show ?thesis using 2 slots_taken_one by auto
  next
    case False
    then show ?thesis
      using 2 slots_taken_hole [of base xs] slots_taken_skip [of base xs]
      by (cases "x = invalid_id") (auto split: prod.splits)
  qed
qed

lemma take_all_spec:
  assumes "list_all (\<lambda>x. x = invalid_id) v" "cur < n"
  shows "\<exists>v' ls c. take_all n cur base v = Some (v', ls, c) \<and> slots_taken base v ls v' \<and> c = cur + length ls \<and> c \<le> n \<and>
    (c < n \<longrightarrow> length ls = length v)"
  using assms
proof (induction v arbitrary: cur base)
  case Nil
  then show ?case by (simp add: slots_taken_def)
next
  case (Cons x xs)
  show ?case
  proof (cases "cur + 1 = n")
    case True
    then show ?thesis using Cons.prems slots_taken_one by auto
  next
    case False
    then obtain v' ls c where "take_all n (cur + 1) (Suc base) xs = Some (v', ls, c)" "slots_taken (Suc base) xs ls v'"
      "c = cur + 1 + length ls" "c \<le> n" "c < n \<longrightarrow> length ls = length xs"
      using Cons.IH [of "cur + 1" "Suc base"] Cons.prems by auto
    then show ?thesis using False Cons.prems slots_taken_hole [of base xs ls v'] by auto
  qed
qed

subsection \<open>One page\<close>

lemma loc2id_page:
  assumes "0 < per s"
  shows "loc2id s l = (case layout s (Suc (l div per s)) of None \<Rightarrow> invalid_id | Some v \<Rightarrow> v ! (l mod per s))"
  using assms by (simp add: loc2id_def loc_page)

lemma slot_of: "0 < n \<Longrightarrow> 0 < p \<Longrightarrow> Suc (l div n) = p \<longleftrightarrow> (p - 1) * n \<le> l \<and> l < (p - 1) * n + n" for n p l :: nat
proof
  assume n: "0 < n" and "0 < p" and "Suc (l div n) = p"
  then have "(p - 1) * n + l mod n = l" by auto
  then show "(p - 1) * n \<le> l \<and> l < (p - 1) * n + n" using n mod_less_divisor [of n l] by linarith
next
  assume "0 < n" "0 < p" and l: "(p - 1) * n \<le> l \<and> l < (p - 1) * n + n"
  have "l div n = p - 1" using l by (intro div_nat_eqI) (simp_all add: mult.commute add.commute)
  then show "Suc (l div n) = p" using \<open>0 < p\<close> by simp
qed

lemma page_taken:
  assumes n: "0 < per s" and v: "layout s p = Some v" "length v = per s" "0 < p"
    and t: "slots_taken (sector_to_loc s p 0) v ls v'" and s': "per s' = per s" "layout s' = (layout s)(p \<mapsto> v')"
  shows "taken s ls s'"
proof -
  define base where "base = (p - 1) * per s"
  have b: "sector_to_loc s p 0 = base" by (simp add: sector_to_loc_def base_def)
  have T: "distinct ls" "set ls \<subseteq> {base..<base + per s}"
    "\<And>i. i < per s \<Longrightarrow> base + i \<in> set ls \<Longrightarrow> v ! i = invalid_id"
    "\<And>i. i < per s \<Longrightarrow> v' ! i = (if base + i \<in> set ls then allocated_id else v ! i)"
    using t v(2) by (auto simp: slots_taken_def b)
  have on_page: "base + l mod per s = l \<and> l mod per s < per s" if "Suc (l div per s) = p" for l
    using that n by (auto simp: base_def)
  have page: "Suc (l div per s) = p" if "l \<in> set ls" for l
    using T(2) that n v(3) by (auto simp: slot_of base_def)
  have "loc2id s' l = (if l \<in> set ls then allocated_id else loc2id s l)" for l
  proof (cases "Suc (l div per s) = p")
    case True
    then show ?thesis
      using T(4) [of "l mod per s"] on_page [OF True] n v s' by (simp add: loc2id_page)
  next
    case False
    then show ?thesis using page n s' by (auto simp: loc2id_page split: option.splits)
  qed
  moreover have "loc2id s l = invalid_id" if "l \<in> set ls" for l
    using page [OF that] on_page [OF page [OF that]] T(3) [of "l mod per s"] that n v by (simp add: loc2id_page)
  ultimately show ?thesis using T(1) s'(1) by (simp add: taken_def)
qed

lemma set_loc2id_loc:
  assumes "0 < per s" "\<forall>p v. layout s p = Some v \<longrightarrow> length v = per s"
  shows "loc2id (set_loc2id s l i) l' = (if l' = l then i else loc2id s l')"
proof (cases "Suc (l' div per s) = Suc (l div per s)")
  case True
  then have "l' = l \<longleftrightarrow> l' mod per s = l mod per s" by (metis Suc_inject div_mult_mod_eq)
  moreover have "l mod per s < per s" "l' mod per s < per s" using assms(1) by simp_all
  ultimately show ?thesis
    using True assms
    by (auto simp: loc2id_page set_loc2id_def loc_page upsert_slot_def nth_list_update split: option.splits)
next
  case False
  then show ?thesis using assms(1) by (auto simp: loc2id_page set_loc2id_def loc_page split: option.splits)
qed

lemma set_loc2id_layout:
  assumes "0 < per s" "\<forall>p v. layout s p = Some v \<longrightarrow> length v = per s"
  shows "per (set_loc2id s l i) = per s" "empties (set_loc2id s l i) = empties s"
    "cur_loc (set_loc2id s l i) = cur_loc s"
    "\<forall>p v. layout (set_loc2id s l i) p = Some v \<longrightarrow> length v = per s \<and> (layout s p = None \<longrightarrow> p = Suc (l div per s))"
  using assms by (auto simp: set_loc2id_def loc_page upsert_slot_def split: option.splits if_splits)

subsection \<open>The three stages\<close>

lemma locs_ok_page:
  assumes "locs_ok s" "layout s p = Some v"
  shows "0 < per s" "length v = per s" "0 < p" "p * per s \<le> cur_loc s"
  using assms by (auto simp: locs_ok_def)

lemma locs_ok_update:
  assumes "locs_ok s" "layout s p = Some v" "length v' = length v" "p \<notin> set q" "set q \<subseteq> set (empties s)" "distinct q"
  shows "locs_ok (s\<lparr>layout := (layout s)(p \<mapsto> v'), empties := q\<rparr>)"
  using assms by (fastforce simp: locs_ok_def)

lemma loc2id_same [simp]:
  "loc2id (s\<lparr>empties := q\<rparr>) l = loc2id s l" "loc2id (s\<lparr>cur_loc := c\<rparr>) l = loc2id s l"
  by (auto simp: loc2id_def loc_sector_no_def split: option.splits)

lemma reuse_empty_spec:
  assumes "locs_ok (s\<lparr>empties := q\<rparr>)" "cur < n"
  shows "\<exists>ls c s'. reuse_empty n cur ret q s = Some (ret @ ls, c, s') \<and> taken s ls s' \<and> c = cur + length ls \<and> c \<le> n \<and>
    locs_ok s' \<and> cur_loc s' = cur_loc s \<and> (c < n \<longrightarrow> empties s' = []) \<and>
    (\<forall>l \<in> set ls. \<forall>l'. loc_sector_no s l' = loc_sector_no s l \<longrightarrow> loc2id s l' = invalid_id)"
  using assms
proof (induction q arbitrary: cur ret s)
  case Nil
  then show ?case by (intro exI [of _ "[]"]) (auto simp: taken_def)
next
  case (Cons p q)
  let ?s = "s\<lparr>empties := p # q\<rparr>"
  obtain v where v: "layout s p = Some v" "list_all (\<lambda>x. x = invalid_id) v"
    using Cons.prems(1) by (auto simp: locs_ok_def)
  note page = locs_ok_page [of ?s p v, simplified, OF Cons.prems(1) v(1)]
  obtain v' ls c where t: "take_all n cur (sector_to_loc s p 0) v = Some (v', ls, c)"
    "slots_taken (sector_to_loc s p 0) v ls v'" "c = cur + length ls" "c \<le> n"
    "c < n \<longrightarrow> length ls = length v"
    using take_all_spec [OF v(2) Cons.prems(2)] by blast
  define s1 where "s1 = s\<lparr>layout := (layout s)(p \<mapsto> v')\<rparr>"
  have sector1: "loc_sector_no s1 l = loc_sector_no s l" for l
    by (simp add: s1_def loc_sector_no_def)
  have ok1: "locs_ok (s1\<lparr>empties := q\<rparr>)"
  proof -
    have "p \<notin> set q" "distinct q" using Cons.prems(1) by (simp_all add: locs_ok_def)
    moreover have "length v' = length v" using t(2) by (simp add: slots_taken_def)
    ultimately show ?thesis using locs_ok_update [OF Cons.prems(1), of p v v' q] v(1) by (simp add: s1_def subset_iff)
  qed
  have taken1: "taken s ls s1"
    by (rule page_taken [OF page(1) v(1) page(2,3) t(2)]) (simp_all add: s1_def)
  have here: "Suc (l div per s) = p" if "l \<in> set ls" for l
    using t(2) that page by (auto simp: slots_taken_def sector_to_loc_def slot_of)
  have inv: "loc2id s l' = invalid_id" if "loc_sector_no s l' = loc_sector_no s l" "l \<in> set ls" for l l'
  proof -
    have "Suc (l' div per s) = p" using that here page(1) by (simp add: loc_page)
    then show ?thesis using v page(1,2) by (simp add: loc2id_page list_all_length)
  qed
  show ?case
  proof (cases "c = n")
    case True
    have "taken s ls (s1\<lparr>empties := q\<rparr>)"
      by (rule page_taken [OF page(1) v(1) page(2,3) t(2)]) (simp_all add: s1_def)
    then show ?thesis
      using True v t ok1 inv by (intro exI [of _ ls]) (auto simp: s1_def [symmetric], simp add: s1_def)
  next
    case False
    then have "c < n" using t(4) by simp
    from Cons.IH [OF ok1 this, of "ret @ ls"]
    obtain ls2 c2 s' where r: "reuse_empty n c (ret @ ls) q s1 = Some ((ret @ ls) @ ls2, c2, s')" "taken s1 ls2 s'"
      "c2 = c + length ls2" "c2 \<le> n" "locs_ok s'" "cur_loc s' = cur_loc s1" "c2 < n \<longrightarrow> empties s' = []"
      "\<forall>l \<in> set ls2. \<forall>l'. loc_sector_no s1 l' = loc_sector_no s1 l \<longrightarrow> loc2id s1 l' = invalid_id"
      by blast
    have "loc2id s l' = invalid_id" if "loc_sector_no s l' = loc_sector_no s l" "l \<in> set (ls @ ls2)" for l l'
    proof (cases "l \<in> set ls")
      case True
      then show ?thesis using inv that by blast
    next
      case False
      then have "loc2id s1 l' = invalid_id" using r(8) that sector1 by auto
      then show ?thesis using taken1 by (auto simp: taken_def split: if_splits)
    qed
    moreover have "reuse_empty n cur ret (p # q) s = Some (ret @ ls @ ls2, c2, s')"
      using v t r(1) False by (simp add: s1_def)
    moreover have "cur_loc s' = cur_loc s" using r(6) by (simp add: s1_def)
    ultimately show ?thesis
      using taken_trans [OF taken1 r(2)] r t(3) by (intro exI [of _ "ls @ ls2"] exI [of _ c2] exI [of _ s']) auto
  qed
qed

text \<open>Every page of which \<open>ls\<close> takes a slot and that holds anything is in \<open>need\<close>.\<close>

definition read_ok :: "locs \<Rightarrow> nat list \<Rightarrow> nat set \<Rightarrow> bool" where
  "read_ok s ls need \<longleftrightarrow> (\<forall>l \<in> set ls. \<forall>l'. loc_sector_no s l' = loc_sector_no s l \<and> loc2id s l' \<noteq> invalid_id \<longrightarrow>
     loc_sector_no s l \<in> need)"

lemma read_ok_trans:
  assumes "read_ok s ls need" "need \<subseteq> need'" "read_ok s1 ls' need'" "taken s ls s1"
    and "\<And>l. loc_sector_no s1 l = loc_sector_no s l"
  shows "read_ok s (ls @ ls') need'"
  unfolding read_ok_def
proof (intro ballI allI impI)
  fix l l' assume l: "l \<in> set (ls @ ls')" and l': "loc_sector_no s l' = loc_sector_no s l \<and> loc2id s l' \<noteq> invalid_id"
  have "loc2id s1 l' \<noteq> invalid_id" using l' assms(4) by (auto simp: taken_def)
  then show "loc_sector_no s l \<in> need'"
    using l l' assms(1-3,5) unfolding read_ok_def by (cases "l \<in> set ls") auto
qed

lemma all_holes: "holes v = length v \<Longrightarrow> i < length v \<Longrightarrow> v ! i = invalid_id"
  using length_filter_less [of "v ! i" v "\<lambda>x. x = invalid_id"] by (auto simp: holes_def)

lemma use_hints_spec:
  assumes "locs_ok s" "empties s = []" "cur < n"
  shows "\<exists>ls c need' s'. use_hints n cur ret need hints s = (ret @ ls, c, need', s') \<and> taken s ls s' \<and>
    c = cur + length ls \<and> c \<le> n \<and> locs_ok s' \<and> empties s' = [] \<and> cur_loc s' = cur_loc s \<and>
    need \<subseteq> need' \<and> need' \<subseteq> need \<union> set hints \<and> read_ok s ls need'"
  using assms
proof (induction hints arbitrary: cur ret need s)
  case Nil
  then show ?case by (intro exI [of _ "[]"]) (auto simp: taken_def read_ok_def)
next
  case (Cons p ps)
  show ?case
  proof (cases "\<exists>v. layout s p = Some v \<and> \<not> holes v < (per s + 2 - 1) div 2")
    case False
    then have skip: "use_hints n cur ret need (p # ps) s = use_hints n cur ret need ps s"
      by (auto split: option.splits)
    show ?thesis unfolding skip using Cons.IH [OF Cons.prems, of ret need] by fastforce
  next
    case True
    then obtain v where v: "layout s p = Some v" "\<not> holes v < (per s + 2 - 1) div 2" by blast
    note page = locs_ok_page [OF Cons.prems(1) v(1)]
    obtain v' ls c where h: "take_holes n cur (sector_to_loc s p 0) v = (v', ls, c)"
      by (metis prod_cases3)
    have t: "slots_taken (sector_to_loc s p 0) v ls v'" "c = cur + length ls" "c \<le> n"
      using take_holes_spec [OF h Cons.prems(3)] by auto
    define s1 where "s1 = s\<lparr>layout := (layout s)(p \<mapsto> v')\<rparr>"
    define need1 where "need1 = (if holes v < per s then insert p need else need)"
    have step: "use_hints n cur ret need (p # ps) s =
        (if c = n then (ret @ ls, c, need1, s1) else use_hints n c (ret @ ls) need1 ps s1)"
      using v h by (simp add: need1_def s1_def)
    have len: "length v' = length v" using t(1) by (simp add: slots_taken_def)
    have ok1: "locs_ok s1"
      using locs_ok_update [OF Cons.prems(1) v(1) len, of "[]"] Cons.prems(2) by (simp add: s1_def locs_ok_def)
    have s1: "empties s1 = []" "cur_loc s1 = cur_loc s" "loc_sector_no s1 l = loc_sector_no s l" for l
      using Cons.prems(2) by (simp_all add: s1_def loc_sector_no_def)
    have taken1: "taken s ls s1"
      by (rule page_taken [OF page(1) v(1) page(2,3) t(1)]) (simp_all add: s1_def)
    have here: "loc_sector_no s l = p" if "l \<in> set ls" for l
      using t(1) that page by (auto simp: slots_taken_def sector_to_loc_def slot_of loc_page)
    have read1: "read_ok s ls need1"
      unfolding read_ok_def
    proof (intro ballI allI impI)
      fix l l' assume l: "l \<in> set ls" and l': "loc_sector_no s l' = loc_sector_no s l \<and> loc2id s l' \<noteq> invalid_id"
      have "Suc (l' div per s) = p" using here [OF l] l' page(1) by (simp add: loc_page)
      then have "v ! (l' mod per s) \<noteq> invalid_id" using l' v(1) page(1) by (simp add: loc2id_page)
      then have "holes v \<noteq> length v" using all_holes [of v "l' mod per s"] page(1,2) by auto
      then have "holes v < per s" using page(2) length_filter_le [of _ v] by (simp add: holes_def le_neq_implies_less)
      then show "loc_sector_no s l \<in> need1" using here [OF l] by (simp add: need1_def)
    qed
    have sub: "need \<subseteq> need1" "need1 \<subseteq> need \<union> set (p # ps)" by (auto simp: need1_def)
    show ?thesis
    proof (cases "c = n")
      case True
      then show ?thesis unfolding step using taken1 t(2) ok1 s1 sub read1 by auto
    next
      case False
      then have "c < n" using t(3) by simp
      from Cons.IH [OF ok1 s1(1) this, of "ret @ ls" need1]
      obtain ls2 c2 need2 s2 where r: "use_hints n c (ret @ ls) need1 ps s1 = ((ret @ ls) @ ls2, c2, need2, s2)"
        "taken s1 ls2 s2" "c2 = c + length ls2" "c2 \<le> n" "locs_ok s2" "empties s2 = []" "cur_loc s2 = cur_loc s1"
        "need1 \<subseteq> need2" "need2 \<subseteq> need1 \<union> set ps" "read_ok s1 ls2 need2"
        by blast
      have "need \<subseteq> need2" "need2 \<subseteq> need \<union> set (p # ps)" using sub r(8,9) by auto
      moreover have "read_ok s (ls @ ls2) need2"
        by (rule read_ok_trans [OF read1 r(8,10) taken1 s1(3)])
      ultimately show ?thesis
        unfolding step using False r t(2) s1(2) taken_trans [OF taken1 r(2)]
        by (intro exI [of _ "ls @ ls2"] exI [of _ c2] exI [of _ need2] exI [of _ s2]) auto
    qed
  qed
qed

lemma set_locs_alloc:
  assumes "0 < per s" "\<forall>p v. layout s p = Some v \<longrightarrow> length v = per s"
  shows "per (set_locs s (map (\<lambda>l. (l, allocated_id)) ls)) = per s \<and>
    empties (set_locs s (map (\<lambda>l. (l, allocated_id)) ls)) = empties s \<and>
    cur_loc (set_locs s (map (\<lambda>l. (l, allocated_id)) ls)) = cur_loc s \<and>
    (\<forall>l'. loc2id (set_locs s (map (\<lambda>l. (l, allocated_id)) ls)) l' = (if l' \<in> set ls then allocated_id else loc2id s l')) \<and>
    (\<forall>p v. layout (set_locs s (map (\<lambda>l. (l, allocated_id)) ls)) p = Some v \<longrightarrow> length v = per s \<and>
      (layout s p = None \<longrightarrow> (\<exists>l \<in> set ls. p = Suc (l div per s))))"
  using assms
proof (induction ls arbitrary: s)
  case (Cons l ls)
  let ?s = "set_loc2id s l allocated_id"
  note same = set_loc2id_layout [OF Cons.prems, of l allocated_id]
  have IH: "per (set_locs ?s (map (\<lambda>l. (l, allocated_id)) ls)) = per s \<and>
    empties (set_locs ?s (map (\<lambda>l. (l, allocated_id)) ls)) = empties s \<and>
    cur_loc (set_locs ?s (map (\<lambda>l. (l, allocated_id)) ls)) = cur_loc s \<and>
    (\<forall>l'. loc2id (set_locs ?s (map (\<lambda>l. (l, allocated_id)) ls)) l' = (if l' \<in> set ls then allocated_id else loc2id ?s l')) \<and>
    (\<forall>p v. layout (set_locs ?s (map (\<lambda>l. (l, allocated_id)) ls)) p = Some v \<longrightarrow> length v = per s \<and>
      (layout ?s p = None \<longrightarrow> (\<exists>l \<in> set ls. p = Suc (l div per s))))"
    using Cons.IH [of ?s] Cons.prems same by simp
  have "\<exists>l' \<in> set (l # ls). p = Suc (l' div per s)"
    if "layout (set_locs ?s (map (\<lambda>l. (l, allocated_id)) ls)) p = Some v" "layout s p = None" for p v
    using IH same(4) that by (cases "layout ?s p") auto
  then show ?case using IH set_loc2id_loc [OF Cons.prems, of l allocated_id] by auto
qed simp

lemma round_up_dvd:
  fixes c n :: nat
  assumes "0 < n"
  shows "n dvd (if c mod n \<noteq> 0 then c + (n - c mod n) else c)"
proof (cases "c mod n = 0")
  case False
  have "c mod n \<le> n" using assms by (simp add: less_imp_le)
  then have "c + (n - c mod n) = (c div n + 1) * n"
    using div_mult_mod_eq [of c n] unfolding distrib_right by linarith
  then show ?thesis using False by simp
qed auto

lemma page_below:
  fixes l c n :: nat
  assumes "0 < n" "n dvd c" "l < c"
  shows "Suc (l div n) * n \<le> c"
proof -
  obtain k where k: "c = k * n" using assms(2) by (metis dvdE mult.commute)
  then have "l div n < k" using assms(3) by (simp add: less_mult_imp_div_less)
  then show ?thesis unfolding k by (intro mult_le_mono1) simp
qed

lemma extend_locs_spec:
  assumes "locs_ok s" "empties s = []" "extend_locs r s = (ls, s')"
  shows "taken s ls s' \<and> length ls = r \<and> locs_ok s' \<and> read_ok s ls need \<and>
    (\<forall>l \<in> set ls. cur_loc s \<le> l \<and> l < cur_loc s') \<and> cur_loc s \<le> cur_loc s'"
proof -
  have s: "0 < per s" "per s \<le> 32" "per s dvd cur_loc s" "\<forall>p v. layout s p = Some v \<longrightarrow> length v = per s"
    using assms(1) by (auto simp: locs_ok_def)
  define c where "c = (if (cur_loc s + r) mod per s \<noteq> 0 then cur_loc s + r + (per s - (cur_loc s + r) mod per s) else cur_loc s + r)"
  have ls: "ls = [cur_loc s..<cur_loc s + r]"
    using assms(3) by (auto simp: extend_locs_def Let_def)
  note a = set_locs_alloc [OF s(1,4), of ls]
  then have same: "per (set_locs s (map (\<lambda>l. (l, allocated_id)) ls)) = per s"
    "cur_loc (set_locs s (map (\<lambda>l. (l, allocated_id)) ls)) = cur_loc s"
    by blast+
  have s': "s' = (set_locs s (map (\<lambda>l. (l, allocated_id)) ls))\<lparr>cur_loc := c\<rparr>"
    using assms(3) unfolding extend_locs_def Let_def ls [symmetric] same c_def [symmetric] prod.inject
    by (elim conjE) (erule sym)
  have c: "per s dvd c" "cur_loc s + r \<le> c" using round_up_dvd [OF s(1), of "cur_loc s + r"] by (auto simp: c_def)
  have fresh: "layout s (Suc (l div per s)) = None" if "cur_loc s \<le> l" for l
  proof (rule ccontr)
    assume "layout s (Suc (l div per s)) \<noteq> None"
    then obtain v where "layout s (Suc (l div per s)) = Some v" by blast
    then have "Suc (l div per s) * per s \<le> cur_loc s" by (rule locs_ok_page(4) [OF assms(1)])
    moreover have "l < Suc (l div per s) * per s"
      using mod_less_divisor [OF s(1), of l] div_mult_mod_eq [of l "per s"] unfolding mult_Suc by linarith
    ultimately show False using that by linarith
  qed
  have free: "loc2id s l' = invalid_id" if "Suc (l' div per s) = Suc (l div per s)" "l \<in> set ls" for l l'
    using fresh [of l] that s(1) by (simp add: loc2id_page ls)
  have "p * per s \<le> c \<and> 0 < p" if v: "layout s' p = Some v" for p v
  proof (cases "layout s p")
    case (Some w)
    then show ?thesis using locs_ok_page(3,4) [OF assms(1)] c(2) by fastforce
  next
    case None
    have "layout (set_locs s (map (\<lambda>l. (l, allocated_id)) ls)) p = Some v" using v by (simp add: s')
    with a None have "\<exists>l \<in> set ls. p = Suc (l div per s)" by blast
    then obtain l where "l \<in> set ls" "p = Suc (l div per s)" ..
    then show ?thesis using page_below [OF s(1) c(1), of l] c(2) by (simp add: ls)
  qed
  then have "locs_ok s'" using a s c assms(2) by (auto simp: locs_ok_def s')
  moreover have "taken s ls s'" using a free by (auto simp: taken_def s' ls)
  moreover have "read_ok s ls need" using free s(1) by (auto simp: read_ok_def loc_page)
  ultimately show ?thesis using c by (auto simp: ls s')
qed

text \<open> C25. \<open>alloc_loc\<close> never crashes on a well-formed state and returns \<open>n\<close> different locations that
  were free; they are now allocated and no other slot has changed. Every page it takes slots of that
  held anything before is among the pages to read. The state stays well-formed, and the file grows
  only past its old end.\<close>

theorem alloc_loc_takes_free:
  assumes "locs_ok s" "0 < n"
  shows "\<exists>ls need' s'. alloc_loc n hints need s = Some (ls, need', s') \<and> length ls = n \<and> taken s ls s' \<and> locs_ok s' \<and>
    read_ok s ls need' \<and> need \<subseteq> need' \<and> need' \<subseteq> need \<union> set hints \<and> cur_loc s \<le> cur_loc s'"
proof -
  have n: "0 < per s" using assms(1) by (simp add: locs_ok_def)
  obtain ls1 s1 where r: "reuse_empty n 0 [] (empties s) s = Some (ls1, length ls1, s1)" "taken s ls1 s1"
    "length ls1 \<le> n" "locs_ok s1" "cur_loc s1 = cur_loc s" "length ls1 < n \<longrightarrow> empties s1 = []"
    "\<forall>l \<in> set ls1. \<forall>l'. loc_sector_no s l' = loc_sector_no s l \<longrightarrow> loc2id s l' = invalid_id"
    using reuse_empty_spec [where s = s and q = "empties s" and cur = 0 and n = n and ret = "[]"] assms by auto
  have read1: "read_ok s ls1 need1" for need1 using r(7) by (auto simp: read_ok_def)
  have sec: "loc_sector_no t l = loc_sector_no s l" if "per t = per s" for t l
    using n that by (simp add: loc_page)
  show ?thesis
  proof (cases "length ls1 = n")
    case True
    have "alloc_loc n hints need s = Some (ls1, need, s1)"
      using True r(1) by (simp add: alloc_loc_def)
    then show ?thesis
      using True r(2,4,5) read1 by (intro exI [of _ ls1] exI [of _ need] exI [of _ s1]) simp
  next
    case False
    then have less: "length ls1 < n" using r(3) by simp
    then have "empties s1 = []" using r(6) by blast
    from use_hints_spec [OF r(4) this less, of ls1 need hints]
    obtain ls2 need2 s2 where h: "use_hints n (length ls1) ls1 need hints s1 = (ls1 @ ls2, length ls1 + length ls2, need2, s2)"
      "taken s1 ls2 s2" "length ls1 + length ls2 \<le> n" "locs_ok s2" "empties s2 = []" "cur_loc s2 = cur_loc s1"
      "need \<subseteq> need2" "need2 \<subseteq> need \<union> set hints" "read_ok s1 ls2 need2"
      by blast
    have taken2: "taken s (ls1 @ ls2) s2" by (rule taken_trans [OF r(2) h(2)])
    have read2: "read_ok s (ls1 @ ls2) need2"
      by (rule read_ok_trans [OF read1 h(7,9) r(2)], rule sec) (use r(2) in \<open>simp add: taken_def\<close>)
    show ?thesis
    proof (cases "length ls1 + length ls2 = n")
      case True
      have "alloc_loc n hints need s = Some (ls1 @ ls2, need2, s2)"
        using False True r(1) h(1) by (simp add: alloc_loc_def)
      then show ?thesis
        using True taken2 read2 h(4,6,7,8) r(5)
        by (intro exI [of _ "ls1 @ ls2"] exI [of _ need2] exI [of _ s2]) simp
    next
      case more: False
      obtain ls3 s3 where e: "extend_locs (n - (length ls1 + length ls2)) s2 = (ls3, s3)" by fastforce
      note x = extend_locs_spec [OF h(4,5) e, of need2]
      have "alloc_loc n hints need s = Some ((ls1 @ ls2) @ ls3, need2, s3)"
        using False more r(1) h(1) e by (simp add: alloc_loc_def)
      moreover have "read_ok s ((ls1 @ ls2) @ ls3) need2"
        by (rule read_ok_trans [OF read2 order_refl _ taken2], use x in blast, rule sec)
          (use taken2 in \<open>simp add: taken_def\<close>)
      moreover have "taken s ((ls1 @ ls2) @ ls3) s3" using taken_trans [OF taken2] x by blast
      moreover have "length ((ls1 @ ls2) @ ls3) = n" "cur_loc s \<le> cur_loc s3" using x h(3,6) r(5) by auto
      ultimately show ?thesis
        using h(7,8) x by (intro exI [of _ "(ls1 @ ls2) @ ls3"] exI [of _ need2] exI [of _ s3]) blast
    qed
  qed
qed

definition locs_example :: locs where
  "locs_example = \<lparr>per = 2, node_len = 2000, layout = [1 \<mapsto> [7, invalid_id], 2 \<mapsto> [invalid_id, invalid_id]],
     empties = [2], cur_loc = 4\<rparr>"

theorem alloc_loc_takes_free_witness:
  "\<exists>ls need s'. alloc_loc 4 [1] {} locs_example = Some (ls, need, s') \<and> length ls = 4 \<and> read_ok locs_example ls need"
proof -
  have "locs_ok locs_example" by (auto simp: locs_ok_def locs_example_def split: if_splits)
  from alloc_loc_takes_free [OF this, of 4 "[1]" "{}"] show ?thesis by auto
qed

subsection \<open>Committing an update\<close>

lemma used_page:
  assumes "locs_ok s" "loc2id s l \<noteq> invalid_id"
  obtains v where "layout s (Suc (l div per s)) = Some v" "v ! (l mod per s) = loc2id s l" "l mod per s < length v"
    "length v = per s" "Suc (l div per s) \<notin> set (empties s)"
proof -
  have n: "0 < per s" using assms(1) by (simp add: locs_ok_def)
  obtain v where v: "layout s (Suc (l div per s)) = Some v" "v ! (l mod per s) = loc2id s l"
    using assms(2) n by (auto simp: loc2id_page split: option.splits)
  have len: "length v = per s" by (rule locs_ok_page(2) [OF assms(1) v(1)])
  have i: "l mod per s < length v" using n len by simp
  have "\<not> list_all (\<lambda>x. x = invalid_id) v"
    using v(2) assms(2) i by (auto simp: list_all_length)
  then have "Suc (l div per s) \<notin> set (empties s)" using assms(1) v(1) by (fastforce simp: locs_ok_def)
  then show ?thesis using that v i len by blast
qed

lemma locs_ok_lengths: "locs_ok s \<Longrightarrow> 0 < per s" "locs_ok s \<Longrightarrow> \<forall>p v. layout s p = Some v \<longrightarrow> length v = per s"
  by (auto simp: locs_ok_def)

lemma set_loc2id_ok:
  assumes "locs_ok s" "loc2id s l \<noteq> invalid_id"
  shows "locs_ok (set_loc2id s l i)"
proof -
  obtain v where v: "layout s (Suc (l div per s)) = Some v" "Suc (l div per s) \<notin> set (empties s)"
    using used_page [OF assms] by metis
  have "set_loc2id s l i = s\<lparr>layout := (layout s)(Suc (l div per s) \<mapsto> v[l mod per s := i]), empties := empties s\<rparr>"
    using v locs_ok_lengths(1) [OF assms(1)] by (simp add: set_loc2id_def loc_page upsert_slot_def)
  then show ?thesis
    using locs_ok_update [OF assms(1) v(1), of "v[l mod per s := i]" "empties s"] v(2) assms(1)
    by (simp add: locs_ok_def)
qed

lemma set_locs_ok:
  assumes "locs_ok s" "\<forall>(l, i) \<in> set ps. loc2id s l \<noteq> invalid_id \<and> i \<noteq> invalid_id" "distinct (map fst ps)"
  shows "locs_ok (set_locs s ps) \<and> cur_loc (set_locs s ps) = cur_loc s \<and> empties (set_locs s ps) = empties s \<and>
    per (set_locs s ps) = per s \<and>
    (\<forall>l. loc2id (set_locs s ps) l = (case map_of ps l of None \<Rightarrow> loc2id s l | Some i \<Rightarrow> i))"
  using assms
proof (induction ps arbitrary: s)
  case (Cons q ps)
  obtain l i where q: "q = (l, i)" by fastforce
  have ok: "locs_ok (set_loc2id s l i)" using Cons.prems q by (intro set_loc2id_ok) auto
  note same = set_loc2id_layout [OF locs_ok_lengths [OF Cons.prems(1)], of l i]
  note at = set_loc2id_loc [OF locs_ok_lengths [OF Cons.prems(1)], of l i]
  have "\<forall>(l', j) \<in> set ps. loc2id (set_loc2id s l i) l' \<noteq> invalid_id \<and> j \<noteq> invalid_id"
    using Cons.prems(2) q by (fastforce simp: at split: if_splits)
  moreover have "map_of ps l = None" using Cons.prems(3) q by (auto simp: map_of_eq_None_iff)
  ultimately show ?case
    using Cons.IH [OF ok] Cons.prems(3) q same at by (auto split: option.splits)
qed simp

text \<open>The page of \<open>l\<close> holds nothing.\<close>

definition page_empty :: "locs \<Rightarrow> nat \<Rightarrow> bool" where
  "page_empty s p \<longleftrightarrow> (\<exists>v. layout s p = Some v \<and> list_all (\<lambda>x. x = invalid_id) v)"

lemma erase_loc2id_ok:
  assumes "locs_ok s" "loc2id s l \<noteq> invalid_id"
  shows "locs_ok (erase_loc2id s l) \<and> cur_loc (erase_loc2id s l) = cur_loc s \<and> per (erase_loc2id s l) = per s \<and>
    (\<forall>l'. loc2id (erase_loc2id s l) l' = (if l' = l then invalid_id else loc2id s l')) \<and>
    empties (erase_loc2id s l) = empties s @
      (if page_empty (erase_loc2id s l) (Suc (l div per s)) then [Suc (l div per s)] else [])"
proof -
  let ?p = "Suc (l div per s)"
  note n = locs_ok_lengths [OF assms(1)]
  obtain v where v: "layout s ?p = Some v" "l mod per s < length v" "length v = per s" "?p \<notin> set (empties s)"
    using used_page [OF assms] by metis
  define v' where "v' = v[l mod per s := invalid_id]"
  define q where "q = empties s @ (if list_all (\<lambda>x. x = invalid_id) v' then [?p] else [])"
  have e: "erase_loc2id s l = s\<lparr>layout := (layout s)(?p \<mapsto> v'), empties := q\<rparr>"
    using n v by (simp add: erase_loc2id_def loc_page v'_def q_def)
  have ok: "locs_ok (s\<lparr>layout := (layout s)(?p \<mapsto> v'), empties := empties s\<rparr>)"
  proof (rule locs_ok_update [OF assms(1) v(1)])
    show "distinct (empties s)" using assms(1) by (simp add: locs_ok_def)
  qed (use v in \<open>simp_all add: v'_def\<close>)
  have ok': "locs_ok (erase_loc2id s l)"
    using ok v(4) unfolding e q_def by (auto simp: locs_ok_def)
  have "set_loc2id s l invalid_id = s\<lparr>layout := (layout s)(?p \<mapsto> v')\<rparr>"
    using n v by (simp add: set_loc2id_def loc_page upsert_slot_def v'_def)
  then have "loc2id (erase_loc2id s l) l' = (if l' = l then invalid_id else loc2id s l')" for l'
    using set_loc2id_loc [OF n, of l invalid_id l'] loc2id_same(1) [where s = "set_loc2id s l invalid_id" and q = q and l = l']
    by (simp add: e)
  then show ?thesis using ok' by (simp add: e q_def page_empty_def)
qed

lemma erase_loc2id_dom:
  assumes "locs_ok s" "loc2id s l \<noteq> invalid_id"
  shows "dom (layout (erase_loc2id s l)) = dom (layout s)"
proof -
  obtain v where v: "layout s (Suc (l div per s)) = Some v" using used_page [OF assms] by metis
  have "insert (Suc (l div per s)) (dom (layout s)) = dom (layout s)" using v by blast
  then show ?thesis using v locs_ok_lengths(1) [OF assms(1)] by (simp add: erase_loc2id_def loc_page Let_def)
qed

lemma page_empty_iff:
  assumes "locs_ok s"
  shows "page_empty s p \<longleftrightarrow> p \<in> dom (layout s) \<and> (\<forall>l. Suc (l div per s) = p \<longrightarrow> loc2id s l = invalid_id)"
proof
  assume e: "page_empty s p"
  then obtain v where v: "layout s p = Some v" "list_all (\<lambda>x. x = invalid_id) v" by (auto simp: page_empty_def)
  then show "p \<in> dom (layout s) \<and> (\<forall>l. Suc (l div per s) = p \<longrightarrow> loc2id s l = invalid_id)"
    using locs_ok_page [OF assms v(1)] by (auto simp: loc2id_page list_all_length)
next
  assume r: "p \<in> dom (layout s) \<and> (\<forall>l. Suc (l div per s) = p \<longrightarrow> loc2id s l = invalid_id)"
  then obtain v where v: "layout s p = Some v" by blast
  note page = locs_ok_page [OF assms v]
  have "v ! i = invalid_id" if "i < length v" for i
  proof -
    have "Suc (((p - 1) * per s + i) div per s) = p" using that page by simp
    then have "loc2id s ((p - 1) * per s + i) = invalid_id" using r by blast
    then show ?thesis using that page v by (simp add: loc2id_page)
  qed
  then show "page_empty s p" using v by (auto simp: page_empty_def list_all_length)
qed

lemma erase_locs_ok:
  assumes "locs_ok s" "distinct ls" "\<forall>l \<in> set ls. loc2id s l \<noteq> invalid_id"
  shows "locs_ok (erase_locs s ls) \<and> cur_loc (erase_locs s ls) = cur_loc s \<and> per (erase_locs s ls) = per s \<and>
    (\<forall>l. loc2id (erase_locs s ls) l = (if l \<in> set ls then invalid_id else loc2id s l)) \<and>
    dom (layout (erase_locs s ls)) = dom (layout s) \<and>
    (\<forall>p. p \<in> set (empties (erase_locs s ls)) \<longleftrightarrow> p \<in> set (empties s) \<or>
      (\<exists>l \<in> set ls. p = Suc (l div per s) \<and> page_empty (erase_locs s ls) p))"
  using assms
proof (induction ls arbitrary: s)
  case (Cons l ls)
  define s1 where "s1 = erase_loc2id s l"
  define s2 where "s2 = erase_locs s1 ls"
  have used: "loc2id s l \<noteq> invalid_id" using Cons.prems(3) by simp
  note e = erase_loc2id_ok [OF Cons.prems(1) used, folded s1_def]
  note d = erase_loc2id_dom [OF Cons.prems(1) used, folded s1_def]
  have "\<forall>l' \<in> set ls. loc2id s1 l' \<noteq> invalid_id" using e Cons.prems(2,3) by auto
  then have I: "locs_ok s2" "cur_loc s2 = cur_loc s1" "per s2 = per s1"
    "\<And>l. loc2id s2 l = (if l \<in> set ls then invalid_id else loc2id s1 l)" "dom (layout s2) = dom (layout s1)"
    "\<And>p. p \<in> set (empties s2) \<longleftrightarrow> p \<in> set (empties s1) \<or> (\<exists>l \<in> set ls. p = Suc (l div per s1) \<and> page_empty s2 p)"
    using Cons.IH [of s1] Cons.prems(2) e unfolding s2_def by simp_all
  have per: "per s1 = per s" and ok1: "locs_ok s1" using e by blast+
  have "p \<in> set (empties s2) \<longleftrightarrow> p \<in> set (empties s) \<or> (\<exists>l \<in> set (l # ls). p = Suc (l div per s) \<and> page_empty s2 p)" for p
  proof -
    have "page_empty s1 p \<Longrightarrow> page_empty s2 p"
      unfolding page_empty_iff [OF ok1] page_empty_iff [OF I(1)] I(3,4,5) by auto
    moreover have "page_empty s2 p \<Longrightarrow> (\<exists>l' \<in> set ls. p = Suc (l' div per s)) \<or> page_empty s1 p"
      unfolding page_empty_iff [OF ok1] page_empty_iff [OF I(1)] I(3,4,5) per by (auto split: if_splits)
    ultimately show ?thesis using I(6) [of p] e per by auto
  qed
  then show ?case using I e d unfolding s2_def s1_def by auto
qed simp

text \<open> C27. Committing an update, \<open>erase_and_set_loc\<close>, puts the new ids into their allocated locations,
  frees the old ones and changes no other slot; exactly the pages that an old location was on and
  that now hold nothing are queued as empty, each once, and the state stays well-formed.\<close>

theorem erase_and_set_loc_moves:
  assumes "locs_ok s" "distinct new_locs" "distinct old_locs" "set new_locs \<inter> set old_locs = {}"
    and "length new_ids = length new_locs" "invalid_id \<notin> set new_ids"
    and "\<forall>l \<in> set new_locs \<union> set old_locs. loc2id s l \<noteq> invalid_id"
    and "s' = erase_and_set_loc s old_locs new_locs new_ids"
  shows "locs_ok s' \<and> cur_loc s' = cur_loc s \<and>
    (\<forall>i < length new_locs. loc2id s' (new_locs ! i) = new_ids ! i) \<and> (\<forall>l \<in> set old_locs. loc2id s' l = invalid_id) \<and>
    (\<forall>l. l \<notin> set new_locs \<union> set old_locs \<longrightarrow> loc2id s' l = loc2id s l) \<and>
    set (empties s') = set (empties s) \<union> {p. \<exists>l \<in> set old_locs. p = loc_sector_no s l \<and> page_empty s' p}"
proof -
  define s1 where "s1 = set_locs s (zip new_locs new_ids)"
  have ids: "\<forall>(l, i) \<in> set (zip new_locs new_ids). loc2id s l \<noteq> invalid_id \<and> i \<noteq> invalid_id"
    using assms(6,7) by (auto dest: set_zip_leftD set_zip_rightD)
  have "distinct (map fst (zip new_locs new_ids))" using assms(2,5) by simp
  note s1 = set_locs_ok [OF assms(1) ids this, folded s1_def]
  have at: "loc2id s1 l = (case map_of (zip new_locs new_ids) l of None \<Rightarrow> loc2id s l | Some i \<Rightarrow> i)" for l
    using s1 by blast
  have other: "loc2id s1 l = loc2id s l" if "l \<notin> set new_locs" for l
    using that map_of_zip_is_None [OF assms(5) [symmetric], of l] by (simp add: at)
  have new: "loc2id s1 (new_locs ! i) = new_ids ! i" if "i < length new_locs" for i
    using that assms(2,5) by (simp add: at map_of_zip_nth)
  have "\<forall>l \<in> set old_locs. loc2id s1 l \<noteq> invalid_id" using other assms(4,7) by fastforce
  moreover have "locs_ok s1" using s1 by blast
  moreover have s': "s' = erase_locs s1 old_locs" by (simp add: assms(8) erase_and_set_loc_def s1_def)
  ultimately have e: "locs_ok s'" "cur_loc s' = cur_loc s1"
    "\<And>l. loc2id s' l = (if l \<in> set old_locs then invalid_id else loc2id s1 l)"
    "\<And>p. p \<in> set (empties s') \<longleftrightarrow> p \<in> set (empties s1) \<or> (\<exists>l \<in> set old_locs. p = Suc (l div per s1) \<and> page_empty s' p)"
    using erase_locs_ok [of s1 old_locs] assms(3) by auto
  have "new_locs ! i \<notin> set old_locs" if "i < length new_locs" for i using that assms(4) by (meson disjoint_iff nth_mem)
  then show ?thesis
    using e s1 new other locs_ok_lengths(1) [OF assms(1)] by (auto simp: loc_page)
qed

theorem erase_and_set_loc_moves_witness:
  "loc2id (erase_and_set_loc (locs_example\<lparr>layout := [1 \<mapsto> [7, allocated_id], 2 \<mapsto> [8, invalid_id]], empties := []\<rparr>) [2] [1] [8]) 1 = 8"
proof -
  let ?s = "locs_example\<lparr>layout := [1 \<mapsto> [7, allocated_id], 2 \<mapsto> [8, invalid_id]], empties := []\<rparr>"
  have ok: "locs_ok ?s" by (auto simp: locs_ok_def locs_example_def split: if_splits)
  have used: "\<forall>l \<in> set [1] \<union> set [2]. loc2id ?s l \<noteq> invalid_id"
    by (simp add: loc2id_def loc_sector_no_def locs_example_def) (simp add: invalid_id_def)
  have "invalid_id \<notin> set [8]" by (simp add: invalid_id_def)
  from erase_and_set_loc_moves [OF ok _ _ _ _ this used refl] show ?thesis by simp
qed

end
