(* ===== verification/PartLocs.thy ===== *)
theory PartLocs
  imports LocAllocator
begin

text \<open>
  The decoupled stores of \<open>DGAI/include/ssd_index.h\<close>: topology records and coordinates lie in two
  files of their own, each with its location maps. They have the same shape, so the operations are
  written once over the function that gives the page of a location. Unlike the store of whole nodes,
  freed locations are queued one by one, beside the pages that ran empty; pages count from 0.
\<close>

record part_locs =
  pper :: nat
  plen :: nat
  playout :: "nat \<rightharpoonup> nat list"
  plocs :: "nat list"
  ppages :: "nat list"

definition loc_sector_no_topo :: "part_locs \<Rightarrow> nat \<Rightarrow> nat" where
  "loc_sector_no_topo s loc = loc div pper s"

definition loc_sector_no_coord :: "part_locs \<Rightarrow> nat \<Rightarrow> nat" where
  "loc_sector_no_coord s loc = (if 0 < pper s then loc div pper s else loc * ((plen s + 4096 - 1) div 4096))"

definition sector_to_loc_part :: "part_locs \<Rightarrow> nat \<Rightarrow> nat \<Rightarrow> nat" where
  "sector_to_loc_part s sector_no sector_off = sector_no * pper s + sector_off"

definition part_get :: "(part_locs \<Rightarrow> nat \<Rightarrow> nat) \<Rightarrow> part_locs \<Rightarrow> nat \<Rightarrow> nat" where
  "part_get pg s loc = (case playout s (pg s loc) of None \<Rightarrow> invalid_id | Some v \<Rightarrow> v ! (loc mod pper s))"

definition part_set :: "(part_locs \<Rightarrow> nat \<Rightarrow> nat) \<Rightarrow> part_locs \<Rightarrow> nat \<Rightarrow> nat \<Rightarrow> part_locs" where
  "part_set pg s loc i =
     s\<lparr>playout := (playout s)(pg s loc \<mapsto> upsert_slot (pper s) (loc mod pper s) i (playout s (pg s loc)))\<rparr>"

definition part_erase :: "(part_locs \<Rightarrow> nat \<Rightarrow> nat) \<Rightarrow> part_locs \<Rightarrow> nat \<Rightarrow> part_locs" where
  "part_erase pg s loc =
     (let page = pg s loc; s = s\<lparr>plocs := plocs s @ [loc]\<rparr>
      in case playout s page of
           None \<Rightarrow> s\<lparr>playout := (playout s)(page \<mapsto> replicate (pper s) 0)\<rparr>
         | Some v \<Rightarrow>
             let v = v[loc mod pper s := invalid_id]; s = s\<lparr>playout := (playout s)(page \<mapsto> v)\<rparr>
             in if list_all (\<lambda>x. x = invalid_id) v then s\<lparr>ppages := ppages s @ [page]\<rparr> else s)"

definition part_commit ::
  "(part_locs \<Rightarrow> nat \<Rightarrow> nat) \<Rightarrow> part_locs \<Rightarrow> nat list \<Rightarrow> nat list \<Rightarrow> nat list \<Rightarrow> part_locs" where
  "part_commit pg s old_locs new_locs new_ids =
     fold (\<lambda>l s. part_erase pg s l) old_locs (fold (\<lambda>(l, i) s. part_set pg s l i) (zip new_locs new_ids) s)"

definition loc2id_topo :: "part_locs \<Rightarrow> nat \<Rightarrow> nat" where
  "loc2id_topo = part_get loc_sector_no_topo"
definition set_loc2id_topo :: "part_locs \<Rightarrow> nat \<Rightarrow> nat \<Rightarrow> part_locs" where
  "set_loc2id_topo = part_set loc_sector_no_topo"
definition erase_loc2id_topo :: "part_locs \<Rightarrow> nat \<Rightarrow> part_locs" where
  "erase_loc2id_topo = part_erase loc_sector_no_topo"
definition erase_and_set_loc_topo :: "part_locs \<Rightarrow> nat list \<Rightarrow> nat list \<Rightarrow> nat list \<Rightarrow> part_locs" where
  "erase_and_set_loc_topo = part_commit loc_sector_no_topo"

definition loc2id_coord :: "part_locs \<Rightarrow> nat \<Rightarrow> nat" where
  "loc2id_coord = part_get loc_sector_no_coord"
definition set_loc2id_coord :: "part_locs \<Rightarrow> nat \<Rightarrow> nat \<Rightarrow> part_locs" where
  "set_loc2id_coord = part_set loc_sector_no_coord"
definition erase_loc2id_coord :: "part_locs \<Rightarrow> nat \<Rightarrow> part_locs" where
  "erase_loc2id_coord = part_erase loc_sector_no_coord"
definition erase_and_set_loc_coord :: "part_locs \<Rightarrow> nat list \<Rightarrow> nat list \<Rightarrow> nat list \<Rightarrow> part_locs" where
  "erase_and_set_loc_coord = part_commit loc_sector_no_coord"

subsection \<open>Commits\<close>

text \<open>A page function that agrees with the slots, and a layout whose pages have their slots.\<close>

definition paged :: "(part_locs \<Rightarrow> nat \<Rightarrow> nat) \<Rightarrow> bool" where
  "paged pg \<longleftrightarrow> (\<forall>s l. 0 < pper s \<longrightarrow> pg s l = l div pper s)"

lemma paged_topo: "paged loc_sector_no_topo" and paged_coord: "paged loc_sector_no_coord"
  by (simp_all add: paged_def loc_sector_no_topo_def loc_sector_no_coord_def)

definition pages_ok :: "part_locs \<Rightarrow> bool" where
  "pages_ok s \<longleftrightarrow> 0 < pper s \<and> (\<forall>p v. playout s p = Some v \<longrightarrow> length v = pper s)"

lemma part_set_get:
  assumes "paged pg" "pages_ok s"
  shows "part_get pg (part_set pg s l i) l' = (if l' = l then i else part_get pg s l')"
    and "pages_ok (part_set pg s l i)" "pper (part_set pg s l i) = pper s"
    and "plocs (part_set pg s l i) = plocs s" "dom (playout s) \<subseteq> dom (playout (part_set pg s l i))"
proof -
  have n: "0 < pper s" and len: "\<And>p v. playout s p = Some v \<Longrightarrow> length v = pper s"
    using assms(2) by (auto simp: pages_ok_def)
  have pg: "pg t l = l div pper t" if "0 < pper t" for t l using assms(1) that by (simp add: paged_def)
  let ?s = "part_set pg s l i"
  have p: "pper ?s = pper s" by (simp add: part_set_def)
  show "part_get pg ?s l' = (if l' = l then i else part_get pg s l')"
  proof (cases "l' div pper s = l div pper s")
    case True
    then have "l' = l \<longleftrightarrow> l' mod pper s = l mod pper s" by (metis div_mult_mod_eq)
    moreover have "l mod pper s < pper s" "l' mod pper s < pper s" using n by simp_all
    ultimately show ?thesis
      using True n len [of "l div pper s"] p
      by (auto simp: part_get_def pg p) (auto simp: part_set_def pg upsert_slot_def nth_list_update split: option.splits)
  next
    case False
    then show ?thesis
      using n p by (auto simp: part_get_def pg) (auto simp: part_set_def pg split: option.splits)
  qed
  show "pages_ok ?s" "pper ?s = pper s" "plocs ?s = plocs s" "dom (playout s) \<subseteq> dom (playout ?s)"
    using n len by (auto simp: pages_ok_def part_set_def upsert_slot_def split: option.splits if_splits)
qed

lemma part_erase_get:
  assumes "paged pg" "pages_ok s" "pg s l \<in> dom (playout s)"
  shows "part_get pg (part_erase pg s l) l' = (if l' = l then invalid_id else part_get pg s l')"
    and "pages_ok (part_erase pg s l)" "pper (part_erase pg s l) = pper s"
    and "plocs (part_erase pg s l) = plocs s @ [l]" "dom (playout (part_erase pg s l)) = dom (playout s)"
proof -
  obtain v where v: "playout s (pg s l) = Some v" using assms(3) by blast
  have pg: "pg t l = l div pper t" if "0 < pper t" for t l using assms(1) that by (simp add: paged_def)
  have n: "0 < pper s" using assms(2) by (simp add: pages_ok_def)
  let ?s = "part_erase pg s l" and ?t = "part_set pg s l invalid_id"
  have same: "playout ?s = playout ?t" "pper ?s = pper ?t"
    using v by (simp_all add: part_erase_def part_set_def upsert_slot_def Let_def)
  have "part_get pg ?s l' = part_get pg ?t l'"
    using n same part_set_get(3) [OF assms(1,2), of l invalid_id] by (simp add: part_get_def pg split: option.splits)
  then show "part_get pg ?s l' = (if l' = l then invalid_id else part_get pg s l')"
    using part_set_get(1) [OF assms(1,2)] by simp
  show "pages_ok ?s" "pper ?s = pper s"
    using part_set_get(2,3) [OF assms(1,2), of l invalid_id] same by (simp_all add: pages_ok_def)
  show "plocs ?s = plocs s @ [l]" using v by (simp add: part_erase_def Let_def)
  show "dom (playout ?s) = dom (playout s)" using v by (auto simp: same part_set_def)
qed

lemma part_sets:
  assumes "paged pg" "pages_ok s" "distinct (map fst ps)"
  shows "pages_ok (fold (\<lambda>(l, i) s. part_set pg s l i) ps s) \<and> pper (fold (\<lambda>(l, i) s. part_set pg s l i) ps s) = pper s \<and>
    plocs (fold (\<lambda>(l, i) s. part_set pg s l i) ps s) = plocs s \<and>
    dom (playout s) \<subseteq> dom (playout (fold (\<lambda>(l, i) s. part_set pg s l i) ps s)) \<and>
    (\<forall>l. part_get pg (fold (\<lambda>(l, i) s. part_set pg s l i) ps s) l =
      (case map_of ps l of None \<Rightarrow> part_get pg s l | Some i \<Rightarrow> i))"
  using assms
proof (induction ps arbitrary: s)
  case (Cons q ps)
  obtain l i where q: "q = (l, i)" by fastforce
  note one = part_set_get [OF Cons.prems(1,2), of l i]
  have "map_of ps l = None" using Cons.prems(3) q by (auto simp: map_of_eq_None_iff)
  then show ?case
    using Cons.IH [OF Cons.prems(1) one(2)] Cons.prems(3) one q by (auto split: option.splits)
qed simp

lemma part_erases:
  assumes "paged pg" "pages_ok s" "\<forall>l \<in> set ls. pg s l \<in> dom (playout s)"
  shows "pages_ok (fold (\<lambda>l s. part_erase pg s l) ls s) \<and> plocs (fold (\<lambda>l s. part_erase pg s l) ls s) = plocs s @ ls \<and>
    (\<forall>l. part_get pg (fold (\<lambda>l s. part_erase pg s l) ls s) l = (if l \<in> set ls then invalid_id else part_get pg s l))"
  using assms
proof (induction ls arbitrary: s)
  case (Cons l ls)
  have "pg s l \<in> dom (playout s)" using Cons.prems(3) by simp
  note one = part_erase_get [OF Cons.prems(1,2) this]
  have "pg (part_erase pg s l) l' = pg s l'" for l'
    using Cons.prems(1,2) one(3) by (simp add: paged_def pages_ok_def)
  then have "\<forall>l' \<in> set ls. pg (part_erase pg s l) l' \<in> dom (playout (part_erase pg s l))"
    using Cons.prems(3) one(5) by simp
  then show ?case using Cons.IH [OF Cons.prems(1) one(2)] one by auto
qed simp

lemma part_commit_moves:
  assumes "paged pg" "pages_ok s" "distinct new_locs" "set new_locs \<inter> set old_locs = {}"
    and "length new_ids = length new_locs" "\<forall>l \<in> set old_locs. pg s l \<in> dom (playout s)"
    and "s' = part_commit pg s old_locs new_locs new_ids"
  shows "pages_ok s' \<and> plocs s' = plocs s @ old_locs \<and>
    (\<forall>i < length new_locs. part_get pg s' (new_locs ! i) = new_ids ! i) \<and>
    (\<forall>l. l \<notin> set new_locs \<longrightarrow> part_get pg s' l = (if l \<in> set old_locs then invalid_id else part_get pg s l))"
proof -
  define s1 where "s1 = fold (\<lambda>(l, i) s. part_set pg s l i) (zip new_locs new_ids) s"
  have "distinct (map fst (zip new_locs new_ids))" using assms(3,5) by simp
  note sets = part_sets [OF assms(1,2) this, folded s1_def]
  have pgs: "pg s1 l = pg s l" for l
    using assms(1,2) sets by (simp add: paged_def pages_ok_def)
  then have "\<forall>l \<in> set old_locs. pg s1 l \<in> dom (playout s1)" using sets assms(6) by (metis subsetD)
  then have e: "pages_ok s'" "plocs s' = plocs s1 @ old_locs"
    "\<And>l. part_get pg s' l = (if l \<in> set old_locs then invalid_id else part_get pg s1 l)"
    using part_erases [OF assms(1), of s1 old_locs] sets by (simp_all add: assms(7) part_commit_def s1_def)
  have at: "part_get pg s1 l = (case map_of (zip new_locs new_ids) l of None \<Rightarrow> part_get pg s l | Some i \<Rightarrow> i)" for l
    using sets by blast
  have new: "part_get pg s1 (new_locs ! i) = new_ids ! i" if "i < length new_locs" for i
    using that assms(3,5) by (simp add: at map_of_zip_nth)
  have other: "part_get pg s1 l = part_get pg s l" if "l \<notin> set new_locs" for l
    using that map_of_zip_is_None [OF assms(5) [symmetric], of l] by (simp add: at)
  have "new_locs ! i \<notin> set old_locs" if "i < length new_locs" for i
    using that assms(4) by (meson disjoint_iff nth_mem)
  then show ?thesis using e new other sets by auto
qed

text \<open> Committing an update of the topology store puts the new ids into their locations, frees the
  old ones, changes no other slot, and queues every freed location, in order, for reuse.\<close>

theorem topo_commit_moves:
  assumes "pages_ok s" "distinct new_locs" "set new_locs \<inter> set old_locs = {}"
    and "length new_ids = length new_locs" "\<forall>l \<in> set old_locs. loc_sector_no_topo s l \<in> dom (playout s)"
    and "s' = erase_and_set_loc_topo s old_locs new_locs new_ids"
  shows "pages_ok s' \<and> plocs s' = plocs s @ old_locs \<and>
    (\<forall>i < length new_locs. loc2id_topo s' (new_locs ! i) = new_ids ! i) \<and>
    (\<forall>l. l \<notin> set new_locs \<longrightarrow> loc2id_topo s' l = (if l \<in> set old_locs then invalid_id else loc2id_topo s l))"
  using part_commit_moves [OF paged_topo assms(1-5)] assms(6) by (simp add: loc2id_topo_def erase_and_set_loc_topo_def)

theorem topo_commit_moves_witness:
  "plocs (erase_and_set_loc_topo \<lparr>pper = 2, plen = 9, playout = [0 \<mapsto> [5, 6]], plocs = [], ppages = []\<rparr> [1] [3] [6]) = [1]"
proof -
  let ?s = "\<lparr>pper = 2, plen = 9, playout = [0 \<mapsto> [5, 6]], plocs = [], ppages = []\<rparr>"
  have "pages_ok ?s" "\<forall>l \<in> set [1]. loc_sector_no_topo ?s l \<in> dom (playout ?s)"
    by (auto simp: pages_ok_def loc_sector_no_topo_def split: if_splits)
  from topo_commit_moves [OF this(1) _ _ _ this(2) refl, of "[3]" "[6]"] show ?thesis by simp
qed

lemma coord_commit_moves:
  assumes "pages_ok s" "distinct new_locs" "set new_locs \<inter> set old_locs = {}"
    and "length new_ids = length new_locs" "\<forall>l \<in> set old_locs. loc_sector_no_coord s l \<in> dom (playout s)"
    and "s' = erase_and_set_loc_coord s old_locs new_locs new_ids"
  shows "pages_ok s' \<and> plocs s' = plocs s @ old_locs \<and>
    (\<forall>i < length new_locs. loc2id_coord s' (new_locs ! i) = new_ids ! i) \<and>
    (\<forall>l. l \<notin> set new_locs \<longrightarrow> loc2id_coord s' l = (if l \<in> set old_locs then invalid_id else loc2id_coord s l))"
  using part_commit_moves [OF paged_coord assms(1-5)] assms(6) by (simp add: loc2id_coord_def erase_and_set_loc_coord_def)

end
