(* ===== verification/LockOrder.thy ===== *)
theory LockOrder
  imports LocAllocator "HOL-Library.Product_Lexorder"
begin

text \<open>
  How an operation on the index locks its pages, records and nodes: \<open>lockReqs\<close> of
  \<open>DGAI/include/linux_aligned_file_reader.h\<close> and \<open>lock_vec\<close>, \<open>get_to_lock_idx\<close>, \<open>lock_idx\<close>, \<open>lock_page_idx\<close> and
  the unlock functions of \<open>DGAI/include/ssd_index.h\<close>. Each takes the locks of a list one after the other, waiting
  for each, and each works on a table of its own. Threads interleave: a thread has the locks it still waits for
  (\<open>todo\<close>) and those it holds (\<open>held\<close>), and asks for all in one mode, shared or exclusive. A lock can be taken when
  nobody holds it in a mode that excludes; that the lock tables provide just that is shown in \<open>LockTable\<close>.
\<close>

definition get_to_lock_idx :: "nat \<Rightarrow> nat list \<Rightarrow> nat list" where
  "get_to_lock_idx target neighbors = remdups_adj (sort (neighbors @ (if target \<noteq> invalid_id then [target] else [])))"

definition lock_vec_list :: "nat \<Rightarrow> nat list \<Rightarrow> nat list" where
  "lock_vec_list target neighbors = sort (neighbors @ (if target \<noteq> invalid_id then [target] else []))"

definition unlock_vec_list :: "nat \<Rightarrow> nat list \<Rightarrow> nat list" where
  "unlock_vec_list target neighbors = (if target \<noteq> invalid_id then [target] else []) @ neighbors"

definition lock_page_idx_list :: "bool \<Rightarrow> (nat \<Rightarrow> nat) \<Rightarrow> nat \<Rightarrow> nat list \<Rightarrow> nat list" where
  "lock_page_idx_list use_page_search id2page target neighbors =
     (if \<not> use_page_search then []
      else remdups_adj (sort (map id2page (neighbors @ (if target \<noteq> invalid_id then [target] else [])))))"

text \<open>The sectors of some requests, each an offset and a length.\<close>

definition lock_reqs_list :: "(nat \<times> nat) list \<Rightarrow> nat list" where
  "lock_reqs_list reqs =
     remdups_adj (sort (concat (map (\<lambda>(offset, len). map (\<lambda>i. (offset + 4096 * i) div 4096) [0..<(len + 4095) div 4096]) reqs)))"

record ('t, 'l) lockers =
  todo :: "'t \<Rightarrow> 'l list"
  held :: "'t \<Rightarrow> 'l list"
  shared :: "'t \<Rightarrow> bool"

definition can_lock :: "('t, 'l) lockers \<Rightarrow> 't \<Rightarrow> 'l \<Rightarrow> bool" where
  "can_lock s t l \<longleftrightarrow> (\<forall>u. l \<in> set (held s u) \<longrightarrow> shared s t \<and> shared s u)"

text \<open>Steps of a call: take the next lock, or, when all are held, give one back.\<close>

inductive lock_step :: "('t, 'l) lockers \<Rightarrow> ('t, 'l) lockers \<Rightarrow> bool" where
  take_lock: "todo s t = l # ls \<Longrightarrow> can_lock s t l \<Longrightarrow>
    lock_step s (s\<lparr>todo := (todo s)(t := ls), held := (held s)(t := held s t @ [l])\<rparr>)"
| give_lock: "todo s t = [] \<Longrightarrow> l \<in> set (held s t) \<Longrightarrow>
    lock_step s (s\<lparr>held := (held s)(t := remove1 l (held s t))\<rparr>)"

text \<open>The four tables, and the lists of locks a call takes from one of them. \<open>lock_vec\<close> is called for a target
  that is not among its neighbors, which are distinct.\<close>

type_synonym lock = "nat \<times> nat"

definition page_lock_table :: nat where "page_lock_table = 0"
definition vec_lock_table :: nat where "vec_lock_table = 1"
definition idx_lock_table :: nat where "idx_lock_table = 2"
definition page_idx_lock_table :: nat where "page_idx_lock_table = 3"

inductive lock_call :: "nat \<Rightarrow> bool \<Rightarrow> nat list \<Rightarrow> bool" where
  lock_reqs: "lock_call page_lock_table False (lock_reqs_list reqs)"
| lock_vec: "target \<notin> set neighbors \<Longrightarrow> distinct neighbors \<Longrightarrow> lock_call vec_lock_table rd (lock_vec_list target neighbors)"
| lock_idx: "lock_call idx_lock_table rd (get_to_lock_idx target neighbors)"
| lock_page_idx: "lock_call page_idx_lock_table rd (lock_page_idx_list use id2page target neighbors)"

definition start_call :: "'t \<Rightarrow> nat \<Rightarrow> bool \<Rightarrow> nat list \<Rightarrow> ('t, lock) lockers \<Rightarrow> ('t, lock) lockers" where
  "start_call t k rd ls s = s\<lparr>todo := (todo s)(t := map (Pair k) ls), shared := (shared s)(t := rd)\<rparr>"

text \<open>A thread starts a call on a table when it has finished the last one and holds locks of earlier tables only,
  in the same mode: an insertion locks pages, records, nodes and pages of nodes in this order, a page search
  nodes and then their pages, a beam search nodes.\<close>

inductive lock_reach :: "'t set \<Rightarrow> ('t, lock) lockers \<Rightarrow> bool" for T where
  init: "(\<forall>t. todo s t = [] \<and> held s t = []) \<Longrightarrow> lock_reach T s"
| start: "lock_reach T s \<Longrightarrow> t \<in> T \<Longrightarrow> todo s t = [] \<Longrightarrow> \<forall>l \<in> set (held s t). fst l < k \<Longrightarrow>
    held s t = [] \<or> shared s t = rd \<Longrightarrow> lock_call k rd ls \<Longrightarrow> lock_reach T (start_call t k rd ls s)"
| step: "lock_reach T s \<Longrightarrow> lock_step s s' \<Longrightarrow> lock_reach T s'"

inductive_cases lock_stepE: "lock_step s s'"

subsection \<open>Ascending order prevents deadlock\<close>

lemma strict_remdups_adj: "sorted xs \<Longrightarrow> sorted_wrt (<) (remdups_adj xs)" for xs :: "nat list"
proof (induction xs rule: remdups_adj.induct)
  case (3 x y xs)
  show ?case
  proof (cases "x = y")
    case False
    then have "x < y" "\<forall>z \<in> set xs. y \<le> z" using "3.prems" by auto
    then show ?thesis using 3 False by auto
  qed (use 3 in simp)
qed simp_all

lemma sorted_unique: "sorted_wrt (<) (remdups_adj (sort xs))" for xs :: "nat list"
  by (rule strict_remdups_adj) simp

lemma lock_call_sorted: "lock_call k rd ls \<Longrightarrow> sorted_wrt (<) ls"
proof (induction rule: lock_call.induct)
  case (lock_vec target neighbors rd)
  then have "distinct (neighbors @ (if target \<noteq> invalid_id then [target] else []))" by simp
  then show ?case unfolding lock_vec_list_def strict_sorted_iff by simp
qed (simp_all only: lock_reqs_list_def get_to_lock_idx_def lock_page_idx_list_def sorted_unique sorted_wrt.simps split: if_split, simp_all)

definition ordered :: "'t set \<Rightarrow> ('t, lock) lockers \<Rightarrow> bool" where
  "ordered T s \<longleftrightarrow> (\<forall>t. sorted_wrt (<) (held s t @ todo s t)) \<and> (\<forall>t. t \<notin> T \<longrightarrow> todo s t = [] \<and> held s t = [])"

lemma sorted_wrt_remove1: "sorted_wrt (<) xs \<Longrightarrow> sorted_wrt (<) (remove1 l xs)" for xs :: "lock list"
  by (induction xs) (auto dest: notin_set_remove1 in_set_remove1 [THEN iffD1] set_remove1_subset [THEN subsetD])

lemma ordered_step:
  assumes "ordered T s" "lock_step s s'"
  shows "ordered T s'"
  using assms(2)
proof (cases rule: lock_step.cases)
  case (take_lock t l ls)
  then show ?thesis using assms(1) by (auto simp: ordered_def) (metis append.assoc append_Cons append_Nil)
next
  case (give_lock t l)
  moreover have "sorted_wrt (<) (held s t)"
    using assms(1) give_lock by (metis ordered_def append_Nil2)
  ultimately show ?thesis using assms(1) by (auto simp: ordered_def sorted_wrt_remove1)
qed

lemma reach_ordered: "lock_reach T s \<Longrightarrow> ordered T s"
proof (induction rule: lock_reach.induct)
  case (start s t k rd ls)
  have "sorted_wrt (<) (map (Pair k) ls)"
    using lock_call_sorted [OF start.hyps(6)] by (simp add: sorted_wrt_map)
  moreover have "\<forall>l \<in> set (held s t). \<forall>x \<in> set ls. l < (k, x)" using start.hyps(4) by (auto simp: less_prod_def')
  moreover have "sorted_wrt (<) (held s t)" using start.IH start.hyps(3) by (metis ordered_def append_Nil2)
  ultimately show ?case using start by (auto simp: ordered_def start_call_def sorted_wrt_append)
next
  case (step s s')
  then show ?case by (blast intro: ordered_step)
qed (simp add: ordered_def)

text \<open>What is left to do.\<close>

definition lock_work :: "'t set \<Rightarrow> ('t, 'l) lockers \<Rightarrow> nat" where
  "lock_work T s = (\<Sum>t \<in> T. 2 * length (todo s t) + length (held s t))"

lemma lock_step_thread:
  assumes "lock_step s s'"
  shows "\<exists>t. (\<forall>u. u \<noteq> t \<longrightarrow> todo s' u = todo s u \<and> held s' u = held s u) \<and> (todo s t \<noteq> [] \<or> held s t \<noteq> []) \<and>
    2 * length (todo s' t) + length (held s' t) < 2 * length (todo s t) + length (held s t)"
  using assms
proof (cases rule: lock_step.cases)
  case (take_lock t l ls)
  then show ?thesis by (intro exI [of _ t]) simp
next
  case (give_lock t l)
  then have "held s t \<noteq> []" by auto
  then show ?thesis using give_lock by (intro exI [of _ t]) (simp add: length_remove1)
qed

lemma lock_work_decreases:
  assumes "finite T" "ordered T s" "lock_step s s'"
  shows "lock_work T s' < lock_work T s"
proof -
  obtain t where t: "\<forall>u. u \<noteq> t \<longrightarrow> todo s' u = todo s u \<and> held s' u = held s u" "todo s t \<noteq> [] \<or> held s t \<noteq> []"
    "2 * length (todo s' t) + length (held s' t) < 2 * length (todo s t) + length (held s t)"
    using lock_step_thread [OF assms(3)] by blast
  then have T: "t \<in> T" using assms(2) by (auto simp: ordered_def)
  have "2 * length (todo s' u) + length (held s' u) \<le> 2 * length (todo s u) + length (held s u)" for u
    using t by (cases "u = t") auto
  then show ?thesis
    unfolding lock_work_def using assms(1) T t(3) by (intro sum_strict_mono_ex1) auto
qed

lemma busy_step:
  assumes "finite T" "ordered T s" "todo s t \<noteq> [] \<or> held s t \<noteq> []"
  shows "\<exists>s'. lock_step s s'"
proof (cases "\<exists>t. todo s t = [] \<and> held s t \<noteq> []")
  case True
  then obtain t where "todo s t = []" "hd (held s t) \<in> set (held s t)" by (meson list.set_sel(1))
  then show ?thesis by (blast intro: give_lock)
next
  case False
  define W where "W = {t \<in> T. todo s t \<noteq> []}"
  have "finite W" "t \<in> W" using assms False by (auto simp: W_def ordered_def)
  then obtain m where m: "m \<in> W" "\<forall>u \<in> W. hd (todo s u) \<le> hd (todo s m)"
  proof -
    let ?M = "Max ((\<lambda>u. hd (todo s u)) ` W)"
    have "?M \<in> (\<lambda>u. hd (todo s u)) ` W" using \<open>finite W\<close> \<open>t \<in> W\<close> by (intro Max_in) auto
    then obtain m where "m \<in> W" "hd (todo s m) = ?M" by auto
    moreover have "\<forall>u \<in> W. hd (todo s u) \<le> ?M" using \<open>finite W\<close> by (auto intro: Max_ge)
    ultimately show ?thesis using that by simp
  qed
  obtain l ls where l: "todo s m = l # ls" using m(1) by (auto simp: W_def neq_Nil_conv)
  have "l \<notin> set (held s u)" for u
  proof
    assume h: "l \<in> set (held s u)"
    then have u: "todo s u \<noteq> []" using False by auto
    then have "u \<in> W" using assms(2) by (auto simp: W_def ordered_def)
    moreover have "l < hd (todo s u)"
      using assms(2) h u by (auto simp: ordered_def sorted_wrt_append neq_Nil_conv)
    ultimately show False using m(2) l by fastforce
  qed
  then show ?thesis using take_lock [OF l] by (auto simp: can_lock_def)
qed

text \<open> C26. Calls of \<open>lockReqs\<close>, \<open>lock_vec\<close>, \<open>lock_idx\<close> and \<open>lock_page_idx\<close> cannot deadlock when a thread starts a
  call only while all it holds are locks of earlier tables, in the order of these names, and \<open>lock_vec\<close> gets no
  duplicates: as long as a thread waits for a lock or holds one, some thread can take or give back a lock, and
  every such step brings the calls in progress closer to their end. The insertion, the page search and the beam
  search keep to this; the pipelined and the reranking search do not.\<close>

theorem lock_idx_no_deadlock:
  assumes "lock_reach T s" "finite T" "todo s t \<noteq> [] \<or> held s t \<noteq> []"
  shows "(\<exists>s'. lock_step s s') \<and> (\<forall>s'. lock_step s s' \<longrightarrow> lock_work T s' < lock_work T s)"
  using busy_step [OF assms(2) reach_ordered [OF assms(1)] assms(3)]
    lock_work_decreases [OF assms(2) reach_ordered [OF assms(1)]] by blast

definition idle :: "(nat, 'l) lockers" where
  "idle = \<lparr>todo = \<lambda>_. [], held = \<lambda>_. [], shared = \<lambda>_. False\<rparr>"

text \<open>Two insertions, of which the first holds node 4 and waits for 9, and the second waits for 4.\<close>

definition two_inserts :: "(nat, lock) lockers" where
  "two_inserts = start_call 1 idx_lock_table False (get_to_lock_idx 9 [4])
     \<lparr>todo = (\<lambda>_. [])(0 := [(idx_lock_table, 9)]), held = (\<lambda>_. [])(0 := [(idx_lock_table, 4)]), shared = \<lambda>_. False\<rparr>"

lemma lock_lists:
  "get_to_lock_idx 4 [9] = [4, 9]" "get_to_lock_idx 9 [4] = [4, 9]" "get_to_lock_idx 9 [] = [9]" "get_to_lock_idx 4 [] = [4]"
  by (simp_all add: get_to_lock_idx_def invalid_id_def)

lemma start_idle: "t \<in> T \<Longrightarrow> lock_call k rd ls \<Longrightarrow> lock_reach T (start_call t k rd ls idle)"
  by (rule start [OF init]) (simp_all add: idle_def)

lemma two_inserts_reach: "lock_reach {0, 1} two_inserts"
proof -
  let ?s = "start_call 0 idx_lock_table False (get_to_lock_idx 4 [9]) idle"
  have "lock_reach {0, 1} ?s" by (rule start_idle) (simp_all add: lock_idx)
  moreover have "lock_step ?s (?s\<lparr>todo := (todo ?s)(0 := [(idx_lock_table, 9)]), held := (held ?s)(0 := held ?s 0 @ [(idx_lock_table, 4)])\<rparr>)"
    by (rule take_lock) (simp_all add: start_call_def lock_lists can_lock_def idle_def)
  ultimately have "lock_reach {0, 1} (?s\<lparr>todo := (todo ?s)(0 := [(idx_lock_table, 9)]), held := (held ?s)(0 := held ?s 0 @ [(idx_lock_table, 4)])\<rparr>)"
    by (rule step)
  moreover have "?s\<lparr>todo := (todo ?s)(0 := [(idx_lock_table, 9)]), held := (held ?s)(0 := held ?s 0 @ [(idx_lock_table, 4)])\<rparr> =
    \<lparr>todo = (\<lambda>_. [])(0 := [(idx_lock_table, 9)]), held = (\<lambda>_. [])(0 := [(idx_lock_table, 4)]), shared = \<lambda>_. False\<rparr>"
    by (simp add: start_call_def idle_def fun_eq_iff)
  ultimately show ?thesis unfolding two_inserts_def by (intro start) (simp_all add: lock_idx)
qed

theorem lock_idx_no_deadlock_witness:
  "\<exists>s'. lock_step two_inserts s' \<and> lock_work {0, 1} s' < lock_work {0, 1} two_inserts"
proof -
  have "todo two_inserts 0 \<noteq> []" by (simp add: two_inserts_def start_call_def)
  then show ?thesis using lock_idx_no_deadlock [OF two_inserts_reach, of 0] by blast
qed

subsection \<open>Locking ahead deadlocks\<close>

text \<open>The pipelined and the reranking search lock the node of each read they send while the nodes of the reads in
  flight are still locked, in the order of the distances.\<close>

inductive ahead_reach :: "'t set \<Rightarrow> ('t, lock) lockers \<Rightarrow> bool" for T where
  in_order: "lock_reach T s \<Longrightarrow> ahead_reach T s"
| ahead: "ahead_reach T s \<Longrightarrow> t \<in> T \<Longrightarrow> todo s t = [] \<Longrightarrow> shared s t \<Longrightarrow>
    ahead_reach T (start_call t idx_lock_table True (get_to_lock_idx item []) s)"
| ahead_step: "ahead_reach T s \<Longrightarrow> lock_step s s' \<Longrightarrow> ahead_reach T s'"

text \<open>A search has node 9 in flight and sends a read of node 4, while an insertion has locked node 4 and waits for
  node 9: both wait for ever.\<close>

theorem search_ahead_deadlocks:
  "\<exists>s. ahead_reach {0, 1 :: nat} s \<and> todo s 0 \<noteq> [] \<and> todo s 1 \<noteq> [] \<and> (\<forall>s'. \<not> lock_step s s')"
proof -
  let ?k = "idx_lock_table"
  let ?a = "start_call 0 ?k True (get_to_lock_idx 9 []) idle :: (nat, lock) lockers"
  let ?b = "\<lparr>todo = \<lambda>_. [], held = (\<lambda>_. [])(0 := [(?k, 9)]), shared = (\<lambda>_. False)(0 := True)\<rparr> :: (nat, lock) lockers"
  let ?c = "start_call 1 ?k False (get_to_lock_idx 4 [9]) ?b"
  let ?d = "\<lparr>todo = (\<lambda>_. [])(1 := [(?k, 9)]), held = (\<lambda>_. [])(0 := [(?k, 9)], 1 := [(?k, 4)]), shared = (\<lambda>_. False)(0 := True)\<rparr>
    :: (nat, lock) lockers"
  let ?e = "start_call 0 ?k True (get_to_lock_idx 4 []) ?d"
  have b: "?b = ?a\<lparr>todo := (todo ?a)(0 := []), held := (held ?a)(0 := held ?a 0 @ [(?k, 9)])\<rparr>"
    by (simp add: start_call_def idle_def fun_eq_iff)
  have d: "?d = ?c\<lparr>todo := (todo ?c)(1 := [(?k, 9)]), held := (held ?c)(1 := held ?c 1 @ [(?k, 4)])\<rparr>"
    by (simp add: start_call_def fun_eq_iff)
  have "lock_reach {0, 1} ?a" by (rule start_idle) (simp_all add: lock_idx)
  moreover have "lock_step ?a ?b"
    unfolding b by (rule take_lock) (simp_all add: start_call_def lock_lists can_lock_def idle_def)
  ultimately have "lock_reach {0, 1} ?b" by (rule step)
  then have "lock_reach {0, 1} ?c" by (intro start) (simp_all add: lock_idx)
  moreover have "lock_step ?c ?d"
    unfolding d by (rule take_lock) (simp_all add: start_call_def lock_lists can_lock_def)
  ultimately have "lock_reach {0, 1} ?d" by (rule step)
  then have "ahead_reach {0, 1} ?e" by (intro ahead in_order) simp_all
  moreover have "\<not> lock_step ?e s'" for s'
  proof
    assume "lock_step ?e s'"
    then show False
      by (cases rule: lock_step.cases) (auto simp: start_call_def lock_lists can_lock_def split: if_splits)
  qed
  moreover have "todo ?e 0 \<noteq> []" "todo ?e 1 \<noteq> []" by (simp_all add: start_call_def lock_lists)
  ultimately show ?thesis by blast
qed

subsection \<open>\<open>lock_vec\<close> does not drop duplicates\<close>

text \<open>A thread that runs \<open>lock_vec\<close> in exclusive mode, alone.\<close>

inductive alone :: "'l list \<Rightarrow> 't \<Rightarrow> ('t, 'l) lockers \<Rightarrow> bool" for L t where
  alone_start: "todo s t = L \<Longrightarrow> (\<forall>u. held s u = []) \<Longrightarrow> (\<forall>u. u \<noteq> t \<longrightarrow> todo s u = []) \<Longrightarrow> \<not> shared s t \<Longrightarrow> alone L t s"
| alone_step: "alone L t s \<Longrightarrow> lock_step s s' \<Longrightarrow> alone L t s'"

lemma alone_inv:
  assumes "alone L t s" "\<not> distinct L"
  shows "held s t @ todo s t = L \<and> distinct (held s t) \<and> \<not> shared s t \<and> (\<forall>u. u \<noteq> t \<longrightarrow> todo s u = [] \<and> held s u = [])"
  using assms(1)
proof (induction rule: alone.induct)
  case (alone_step s s')
  then have "todo s t \<noteq> []" using assms(2) by auto
  with alone_step.hyps(2) alone_step.IH show ?case
    by (cases rule: lock_step.cases) (auto simp: can_lock_def split: if_splits)
qed auto

text \<open> When the target is among the neighbors, \<open>lock_vec\<close> in exclusive mode waits for a lock that
  the thread holds itself: even with no other thread it never has all its locks.\<close>

theorem lock_vec_self_deadlock:
  assumes "target \<in> set neighbors" "target \<noteq> invalid_id" "alone (lock_vec_list target neighbors) t s"
  shows "todo s t \<noteq> []"
proof -
  have "\<not> distinct (lock_vec_list target neighbors)" using assms(1,2) by (auto simp: lock_vec_list_def)
  then show ?thesis using alone_inv [OF assms(3)] by auto
qed

theorem lock_vec_self_deadlock_witness:
  "todo (idle\<lparr>todo := (todo idle)(0 := lock_vec_list 4 [9, 4])\<rparr>) 0 \<noteq> []"
proof (rule lock_vec_self_deadlock)
  show "alone (lock_vec_list 4 [9, 4]) 0 (idle\<lparr>todo := (todo idle)(0 := lock_vec_list 4 [9, 4])\<rparr>)"
    by (rule alone_start) (simp_all add: idle_def)
qed (simp_all add: invalid_id_def)

end
