(* ===== verification/SearchPhases.thy ===== *)
theory SearchPhases
  imports PruneNeighbors
begin

text \<open>
  The controls of the two-phase search, \<open>Gorgeous/include/hybridcache_search.h\<close>: the detector of the
  second phase, the window of pages to prefetch, and the hit rates per hop over many queries. Floats
  are rationals, without infinities; the operations of the detector go through the rounding function
  \<open>rnd\<close>. \<open>int\<close> variables are integers that wrap at 32 bits; the counters of the detector, which grow
  by one per update, are numbers.
\<close>

subsection \<open>PhaseDetector\<close>

record phase =
  ph_theta :: rat
  ph_l_search :: nat
  ph_checked :: nat
  ph_is_2 :: bool
  ph_prev :: rat
  ph_stagnation :: nat

definition new_phase :: "rat \<Rightarrow> nat \<Rightarrow> phase" where
  "new_phase theta l_search =
     \<lparr>ph_theta = theta, ph_l_search = l_search, ph_checked = 0, ph_is_2 = False, ph_prev = float_max, ph_stagnation = 0\<rparr>"

definition small_gain :: "(rat \<Rightarrow> rat) \<Rightarrow> rat \<Rightarrow> rat \<Rightarrow> bool" where
  "small_gain rnd prev cur \<longleftrightarrow> rnd (rnd (prev - cur) / rnd (prev + rnd (1 / 10 ^ 10))) < rnd (1 / 100)"

definition phase_threshold :: "(rat \<Rightarrow> rat) \<Rightarrow> phase \<Rightarrow> nat" where
  "phase_threshold rnd P = nat \<lfloor>rnd (rnd (of_nat (ph_l_search P)) * ph_theta P)\<rfloor>"

definition update_and_check :: "(rat \<Rightarrow> rat) \<Rightarrow> phase \<Rightarrow> nat \<Rightarrow> rat \<Rightarrow> bool \<times> phase" where
  "update_and_check rnd P checked_count cur =
     (let threshold_reached = phase_threshold rnd P \<le> checked_count;
          stagnation = (if ph_prev P < float_max
                        then if small_gain rnd (ph_prev P) cur then ph_stagnation P + 1 else 0
                        else ph_stagnation P);
          stagnated = (ph_prev P < float_max \<and> 3 \<le> stagnation);
          is_2 = (ph_is_2 P \<or> threshold_reached \<or> stagnated)
      in (is_2, P\<lparr>ph_checked := checked_count, ph_stagnation := stagnation, ph_prev := cur, ph_is_2 := is_2\<rparr>))"

definition transition_point :: "phase \<Rightarrow> nat" where
  "transition_point P = (if ph_is_2 P then ph_checked P else 0)"

definition reset_phase :: "phase \<Rightarrow> phase" where
  "reset_phase P = P\<lparr>ph_checked := 0, ph_is_2 := False, ph_prev := float_max, ph_stagnation := 0\<rparr>"

subsection \<open>SimilarityAwarePrefetcher\<close>

definition i32 :: "int \<Rightarrow> int" where
  "i32 x = (x + 2 ^ 31) mod 2 ^ 32 - 2 ^ 31"

definition compute_prefetch_range :: "nat \<Rightarrow> nat \<Rightarrow> nat \<Rightarrow> nat list" where
  "compute_prefetch_range prefetch_pages total_pages target_page =
     (if prefetch_pages = 0 then [target_page]
      else
        let half_window = i32 (int (prefetch_pages div 2));
            start_page = i32 (i32 (int target_page) - half_window);
            end_page = i32 (start_page + int prefetch_pages);
            (start_page, end_page) =
              (if start_page < 0 then (0, min (i32 (int prefetch_pages)) (i32 (int total_pages))) else (start_page, end_page));
            (start_page, end_page) =
              (if end_page > i32 (int total_pages)
               then (max 0 (i32 (i32 (int total_pages) - i32 (int prefetch_pages))), i32 (int total_pages))
               else (start_page, end_page))
        in map nat [start_page..end_page - 1])"

definition compute_prefetch_range_optimized :: "nat \<Rightarrow> nat \<Rightarrow> nat set \<Rightarrow> nat \<Rightarrow> nat list" where
  "compute_prefetch_range_optimized prefetch_pages total_pages already_fetched target_page =
     filter (\<lambda>p. p \<notin> already_fetched) (compute_prefetch_range prefetch_pages total_pages target_page)"

subsection \<open>Hits per hop\<close>

definition HOP_STATS :: nat where "HOP_STATS = 100"

text \<open>0 is a miss, 1 a hit in the static and 2 one in the dynamic cache.\<close>

record hop_log =
  hl_status :: "nat list"
  hl_total :: nat

definition new_hop_log :: hop_log where
  "new_hop_log = \<lparr>hl_status = replicate HOP_STATS 0, hl_total = 0\<rparr>"

definition record_hop :: "hop_log \<Rightarrow> nat \<Rightarrow> hop_log" where
  "record_hop h status =
     h\<lparr>hl_status := (if hl_total h < HOP_STATS then (hl_status h)[hl_total h := status] else hl_status h),
       hl_total := (hl_total h + 1) mod 2 ^ 32\<rparr>"

text \<open>The counts after one query; \<open>None\<close> reads past the array of a log.\<close>

definition count_hops :: "nat \<Rightarrow> hop_log \<Rightarrow> nat list \<times> nat list \<Rightarrow> (nat list \<times> nat list) option" where
  "count_hops max_hops s counts =
     fold (\<lambda>hop r. do {
       (total, hit) \<leftarrow> r;
       st \<leftarrow> vec_at (hl_status s) hop;
       Some (total[hop := total ! hop + 1], if st = 1 \<or> st = 2 then hit[hop := hit ! hop + 1] else hit)
     }) [0..<min (hl_total s) max_hops] (Some counts)"

definition aggregate_per_hop_hit_rate :: "hop_log list \<Rightarrow> nat \<Rightarrow> rat list option" where
  "aggregate_per_hop_hit_rate stats max_hops = do {
     (total, hit) \<leftarrow> fold (\<lambda>s r. r \<bind> count_hops max_hops s) stats (Some (replicate max_hops 0, replicate max_hops 0));
     Some (map (\<lambda>hop. if 0 < total ! hop then 100 * of_nat (hit ! hop) / of_nat (total ! hop) else 0) [0..<max_hops])
   }"

subsection \<open>The window\<close>

lemma i32_id: "- (2 ^ 31) \<le> x \<Longrightarrow> x < 2 ^ 31 \<Longrightarrow> i32 x = x"
  by (simp add: i32_def)

text \<open> The pages to prefetch around a page of the file are consecutive pages of the file, among them
  the page itself, as many as the window has or the file has, and the optimized variant gives those
  that have not been fetched. The sizes must fit an \<open>int\<close>.\<close>

theorem prefetch_range_window:
  assumes "target < pages" "0 < w" "w + pages < 2 ^ 31" "ps = compute_prefetch_range w pages target"
  shows "(\<exists>a. ps = [a..<a + min w pages] \<and> a + min w pages \<le> pages) \<and> target \<in> set ps \<and>
    set (compute_prefetch_range_optimized w pages fetched target) = set ps - fetched"
proof -
  define h where "h = w div 2"
  have h: "h < w" using assms(2) by (simp add: h_def)
  have ids: "i32 (int h) = int h" "i32 (int target) = int target" "i32 (int w) = int w" "i32 (int pages) = int pages"
    "i32 (int target - int h) = int target - int h" "i32 (int target - int h + int w) = int target - int h + int w"
    "i32 (int pages - int w) = int pages - int w"
    using assms(1,3) h by (simp_all add: i32_id)
  define a where "a = (if target < h then 0 else if pages < target - h + w then pages - w else target - h)"
  have range: "ps = map nat [int a..int (a + min w pages) - 1]"
  proof (cases "target < h")
    case True
    then show ?thesis using assms(1,2) h
      by (simp add: assms(4) compute_prefetch_range_def h_def [symmetric] ids a_def Let_def min_def)
  next
    case False
    then show ?thesis using assms(1,2) h
      by (auto simp: assms(4) compute_prefetch_range_def h_def [symmetric] ids a_def Let_def min_def max_def of_nat_diff)
  qed
  also have "\<dots> = [a..<a + min w pages]"
    by (rule nth_equalityI) auto
  finally have ps: "ps = [a..<a + min w pages]" .
  moreover have "a + min w pages \<le> pages" using assms(1) h by (auto simp: a_def min_def)
  moreover have "a \<le> target" "target < a + min w pages" using assms(1) h by (auto simp: a_def min_def)
  ultimately show ?thesis by (auto simp: compute_prefetch_range_optimized_def assms(4))
qed

theorem prefetch_range_window_witness: "9 \<in> set (compute_prefetch_range 4 10 9)"
  using prefetch_range_window [of 9 10 4 _ "{}", OF _ _ _ refl] by simp

subsection \<open>When the second phase starts\<close>

definition stagnation :: "(rat \<Rightarrow> rat) \<Rightarrow> rat list \<Rightarrow> nat" where
  "stagnation rnd ds = length (takeWhile (\<lambda>j. small_gain rnd (ds ! (j - 1)) (ds ! j)) (rev [1..<length ds]))"

lemma stagnation_snoc:
  assumes "ds \<noteq> []"
  shows "stagnation rnd (ds @ [d]) = (if small_gain rnd (last ds) d then stagnation rnd ds + 1 else 0)"
proof -
  let ?g = "\<lambda>ds j. small_gain rnd (ds ! (j - 1)) (ds ! j)"
  have n: "rev [1..<length (ds @ [d])] = length ds # rev [1..<length ds]"
    using assms by (cases ds) auto
  have "takeWhile (?g (ds @ [d])) (rev [1..<length ds]) = takeWhile (?g ds) (rev [1..<length ds])"
    by (intro takeWhile_cong) (auto simp: nth_append)
  moreover have "?g (ds @ [d]) (length ds) = small_gain rnd (last ds) d"
    using assms by (simp add: nth_append last_conv_nth)
  ultimately show ?thesis unfolding stagnation_def n by simp
qed

lemma stagnation_3:
  assumes "4 \<le> length ds"
  shows "3 \<le> stagnation rnd ds \<longleftrightarrow>
    (\<forall>j \<in> {length ds - 3..length ds - 1}. small_gain rnd (ds ! (j - 1)) (ds ! j))"
proof -
  obtain n where n: "length ds = Suc (Suc (Suc (Suc n)))"
    using assms by (metis add_2_eq_Suc' le_Suc_ex numeral_Bit0 add_Suc_right add.commute)
  have up: "rev [1..<Suc (Suc (Suc (Suc n)))] = Suc (Suc (Suc n)) # Suc (Suc n) # Suc n # rev [1..<Suc n]"
    by simp
  have ran: "{Suc (Suc (Suc (Suc n))) - 3..Suc (Suc (Suc (Suc n))) - 1} = {Suc n, Suc (Suc n), Suc (Suc (Suc n))}" by auto
  show ?thesis unfolding stagnation_def n up ran by simp
qed

lemma stagnation_short: "stagnation rnd ds < length ds \<or> ds = []"
  using length_takeWhile_le [of "\<lambda>j. small_gain rnd (ds ! (j - 1)) (ds ! j)" "rev [1..<length ds]"]
  by (cases ds) (auto simp: stagnation_def)

definition run_phase :: "(rat \<Rightarrow> rat) \<Rightarrow> (nat \<times> rat) list \<Rightarrow> phase \<Rightarrow> phase" where
  "run_phase rnd us P = fold (\<lambda>(c, d) P. snd (update_and_check rnd P c d)) us P"

lemma run_phase_state:
  assumes "\<forall>u \<in> set us. snd u < float_max" "P = run_phase rnd us (new_phase theta l)"
  shows "ph_theta P = theta \<and> ph_l_search P = l \<and> ph_prev P = (if us = [] then float_max else snd (last us)) \<and>
    ph_stagnation P = stagnation rnd (map snd us) \<and>
    (ph_is_2 P \<longleftrightarrow> (\<exists>k < length us. phase_threshold rnd (new_phase theta l) \<le> fst (us ! k) \<or>
      3 \<le> stagnation rnd (map snd (take (Suc k) us))))"
  using assms
proof (induction us arbitrary: P rule: rev_induct)
  case Nil
  then show ?case by (simp add: run_phase_def new_phase_def stagnation_def)
next
  case (snoc u us)
  define Q where "Q = run_phase rnd us (new_phase theta l)"
  have P: "P = snd (update_and_check rnd Q (fst u) (snd u))"
    by (simp add: snoc.prems(2) run_phase_def Q_def case_prod_beta)
  have Q: "ph_theta Q = theta" "ph_l_search Q = l" "ph_prev Q = (if us = [] then float_max else snd (last us))"
    "ph_stagnation Q = stagnation rnd (map snd us)"
    "ph_is_2 Q \<longleftrightarrow> (\<exists>k < length us. phase_threshold rnd (new_phase theta l) \<le> fst (us ! k) \<or>
      3 \<le> stagnation rnd (map snd (take (Suc k) us)))"
    using snoc.IH [of Q] snoc.prems(1) by (simp_all add: Q_def)
  have thr: "phase_threshold rnd Q = phase_threshold rnd (new_phase theta l)"
    using Q(1,2) by (simp add: phase_threshold_def new_phase_def)
  have prev: "ph_prev Q < float_max \<longleftrightarrow> us \<noteq> []" using Q(3) snoc.prems(1) by (auto simp: last_in_set)
  have one: "stagnation rnd [d] = 0" "stagnation rnd [] = 0" for d by (simp_all add: stagnation_def)
  have stag: "ph_stagnation P = stagnation rnd (map snd (us @ [u]))"
    using stagnation_snoc [of "map snd us" rnd "snd u"] Q(3,4) prev
    by (auto simp: P update_and_check_def Let_def last_map one)
  have "ph_is_2 P \<longleftrightarrow> ph_is_2 Q \<or> phase_threshold rnd (new_phase theta l) \<le> fst u \<or>
      3 \<le> stagnation rnd (map snd (us @ [u]))"
    using stag prev one by (cases "us = []") (auto simp: P update_and_check_def Let_def thr)
  moreover have "(\<exists>k < length (us @ [u]). phase_threshold rnd (new_phase theta l) \<le> fst ((us @ [u]) ! k) \<or>
      3 \<le> stagnation rnd (map snd (take (Suc k) (us @ [u])))) \<longleftrightarrow>
    (\<exists>k < length us. phase_threshold rnd (new_phase theta l) \<le> fst (us ! k) \<or>
      3 \<le> stagnation rnd (map snd (take (Suc k) us))) \<or>
    phase_threshold rnd (new_phase theta l) \<le> fst u \<or> 3 \<le> stagnation rnd (map snd (us @ [u]))"
    by (simp add: Ex_less_Suc nth_append conj_commute cong: conj_cong) blast
  ultimately show ?case using stag Q(1,2,5) by (simp add: P update_and_check_def Let_def)
qed

text \<open> The detector reports the second phase from the first update on at which the number of checked
  candidates reaches the threshold or the best distance has improved by less than a hundredth three
  times in a row, and never takes it back; a reset detector behaves like a new one.\<close>

theorem phase_detector_latches:
  assumes "\<forall>u \<in> set us. snd u < float_max" "P = run_phase rnd us (new_phase theta l)"
  shows "(ph_is_2 P \<longleftrightarrow> (\<exists>k < length us. phase_threshold rnd (new_phase theta l) \<le> fst (us ! k) \<or>
      3 \<le> k \<and> (\<forall>j \<in> {k - 2..k}. small_gain rnd (snd (us ! (j - 1))) (snd (us ! j))))) \<and>
    reset_phase P = new_phase theta l"
proof -
  note st = run_phase_state [OF assms]
  have "3 \<le> stagnation rnd (map snd (take (Suc k) us)) \<longleftrightarrow>
      3 \<le> k \<and> (\<forall>j \<in> {k - 2..k}. small_gain rnd (snd (us ! (j - 1))) (snd (us ! j)))" if k: "k < length us" for k
  proof (cases "3 \<le> k")
    case True
    have len: "length (map snd (take (Suc k) us)) = Suc k" using k by simp
    have ran: "{Suc k - 3..Suc k - 1} = {k - 2..k}" by auto
    have prev: "map snd (take (Suc k) us) ! (j - 1) = snd (us ! (j - 1))" if "j \<in> {k - 2..k}" for j
      using that k by (auto simp: nth_take)
    have cur: "map snd (take (Suc k) us) ! j = snd (us ! j)" if "j \<in> {k - 2..k}" for j
      using that k by (auto simp: nth_take)
    have "3 \<le> stagnation rnd (map snd (take (Suc k) us)) \<longleftrightarrow>
        (\<forall>j \<in> {k - 2..k}. small_gain rnd (snd (us ! (j - 1))) (snd (us ! j)))"
      using True stagnation_3 [of "map snd (take (Suc k) us)" rnd] prev cur unfolding len ran by auto
    then show ?thesis using True by blast
  next
    case False
    then show ?thesis using stagnation_short [of rnd "map snd (take (Suc k) us)"] k by auto
  qed
  then have "ph_is_2 P \<longleftrightarrow> (\<exists>k < length us. phase_threshold rnd (new_phase theta l) \<le> fst (us ! k) \<or>
      3 \<le> k \<and> (\<forall>j \<in> {k - 2..k}. small_gain rnd (snd (us ! (j - 1))) (snd (us ! j))))"
    using st by blast
  then show ?thesis using st by (simp add: reset_phase_def new_phase_def)
qed

theorem phase_detector_latches_witness:
  "ph_is_2 (run_phase id [(0, 9), (0, 9), (0, 9), (0, 9), (0, 1)] (new_phase (1 / 2) 10))"
proof -
  let ?us = "[(0, 9), (0, 9), (0, 9), (0, 9), (0, 1)] :: (nat \<times> rat) list"
  have "\<forall>u \<in> set ?us. snd u < float_max" by (simp add: float_max_def)
  moreover have "{1..3} = {1, 2, 3 :: nat}" by auto
  then have "\<exists>k < length ?us. 3 \<le> k \<and> (\<forall>j \<in> {k - 2..k}. small_gain id (snd (?us ! (j - 1))) (snd (?us ! j)))"
    by (intro exI [of _ 3]) (simp add: small_gain_def)
  ultimately show ?thesis using phase_detector_latches [of ?us _ id "1 / 2" 10, OF _ refl] by blast
qed

subsection \<open>The rates of many queries\<close>

definition hop_tick :: "hop_log \<Rightarrow> nat \<Rightarrow> (nat list \<times> nat list) option \<Rightarrow> (nat list \<times> nat list) option" where
  "hop_tick s hop r = do {
     (total, hit) \<leftarrow> r;
     st \<leftarrow> vec_at (hl_status s) hop;
     Some (total[hop := total ! hop + 1], if st = 1 \<or> st = 2 then hit[hop := hit ! hop + 1] else hit)
   }"

definition hop_hit :: "hop_log \<Rightarrow> nat \<Rightarrow> bool" where
  "hop_hit s hop \<longleftrightarrow> hop < hl_total s \<and> hl_status s ! hop \<in> {1, 2}"

lemma count_hops_tick: "count_hops max_hops s counts = fold (hop_tick s) [0..<min (hl_total s) max_hops] (Some counts)"
  by (simp add: count_hops_def hop_tick_def [abs_def])

lemma fold_hop_tick_None: "fold (hop_tick s) hops None = None"
  by (induction hops) (simp_all add: hop_tick_def)

lemma fold_hop_tick:
  assumes "n \<le> length (hl_status s)" "n \<le> m" "length tot = m" "length hit = m"
  shows "fold (hop_tick s) [0..<n] (Some (tot, hit)) =
    Some (map (\<lambda>h. tot ! h + (if h < n then 1 else 0)) [0..<m],
          map (\<lambda>h. hit ! h + (if h < n \<and> hl_status s ! h \<in> {1, 2} then 1 else 0)) [0..<m])"
  using assms(1,2)
proof (induction n)
  case 0
  then show ?case using assms(3,4) by (auto intro!: nth_equalityI)
next
  case (Suc n)
  then have IH: "fold (hop_tick s) [0..<n] (Some (tot, hit)) =
    Some (map (\<lambda>h. tot ! h + (if h < n then 1 else 0)) [0..<m],
          map (\<lambda>h. hit ! h + (if h < n \<and> hl_status s ! h \<in> {1, 2} then 1 else 0)) [0..<m])" by simp
  have step: "fold (hop_tick s) [0..<Suc n] r = hop_tick s n (fold (hop_tick s) [0..<n] r)" for r by simp
  show ?case using Suc.prems unfolding step IH
    by (simp add: hop_tick_def vec_at_def) (auto intro!: nth_equalityI simp: nth_list_update less_Suc_eq)
qed

lemma fold_hop_tick_out:
  assumes "length (hl_status s) < n"
  shows "fold (hop_tick s) [0..<n] r = None"
proof -
  obtain d where "n = length (hl_status s) + Suc d" using assms by (metis less_iff_Suc_add add_Suc_right)
  then have "[0..<n] = [0..<length (hl_status s)] @ length (hl_status s) # [Suc (length (hl_status s))..<n]"
    using upt_add_eq_append [of 0 "length (hl_status s)" "Suc d"] by (simp add: upt_rec del: upt_Suc)
  moreover have "hop_tick s (length (hl_status s)) r' = None" for r'
    by (cases r') (auto simp: hop_tick_def vec_at_def)
  ultimately show ?thesis by (simp add: fold_hop_tick_None)
qed

lemma fold_count_hops:
  assumes "\<forall>s \<in> set stats. min (hl_total s) m \<le> length (hl_status s)"
  shows "fold (\<lambda>s r. r \<bind> count_hops m s) stats (Some (replicate m 0, replicate m 0)) =
    Some (map (\<lambda>h. length (filter (\<lambda>s. h < hl_total s) stats)) [0..<m],
          map (\<lambda>h. length (filter (\<lambda>s. hop_hit s h) stats)) [0..<m])"
  using assms
proof (induction stats rule: rev_induct)
  case Nil
  then show ?case by (simp add: map_replicate_const)
next
  case (snoc s stats)
  then show ?case
    by (simp add: count_hops_tick fold_hop_tick [where m = m]) (auto simp: hop_hit_def)
qed

lemma fold_count_hops_out:
  assumes "s \<in> set stats" "length (hl_status s) < min (hl_total s) m"
  shows "fold (\<lambda>s r. r \<bind> count_hops m s) stats r = None"
proof -
  obtain pre post where stats: "stats = pre @ s # post" using assms(1) by (meson split_list)
  have "fold (\<lambda>s r. r \<bind> count_hops m s) post None = None" by (induction post) auto
  moreover have "r' \<bind> count_hops m s = None" for r'
    by (cases r') (simp_all add: count_hops_tick fold_hop_tick_out [OF assms(2)])
  ultimately show ?thesis by (simp add: stats)
qed

definition log_of :: "nat list \<Rightarrow> hop_log" where
  "log_of run = fold (\<lambda>status h. record_hop h status) run new_hop_log"

lemma log_of_eq:
  "length run < 2 ^ 32 \<Longrightarrow> hl_total (log_of run) = length run \<and> length (hl_status (log_of run)) = HOP_STATS \<and>
     (\<forall>j < length run. j < HOP_STATS \<longrightarrow> hl_status (log_of run) ! j = run ! j)"
proof (induction run rule: rev_induct)
  case Nil
  then show ?case by (simp add: log_of_def new_hop_log_def)
next
  case (snoc st run)
  then have "hl_total (log_of run) = length run \<and> length (hl_status (log_of run)) = HOP_STATS \<and>
     (\<forall>j < length run. j < HOP_STATS \<longrightarrow> hl_status (log_of run) ! j = run ! j)" by simp
  moreover have "log_of (run @ [st]) = record_hop (log_of run) st" by (simp add: log_of_def)
  ultimately show ?case using snoc.prems
    by (auto simp: record_hop_def nth_append nth_list_update less_Suc_eq)
qed

text \<open> Over the logs of any queries, the rate of a hop is the percentage of hits in either cache among
  the queries that reached the hop. A log has room for a hundred hops: when more are asked for and a
  query made more, the loop reads past the array of the log.\<close>

theorem per_hop_rates:
  assumes "\<forall>run \<in> set runs. length run < 2 ^ 32"
  shows "aggregate_per_hop_hit_rate (map log_of runs) max_hops =
    (if \<exists>run \<in> set runs. HOP_STATS < min (length run) max_hops then None
     else Some (map (\<lambda>hop. let reached = filter (\<lambda>run. hop < length run) runs
       in 100 * of_nat (length (filter (\<lambda>run. run ! hop = 1 \<or> run ! hop = 2) reached)) / of_nat (length reached))
       [0..<max_hops]))"
proof (cases "\<exists>run \<in> set runs. HOP_STATS < min (length run) max_hops")
  case True
  then obtain run where "run \<in> set runs" "HOP_STATS < min (length run) max_hops" by blast
  then have "fold (\<lambda>s r. r \<bind> count_hops max_hops s) (map log_of runs) (Some (replicate max_hops 0, replicate max_hops 0)) = None"
    using assms log_of_eq [of run] by (intro fold_count_hops_out [of "log_of run"]) auto
  then show ?thesis using True unfolding aggregate_per_hop_hit_rate_def by simp
next
  case False
  have short: "min (length run) max_hops \<le> HOP_STATS" if "run \<in> set runs" for run using that False by force
  have reached: "filter (\<lambda>s. h < hl_total s) (map log_of runs) = map log_of (filter (\<lambda>run. h < length run) runs)" for h
    using assms log_of_eq by (auto simp: filter_map comp_def intro!: arg_cong [of _ _ "map log_of"] filter_cong)
  have hits: "filter (\<lambda>s. hop_hit s h) (map log_of runs) =
      map log_of (filter (\<lambda>run. run ! h = 1 \<or> run ! h = 2) (filter (\<lambda>run. h < length run) runs))" if "h < max_hops" for h
    unfolding filter_map filter_filter
  proof (intro arg_cong [of _ _ "map log_of"] filter_cong refl)
    fix run
    assume run: "run \<in> set runs"
    then have "h < HOP_STATS" if "h < length run" using short [OF run] that \<open>h < max_hops\<close> by auto
    then show "((\<lambda>s. hop_hit s h) \<circ> log_of) run = (h < length run \<and> (run ! h = 1 \<or> run ! h = 2))"
      using run assms log_of_eq [of run] by (auto simp: hop_hit_def)
  qed
  have "\<forall>s \<in> set (map log_of runs). min (hl_total s) max_hops \<le> length (hl_status s)"
    using assms short log_of_eq by auto
  note fold_count_hops [OF this]
  then show ?thesis using False
    by (auto simp: aggregate_per_hop_hit_rate_def reached hits Let_def simp del: length_filter_map)
qed

theorem per_hop_rates_witness:
  "aggregate_per_hop_hit_rate (map log_of [[1, 0], [0], [2, 2]]) 2 = Some [200 / 3, 50]"
proof -
  let ?runs = "[[1, 0], [0], [2, 2]] :: nat list list"
  have "\<forall>run \<in> set ?runs. length run < 2 ^ 32" by simp
  note per_hop_rates [OF this, of 2]
  then show ?thesis by (simp add: HOP_STATS_def Let_def upt_rec)
qed

end
