(* ===== verification/WorkerPool.thy ===== *)
theory WorkerPool
  imports Prelude "HOL-Library.Multiset"
begin

text \<open>
  The pool of threads that runs the searches, \<open>ThreadPool\<close> of \<open>Gorgeous/include/thread_pool.h\<close>, as a step
  relation. The server (the thread that owns the pool) publishes a task, sets the number of threads
  that still have to finish, and raises their flags one by one; a worker whose flag is up runs the
  task, lowers the flag and decrements the number. Each access to an atomic variable is one step. With
  \<open>zero\<close> (\<open>start_core = 0\<close>) thread 0 is the server itself, which runs its share inside \<open>runTask\<close>. The
  shutdown is not part of the model. \<open>executed\<close> and \<open>calls\<close> record what was run and which calls have
  returned; \<open>runTask\<close> and the pair \<open>runTaskAsync\<close>, \<open>endTaskAsync\<close> are calls, and a caller makes one at a time.
\<close>

datatype worker_pc = W_idle | W_run | W_ran | W_off

datatype server_pc =
    S_idle
  | S_count nat
  | S_fill nat nat
  | S_own nat
  | S_pending nat
  | S_wait nat
  | S_clear nat

record 'a pool =
  threads :: nat
  zero :: bool
  task :: "'a option"
  notify :: int
  active :: "nat \<Rightarrow> bool"
  worker :: "nat \<Rightarrow> worker_pc"
  server :: server_pc
  async :: bool
  executed :: "('a \<times> nat) list"
  calls :: "('a \<times> nat) list"

definition new_pool :: "nat \<Rightarrow> bool \<Rightarrow> 'a pool" where
  "new_pool n z = \<lparr>threads = n, zero = z, task = None, notify = 0, active = (\<lambda>_. False), worker = (\<lambda>_. W_idle),
     server = S_idle, async = False, executed = [], calls = []\<rparr>"

text \<open>Thread 0 of a pool that the server is part of works only while the server runs its share.\<close>

definition has_thread :: "'a pool \<Rightarrow> nat \<Rightarrow> bool" where
  "has_thread s t \<longleftrightarrow> t < threads s \<and> (t = 0 \<and> zero s \<longrightarrow> (\<exists>n. server s = S_own n))"

definition call_task :: "'a pool \<Rightarrow> 'a \<Rightarrow> nat \<Rightarrow> bool \<Rightarrow> 'a pool" where
  "call_task s f n asy = s\<lparr>task := Some f, server := S_count n, async := asy\<rparr>"

inductive pool_step :: "'a pool \<Rightarrow> 'a pool \<Rightarrow> bool" where
  count: "server s = S_count n \<Longrightarrow> pool_step s (s\<lparr>notify := int n, server := S_fill n 0\<rparr>)"
| fill: "server s = S_fill n k \<Longrightarrow> k < n \<Longrightarrow> pool_step s (s\<lparr>active := (active s)(k := True), server := S_fill n (Suc k)\<rparr>)"
| filled: "server s = S_fill n n \<Longrightarrow> pool_step s (s\<lparr>server := (if async s then S_pending n else S_own n)\<rparr>)"
| end_async: "server s = S_pending n \<Longrightarrow> pool_step s (s\<lparr>server := S_wait n\<rparr>)"
| own_done: "server s = S_own n \<Longrightarrow> zero s \<longrightarrow> worker s 0 = W_idle \<and> \<not> active s 0 \<Longrightarrow> pool_step s (s\<lparr>server := S_wait n\<rparr>)"
| waited: "server s = S_wait n \<Longrightarrow> notify s \<le> 0 \<Longrightarrow> pool_step s (s\<lparr>server := S_clear n\<rparr>)"
| clear: "server s = S_clear n \<Longrightarrow> task s = Some f \<Longrightarrow>
    pool_step s (s\<lparr>task := None, server := S_idle, calls := calls s @ [(f, n)]\<rparr>)"
| wake: "has_thread s t \<Longrightarrow> worker s t = W_idle \<Longrightarrow> active s t \<Longrightarrow> pool_step s (s\<lparr>worker := (worker s)(t := W_run)\<rparr>)"
| run: "has_thread s t \<Longrightarrow> worker s t = W_run \<Longrightarrow> task s = Some f \<Longrightarrow>
    pool_step s (s\<lparr>worker := (worker s)(t := W_ran), executed := executed s @ [(f, t)]\<rparr>)"
| lower: "has_thread s t \<Longrightarrow> worker s t = W_ran \<Longrightarrow>
    pool_step s (s\<lparr>worker := (worker s)(t := W_off), active := (active s)(t := False)\<rparr>)"
| decrement: "has_thread s t \<Longrightarrow> worker s t = W_off \<Longrightarrow>
    pool_step s (s\<lparr>worker := (worker s)(t := W_idle), notify := notify s - 1\<rparr>)"

inductive pool_reach :: "'a pool \<Rightarrow> bool" where
  init: "pool_reach (new_pool n z)"
| call: "pool_reach s \<Longrightarrow> server s = S_idle \<Longrightarrow> n \<le> threads s \<Longrightarrow> pool_reach (call_task s f n asy)"
| step: "pool_reach s \<Longrightarrow> pool_step s s' \<Longrightarrow> pool_reach s'"

subsection \<open>The invariant\<close>

text \<open>How many flags the server has raised in this call, and how many it still has to raise.\<close>

fun raised :: "server_pc \<Rightarrow> nat" where
  "raised S_idle = 0"
| "raised (S_count n) = 0"
| "raised (S_fill n k) = k"
| "raised (S_own n) = n"
| "raised (S_pending n) = n"
| "raised (S_wait n) = n"
| "raised (S_clear n) = n"

fun unraised :: "server_pc \<Rightarrow> nat" where
  "unraised (S_fill n k) = n - k"
| "unraised _ = 0"

fun goal_of :: "server_pc \<Rightarrow> nat" where
  "goal_of S_idle = 0"
| "goal_of (S_count n) = n"
| "goal_of (S_fill n k) = n"
| "goal_of (S_own n) = n"
| "goal_of (S_pending n) = n"
| "goal_of (S_wait n) = n"
| "goal_of (S_clear n) = n"

definition busy :: "'a pool \<Rightarrow> nat \<Rightarrow> bool" where
  "busy s t \<longleftrightarrow> active s t \<or> worker s t = W_off"

definition has_run :: "'a pool \<Rightarrow> nat \<Rightarrow> bool" where
  "has_run s t \<longleftrightarrow> worker s t \<in> {W_ran, W_off} \<or> worker s t = W_idle \<and> \<not> active s t"

text \<open>A worker past its flag test has its flag up until it lowers it, and only raised flags are up.\<close>

fun worker_ok :: "worker_pc \<Rightarrow> bool \<Rightarrow> nat \<Rightarrow> nat \<Rightarrow> bool" where
  "worker_ok W_idle a t r \<longleftrightarrow> (a \<longrightarrow> t < r)"
| "worker_ok W_run a t r \<longleftrightarrow> a \<and> t < r"
| "worker_ok W_ran a t r \<longleftrightarrow> a \<and> t < r"
| "worker_ok W_off a t r \<longleftrightarrow> \<not> a \<and> t < r"

definition flags_ok :: "'a pool \<Rightarrow> bool" where
  "flags_ok s \<longleftrightarrow> (\<forall>t. worker_ok (worker s t) (active s t) t (raised (server s))) \<and>
   raised (server s) \<le> goal_of (server s) \<and> goal_of (server s) \<le> threads s \<and> (task s = None \<longleftrightarrow> server s = S_idle)"

definition counted :: "'a pool \<Rightarrow> bool" where
  "counted s \<longleftrightarrow> notify s = int (unraised (server s) + card {t. t < raised (server s) \<and> busy s t}) \<and>
     (\<forall>n. server s = S_clear n \<longrightarrow> notify s \<le> 0)"

definition own_ok :: "'a pool \<Rightarrow> bool" where
  "own_ok s \<longleftrightarrow> zero s \<longrightarrow> (worker s 0 \<noteq> W_idle \<longrightarrow> (\<exists>n. server s = S_own n)) \<and> (async s \<longrightarrow> (\<forall>n. server s \<noteq> S_own n)) \<and>
     (async s \<and> 0 < raised (server s) \<longrightarrow> active s 0) \<and>
     (\<not> async s \<longrightarrow> (\<forall>n. server s \<noteq> S_pending n) \<and> (\<forall>n. server s = S_wait n \<or> server s = S_clear n \<longrightarrow> \<not> active s 0))"

definition runs_of :: "('a \<times> nat) list \<Rightarrow> ('a \<times> nat) multiset" where
  "runs_of cs = (\<Sum>(f, n) \<leftarrow> cs. mset (map (Pair f) [0..<n]))"

definition logged :: "'a pool \<Rightarrow> bool" where
  "logged s \<longleftrightarrow> mset (executed s) = runs_of (calls s) +
     (case task s of None \<Rightarrow> {#} | Some f \<Rightarrow> image_mset (Pair f) (mset_set {t. t < raised (server s) \<and> has_run s t}))"

definition pool_ok :: "'a pool \<Rightarrow> bool" where
  "pool_ok s \<longleftrightarrow> flags_ok s \<and> counted s \<and> own_ok s \<and> logged s"

lemma worker_ok_mono: "worker_ok w a t r \<Longrightarrow> r \<le> r' \<Longrightarrow> worker_ok w a t r'"
  by (cases w) auto

lemma raised_idle:
  assumes "flags_ok s" "raised (server s) \<le> t"
  shows "worker s t = W_idle \<and> \<not> active s t"
proof -
  have "worker_ok (worker s t) (active s t) t (raised (server s))" using assms(1) by (simp add: flags_ok_def)
  then show ?thesis using assms(2) by (cases "worker s t") auto
qed

lemma busy_raised: "flags_ok s \<Longrightarrow> busy s t \<Longrightarrow> t < raised (server s)"
  using raised_idle [of s t] by (fastforce simp: busy_def)

text \<open>When the count is zero after the flags are raised, every thread is idle with its flag down.\<close>

lemma counted_zero:
  assumes "flags_ok s" "counted s" "notify s \<le> 0"
  shows "worker s t = W_idle \<and> \<not> active s t"
proof (cases "t < raised (server s)")
  case True
  have "card {t. t < raised (server s) \<and> busy s t} = 0" using assms(2,3) unfolding counted_def by linarith
  then have "\<not> busy s t" using True by auto
  moreover have "worker_ok (worker s t) (active s t) t (raised (server s))" using assms(1) by (simp add: flags_ok_def)
  ultimately show ?thesis by (cases "worker s t") (auto simp: busy_def)
qed (use raised_idle [OF assms(1), of t] in simp)

lemma flags_step:
  assumes "pool_step s s'" "flags_ok s" "counted s"
  shows "flags_ok s'"
proof -
  have ok: "worker_ok (worker s t) (active s t) t (raised (server s))" for t using assms(2) by (simp add: flags_ok_def)
  have rest: "raised (server s) \<le> goal_of (server s)" "goal_of (server s) \<le> threads s" "task s = None \<longleftrightarrow> server s = S_idle"
    using assms(2) by (simp_all add: flags_ok_def)
  show ?thesis using assms(1)
  proof (cases rule: pool_step.cases)
    case (fill n k)
    then have idle: "worker s k = W_idle" using raised_idle [OF assms(2), of k] by simp
    have "worker_ok (worker s t) (((active s)(k := True)) t) t (Suc k)" for t
      using ok [of t] fill idle worker_ok_mono [of _ _ t k "Suc k"] by (cases "t = k") auto
    then show ?thesis using fill rest by (simp add: flags_ok_def)
  next
    case (clear n f)
    then have "notify s \<le> 0" using assms(3) unfolding counted_def by blast
    then have "worker s t = W_idle \<and> \<not> active s t" for t by (rule counted_zero [OF assms(2,3)])
    then show ?thesis using clear by (simp add: flags_ok_def)
  next
    case (wake t)
    have "worker_ok (((worker s)(t := W_run)) u) (active s u) u (raised (server s))" for u
      using ok [of u] wake by (cases "u = t") auto
    then show ?thesis using wake rest by (simp add: flags_ok_def)
  next
    case (run t f)
    have "worker_ok (((worker s)(t := W_ran)) u) (active s u) u (raised (server s))" for u
      using ok [of u] run by (cases "u = t") auto
    then show ?thesis using run rest by (simp add: flags_ok_def)
  next
    case (lower t)
    have "worker_ok (((worker s)(t := W_off)) u) (((active s)(t := False)) u) u (raised (server s))" for u
      using ok [of u] lower by (cases "u = t") auto
    then show ?thesis using lower rest by (simp add: flags_ok_def)
  next
    case (decrement t)
    have "worker_ok (((worker s)(t := W_idle)) u) (active s u) u (raised (server s))" for u
      using ok [of u] decrement by (cases "u = t") auto
    then show ?thesis using decrement rest by (simp add: flags_ok_def)
  qed (use assms(2) in \<open>auto simp: flags_ok_def\<close>)
qed

lemma own_step: "pool_step s s' \<Longrightarrow> flags_ok s \<Longrightarrow> own_ok s \<Longrightarrow> own_ok s'"
  by (induction rule: pool_step.induct) (auto simp: own_ok_def has_thread_def flags_ok_def split: if_splits)

text \<open>The threads that still have to finish, after each step.\<close>

lemma busy_card:
  assumes "flags_ok s"
  shows "card {t. t < raised (server s) \<and> busy s t} = card {t. busy s t}"
  using busy_raised [OF assms] by (metis (mono_tags, lifting))

lemma busy_finite: "flags_ok s \<Longrightarrow> finite {t. busy s t}"
  using busy_raised by (intro finite_subset [of "{t. busy s t}" "{..<raised (server s)}"]) auto

lemma counted_step:
  assumes "pool_step s s'" "flags_ok s" "counted s"
  shows "counted s'"
proof -
  have n: "notify s = int (unraised (server s) + card {t. busy s t})" "\<forall>n. server s = S_clear n \<longrightarrow> notify s \<le> 0"
    using assms(3) unfolding counted_def busy_card [OF assms(2)] by blast+
  note fin = busy_finite [OF assms(2)]
  have ok: "worker_ok (worker s t) (active s t) t (raised (server s))" for t using assms(2) by (simp add: flags_ok_def)
  have "notify s' = int (unraised (server s') + card {t. busy s' t}) \<and> (\<forall>n. server s' = S_clear n \<longrightarrow> notify s' \<le> 0)"
    using assms(1)
  proof (cases rule: pool_step.cases)
    case (count n)
    then have "\<not> busy s t" for t using raised_idle [OF assms(2), of t] by (simp add: busy_def)
    then show ?thesis using count by (simp add: busy_def)
  next
    case (fill n k)
    then have "\<not> busy s k" using busy_raised [OF assms(2), of k] by auto
    moreover have "{t. busy s' t} = insert k {t. busy s t}" using fill by (auto simp: busy_def)
    ultimately show ?thesis using fill n fin by simp
  next
    case (clear n f)
    then have "notify s = 0" "\<not> busy s t" for t using counted_zero [OF assms(2,3), of t] n by (auto simp: busy_def)
    then show ?thesis using clear by (simp add: busy_def)
  next
    case (wake t)
    then have "{t. busy s' t} = {t. busy s t}" by (auto simp: busy_def)
    then show ?thesis using wake n by simp
  next
    case (run t f)
    then have "{t. busy s' t} = {t. busy s t}" by (auto simp: busy_def)
    then show ?thesis using run n by simp
  next
    case (lower t)
    then have "{t. busy s' t} = {t. busy s t}" using ok [of t] by (auto simp: busy_def)
    then show ?thesis using lower n by simp
  next
    case (decrement t)
    then have "{u. busy s' u} = {u. busy s u} - {t}" "busy s t" using ok [of t] by (auto simp: busy_def split: if_splits)
    moreover have "0 < card {u. busy s u}" using fin \<open>busy s t\<close> by (auto simp: card_gt_0_iff)
    ultimately show ?thesis using decrement n fin by (auto simp: card_Diff_singleton)
  qed (use n in \<open>auto simp: busy_def\<close>)
  then show ?thesis unfolding counted_def busy_card [OF flags_step [OF assms]] .
qed

subsection \<open>What has been run\<close>

definition finished :: "'a pool \<Rightarrow> nat set" where
  "finished s = {t. t < raised (server s) \<and> has_run s t}"

lemma logged_finished:
  "logged s \<longleftrightarrow> mset (executed s) = runs_of (calls s) +
     (case task s of None \<Rightarrow> {#} | Some f \<Rightarrow> image_mset (Pair f) (mset_set (finished s)))"
  unfolding logged_def finished_def ..

lemma finished_finite [simp]: "finite (finished s)"
  by (simp add: finished_def)

lemma logged_step:
  assumes "pool_step s s'" "flags_ok s" "counted s" "logged s"
  shows "logged s'"
proof -
  have ok: "worker_ok (worker s t) (active s t) t (raised (server s))" for t using assms(2) by (simp add: flags_ok_def)
  have log: "mset (executed s) = runs_of (calls s) +
     (case task s of None \<Rightarrow> {#} | Some f \<Rightarrow> image_mset (Pair f) (mset_set (finished s)))"
    using assms(4) by (simp add: logged_finished)
  show ?thesis unfolding logged_finished using assms(1)
  proof (cases rule: pool_step.cases)
    case (fill n k)
    then have "finished s' = finished s" using raised_idle [OF assms(2), of k]
      by (auto simp: finished_def has_run_def less_Suc_eq)
    then show "mset (executed s') = runs_of (calls s') +
     (case task s' of None \<Rightarrow> {#} | Some f \<Rightarrow> image_mset (Pair f) (mset_set (finished s')))" using fill log by (simp split: option.splits)
  next
    case (clear n f)
    then have "notify s \<le> 0" using assms(3) unfolding counted_def by blast
    then have "has_run s t" for t using counted_zero [OF assms(2,3), of t] by (simp add: has_run_def)
    then have "finished s = {0..<n}" using clear by (auto simp: finished_def)
    then show "mset (executed s') = runs_of (calls s') +
     (case task s' of None \<Rightarrow> {#} | Some f \<Rightarrow> image_mset (Pair f) (mset_set (finished s')))"
      using clear log by (simp add: runs_of_def mset_upt)
  next
    case (wake t)
    then have "finished s' = finished s" by (auto simp: finished_def has_run_def)
    then show "mset (executed s') = runs_of (calls s') +
     (case task s' of None \<Rightarrow> {#} | Some f \<Rightarrow> image_mset (Pair f) (mset_set (finished s')))" using wake log by (simp split: option.splits)
  next
    case (run t f)
    then have "finished s' = insert t (finished s)" "t \<notin> finished s" using ok [of t] by (auto simp: finished_def has_run_def)
    then show "mset (executed s') = runs_of (calls s') +
     (case task s' of None \<Rightarrow> {#} | Some f \<Rightarrow> image_mset (Pair f) (mset_set (finished s')))" using run log by (simp split: option.splits)
  next
    case (lower t)
    then have "finished s' = finished s" by (auto simp: finished_def has_run_def)
    then show "mset (executed s') = runs_of (calls s') +
     (case task s' of None \<Rightarrow> {#} | Some f \<Rightarrow> image_mset (Pair f) (mset_set (finished s')))" using lower log by (simp split: option.splits)
  next
    case (decrement t)
    then have "finished s' = finished s" using ok [of t] by (auto simp: finished_def has_run_def)
    then show "mset (executed s') = runs_of (calls s') +
     (case task s' of None \<Rightarrow> {#} | Some f \<Rightarrow> image_mset (Pair f) (mset_set (finished s')))" using decrement log by (simp split: option.splits)
  qed (use log in \<open>auto simp: finished_def has_run_def split: option.splits\<close>)
qed

lemma reach_ok: "pool_reach s \<Longrightarrow> pool_ok s"
proof (induction rule: pool_reach.induct)
  case (init n z)
  then show ?case
    by (simp add: pool_ok_def new_pool_def flags_ok_def counted_def own_ok_def logged_def busy_def runs_of_def)
next
  case (call s n f asy)
  then have "worker s t = W_idle \<and> \<not> active s t" for t
    using raised_idle [of s t] by (simp add: pool_ok_def)
  then show ?case using call
    by (simp add: pool_ok_def call_task_def flags_ok_def counted_def own_ok_def logged_def busy_def)
next
  case (step s s')
  then show ?case unfolding pool_ok_def
    by (blast intro: flags_step counted_step own_step logged_step)
qed

text \<open> C38. A worker that is about to run finds a task, never the empty function; and whenever no call is
  in progress, each call that returned has had its task run exactly once on each of its
  first \<open>n\<close> threads, nothing else was run, and all flags are down.\<close>

theorem pool_runs_each_once:
  assumes "pool_reach s"
  shows "(\<forall>t. worker s t = W_run \<longrightarrow> task s \<noteq> None) \<and>
    (server s = S_idle \<longrightarrow> mset (executed s) = runs_of (calls s) \<and> (\<forall>t. worker s t = W_idle \<and> \<not> active s t))"
proof -
  have ok: "flags_ok s" "logged s" using reach_ok [OF assms] by (simp_all add: pool_ok_def)
  have "task s \<noteq> None" if "worker s t = W_run" for t
  proof
    assume "task s = None"
    then have "server s = S_idle" using ok(1) by (simp add: flags_ok_def)
    then show False using raised_idle [OF ok(1), of t] that by simp
  qed
  moreover have "task s = None" if "server s = S_idle" using ok(1) that by (simp add: flags_ok_def)
  ultimately show ?thesis using ok raised_idle [OF ok(1)] by (auto simp: logged_def)
qed

subsection \<open>A call returns\<close>

fun server_work :: "server_pc \<Rightarrow> nat" where
  "server_work S_idle = 0"
| "server_work (S_clear n) = 1"
| "server_work (S_wait n) = 2"
| "server_work (S_pending n) = 3"
| "server_work (S_own n) = 3"
| "server_work (S_fill n k) = 4 + 5 * (n - k)"
| "server_work (S_count n) = 5 + 5 * n"

fun worker_work :: "worker_pc \<Rightarrow> bool \<Rightarrow> nat" where
  "worker_work W_idle a = (if a then 4 else 0)"
| "worker_work W_run a = 3"
| "worker_work W_ran a = 2"
| "worker_work W_off a = 1"

definition pool_work :: "'a pool \<Rightarrow> nat" where
  "pool_work s = server_work (server s) + (\<Sum>t < threads s. worker_work (worker s t) (active s t))"

lemma sum_change:
  fixes g :: "nat \<Rightarrow> nat"
  assumes "k < n" "\<And>t. t \<noteq> k \<Longrightarrow> g' t = g t"
  shows "(\<Sum>t < n. g' t) + g k = (\<Sum>t < n. g t) + g' k"
proof -
  have "(\<Sum>t \<in> {..<n} - {k}. g' t) = (\<Sum>t \<in> {..<n} - {k}. g t)" using assms(2) by (intro sum.cong) auto
  then show ?thesis using assms(1) by (simp add: sum.remove [of "{..<n}" k])
qed

lemma worker_work_less:
  assumes "t < threads s" "threads s' = threads s" "server s' = server s"
    and "\<And>u. u \<noteq> t \<Longrightarrow> worker s' u = worker s u \<and> active s' u = active s u"
    and "worker_work (worker s' t) (active s' t) < worker_work (worker s t) (active s t)"
  shows "pool_work s' < pool_work s"
  using sum_change [of t "threads s" "\<lambda>t. worker_work (worker s' t) (active s' t)" "\<lambda>t. worker_work (worker s t) (active s t)"] assms
  by (simp add: pool_work_def)

lemma pool_work_decreases:
  assumes "pool_step s s'" "flags_ok s"
  shows "pool_work s' < pool_work s"
  using assms(1)
proof (cases rule: pool_step.cases)
  case (fill n k)
  then have k: "k < threads s" using assms(2) by (simp add: flags_ok_def)
  have "worker_work (worker s k) (active s k) = 0" using raised_idle [OF assms(2), of k] fill by simp
  then show ?thesis
    using sum_change [OF k, of "\<lambda>t. worker_work (worker s' t) (active s' t)" "\<lambda>t. worker_work (worker s t) (active s t)"]
      fill raised_idle [OF assms(2), of k]
    by (simp add: pool_work_def)
next
  case (wake t)
  then show ?thesis by (intro worker_work_less [of t]) (auto simp: has_thread_def)
next
  case (run t f)
  then show ?thesis by (intro worker_work_less [of t]) (auto simp: has_thread_def)
next
  case (lower t)
  then show ?thesis by (intro worker_work_less [of t]) (auto simp: has_thread_def)
next
  case (decrement t)
  moreover have "worker_ok (worker s t) (active s t) t (raised (server s))" using assms(2) by (simp add: flags_ok_def)
  ultimately show ?thesis by (intro worker_work_less [of t]) (auto simp: has_thread_def)
qed (auto simp: pool_work_def)

lemma pool_busy_step:
  assumes "has_thread s t" "busy s t \<or> worker s t \<noteq> W_idle" "task s \<noteq> None"
  shows "\<exists>s'. pool_step s s'"
proof (cases "worker s t")
  case W_idle
  then show ?thesis using wake [OF assms(1) W_idle] assms(2) by (auto simp: busy_def)
next
  case W_run
  then show ?thesis using run [OF assms(1) W_run] assms(3) by blast
next
  case W_ran
  then show ?thesis using lower [OF assms(1)] by blast
next
  case W_off
  then show ?thesis using decrement [OF assms(1)] by blast
qed

text \<open> C40. A call always returns, whatever the schedule: while one is in progress some thread can take a
  step, and every step leaves less to do. This needs that the call is not an asynchronous one on a
  pool whose thread 0 is the server.\<close>

theorem pool_call_returns:
  assumes "pool_reach s" "server s \<noteq> S_idle" "\<not> (zero s \<and> async s)"
  shows "(\<exists>s'. pool_step s s') \<and> (\<forall>s'. pool_step s s' \<longrightarrow> pool_work s' < pool_work s)"
proof -
  have ok: "flags_ok s" "counted s" "own_ok s" using reach_ok [OF assms(1)] by (simp_all add: pool_ok_def)
  have f: "task s \<noteq> None" "raised (server s) \<le> goal_of (server s)" "goal_of (server s) \<le> threads s"
    using ok(1) assms(2) by (simp_all add: flags_ok_def)
  have "\<exists>s'. pool_step s s'"
  proof (cases "server s")
    case (S_fill n k)
    then show ?thesis using fill [OF S_fill] filled [of s n] f(2) by (cases "k = n") auto
  next
    case (S_own n)
    show ?thesis
    proof (cases "zero s \<and> (worker s 0 \<noteq> W_idle \<or> active s 0)")
      case True
      then have "0 < n" using raised_idle [OF ok(1), of 0] S_own by (cases n) auto
      then have "has_thread s 0" using f(2,3) S_own by (simp add: has_thread_def)
      then show ?thesis using True f(1) by (intro pool_busy_step) (auto simp: busy_def)
    qed (use own_done [OF S_own] in auto)
  next
    case (S_wait n)
    show ?thesis
    proof (cases "notify s \<le> 0")
      case False
      then have "card {t. t < n \<and> busy s t} \<noteq> 0" using ok(2) S_wait by (simp add: counted_def)
      then obtain t where t: "t < n" "busy s t" by (metis (mono_tags, lifting) card.empty empty_Collect_eq)
      then have "t \<noteq> 0 \<or> \<not> zero s" using ok(3) assms(3) S_wait by (auto simp: own_ok_def busy_def)
      then have "has_thread s t" using t(1) f(2,3) S_wait by (auto simp: has_thread_def)
      then show ?thesis using t(2) f(1) by (intro pool_busy_step) auto
    qed (use waited [OF S_wait] in auto)
  next
    case (S_clear n)
    moreover obtain f where "task s = Some f" using f(1) by blast
    ultimately show ?thesis by (blast intro: pool_step.clear)
  qed (use assms(2) count end_async in blast)+
  then show ?thesis using pool_work_decreases [OF _ ok(1)] by blast
qed

text \<open> An asynchronous call on a pool that starts at core 0 never returns from \<open>endTaskAsync\<close>: nobody
  runs the share of thread 0, and the server waits for it forever.\<close>

theorem pool_async_hangs:
  assumes "pool_reach s" "zero s" "async s" "server s = S_wait n" "0 < n" "pool_step\<^sup>*\<^sup>* s s'"
  shows "server s' = S_wait n \<and> 0 < notify s'"
proof -
  have count: "0 < notify u" if "pool_reach u" "zero u" "async u" "server u = S_wait n" for u :: "'a pool"
  proof -
    have ok: "flags_ok u" "counted u" "own_ok u" using reach_ok [OF that(1)] by (simp_all add: pool_ok_def)
    then have "active u 0" using that assms(5) by (simp add: own_ok_def)
    then show ?thesis using counted_zero [OF ok(1,2), of 0] by linarith
  qed
  have "pool_reach u \<and> zero u \<and> async u \<and> server u = S_wait n" if "pool_step\<^sup>*\<^sup>* s u" for u
    using that
  proof (induction rule: rtranclp_induct)
    case (step u v)
    then show ?case using count [of u] pool_reach.step [of u v] by (auto elim: pool_step.cases)
  qed (use assms in simp)
  then show ?thesis using assms(6) count by blast
qed

subsection \<open>Calls on a pool of one thread\<close>

definition one_raised :: "bool \<Rightarrow> bool \<Rightarrow> nat pool" where
  "one_raised z asy = (call_task (new_pool 1 z) 7 1 asy)\<lparr>notify := 1, active := (\<lambda>_. False)(0 := True), server := S_fill 1 1\<rparr>"

lemma one_raised_reach: "pool_reach (one_raised z asy)"
proof -
  have call: "pool_reach (call_task (new_pool 1 z) 7 1 asy)"
    by (rule pool_reach.call [OF pool_reach.init]) (simp_all add: new_pool_def)
  have "pool_reach ((call_task (new_pool 1 z) (7 :: nat) 1 asy)\<lparr>notify := int 1, server := S_fill 1 0\<rparr>)"
    by (rule pool_reach.step [OF call pool_step.count]) (simp add: call_task_def)
  from pool_reach.step [OF this pool_step.fill [where n = 1 and k = 0]] show ?thesis
    by (simp add: one_raised_def call_task_def new_pool_def)
qed

definition one_waiting :: "nat pool" where
  "one_waiting = (one_raised True True)\<lparr>server := S_wait 1\<rparr>"

lemma one_waiting_reach: "pool_reach one_waiting"
proof -
  have pend: "pool_reach ((one_raised True True)\<lparr>server := S_pending 1\<rparr>)"
    using pool_reach.step [OF one_raised_reach pool_step.filled [where n = 1], of True True]
    by (simp add: one_raised_def call_task_def new_pool_def)
  from pool_reach.step [OF this pool_step.end_async [where n = 1]] show ?thesis
    by (simp add: one_waiting_def)
qed

theorem pool_async_hangs_witness: "server one_waiting = S_wait 1 \<and> 0 < notify one_waiting"
  by (rule pool_async_hangs [OF one_waiting_reach])
    (simp_all add: one_waiting_def one_raised_def call_task_def new_pool_def)

theorem pool_call_returns_witness: "\<exists>s'. pool_step (one_raised True False) s'"
  using pool_call_returns [OF one_raised_reach, of True False]
  by (auto simp: one_raised_def call_task_def new_pool_def)

definition one_done :: "nat pool" where
  "one_done = (new_pool 1 False)\<lparr>executed := [(7, 0)], calls := [(7, 1)]\<rparr>"

lemma flag_down: "(\<lambda>_. False)(0 := False) = (\<lambda>_. False)"
  by auto

lemma worker_back: "(\<lambda>_. w)(0 := w) = (\<lambda>_. w)" for w :: worker_pc
  by auto

lemma one_done_reach: "pool_reach one_done"
proof -
  note defs = one_raised_def call_task_def new_pool_def has_thread_def
  let ?s = "one_raised False False"
  have "pool_reach (?s\<lparr>server := S_own 1\<rparr>)"
    using pool_reach.step [OF one_raised_reach pool_step.filled [where n = 1], of False False] by (simp add: defs)
  from pool_reach.step [OF this pool_step.own_done [where n = 1]]
  have "pool_reach (?s\<lparr>server := S_wait 1\<rparr>)" by (simp add: defs)
  from pool_reach.step [OF this pool_step.wake [where t = 0]]
  have "pool_reach (?s\<lparr>server := S_wait 1, worker := (\<lambda>_. W_idle)(0 := W_run)\<rparr>)" by (simp add: defs)
  from pool_reach.step [OF this pool_step.run [where t = 0 and f = 7]]
  have "pool_reach (?s\<lparr>server := S_wait 1, worker := (\<lambda>_. W_idle)(0 := W_ran), executed := [(7, 0)]\<rparr>)" by (simp add: defs)
  from pool_reach.step [OF this pool_step.lower [where t = 0]]
  have "pool_reach (?s\<lparr>server := S_wait 1, worker := (\<lambda>_. W_idle)(0 := W_off), active := \<lambda>_. False, executed := [(7, 0)]\<rparr>)"
    by (simp add: defs flag_down worker_back)
  from pool_reach.step [OF this pool_step.decrement [where t = 0]]
  have "pool_reach (?s\<lparr>server := S_wait 1, notify := 0, active := \<lambda>_. False, executed := [(7, 0)]\<rparr>)"
    by (simp add: defs flag_down worker_back)
  from pool_reach.step [OF this pool_step.waited [where n = 1]]
  have "pool_reach (?s\<lparr>server := S_clear 1, notify := 0, active := \<lambda>_. False, executed := [(7, 0)]\<rparr>)" by (simp add: defs)
  from pool_reach.step [OF this pool_step.clear [where n = 1 and f = 7]]
  show ?thesis by (simp add: defs one_done_def)
qed

theorem pool_runs_each_once_witness: "mset (executed one_done) = {#(7, 0)#}"
  using pool_runs_each_once [OF one_done_reach] by (simp add: one_done_def new_pool_def runs_of_def)

end
