(* ===== verification/BasePrep.thy ===== *)
theory BasePrep
  imports Prelude Complex_Main
begin

text \<open>
  Preparing data for a build, from \<open>AiSAQ/include/utils.h\<close>: \<open>GenRandom\<close>, which draws different ids, and
  \<open>prepare_base_for_inner_products\<close>, which turns a search for the largest inner product into a search for
  the nearest vector. \<open>unsigned\<close> values are numbers that wrap at 32 bits and \<open>rng i\<close> is the \<open>i\<close>-th draw;
  floats are reals. \<open>None\<close> is a division by zero, which for floats would give values that are no
  numbers.
\<close>

subsection \<open>GenRandom\<close>

text \<open>The loop that moves an entry past its predecessor.\<close>

fun spread :: "nat list \<Rightarrow> nat list" where
  "spread [] = []"
| "spread [x] = [x]"
| "spread (x # y # ys) = x # spread ((if y \<le> x then (x + 1) mod 2 ^ 32 else y) # ys)"

definition gen_random :: "(nat \<Rightarrow> nat) \<Rightarrow> nat \<Rightarrow> nat \<Rightarrow> nat list option" where
  "gen_random rng n N =
     (if 0 < n \<and> N = n \<or> N = 0 then None
      else
        let addr = map (\<lambda>i. rng i mod ((N + 2 ^ 32 - n) mod 2 ^ 32)) [0..<n];
            addr = spread (sort addr);
            off = rng n mod N
        in Some (map (\<lambda>a. (a + off) mod 2 ^ 32 mod N) addr))"

lemma length_spread [simp]: "length (spread xs) = length xs"
  by (induction xs rule: spread.induct) auto

text \<open>On sorted entries the loop makes them strictly ascending and raises none above its bound by more
  than its position.\<close>

lemma spread_strict:
  assumes "sorted (tl xs)" "\<forall>x \<in> set xs. x < m" "m + length xs \<le> 2 ^ 32"
    and "xs \<noteq> [] \<Longrightarrow> hd xs < m"
  shows "sorted_wrt (<) (spread xs) \<and> (\<forall>x \<in> set (spread xs). x + 1 < m + length xs \<and> hd xs \<le> x)"
  using assms
proof (induction xs arbitrary: m rule: spread.induct)
  case (3 x y ys)
  define z where "z = (if y \<le> x then (x + 1) mod 2 ^ 32 else y)"
  have z: "x < z" "z < m + 1" "y \<le> z" using "3.prems" by (auto simp: z_def)
  have "sorted_wrt (<) (spread (z # ys)) \<and> (\<forall>u \<in> set (spread (z # ys)). u + 1 < (m + 1) + length (z # ys) \<and> hd (z # ys) \<le> u)"
    unfolding z_def by (rule "3.IH") (use "3.prems" z in \<open>auto simp: z_def [symmetric]\<close>)
  then have "sorted_wrt (<) (spread (z # ys))" "\<And>u. u \<in> set (spread (z # ys)) \<Longrightarrow> u + 1 < m + length (x # y # ys) \<and> x < u"
    using z(1) by (auto dest: bspec)
  moreover have "spread (x # y # ys) = x # spread (z # ys)" by (simp add: z_def)
  moreover have "x + 1 < m + length (x # y # ys)" using "3.prems"(2) by simp
  ultimately show ?case by (auto intro: less_imp_le)
qed auto

text \<open> Whatever the generator draws, \<open>GenRandom\<close> gives the asked number of different ids below \<open>N\<close>, as
  long as fewer than \<open>N\<close> are asked for.\<close>

theorem gen_random_distinct:
  assumes "n < N" "N \<le> 2 ^ 31"
  shows "\<exists>addr. gen_random rng n N = Some addr \<and> length addr = n \<and> distinct addr \<and> (\<forall>a \<in> set addr. a < N)"
proof -
  define m where "m = (N + 2 ^ 32 - n) mod 2 ^ 32"
  have "N + 2 ^ 32 - n = N - n + 2 ^ 32" using assms(1) by linarith
  then have "m = (N - n) mod 2 ^ 32" by (simp only: m_def mod_add_self2)
  also have "\<dots> = N - n" using assms(2) by (intro mod_less) simp
  finally have m: "m = N - n" .
  define xs where "xs = spread (sort (map (\<lambda>i. rng i mod m) [0..<n]))"
  have "sorted_wrt (<) xs \<and> (\<forall>x \<in> set xs. x + 1 < m + n)"
  proof (cases "n = 0")
    case False
    have low: "rng i mod m < m" for i using assms(1) m by simp
    define ds where "ds = sort (map (\<lambda>i. rng i mod m) [0..<n])"
    have ds: "length ds = n" "sorted ds" "\<forall>x \<in> set ds. x < m" using low by (auto simp: ds_def)
    then have "ds \<noteq> []" using False by auto
    then have "hd ds < m" "sorted (tl ds)" using ds by (simp_all add: sorted_tl)
    moreover have "m + length ds \<le> 2 ^ 32" using m assms ds(1) by simp
    ultimately show ?thesis using spread_strict [of ds m] ds by (auto simp: xs_def ds_def [symmetric])
  qed (simp add: xs_def)
  then have d: "distinct xs" and b: "\<forall>x \<in> set xs. x < N" using m assms(1) by (auto simp: strict_sorted_iff)
  define off where "off = rng n mod N"
  have off: "off < N" using assms(1) by (simp add: off_def)
  have rot: "(a + off) mod 2 ^ 32 mod N = (if a + off < N then a + off else a + off - N)" if "a < N" for a
  proof -
    have "(a + off) mod 2 ^ 32 = a + off" using that off assms(2) by simp
    then show ?thesis using that off by (auto simp: mod_if [of "a + off" N])
  qed
  have "inj_on (\<lambda>a. (a + off) mod 2 ^ 32 mod N) (set xs)"
  proof (rule inj_onI)
    fix x y
    assume xy: "x \<in> set xs" "y \<in> set xs" "(x + off) mod 2 ^ 32 mod N = (y + off) mod 2 ^ 32 mod N"
    then have "x < N" "y < N" using b by auto
    then show "x = y" using rot [of x] rot [of y] xy(3) off by (simp split: if_splits)
  qed
  then have "distinct (map (\<lambda>a. (a + off) mod 2 ^ 32 mod N) xs)" using d by (simp add: distinct_map)
  moreover have "gen_random rng n N = Some (map (\<lambda>a. (a + off) mod 2 ^ 32 mod N) xs)"
    using assms(1) by (simp add: gen_random_def xs_def m_def off_def Let_def)
  moreover have "length xs = n" by (simp add: xs_def)
  ultimately show ?thesis using assms(1) by auto
qed

theorem gen_random_distinct_witness: "\<exists>addr. gen_random (\<lambda>i. 3 * i) 4 10 = Some addr \<and> distinct addr"
  using gen_random_distinct [of 4 10 "\<lambda>i. 3 * i"] by auto

subsection \<open>prepare_base_for_inner_products\<close>

text \<open>
  The file is the list of its vectors, which the code reads in blocks, once for the norms and once for
  the scaled output. The squared norms come first, then the largest norm, by which all are scaled.
\<close>

definition sq_norm :: "real list \<Rightarrow> real" where
  "sq_norm x = (\<Sum>v \<leftarrow> x. v * v)"

definition prep_block_size :: "nat \<Rightarrow> nat" where
  "prep_block_size npts = (if npts \<le> 100000 then npts else 100000)"

definition block_sizes :: "nat \<Rightarrow> nat list option" where
  "block_sizes npts =
     (let block_size = prep_block_size npts
      in if block_size = 0 then None
         else Some (map (\<lambda>b. (if (b + 1) * block_size < npts then (b + 1) * block_size else npts) - b * block_size)
           [0..<npts div block_size + (if npts mod block_size \<noteq> 0 then 1 else 0)]))"

primrec norms_pass :: "nat list \<Rightarrow> real list list \<Rightarrow> real list" where
  "norms_pass [] rows = []"
| "norms_pass (k # ks) rows = map sq_norm (take k rows) @ norms_pass ks (drop k rows)"

definition scaled :: "real \<Rightarrow> real \<Rightarrow> real list \<Rightarrow> real list" where
  "scaled max_norm n x =
     (let res = 1 - n / (max_norm * max_norm)
      in map (\<lambda>v. v / max_norm) x @ [if res \<le> 0 then 0 else sqrt res])"

primrec output_pass :: "real \<Rightarrow> nat list \<Rightarrow> real list \<Rightarrow> real list list \<Rightarrow> real list list" where
  "output_pass max_norm [] norms rows = []"
| "output_pass max_norm (k # ks) norms rows =
     map2 (scaled max_norm) (take k norms) (take k rows) @ output_pass max_norm ks (drop k norms) (drop k rows)"

definition prepare_base :: "nat \<Rightarrow> real list list \<Rightarrow> (real \<times> nat \<times> nat \<times> real list list) option" where
  "prepare_base in_dims rows = do {
     blocks \<leftarrow> block_sizes (length rows);
     let norms = norms_pass blocks rows;
     let max_norm = sqrt (fold (\<lambda>n m. if m > n then m else n) norms 0);
     if max_norm = 0 then None
     else Some (max_norm, length rows, in_dims + 1, output_pass max_norm blocks norms rows)
   }"

definition sq_dist :: "real list \<Rightarrow> real list \<Rightarrow> real" where
  "sq_dist x y = (\<Sum>(u, v) \<leftarrow> zip x y. (u - v) * (u - v))"

definition inner :: "real list \<Rightarrow> real list \<Rightarrow> real" where
  "inner x y = (\<Sum>(u, v) \<leftarrow> zip x y. u * v)"

text \<open>The blocks cover the file.\<close>

lemma sum_blocks:
  assumes "0 < b"
  shows "(\<Sum>i \<leftarrow> [0..<n]. min ((i + 1) * b) m - i * b) = min (n * b) m"
proof (induction n)
  case (Suc n)
  have "(n + 1) * b = b + n * b" by simp
  then show ?case using Suc by (simp add: min_def)
qed simp

lemma block_sizes_cover:
  assumes "0 < npts"
  shows "\<exists>bs. block_sizes npts = Some bs \<and> sum_list bs = npts"
proof -
  define b where "b = prep_block_size npts"
  define n where "n = npts div b + (if npts mod b \<noteq> 0 then 1 else 0)"
  have b: "0 < b" using assms by (simp add: b_def prep_block_size_def)
  have "npts \<le> npts div b * b + b" using div_mult_mod_eq [of npts b] mod_less_divisor [OF b, of npts] by linarith
  moreover have "npts = npts div b * b" if "npts mod b = 0" using that div_mult_mod_eq [of npts b] by linarith
  ultimately have "npts \<le> n * b" by (auto simp: n_def algebra_simps)
  then have "(\<Sum>i \<leftarrow> [0..<n]. min ((i + 1) * b) npts - i * b) = npts" using sum_blocks [OF b, where n = n and m = npts] by simp
  moreover have "(if x < y then x else y) = min x y" for x y :: nat by (simp add: min_def)
  then have "block_sizes npts = Some (map (\<lambda>i. min ((i + 1) * b) npts - i * b) [0..<n])"
    using b unfolding block_sizes_def Let_def b_def n_def by simp
  ultimately show ?thesis by blast
qed

lemma norms_pass_eq: "sum_list bs = length rows \<Longrightarrow> norms_pass bs rows = map sq_norm rows"
proof (induction bs arbitrary: rows)
  case (Cons k ks)
  then have "norms_pass ks (drop k rows) = map sq_norm (drop k rows)" by (intro Cons.IH) auto
  then show ?case by (simp flip: map_append)
qed simp

lemma output_pass_eq:
  "sum_list bs = length rows \<Longrightarrow> length norms = length rows \<Longrightarrow>
     output_pass M bs norms rows = map2 (scaled M) norms rows"
proof (induction bs arbitrary: rows norms)
  case (Cons k ks)
  then have "output_pass M ks (drop k norms) (drop k rows) = map2 (scaled M) (drop k norms) (drop k rows)"
    by (intro Cons.IH) auto
  moreover have "zip norms rows = zip (take k norms) (take k rows) @ zip (drop k norms) (drop k rows)"
    by (metis append_take_drop_id take_zip drop_zip)
  ultimately show ?case by (simp flip: map_append)
qed simp

lemma fold_max_eq: "(\<forall>n \<in> set ns. n \<le> fold (\<lambda>n m. if m > n then m else n) ns m) \<and> m \<le> fold (\<lambda>n m. if m > n then m else n) ns m" for m :: real
proof (induction ns arbitrary: m)
  case (Cons n ns)
  show ?case using Cons.IH [of "if m > n then m else n"] by (auto split: if_splits)
qed simp

lemma sq_norm_nonneg: "0 \<le> sq_norm x"
  by (induction x) (auto simp: sq_norm_def)

lemma sq_norm_scale: "sq_norm (map (\<lambda>v. v / M) x) = sq_norm x / (M * M)"
  by (induction x) (auto simp: sq_norm_def add_divide_distrib)

lemma sq_norm_snoc: "sq_norm (x @ [r]) = sq_norm x + r * r"
  by (simp add: sq_norm_def)

lemma sq_dist_expand:
  "length x = length y \<Longrightarrow> sq_dist x y = sq_norm x + sq_norm y - 2 * inner x y"
  by (induction x y rule: list_induct2) (auto simp: sq_dist_def sq_norm_def inner_def algebra_simps)

lemma inner_scale: "length q = length x \<Longrightarrow> inner (q @ [0]) (map (\<lambda>v. v / M) x @ [r]) = inner q x / M"
  by (induction q x rule: list_induct2) (auto simp: inner_def add_divide_distrib)

text \<open> After the preparation every vector has one more coordinate and norm 1, and a query extended by a zero
  is the nearer to a prepared vector the larger its inner product with the original is. There must be
  a vector that is not zero.\<close>

theorem prepared_base_ranks:
  assumes "\<forall>x \<in> set rows. length x = d" "\<exists>x \<in> set rows. sq_norm x \<noteq> 0"
  shows "\<exists>M out. prepare_base d rows = Some (M, length rows, d + 1, out) \<and> length out = length rows \<and> 0 < M \<and>
    (\<forall>i < length rows. length (out ! i) = d + 1 \<and> sq_norm (out ! i) = 1 \<and>
      (\<forall>q. length q = d \<longrightarrow> sq_dist (q @ [0]) (out ! i) = sq_norm q + 1 - 2 * inner q (rows ! i) / M)) \<and>
    (\<forall>i < length rows. \<forall>j < length rows. \<forall>q. length q = d \<longrightarrow>
      sq_dist (q @ [0]) (out ! i) < sq_dist (q @ [0]) (out ! j) \<longleftrightarrow> inner q (rows ! j) < inner q (rows ! i))"
proof -
  obtain bs where bs: "block_sizes (length rows) = Some bs" "sum_list bs = length rows"
    using block_sizes_cover [of "length rows"] assms(2) by (cases rows) auto
  define m where "m = fold (\<lambda>n m. if m > n then m else n) (map sq_norm rows) 0"
  define M where "M = sqrt m"
  define out where "out = map2 (scaled M) (map sq_norm rows) rows"
  have m: "sq_norm x \<le> m" if "x \<in> set rows" for x
    using fold_max_eq [of "map sq_norm rows" 0] that unfolding m_def [symmetric] by auto
  obtain x0 where "x0 \<in> set rows" "sq_norm x0 \<noteq> 0" using assms(2) by blast
  then have "0 < m" using m [of x0] sq_norm_nonneg [of x0] by linarith
  then have M: "0 < M" "M * M = m" by (simp_all add: M_def)
  have prep: "prepare_base d rows = Some (M, length rows, d + 1, out)"
    using bs M(1) \<open>0 < m\<close> norms_pass_eq [OF bs(2)] output_pass_eq [OF bs(2), of "map sq_norm rows" M]
    by (simp add: prepare_base_def m_def [symmetric] M_def [symmetric] out_def)
  have row: "out ! i = map (\<lambda>v. v / M) (rows ! i) @ [sqrt (1 - sq_norm (rows ! i) / m)] \<and>
      length (rows ! i) = d \<and> 0 \<le> 1 - sq_norm (rows ! i) / m" if "i < length rows" for i
    using that assms(1) m [of "rows ! i"] \<open>0 < m\<close> by (simp add: out_def scaled_def Let_def M(2))
  have norm: "sq_norm (out ! i) = 1" if "i < length rows" for i
    using row [OF that] by (simp add: sq_norm_snoc sq_norm_scale M(2))
  have dist: "sq_dist (q @ [0]) (out ! i) = sq_norm q + 1 - 2 * inner q (rows ! i) / M" if "i < length rows" "length q = d" for i q
  proof -
    have "sq_dist (q @ [0]) (out ! i) = sq_norm (q @ [0]) + sq_norm (out ! i) - 2 * inner (q @ [0]) (out ! i)"
      using row [OF that(1)] that(2) by (intro sq_dist_expand) simp
    moreover have "sq_norm (q @ [0]) = sq_norm q" by (simp add: sq_norm_def)
    moreover have "inner (q @ [0]) (out ! i) = inner q (rows ! i) / M" using row [OF that(1)] that(2) by (simp add: inner_scale)
    ultimately show ?thesis using norm [OF that(1)] by simp
  qed
  have "sq_dist (q @ [0]) (out ! i) < sq_dist (q @ [0]) (out ! j) \<longleftrightarrow> inner q (rows ! j) < inner q (rows ! i)"
    if "i < length rows" "j < length rows" "length q = d" for i j q
    using M(1) that by (simp add: dist divide_less_cancel)
  moreover have "length out = length rows" by (simp add: out_def)
  moreover have "length (out ! i) = d + 1" if "i < length rows" for i using row [OF that] by simp
  ultimately show ?thesis using prep M(1) norm dist by blast
qed

theorem prepared_base_ranks_witness:
  "\<exists>M out. prepare_base 2 [[3, 4], [0, 2]] = Some (M, 2, 3, out) \<and> sq_norm (out ! 0) = 1"
proof -
  have "\<exists>x \<in> set [[3, 4], [0, 2]]. sq_norm x \<noteq> 0" by (simp add: sq_norm_def)
  note prepared_base_ranks [of "[[3, 4], [0, 2]]" 2, OF _ this]
  then show ?thesis by (auto simp: numeral_eq_Suc)
qed

end
