(* ===== verification/AlignedFiles.thy ===== *)
theory AlignedFiles
  imports BinFile
begin

text \<open>
  Vector files whose rows are padded in memory, and ground truth of range searches, from
  \<open>AiSAQ/include/utils.h\<close>. As in \<open>BinFile\<close>, a file is its bytes and an element of \<open>k\<close> bytes is a number; a
  buffer is the list of its elements. \<open>None\<close> is an exception, a read past the end of a file (which the
  code does not check where the stream has no exceptions on), or an access outside a buffer.
\<close>

subsection \<open>Padded rows\<close>

definition ROUND_UP :: "nat \<Rightarrow> nat \<Rightarrow> nat" where
  "ROUND_UP x y = (x div y + (if x mod y \<noteq> 0 then 1 else 0)) * y"

definition base_rows :: "nat list \<Rightarrow> nat \<Rightarrow> nat \<Rightarrow> nat \<Rightarrow> nat list" where
  "base_rows data npts ndims aligned_dim = concat (map (\<lambda>i. take ndims (drop (i * aligned_dim) data)) [0..<npts])"

definition save_data_in_base_dimensions ::
  "nat \<Rightarrow> bytes \<Rightarrow> nat list \<Rightarrow> nat \<Rightarrow> nat \<Rightarrow> nat \<Rightarrow> nat \<Rightarrow> (nat \<times> bytes) option" where
  "save_data_in_base_dimensions k f data npts ndims aligned_dim offset =
     (if 0 < npts \<and> length data < (npts - 1) * aligned_dim + ndims then None
      else Some (2 * 4 + npts * ndims * k,
        write_at f offset (le_put 4 npts @ le_put 4 ndims @ les_put k (base_rows data npts ndims aligned_dim))))"

text \<open>The loop that reads rows and fills up each with zeros.\<close>

primrec read_padded_rows :: "nat \<Rightarrow> nat \<Rightarrow> nat \<Rightarrow> nat \<Rightarrow> bytes \<Rightarrow> (nat list \<times> bytes) option" where
  "read_padded_rows k dims rounded 0 s = Some ([], s)"
| "read_padded_rows k dims rounded (Suc n) s = do {
     (row, s) \<leftarrow> rd_les k dims s;
     (rows, s) \<leftarrow> read_padded_rows k dims rounded n s;
     Some (row @ replicate (rounded - dims) 0 @ rows, s)
   }"

definition copy_aligned_data_from_file ::
  "nat \<Rightarrow> bytes \<Rightarrow> nat list option \<Rightarrow> nat \<Rightarrow> nat \<Rightarrow> (nat list \<times> nat \<times> nat) option" where
  "copy_aligned_data_from_file k f data rounded_dim offset = do {
     data \<leftarrow> data;
     (npts, s) \<leftarrow> rd_le 4 (drop offset f);
     (ndims, s) \<leftarrow> rd_le 4 s;
     if 0 < npts \<and> (rounded_dim < ndims \<or> length data < npts * rounded_dim) then None
     else do {
       (rows, s) \<leftarrow> read_padded_rows k ndims rounded_dim npts s;
       Some (rows @ drop (length rows) data, npts, ndims)
     }
   }"

definition load_aligned_bin_impl :: "nat \<Rightarrow> bytes \<Rightarrow> (nat list \<times> nat \<times> nat \<times> nat) option" where
  "load_aligned_bin_impl k f = do {
     (npts, s) \<leftarrow> rd_le 4 f;
     (ndims, s) \<leftarrow> rd_le 4 s;
     if length f \<noteq> (npts * ndims * k + 2 * 4) mod 2 ^ 64 then None
     else do {
       let rounded_dim = ROUND_UP ndims 8;
       (rows, s) \<leftarrow> read_padded_rows k ndims rounded_dim npts s;
       Some (rows, npts, ndims, rounded_dim)
     }
   }"

subsection \<open>Ground truth of range searches\<close>

primrec read_results :: "nat list \<Rightarrow> bytes \<Rightarrow> (nat list list \<times> bytes) option" where
  "read_results [] s = Some ([], s)"
| "read_results (c # cs) s = do {
     (ids, s) \<leftarrow> rd_les 4 c s;
     (rest, s) \<leftarrow> read_results cs s;
     Some (ids # rest, s)
   }"

text \<open>The percentiles that are printed read the sorted counts, which must not be empty.\<close>

definition load_range_truthset :: "bytes \<Rightarrow> nat list list option" where
  "load_range_truthset f = do {
     (npts, s) \<leftarrow> rd_le 4 f;
     (total_res, s) \<leftarrow> rd_le 4 s;
     let gt_num = sign_extend npts;
     let total_res = sign_extend total_res;
     if length f \<noteq> (2 * 4 + gt_num * 4 + total_res * 4) mod 2 ^ 64 then None
     else do {
       (counts, s) \<leftarrow> rd_les 4 gt_num s;
       if gt_num = 0 then None
       else do {
         (groundtruth, s) \<leftarrow> read_results counts s;
         Some groundtruth
       }
     }
   }"

text \<open>\<open>flt\<close> gives the value of a float with these bits.\<close>

definition prune_truthset_for_range :: "(nat \<Rightarrow> rat) \<Rightarrow> bytes \<Rightarrow> rat \<Rightarrow> (nat list list \<times> nat) option" where
  "prune_truthset_for_range flt f radius = do {
     (npts, s) \<leftarrow> rd_le 4 f;
     (ndims, s) \<leftarrow> rd_le 4 s;
     if length f \<noteq> (2 * npts * ndims * 4 + 2 * 4) mod 2 ^ 64 then None
     else do {
       (ids, s) \<leftarrow> rd_les 4 (npts * ndims) s;
       (dists, s) \<leftarrow> rd_les 4 (npts * ndims) s;
       Some (map (\<lambda>i. concat (map (\<lambda>j. if flt (dists ! (i * ndims + j)) \<le> radius then [ids ! (i * ndims + j)] else []) [0..<ndims]))
         [0..<npts], npts)
     }
   }"

subsection \<open>Round trips\<close>

lemma concat_nth_rows:
  assumes "\<forall>xs \<in> set xss. length xs = w" "i < length xss" "j < w"
  shows "concat xss ! (i * w + j) = xss ! i ! j"
  using assms
proof (induction xss arbitrary: i)
  case (Cons xs xss)
  then show ?case by (cases i) (auto simp: nth_append)
qed simp

lemma length_concat_rows: "\<forall>xs \<in> set xss. length xs = w \<Longrightarrow> length (concat xss) = length xss * w"
  by (induction xss) auto

lemma read_padded_rows_put:
  assumes "\<forall>row \<in> set rows. length row = d \<and> (\<forall>x \<in> set row. x < 256 ^ k)"
  shows "read_padded_rows k d r (length rows) (les_put k (concat rows) @ s) =
    Some (concat (map (\<lambda>row. row @ replicate (r - d) 0) rows), s)"
  using assms
proof (induction rows)
  case (Cons row rows)
  then have "rd_les k d (les_put k row @ les_put k (concat rows) @ s) = Some (row, les_put k (concat rows) @ s)"
    using rd_les_put [of row k] by force
  then show ?case using Cons by simp
qed simp

definition base_row :: "nat list \<Rightarrow> nat \<Rightarrow> nat \<Rightarrow> nat \<Rightarrow> nat list" where
  "base_row data d a i = take d (drop (i * a) data)"

lemma base_rows_concat: "base_rows data n d a = concat (map (base_row data d a) [0..<n])"
  unfolding base_rows_def base_row_def ..

lemma row_fits:
  assumes "d \<le> a" "(n - 1) * a + d \<le> (m :: nat)" "i < n"
  shows "i * a + d \<le> m"
proof -
  have "i * a \<le> (n - 1) * a" using assms(3) by (intro mult_right_mono) auto
  then show ?thesis using assms(2) by linarith
qed

lemma base_row_facts:
  assumes "i * a + d \<le> length data"
  shows "length (base_row data d a i) = d \<and> (\<forall>j < d. base_row data d a i ! j = data ! (i * a + j)) \<and> set (base_row data d a i) \<subseteq> set data"
  using assms by (auto simp: base_row_def dest: in_set_takeD in_set_dropD)

text \<open>Reading what was saved, from the end of the header on.\<close>

lemma read_saved:
  assumes "\<forall>i < n. i * a + d \<le> length data" "\<forall>x \<in> set data. x < 256 ^ k"
  shows "\<exists>rows. read_padded_rows k d r n (les_put k (base_rows data n d a) @ s) = Some (rows, s) \<and>
    length rows = n * (d + (r - d)) \<and>
    (d \<le> r \<longrightarrow> (\<forall>i < n. \<forall>j < r. rows ! (i * r + j) = (if j < d then data ! (i * a + j) else 0)))"
proof -
  define xss where "xss = map (base_row data d a) [0..<n]"
  define yss where "yss = map (\<lambda>row. row @ replicate (r - d) 0) xss"
  have row: "length (base_row data d a i) = d \<and> (\<forall>j < d. base_row data d a i ! j = data ! (i * a + j)) \<and>
      (\<forall>x \<in> set (base_row data d a i). x < 256 ^ k)" if "i < n" for i
    using base_row_facts [of i a d data] assms that by blast
  then have "\<forall>row \<in> set xss. length row = d \<and> (\<forall>x \<in> set row. x < 256 ^ k)" by (auto simp: xss_def)
  from read_padded_rows_put [OF this, of r s]
  have "read_padded_rows k d r n (les_put k (base_rows data n d a) @ s) = Some (concat yss, s)"
    by (simp add: base_rows_concat xss_def yss_def)
  moreover have w: "\<forall>ys \<in> set yss. length ys = d + (r - d)" using row by (auto simp: xss_def yss_def)
  moreover have "length (concat yss) = n * (d + (r - d))" using length_concat_rows [OF w] by (simp add: xss_def yss_def)
  moreover have "concat yss ! (i * r + j) = (if j < d then data ! (i * a + j) else 0)" if "d \<le> r" "i < n" "j < r" for i j
  proof -
    have "concat yss ! (i * r + j) = yss ! i ! j"
      using w that by (intro concat_nth_rows) (auto simp: xss_def yss_def)
    then show ?thesis using row [OF that(2)] that by (auto simp: xss_def yss_def nth_append)
  qed
  ultimately show ?thesis by blast
qed

text \<open> Saving vectors from a padded buffer and copying them back, at any offset of a file and with any
  row width that holds a vector, gives the same vectors with zeros behind each, reports the size of
  the file part, and leaves the rest of the buffer alone.\<close>

theorem aligned_file_roundtrip:
  assumes "n < 2 ^ 32" "d < 2 ^ 32" "d \<le> a" "0 < n \<longrightarrow> (n - 1) * a + d \<le> length data" "\<forall>x \<in> set data. x < 256 ^ k"
    and "d \<le> r" "n * r \<le> length buf"
  shows "\<exists>f' buf'. save_data_in_base_dimensions k f data n d a off = Some (8 + n * d * k, f') \<and>
    length f' = max (length f) (off + 8 + n * d * k) \<and>
    copy_aligned_data_from_file k f' (Some buf) r off = Some (buf', n, d) \<and> length buf' = length buf \<and>
    (\<forall>i < n. \<forall>j < r. buf' ! (i * r + j) = (if j < d then data ! (i * a + j) else 0)) \<and> drop (n * r) buf' = drop (n * r) buf"
proof -
  have fits: "\<forall>i < n. i * a + d \<le> length data" using assms(3,4) row_fits by auto
  define body where "body = les_put k (base_rows data n d a)"
  have "length (base_rows data n d a) = n * d"
    using fits by (simp add: base_rows_concat base_row_facts length_concat_rows [where w = d])
  then have len: "length body = n * d * k" by (simp add: body_def)
  define f' where "f' = write_at f off (le_put 4 n @ le_put 4 d @ body)"
  define rest where "rest = drop (off + length (le_put 4 n @ le_put 4 d @ body)) f"
  obtain rows where rows: "read_padded_rows k d r n (body @ rest) = Some (rows, rest)" "length rows = n * r"
    "\<forall>i < n. \<forall>j < r. rows ! (i * r + j) = (if j < d then data ! (i * a + j) else 0)"
    using read_saved [OF fits assms(5), of r rest] assms(6) by (auto simp: body_def)
  have "save_data_in_base_dimensions k f data n d a off = Some (8 + n * d * k, f')"
    using assms(4) by (auto simp: save_data_in_base_dimensions_def f'_def body_def)
  moreover have "length f' = max (length f) (off + 8 + n * d * k)" by (simp add: f'_def len)
  moreover have "drop off f' = le_put 4 n @ le_put 4 d @ body @ rest"
    using drop_write_at [of off f "le_put 4 n @ le_put 4 d @ body"] by (simp add: f'_def rest_def)
  then have "copy_aligned_data_from_file k f' (Some buf) r off = Some (rows @ drop (length rows) buf, n, d)"
    using assms(1,2,6,7) rows(1) by (simp add: copy_aligned_data_from_file_def)
  moreover have "(rows @ drop (length rows) buf) ! (i * r + j) = rows ! (i * r + j)" if "i < n" "j < r" for i j
  proof -
    have "(i + 1) * r \<le> n * r" using that(1) by (intro mult_right_mono) auto
    then have "i * r + j < n * r" using that(2) by simp
    then show ?thesis by (simp add: nth_append rows(2))
  qed
  ultimately show ?thesis using rows(2,3) assms(7) by auto
qed

theorem aligned_file_roundtrip_witness:
  "\<exists>f' buf'. save_data_in_base_dimensions 4 [] [1, 2, 9, 3, 4, 9] 2 2 3 0 = Some (24, f') \<and>
     copy_aligned_data_from_file 4 f' (Some (replicate 9 7)) 4 0 = Some (buf', 2, 2) \<and> buf' ! 4 = 3"
proof -
  have vals: "\<forall>x \<in> set [1, 2, 9, 3, 4, 9]. x < (256 :: nat) ^ 4" by simp
  obtain f' buf' where "save_data_in_base_dimensions 4 [] [1, 2, 9, 3, 4, 9] 2 2 3 0 = Some (24, f')"
    "copy_aligned_data_from_file 4 f' (Some (replicate 9 7)) 4 0 = Some (buf', 2, 2)"
    and at: "\<forall>i < 2. \<forall>j < 4. buf' ! (i * 4 + j) = (if j < 2 then [1, 2, 9, 3, 4, 9] ! (i * 3 + j) else 0)"
    using aligned_file_roundtrip [where n = 2 and d = 2 and a = 3 and r = 4 and f = "[]" and off = 0 and buf = "replicate 9 7", OF _ _ _ _ vals]
    by auto
  moreover have "buf' ! 4 = 3" using at [rule_format, of 1 0] by simp
  ultimately show ?thesis by blast
qed

lemma base_rows_dense: "n * d \<le> length xs \<Longrightarrow> base_rows xs n d d = take (n * d) xs"
proof (induction n)
  case (Suc n)
  have "Suc n * d = n * d + d" by simp
  then have "take (Suc n * d) xs = take (n * d) xs @ take d (drop (n * d) xs)" by (simp only: take_add)
  then show ?case using Suc by (simp add: base_rows_def)
qed (simp add: base_rows_def)

lemma ROUND_UP_bounds:
  assumes "0 < y"
  shows "y dvd ROUND_UP x y \<and> x \<le> ROUND_UP x y \<and> ROUND_UP x y < x + y"
proof -
  obtain q r where x: "x div y = q" "x mod y = r" "x = q * y + r" "r < y"
    using assms by (metis div_mult_mod_eq mod_less_divisor)
  then have "ROUND_UP x y = (if r = 0 then q * y else q * y + y)" by (simp add: ROUND_UP_def)
  then show ?thesis using x(3,4) by auto
qed

text \<open> A vector file loads if nothing follows its vectors and is refused if anything does; the rows in
  memory are as wide as the next multiple of 8 and end in zeros.\<close>

theorem aligned_bin_loads:
  assumes "n < 2 ^ 32" "d < 2 ^ 32" "length elems = n * d" "\<forall>x \<in> set elems. x < 256 ^ k" "n * d * k + 8 + length extra < 2 ^ 64"
    and "f = le_put 4 n @ le_put 4 d @ les_put k elems @ extra"
  shows "\<exists>rows r. load_aligned_bin_impl k f = (if extra = [] then Some (rows, n, d, r) else None) \<and>
    8 dvd r \<and> d \<le> r \<and> r < d + 8 \<and> length rows = n * r \<and>
    (\<forall>i < n. \<forall>j < r. rows ! (i * r + j) = (if j < d then elems ! (i * d + j) else 0))"
proof -
  define r where "r = ROUND_UP d 8"
  have r: "8 dvd r" "d \<le> r" "r < d + 8" using ROUND_UP_bounds [of 8 d] by (simp_all add: r_def)
  have "i * d + d \<le> length elems" if "i < n" for i
  proof -
    have "(i + 1) * d \<le> n * d" using that by (intro mult_right_mono) auto
    then show ?thesis using assms(3) by simp
  qed
  then obtain rows where rows: "read_padded_rows k d r n (les_put k (base_rows elems n d d) @ []) = Some (rows, [])"
    "length rows = n * (d + (r - d))" "\<forall>i < n. \<forall>j < r. rows ! (i * r + j) = (if j < d then elems ! (i * d + j) else 0)"
    using read_saved [of n d d elems k r "[]"] assms(4) r(2) by auto
  have "base_rows elems n d d = elems" using assms(3) by (simp add: base_rows_dense)
  then have read: "read_padded_rows k d r n (les_put k elems) = Some (rows, [])" using rows(1) by simp
  have head: "rd_le 4 f = Some (n, le_put 4 d @ les_put k elems @ extra)"
    "rd_le 4 (le_put 4 d @ les_put k elems @ extra) = Some (d, les_put k elems @ extra)"
    unfolding assms(6) using assms(1,2) by (simp_all add: rd_le_put)
  have len: "length f = n * d * k + 8 + length extra" by (simp add: assms(3,6))
  have "(n * d * k + 2 * 4) mod 2 ^ 64 = n * d * k + 8" using assms(5) by (simp add: mod_less)
  then have "load_aligned_bin_impl k f = (if extra = [] then Some (rows, n, d, r) else None)"
    using head read len by (simp add: load_aligned_bin_impl_def r_def [symmetric] Let_def)
  then show ?thesis using r rows(2,3) by (intro exI [of _ rows] exI [of _ r]) simp
qed

theorem aligned_bin_loads_witness:
  "load_aligned_bin_impl 1 (le_put 4 1 @ le_put 4 2 @ les_put 1 [5, 6] @ [0]) = None"
  using aligned_bin_loads [of 1 2 "[5, 6]" 1 "[0]", OF _ _ _ _ _ refl] by auto

subsection \<open>Range ground truth\<close>

definition range_file :: "nat list list \<Rightarrow> bytes" where
  "range_file gts = le_put 4 (length gts) @ le_put 4 (sum_list (map length gts)) @ les_put 4 (map length gts) @ les_put 4 (concat gts)"

lemma read_results_put:
  "\<forall>ids \<in> set gts. \<forall>x \<in> set ids. x < 256 ^ 4 \<Longrightarrow>
     read_results (map length gts) (les_put 4 (concat gts) @ s) = Some (gts, s)"
proof (induction gts)
  case (Cons ids gts)
  then have "rd_les 4 (length ids) (les_put 4 ids @ les_put 4 (concat gts) @ s) = Some (ids, les_put 4 (concat gts) @ s)"
    by (intro rd_les_put) simp
  then show ?case using Cons by simp
qed simp

text \<open> A range ground truth file gives back the result lists it was made of, unless it has no queries: then
  the printed percentiles read an entry of an empty vector.\<close>

theorem range_truthset_loads:
  assumes "length gts < 2 ^ 31" "sum_list (map length gts) < 2 ^ 31" "\<forall>ids \<in> set gts. \<forall>x \<in> set ids. x < 2 ^ 32"
  shows "load_range_truthset (range_file gts) = (if gts = [] then None else Some gts)"
proof -
  let ?n = "length gts" and ?t = "sum_list (map length gts)"
  have ext: "sign_extend ?n = ?n" "sign_extend ?t = ?t" using assms(1,2) by (simp_all add: sign_extend_def)
  have "length (concat gts) = ?t" by (simp add: length_concat)
  then have len: "length (range_file gts) = 2 * 4 + ?n * 4 + ?t * 4" by (simp add: range_file_def)
  have "length ids \<le> ?t" if "ids \<in> set gts" for ids using that by (intro member_le_sum_list) auto
  then have counts: "\<forall>c \<in> set (map length gts). c < 256 ^ 4" using assms(2) by fastforce
  have "rd_les 4 ?n (les_put 4 (map length gts) @ les_put 4 (concat gts)) = Some (map length gts, les_put 4 (concat gts))"
    using rd_les_put [OF counts] by simp
  moreover have "read_results (map length gts) (les_put 4 (concat gts)) = Some (gts, [])"
    using read_results_put [of gts "[]"] assms(3) by simp
  moreover have "(2 * 4 + ?n * 4 + ?t * 4) mod 2 ^ 64 = 2 * 4 + ?n * 4 + ?t * 4" using assms(1,2) by (intro mod_less) simp
  moreover have "rd_le 4 (range_file gts) = Some (?n, le_put 4 ?t @ les_put 4 (map length gts) @ les_put 4 (concat gts))"
    unfolding range_file_def using assms(1) by (intro rd_le_put) simp
  moreover have "rd_le 4 (le_put 4 ?t @ les_put 4 (map length gts) @ les_put 4 (concat gts)) = Some (?t, les_put 4 (map length gts) @ les_put 4 (concat gts))"
    using assms(2) by (intro rd_le_put) simp
  ultimately show ?thesis by (simp add: load_range_truthset_def len ext)
qed

theorem range_truthset_loads_witness: "load_range_truthset (range_file [[3, 1], [], [4]]) = Some [[3, 1], [], [4]]"
  using range_truthset_loads [of "[[3, 1], [], [4]]"] by simp

definition dist_file :: "nat \<Rightarrow> nat list list \<Rightarrow> nat list list \<Rightarrow> bytes" where
  "dist_file d ids dists = le_put 4 (length ids) @ le_put 4 d @ les_put 4 (concat ids) @ les_put 4 (concat dists)"

lemma concat_filter: "concat (map (\<lambda>j. if P j then [f j] else []) js) = map f (filter P js)"
  by (induction js) auto

text \<open> Pruning ground truth to a radius keeps, for each query and in order, exactly the ids whose distance
  is at most the radius.\<close>

theorem prune_truthset_keeps:
  assumes "length ids < 2 ^ 32" "d < 2 ^ 32" "2 * length ids * d * 4 + 8 < 2 ^ 64" "length dists = length ids"
    and "\<forall>row \<in> set ids \<union> set dists. length row = d \<and> (\<forall>x \<in> set row. x < 2 ^ 32)"
  shows "prune_truthset_for_range flt (dist_file d ids dists) radius =
    Some (map2 (\<lambda>row ds. map fst (filter (\<lambda>(i, b). flt b \<le> radius) (zip row ds))) ids dists, length ids)"
proof -
  let ?n = "length ids"
  have w: "\<forall>row \<in> set ids. length row = d" "\<forall>row \<in> set dists. length row = d" using assms(5) by auto
  have lens: "length (concat ids) = ?n * d" "length (concat dists) = ?n * d"
    using length_concat_rows [OF w(1)] length_concat_rows [OF w(2)] assms(4) by simp_all
  have len: "length (dist_file d ids dists) = 2 * ?n * d * 4 + 2 * 4" by (simp add: dist_file_def lens)
  have "rd_les 4 (?n * d) (les_put 4 (concat ids) @ les_put 4 (concat dists)) = Some (concat ids, les_put 4 (concat dists))"
    using rd_les_put [of "concat ids" 4] assms(5) by (auto simp: lens)
  moreover have "rd_les 4 (?n * d) (les_put 4 (concat dists)) = Some (concat dists, [])"
    using rd_les_put_end [of "concat dists" 4] assms(5) by (auto simp: lens)
  moreover have "(2 * ?n * d * 4 + 2 * 4) mod 2 ^ 64 = 2 * ?n * d * 4 + 2 * 4" using assms(3) by (intro mod_less) simp
  moreover have "rd_le 4 (dist_file d ids dists) = Some (?n, le_put 4 d @ les_put 4 (concat ids) @ les_put 4 (concat dists))"
    unfolding dist_file_def using assms(1) by (intro rd_le_put) simp
  moreover have "rd_le 4 (le_put 4 d @ les_put 4 (concat ids) @ les_put 4 (concat dists)) = Some (d, les_put 4 (concat ids) @ les_put 4 (concat dists))"
    using assms(2) by (intro rd_le_put) simp
  moreover have "map (\<lambda>i. map (\<lambda>j. concat ids ! (i * d + j)) (filter (\<lambda>j. flt (concat dists ! (i * d + j)) \<le> radius) [0..<d])) [0..<?n] =
      map2 (\<lambda>row ds. map fst (filter (\<lambda>(i, b). flt b \<le> radius) (zip row ds))) ids dists"
  proof (rule nth_equalityI)
    fix i
    assume "i < length (map (\<lambda>i. map (\<lambda>j. concat ids ! (i * d + j)) (filter (\<lambda>j. flt (concat dists ! (i * d + j)) \<le> radius) [0..<d])) [0..<?n])"
    then have i: "i < ?n" by simp
    then have row: "length (ids ! i) = d" "length (dists ! i) = d" using w assms(4) by auto
    have "concat ids ! (i * d + j) = ids ! i ! j" "concat dists ! (i * d + j) = dists ! i ! j" if "j < d" for j
      using concat_nth_rows [OF w(1) i that] concat_nth_rows [OF w(2) _ that, of i] i assms(4) by simp_all
    then have "map (\<lambda>j. concat ids ! (i * d + j)) (filter (\<lambda>j. flt (concat dists ! (i * d + j)) \<le> radius) [0..<d]) =
        map (\<lambda>j. ids ! i ! j) (filter (\<lambda>j. flt (dists ! i ! j) \<le> radius) [0..<d])"
      by (auto intro!: map_cong filter_cong)
    also have "\<dots> = map fst (filter (\<lambda>(i, b). flt b \<le> radius) (map (\<lambda>j. (ids ! i ! j, dists ! i ! j)) [0..<d]))"
      by (simp add: filter_map comp_def)
    also have "map (\<lambda>j. (ids ! i ! j, dists ! i ! j)) [0..<d] = zip (ids ! i) (dists ! i)"
      using row by (intro nth_equalityI) auto
    finally show "map (\<lambda>i. map (\<lambda>j. concat ids ! (i * d + j)) (filter (\<lambda>j. flt (concat dists ! (i * d + j)) \<le> radius) [0..<d])) [0..<?n] ! i =
        map2 (\<lambda>row ds. map fst (filter (\<lambda>(i, b). flt b \<le> radius) (zip row ds))) ids dists ! i"
      using i assms(4) by simp
  qed (use assms(4) in simp)
  ultimately show ?thesis by (simp add: prune_truthset_for_range_def len concat_filter)
qed

theorem prune_truthset_keeps_witness:
  "prune_truthset_for_range of_nat (dist_file 2 [[7, 8], [9, 5]] [[1, 4], [2, 3]]) 2 = Some ([[7], [9]], 2)"
  using prune_truthset_keeps [of "[[7, 8], [9, 5]]" 2 "[[1, 4], [2, 3]]" of_nat 2] by simp

end
