(* ===== verification/TextFiles.thy ===== *)
theory TextFiles
  imports Prelude
begin

text \<open>
  Text files that the systems read: label files (\<open>convert_labels_string_to_int\<close>,
  \<open>read_file_to_vector_of_strings\<close> in \<open>AiSAQ/include/utils.h\<close>), node lists
  (\<open>Gorgeous/include/baseline_io_stats.h\<close>), and \<open>split\<close> of \<open>PipeANN/include/utils/str_utils.h\<close>. A file is its
  string of characters. \<open>None\<close> is \<open>exit(-1)\<close>, an exception, or an access outside a vector.
\<close>

text \<open>All results of \<open>std::getline\<close> with a delimiter; nothing comes after a final delimiter.\<close>

fun getlines :: "char \<Rightarrow> string \<Rightarrow> string list" where
  "getlines d [] = []"
| "getlines d (c # s) =
     (if c = d then [] # getlines d s
      else (case getlines d s of [] \<Rightarrow> [[c]] | t # ts \<Rightarrow> (c # t) # ts))"

abbreviation newline :: char where "newline \<equiv> CHR 0x0A"
abbreviation return :: char where "return \<equiv> CHR 0x0D"
abbreviation comma :: char where "comma \<equiv> CHR 0x2C"

subsection \<open>split\<close>

text \<open>\<open>cur\<close> is the part of the string from \<open>l\<close> to \<open>r\<close>.\<close>

fun split_loop :: "char \<Rightarrow> string \<Rightarrow> string \<Rightarrow> string list" where
  "split_loop delim cur [] = (if 0 < length cur then [cur] else [])"
| "split_loop delim cur (c # s) =
     (if c = delim then (if 0 < length cur then [cur] else []) @ split_loop delim [] s
      else split_loop delim (cur @ [c]) s)"

definition split_string :: "string \<Rightarrow> char \<Rightarrow> string list" where
  "split_string s delim = split_loop delim [] s"

subsection \<open>Labels as numbers\<close>

text \<open>
  \<open>string_int_map\<close> is a list of its entries, oldest first; the code writes them out in the order of
  its hash table. The label file that is written is given by the numbers on its lines.
\<close>

definition clean_token :: "string \<Rightarrow> string" where
  "clean_token token = filter (\<lambda>c. c \<noteq> return) (filter (\<lambda>c. c \<noteq> newline) token)"

definition label_number :: "(string \<times> nat) list \<Rightarrow> string \<Rightarrow> nat \<times> (string \<times> nat) list" where
  "label_number m token =
     (case map_of m token of
        Some i \<Rightarrow> (i, m)
      | None \<Rightarrow> let next_id = (length m + 1) mod 2 ^ 32 in (next_id, m @ [(token, next_id)]))"

fun convert_tokens :: "(string \<times> nat) list \<Rightarrow> string list \<Rightarrow> nat list \<times> (string \<times> nat) list" where
  "convert_tokens m [] = ([], m)"
| "convert_tokens m (t # ts) =
     (let (i, m) = label_number m (clean_token t);
          (is, m) = convert_tokens m ts
      in (i # is, m))"

fun convert_lines :: "(string \<times> nat) list \<Rightarrow> string list \<Rightarrow> (nat list list \<times> (string \<times> nat) list) option" where
  "convert_lines m [] = Some ([], m)"
| "convert_lines m (line # ls) =
     (let (lbls, m) = convert_tokens m (getlines comma line)
      in if length lbls \<le> 0 then None
         else do {
           (out, m) \<leftarrow> convert_lines m ls;
           Some (lbls # out, m)
         })"

definition convert_labels_string_to_int :: "string \<Rightarrow> string \<Rightarrow> (nat list list \<times> (string \<times> nat) list) option" where
  "convert_labels_string_to_int in_file unv_label =
     convert_lines (if unv_label \<noteq> '''' then [(unv_label, 0)] else []) (getlines newline in_file)"

subsection \<open>Query filters\<close>

definition drop_return :: "string \<Rightarrow> string" where
  "drop_return line = (if last line = return \<or> last line = newline then butlast line else line)"

fun filter_lines :: "bool \<Rightarrow> string set \<Rightarrow> string list \<Rightarrow> string list option" where
  "filter_lines unique seen [] = Some []"
| "filter_lines unique seen (line # ls) =
     (if line = [] then Some []
      else if comma \<in> set line then None
      else
        let line = drop_return line
        in do {
          rest \<leftarrow> filter_lines unique (if unique then insert line seen else seen) ls;
          Some (if line \<notin> seen then line # rest else rest)
        })"

text \<open>\<open>file\<close> is \<open>None\<close> when it cannot be opened or its name is blank.\<close>

definition read_file_to_vector_of_strings :: "string option \<Rightarrow> bool \<Rightarrow> string list option" where
  "read_file_to_vector_of_strings file unique =
     (case file of None \<Rightarrow> None | Some f \<Rightarrow> filter_lines unique {} (getlines newline f))"

subsection \<open>Splitting\<close>

lemma getlines_prefix:
  assumes "d \<notin> set t" "t \<noteq> []"
  shows "getlines d (t @ s) = (case s of [] \<Rightarrow> [t] | c # s' \<Rightarrow> if c = d then t # getlines d s' else (t @ hd (getlines d s)) # tl (getlines d s))"
  using assms
proof (induction t)
  case (Cons x t)
  have ne: "getlines d (c # u) \<noteq> []" for c u by (auto split: list.splits)
  show ?case
  proof (cases "t = []")
    case True
    then show ?thesis using Cons.prems ne by (auto split: list.splits)
  next
    case False
    then show ?thesis using Cons by (auto split: list.splits)
  qed
qed simp

lemma getlines_line: "d \<notin> set t \<Longrightarrow> getlines d (t @ d # s) = t # getlines d s"
  by (cases "t = []") (auto simp: getlines_prefix)

lemma getlines_last: "d \<notin> set t \<Longrightarrow> getlines d t = (if t = [] then [] else [t])"
  using getlines_prefix [of d t "[]"] by auto

text \<open>Lines that each end in the delimiter come back as they are.\<close>

lemma getlines_unlines: "\<forall>t \<in> set ts. d \<notin> set t \<Longrightarrow> getlines d (concat (map (\<lambda>t. t @ [d]) ts)) = ts"
  by (induction ts) (auto simp: getlines_line)

lemma getlines_free: "t \<in> set (getlines d s) \<Longrightarrow> d \<notin> set t"
proof (induction d s arbitrary: t rule: getlines.induct)
  case (2 d c s)
  then show ?case by (cases "getlines d s") (auto split: if_splits)
qed simp

lemma split_loop_getlines:
  "d \<notin> set cur \<Longrightarrow> split_loop d cur s = filter (\<lambda>t. t \<noteq> []) (getlines d (cur @ s))"
proof (induction d cur s rule: split_loop.induct)
  case (1 d cur)
  then show ?case by (auto simp: getlines_last)
next
  case (2 d cur c s)
  then show ?case by (cases "c = d") (auto simp: getlines_line)
qed

text \<open> \<open>split\<close> gives the parts between the delimiters that are not empty, in order: it is \<open>getline\<close> with the
  delimiter, without the empty results.\<close>

theorem split_is_getline: "split_string s delim = filter (\<lambda>t. t \<noteq> []) (getlines delim s)"
  by (simp add: split_string_def split_loop_getlines)

subsection \<open>Label numbers\<close>

text \<open>The entry added when the map has \<open>i\<close> entries has number \<open>i + 1\<close>; the universal label is 0.\<close>

definition numbered :: "bool \<Rightarrow> (string \<times> nat) list \<Rightarrow> bool" where
  "numbered u m \<longleftrightarrow> distinct (map fst m) \<and> (\<forall>i < length m. snd (m ! i) = (if i = 0 \<and> u then 0 else i + 1)) \<and> (u \<longrightarrow> m \<noteq> [])"

definition extends :: "(string \<times> nat) list \<Rightarrow> (string \<times> nat) list \<Rightarrow> bool" where
  "extends m m' \<longleftrightarrow> (\<exists>e. m' = m @ e)"

lemma extends_trans: "extends m m' \<Longrightarrow> extends m' m'' \<Longrightarrow> extends m m''"
  by (auto simp: extends_def)

lemma extends_lookup: "extends m m' \<Longrightarrow> map_of m t = Some i \<Longrightarrow> map_of m' t = Some i"
  by (auto simp: extends_def map_add_def)

lemma label_number_ok:
  assumes "numbered u m" "length m + 1 < 2 ^ 32" "label_number m t = (i, m')"
  shows "numbered u m' \<and> extends m m' \<and> map_of m' t = Some i \<and> fst ` set m' = insert t (fst ` set m) \<and> length m' \<le> length m + 1"
proof (cases "map_of m t")
  case None
  then have "t \<notin> fst ` set m" by (simp add: map_of_eq_None_iff)
  moreover have "m' = m @ [(t, length m + 1)]" "i = length m + 1"
    using None assms(2,3) by (auto simp: label_number_def Let_def mod_less)
  ultimately show ?thesis
    using assms(1) None by (auto simp: numbered_def extends_def nth_append less_Suc_eq map_add_def)
next
  case (Some j)
  then have "t \<in> fst ` set m" by (metis map_of_eq_None_iff option.distinct(1))
  then show ?thesis using Some assms(1,3) by (auto simp: label_number_def extends_def)
qed

lemma convert_tokens_ok:
  assumes "numbered u m" "length m + length ts < 2 ^ 32" "convert_tokens m ts = (is, m')"
  shows "numbered u m' \<and> extends m m' \<and> map (map_of m' \<circ> clean_token) ts = map Some is \<and>
    fst ` set m' = clean_token ` set ts \<union> fst ` set m \<and> length m' \<le> length m + length ts"
  using assms
proof (induction ts arbitrary: m "is" m')
  case (Cons t ts)
  obtain i m1 where 1: "label_number m (clean_token t) = (i, m1)" by fastforce
  obtain js m2 where 2: "convert_tokens m1 ts = (js, m2)" by fastforce
  have e: "is = i # js" "m' = m2" using Cons.prems(3) 1 2 by simp_all
  have n: "numbered u m1 \<and> extends m m1 \<and> map_of m1 (clean_token t) = Some i \<and>
      fst ` set m1 = insert (clean_token t) (fst ` set m) \<and> length m1 \<le> length m + 1"
    using label_number_ok [OF Cons.prems(1) _ 1] Cons.prems(2) by simp
  then have r: "numbered u m2 \<and> extends m1 m2 \<and> map (map_of m2 \<circ> clean_token) ts = map Some js \<and>
      fst ` set m2 = clean_token ` set ts \<union> fst ` set m1 \<and> length m2 \<le> length m1 + length ts"
    using Cons.prems(2) by (intro Cons.IH [OF _ _ 2]) auto
  have "map_of m2 (clean_token t) = Some i" using n r by (blast intro: extends_lookup)
  moreover have "extends m m2" using n r by (blast intro: extends_trans)
  ultimately show ?case using n r e by (auto simp: comp_def)
qed (auto simp: extends_def)

lemma convert_tokens_length: "length (fst (convert_tokens m ts)) = length ts"
  by (induction ts arbitrary: m) (auto simp: case_prod_beta Let_def)

abbreviation line_labels :: "string \<Rightarrow> string list" where
  "line_labels line \<equiv> map clean_token (getlines comma line)"

lemma convert_lines_ok:
  assumes "numbered u m" "length m + (\<Sum>l \<leftarrow> ls. length (getlines comma l)) < 2 ^ 32" "[] \<notin> set ls"
  shows "\<exists>out m'. convert_lines m ls = Some (out, m') \<and> numbered u m' \<and> extends m m' \<and>
    map (map Some) out = map (\<lambda>line. map (map_of m') (line_labels line)) ls \<and>
    fst ` set m' = (\<Union>line \<in> set ls. set (line_labels line)) \<union> fst ` set m"
  using assms
proof (induction ls arbitrary: m)
  case (Cons l ls)
  obtain "is" m1 where 1: "convert_tokens m (getlines comma l) = (is, m1)" by fastforce
  have n: "numbered u m1 \<and> extends m m1 \<and> map (map_of m1 \<circ> clean_token) (getlines comma l) = map Some is \<and>
    fst ` set m1 = clean_token ` set (getlines comma l) \<union> fst ` set m \<and> length m1 \<le> length m + length (getlines comma l)"
    using convert_tokens_ok [OF Cons.prems(1) _ 1] Cons.prems(2) by simp
  have "getlines comma l \<noteq> []" using Cons.prems(3) by (cases l) (auto split: list.splits)
  then have "0 < length is" using convert_tokens_length [of m "getlines comma l"] 1 by auto
  have "length m1 + (\<Sum>l \<leftarrow> ls. length (getlines comma l)) < 2 ^ 32" using n Cons.prems(2) by simp
  then obtain out m2 where 2: "convert_lines m1 ls = Some (out, m2)" "numbered u m2" "extends m1 m2"
    "map (map Some) out = map (\<lambda>line. map (map_of m2) (line_labels line)) ls"
    "fst ` set m2 = (\<Union>line \<in> set ls. set (line_labels line)) \<union> fst ` set m1"
    using Cons.IH [of m1] n Cons.prems(3) by auto
  have "map (map_of m2 \<circ> clean_token) (getlines comma l) = map Some is"
  proof (rule nth_equalityI)
    show "length (map (map_of m2 \<circ> clean_token) (getlines comma l)) = length (map Some is)" using n by (metis length_map)
    fix i
    assume i: "i < length (map (map_of m2 \<circ> clean_token) (getlines comma l))"
    then have "map_of m1 (clean_token (getlines comma l ! i)) = Some (is ! i)"
      using n by (metis (no_types, lifting) comp_apply length_map nth_map)
    then show "map (map_of m2 \<circ> clean_token) (getlines comma l) ! i = map Some is ! i"
      using i n extends_lookup [OF 2(3)] by (metis (no_types, lifting) comp_apply length_map nth_map)
  qed
  then show ?case using 1 2 n \<open>0 < length is\<close> extends_trans [of m m1 m2] by auto
qed (auto simp: extends_def)

lemma convert_lines_empty: "[] \<in> set ls \<Longrightarrow> convert_lines m ls = None"
  by (induction ls arbitrary: m) (auto simp: case_prod_beta Let_def)

text \<open> The conversion of a label file fails exactly when a line is empty. Otherwise every label of a line
  is replaced by its number in the map, different labels have different numbers, the map holds the
  labels of the file and the universal label, and only the universal label has number 0.\<close>

theorem labels_numbered:
  assumes "(\<Sum>l \<leftarrow> getlines newline f. length (getlines comma l)) + 1 < 2 ^ 32"
  shows "if [] \<in> set (getlines newline f) then convert_labels_string_to_int f unv = None
    else \<exists>out m. convert_labels_string_to_int f unv = Some (out, m) \<and>
      map (map Some) out = map (\<lambda>line. map (map_of m) (line_labels line)) (getlines newline f) \<and>
      fst ` set m = (\<Union>line \<in> set (getlines newline f). set (line_labels line)) \<union> (if unv = [] then {} else {unv}) \<and>
      distinct (map fst m) \<and> distinct (map snd m) \<and> (\<forall>(t, i) \<in> set m. i = 0 \<longleftrightarrow> unv \<noteq> [] \<and> t = unv)"
proof (cases "[] \<in> set (getlines newline f)")
  case False
  define u where "u = (unv \<noteq> [])"
  define m0 where "m0 = (if unv \<noteq> [] then [(unv, 0 :: nat)] else [])"
  have m0: "numbered u m0" "length m0 \<le> 1" by (auto simp: numbered_def m0_def u_def)
  obtain out m where r: "convert_lines m0 (getlines newline f) = Some (out, m)" "numbered u m" "extends m0 m"
    "map (map Some) out = map (\<lambda>line. map (map_of m) (line_labels line)) (getlines newline f)"
    "fst ` set m = (\<Union>line \<in> set (getlines newline f). set (line_labels line)) \<union> fst ` set m0"
    using convert_lines_ok [OF m0(1) _ False] m0(2) assms by auto
  have at: "i < length m \<Longrightarrow> snd (m ! i) = (if i = 0 \<and> u then 0 else i + 1)" for i using r(2) by (simp add: numbered_def)
  have "distinct (map snd m)" by (auto simp: distinct_conv_nth at)
  moreover have "i = 0 \<longleftrightarrow> unv \<noteq> [] \<and> t = unv" if ti: "(t, i) \<in> set m" for t i
  proof -
    obtain k where k: "k < length m" "m ! k = (t, i)" using ti by (meson in_set_conv_nth)
    have u0: "u \<Longrightarrow> fst (m ! 0) = unv" using r(3) by (auto simp: extends_def m0_def u_def)
    have "distinct (map fst m)" using r(2) by (simp add: numbered_def)
    then have "fst (m ! k) = fst (m ! 0) \<longleftrightarrow> k = 0"
      using k(1) by (metis length_map nth_eq_iff_index_eq nth_map gr_implies_not0 neq0_conv)
    then show ?thesis using at [OF k(1)] k(2) u0 by (auto simp: u_def)
  qed
  ultimately show ?thesis using r False by (auto simp: convert_labels_string_to_int_def m0_def numbered_def)
qed (simp add: convert_labels_string_to_int_def convert_lines_empty)

theorem labels_numbered_witness:
  "\<exists>out m. convert_labels_string_to_int (''a,b'' @ newline # ''b'') ''u'' = Some (out, m) \<and> distinct (map snd m)"
  using labels_numbered [of "''a,b'' @ newline # ''b''" "''u''"] by auto

subsection \<open>Filters of queries\<close>

lemma filter_lines_comma:
  "\<exists>l \<in> set (takeWhile (\<lambda>l. l \<noteq> []) ls). comma \<in> set l \<Longrightarrow> filter_lines unique seen ls = None"
proof (induction ls arbitrary: seen)
  case (Cons l ls)
  show ?case
  proof (cases "comma \<in> set l")
    case False
    then have "filter_lines unique u ls = None" "l \<noteq> []" for u using Cons by (auto split: if_splits)
    then show ?thesis by (simp add: Let_def)
  qed (use Cons.prems in auto)
qed simp

lemma filter_lines_all:
  "\<forall>l \<in> set (takeWhile (\<lambda>l. l \<noteq> []) ls). comma \<notin> set l \<Longrightarrow>
     filter_lines False seen ls = Some (filter (\<lambda>l. l \<notin> seen) (map drop_return (takeWhile (\<lambda>l. l \<noteq> []) ls)))"
  by (induction ls) (auto simp: Let_def)

lemma remdups_snoc: "remdups (ys @ [x]) = filter (\<lambda>y. y \<noteq> x) (remdups ys) @ [x]"
  by (induction ys) auto

lemma filter_lines_unique:
  "\<forall>l \<in> set (takeWhile (\<lambda>l. l \<noteq> []) ls). comma \<notin> set l \<Longrightarrow>
     filter_lines True seen ls = Some (filter (\<lambda>l. l \<notin> seen) (rev (remdups (rev (map drop_return (takeWhile (\<lambda>l. l \<noteq> []) ls))))))"
proof (induction ls arbitrary: seen)
  case (Cons l ls)
  show ?case
  proof (cases "l = []")
    case False
    then have "filter_lines True (insert (drop_return l) seen) ls =
        Some (filter (\<lambda>y. y \<notin> insert (drop_return l) seen) (rev (remdups (rev (map drop_return (takeWhile (\<lambda>l. l \<noteq> []) ls))))))"
      using Cons by simp
    moreover have "comma \<notin> set l" using Cons.prems False by simp
    ultimately show ?thesis using False by (auto simp: Let_def remdups_snoc rev_filter intro!: filter_cong)
  qed simp
qed simp

text \<open> A file of query filters is read up to its first empty line, without the carriage returns at the
  ends of lines; with \<open>unique\<close> only the first of equal filters is kept. A comma in one of these lines
  ends the program.\<close>

theorem filters_read:
  "read_file_to_vector_of_strings (Some f) unique =
     (let ls = takeWhile (\<lambda>l. l \<noteq> []) (getlines newline f); fs = map drop_return ls
      in if \<exists>l \<in> set ls. comma \<in> set l then None
         else Some (if unique then rev (remdups (rev fs)) else fs))"
proof (cases "\<exists>l \<in> set (takeWhile (\<lambda>l. l \<noteq> []) (getlines newline f)). comma \<in> set l")
  case True
  then show ?thesis by (simp add: read_file_to_vector_of_strings_def Let_def filter_lines_comma)
next
  case False
  then show ?thesis
    using filter_lines_unique [of "getlines newline f" "{}"] filter_lines_all [of "getlines newline f" "{}"]
    by (cases unique) (auto simp: read_file_to_vector_of_strings_def Let_def)
qed

end
