(* ===== verification/NodeLists.thy ===== *)
theory NodeLists
  imports TextFiles
begin

text \<open>
  The statistics on how much of what a search reads is of use, \<open>BaselineIOStats\<close> of
  \<open>Gorgeous/include/baseline_io_stats.h\<close>: reading the node lists of the queries from two text files, and
  counting hits. \<open>None\<close> is an exception of \<open>std::stoul\<close> or an access outside a vector.
\<close>

definition char_code :: "char \<Rightarrow> nat" where
  "char_code c = of_char c"

definition is_blank :: "char \<Rightarrow> bool" where
  "is_blank c \<longleftrightarrow> char_code c = 32 \<or> char_code c = 9"

definition trim :: "string \<Rightarrow> string" where
  "trim token = rev (dropWhile is_blank (rev (dropWhile is_blank token)))"

subsection \<open>stoul\<close>

definition is_space :: "char \<Rightarrow> bool" where
  "is_space c \<longleftrightarrow> char_code c = 32 \<or> 9 \<le> char_code c \<and> char_code c \<le> 13"

definition is_digit :: "char \<Rightarrow> bool" where
  "is_digit c \<longleftrightarrow> 48 \<le> char_code c \<and> char_code c \<le> 57"

definition digits_value :: "string \<Rightarrow> nat" where
  "digits_value ds = fold (\<lambda>c v. 10 * v + (char_code c - 48)) ds 0"

definition stoul :: "string \<Rightarrow> nat option" where
  "stoul str =
     (let s = dropWhile is_space str;
          neg = (s \<noteq> [] \<and> hd s = CHR 0x2D);
          ds = takeWhile is_digit (if neg \<or> s \<noteq> [] \<and> hd s = CHR 0x2B then tl s else s);
          v = digits_value ds
      in if ds = [] \<or> 2 ^ 64 \<le> v then None else Some (if neg then (2 ^ 64 - v) mod 2 ^ 64 else v))"

subsection \<open>Node files\<close>

text \<open>The first number of a line, the count, is skipped; a number is cut to 32 bits.\<close>

fun parse_nodes :: "bool \<Rightarrow> string list \<Rightarrow> nat list option" where
  "parse_nodes first [] = Some []"
| "parse_nodes first (token # ts) =
     (let token = trim token
      in if first then parse_nodes False ts
         else do {
           n \<leftarrow> stoul token;
           ns \<leftarrow> parse_nodes False ts;
           Some (n mod 2 ^ 32 # ns)
         })"

fun load_node_lines :: "string list \<Rightarrow> nat list list option" where
  "load_node_lines [] = Some []"
| "load_node_lines (line # ls) = do {
     nodes \<leftarrow> parse_nodes True (getlines comma line);
     rest \<leftarrow> load_node_lines ls;
     Some (nodes # rest)
   }"

definition load_node_file :: "string \<Rightarrow> nat list list option" where
  "load_node_file f = load_node_lines (getlines newline f)"

subsection \<open>BaselineIOStats\<close>

record baseline =
  page_bytes :: nat
  loaded :: bool
  exact_nodes :: "nat list list"
  adj_nodes :: "nat list list"

text \<open>A file is \<open>None\<close> when it does not open.\<close>

definition load_baseline_data :: "nat \<Rightarrow> string option \<Rightarrow> string option \<Rightarrow> baseline option" where
  "load_baseline_data page_size_kb exact_file adj_file =
     (let b = \<lparr>page_bytes = page_size_kb * 1024, loaded = False, exact_nodes = [], adj_nodes = []\<rparr>
      in case exact_file of
           None \<Rightarrow> Some b
         | Some f \<Rightarrow> do {
             es \<leftarrow> load_node_file f;
             let b = b\<lparr>exact_nodes := es\<rparr>;
             case adj_file of
               None \<Rightarrow> Some b
             | Some f \<Rightarrow> do {
                 as \<leftarrow> load_node_file f;
                 let b = b\<lparr>adj_nodes := as\<rparr>;
                 Some (if length es \<noteq> length as then b else b\<lparr>loaded := True\<rparr>)
               }
           })"

definition calculate_hit_bytes :: "baseline \<Rightarrow> nat list \<Rightarrow> nat list \<Rightarrow> nat \<Rightarrow> nat \<Rightarrow> nat \<Rightarrow> nat option" where
  "calculate_hit_bytes b accessed_exact accessed_adj query_id exact_node_bytes adj_node_bytes =
     (if length (exact_nodes b) \<le> query_id then Some 0
      else do {
        baseline_exact \<leftarrow> vec_at (exact_nodes b) query_id;
        baseline_adj \<leftarrow> vec_at (adj_nodes b) query_id;
        let hit_exact = length (filter (\<lambda>n. n \<in> set baseline_exact) accessed_exact);
        let hit_adj = length (filter (\<lambda>n. n \<in> set baseline_adj) accessed_adj);
        Some (hit_exact * exact_node_bytes + hit_adj * adj_node_bytes)
      })"

definition calculate_disk_utilization ::
  "baseline \<Rightarrow> nat list \<Rightarrow> nat list \<Rightarrow> nat \<Rightarrow> nat \<Rightarrow> nat \<Rightarrow> nat \<Rightarrow> (nat \<times> nat) option" where
  "calculate_disk_utilization b accessed_exact accessed_adj query_id num_pages_read exact_node_bytes adj_node_bytes = do {
     hit \<leftarrow> calculate_hit_bytes b accessed_exact accessed_adj query_id exact_node_bytes adj_node_bytes;
     Some (num_pages_read * page_bytes b, hit)
   }"

subsection \<open>Numbers in text\<close>

definition digit_char :: "nat \<Rightarrow> char" where
  "digit_char d = char_of (48 + d)"

fun decimal :: "nat \<Rightarrow> string" where
  "decimal n = (if n < 10 then [digit_char n] else decimal (n div 10) @ [digit_char (n mod 10)])"

declare decimal.simps [simp del]

lemma code_digit: "d < 10 \<Longrightarrow> char_code (digit_char d) = 48 + d"
  by (simp add: char_code_def digit_char_def)

lemma decimal_digits: "c \<in> set (decimal n) \<Longrightarrow> is_digit c"
proof (induction n rule: decimal.induct)
  case (1 n)
  then show ?case
    by (subst (asm) decimal.simps) (auto simp: is_digit_def code_digit split: if_splits)
qed

lemma decimal_nonempty: "decimal n \<noteq> []"
  by (subst decimal.simps) simp

lemma digits_decimal: "digits_value (decimal n) = n"
proof (induction n rule: decimal.induct)
  case (1 n)
  show ?case
  proof (cases "n < 10")
    case True
    then show ?thesis by (subst decimal.simps) (simp add: digits_value_def code_digit)
  next
    case False
    then have "digits_value (decimal n) = 10 * (n div 10) + n mod 10"
      using 1 by (subst decimal.simps) (simp add: digits_value_def code_digit)
    then show ?thesis by simp
  qed
qed

lemma digit_not: "is_digit c \<Longrightarrow> \<not> is_blank c \<and> \<not> is_space c \<and> c \<noteq> comma \<and> c \<noteq> newline \<and> c \<noteq> CHR 0x2D \<and> c \<noteq> CHR 0x2B"
  by (auto simp: is_digit_def is_blank_def is_space_def char_code_def)

lemma trim_digits: "(\<And>c. c \<in> set s \<Longrightarrow> is_digit c) \<Longrightarrow> trim s = s"
proof -
  assume d: "\<And>c. c \<in> set s \<Longrightarrow> is_digit c"
  have "dropWhile is_blank u = u" if "set u \<subseteq> set s" for u
    using that d digit_not by (cases u) auto
  then show ?thesis by (simp add: trim_def)
qed

lemma stoul_decimal:
  assumes "n < 2 ^ 64"
  shows "stoul (trim (decimal n)) = Some n"
proof -
  have t: "trim (decimal n) = decimal n" by (rule trim_digits) (rule decimal_digits)
  have "hd (decimal n) \<in> set (decimal n)" using decimal_nonempty by simp
  then have h: "is_digit (hd (decimal n))" by (rule decimal_digits)
  have "dropWhile is_space (decimal n) = decimal n"
    using h digit_not [OF h] decimal_nonempty by (cases "decimal n") auto
  moreover have all: "takeWhile is_digit (decimal n) = decimal n" using decimal_digits by (simp add: takeWhile_eq_all_conv)
  ultimately show ?thesis
    using assms digit_not [OF h] decimal_nonempty by (simp add: stoul_def t digits_decimal Let_def all)
qed

subsection \<open>What is read and counted\<close>

fun joined :: "string list \<Rightarrow> string" where
  "joined [] = []"
| "joined [t] = t"
| "joined (t # u # ts) = t @ comma # joined (u # ts)"

definition node_file :: "nat list list \<Rightarrow> string" where
  "node_file rows = concat (map (\<lambda>ns. joined (map decimal (length ns # ns)) @ [newline]) rows)"

lemma getlines_joined:
  "\<forall>t \<in> set ts. comma \<notin> set t \<and> t \<noteq> [] \<Longrightarrow> getlines comma (joined ts) = ts"
  by (induction ts rule: joined.induct) (auto simp: getlines_last getlines_line)

lemma set_joined: "c \<in> set (joined ts) \<Longrightarrow> c = comma \<or> (\<exists>t \<in> set ts. c \<in> set t)"
  by (induction ts rule: joined.induct) auto

lemma decimal_free: "comma \<notin> set (decimal n)" "newline \<notin> set (decimal n)"
  using decimal_digits [of comma n] decimal_digits [of newline n] digit_not by blast+

lemma parse_decimals: "\<forall>n \<in> set ns. n < 2 ^ 32 \<Longrightarrow> parse_nodes False (map decimal ns) = Some ns"
proof (induction ns)
  case (Cons n ns)
  then have "stoul (trim (decimal n)) = Some n" by (intro stoul_decimal) simp
  then show ?case using Cons by simp
qed simp

lemma parse_row: "\<forall>n \<in> set ns. n < 2 ^ 32 \<Longrightarrow> parse_nodes True (getlines comma (joined (decimal m # map decimal ns))) = Some ns"
  using getlines_joined [of "map decimal (m # ns)"] parse_decimals [of ns] by (simp add: decimal_free decimal_nonempty)

lemma load_node_file_loads:
  assumes "\<forall>ns \<in> set rows. \<forall>n \<in> set ns. n < 2 ^ 32"
  shows "load_node_file (node_file rows) = Some rows"
proof -
  have "newline \<notin> set (joined (map decimal ns))" for ns
    using set_joined [of newline "map decimal ns"] decimal_free by auto
  then have "getlines newline (node_file rows) = map (\<lambda>ns. joined (map decimal (length ns # ns))) rows"
    using getlines_unlines [of "map (\<lambda>ns. joined (map decimal (length ns # ns))) rows" newline]
    by (simp add: node_file_def comp_def del: joined.simps list.map)
  moreover have "load_node_lines (map (\<lambda>ns. joined (map decimal (length ns # ns))) rows) = Some rows"
    using assms by (induction rows) (simp_all add: parse_row)
  ultimately show ?thesis by (simp add: load_node_file_def)
qed

text \<open> The node lists that two files hold are read back, and the statistics count as loaded when the
  files have as many queries. For a query the bytes that were of use are those of the nodes read that
  are on its lists; with fewer adjacency lists than vector lists, a query that only the latter have
  reads past the end.\<close>

theorem baseline_counts_hits:
  assumes "\<forall>ns \<in> set es \<union> set as. \<forall>n \<in> set ns. n < 2 ^ 32"
  shows "\<exists>b. load_baseline_data kb (Some (node_file es)) (Some (node_file as)) = Some b \<and>
    (loaded b \<longleftrightarrow> length es = length as) \<and>
    calculate_disk_utilization b xs ys q pages eb ab =
      (if length es \<le> q then Some (pages * (kb * 1024), 0)
       else if length as \<le> q then None
       else Some (pages * (kb * 1024),
         length (filter (\<lambda>n. n \<in> set (es ! q)) xs) * eb + length (filter (\<lambda>n. n \<in> set (as ! q)) ys) * ab))"
proof -
  have "load_node_file (node_file es) = Some es" "load_node_file (node_file as) = Some as"
    using assms load_node_file_loads by blast+
  then have "load_baseline_data kb (Some (node_file es)) (Some (node_file as)) =
      Some \<lparr>page_bytes = kb * 1024, loaded = (length es = length as), exact_nodes = es, adj_nodes = as\<rparr>"
    by (simp add: load_baseline_data_def Let_def)
  then show ?thesis
    by (intro exI [of _ "\<lparr>page_bytes = kb * 1024, loaded = (length es = length as), exact_nodes = es, adj_nodes = as\<rparr>"])
      (simp add: calculate_disk_utilization_def calculate_hit_bytes_def vec_at_def)
qed

theorem baseline_counts_hits_witness:
  "\<exists>b. load_baseline_data 16 (Some (node_file [[3, 40], [5]])) (Some (node_file [[8]])) = Some b \<and>
     calculate_disk_utilization b [40, 7] [8] 1 2 1024 196 = None"
  using baseline_counts_hits [of "[[3, 40], [5]]" "[[8]]" 16 "[40, 7]" "[8]" 1 2 1024 196] by auto

end
