(* ===== verification/LabelFiles.thy ===== *)
theory LabelFiles
  imports AlignedFiles
begin

text \<open>
  The files of vectors per label of a filtered build, \<open>generate_label_specific_vector_files\<close>, and
  \<open>loadTags\<close>, from \<open>AiSAQ/include/filter_utils.h\<close>. The vectors are gathered straight from the mapped input
  by \<open>writev\<close>, in calls of at most \<open>IOV_MAX\<close> pieces; a piece is an offset into the input and a length.
  An offset is computed in 32 bits. The sets of labels are lists without order meaning; the count of a
  label the map does not hold is 0. \<open>writev\<close> writes all it is given. \<open>None\<close> is an exception, an access
  outside the array of pieces, through a null pointer or past the input, or a piece nobody has set.
\<close>

definition IOV_MAX :: nat where "IOV_MAX = 1024"

text \<open>The pieces of each label so far, and the ids of its points.\<close>

record pieces =
  iovecs :: "string \<Rightarrow> (nat \<times> nat) list"
  orig_ids :: "string \<Rightarrow> nat list"

definition piece :: "nat \<Rightarrow> nat \<Rightarrow> nat \<times> nat" where
  "piece vector_size point_id = (2 * 4 + (vector_size * point_id) mod 2 ^ 32, vector_size)"

fun add_point :: "(string \<Rightarrow> nat) \<Rightarrow> string set \<Rightarrow> nat \<Rightarrow> nat \<Rightarrow> string list \<Rightarrow> pieces \<Rightarrow> pieces option" where
  "add_point cnt all_labels vector_size p [] s = Some s"
| "add_point cnt all_labels vector_size p (lbl # lbls) s =
     (if lbl \<notin> all_labels \<or> cnt lbl \<le> length (iovecs s lbl) then None
      else add_point cnt all_labels vector_size p lbls
        (s\<lparr>iovecs := (iovecs s)(lbl := iovecs s lbl @ [piece vector_size p]),
           orig_ids := (orig_ids s)(lbl := orig_ids s lbl @ [p])\<rparr>))"

fun add_points :: "(string \<Rightarrow> nat) \<Rightarrow> string set \<Rightarrow> nat \<Rightarrow> nat \<Rightarrow> string list list \<Rightarrow> pieces \<Rightarrow> pieces option" where
  "add_points cnt all_labels vector_size p [] s = Some s"
| "add_points cnt all_labels vector_size p (lbls # rest) s = do {
     s \<leftarrow> add_point cnt all_labels vector_size p lbls s;
     add_points cnt all_labels vector_size (p + 1) rest s
   }"

fun gather :: "bytes \<Rightarrow> (nat \<times> nat) list \<Rightarrow> bytes option" where
  "gather f [] = Some []"
| "gather f ((off, len) # ps) =
     (if length f < off + len then None
      else do {
        rest \<leftarrow> gather f ps;
        Some (take len (drop off f) @ rest)
      })"

definition writev :: "bytes \<Rightarrow> (nat \<times> nat) list \<Rightarrow> nat \<Rightarrow> bytes option" where
  "writev f ps n = (if length ps < n then None else gather f (take n ps))"

function write_pieces :: "bytes \<Rightarrow> (nat \<times> nat) list \<Rightarrow> nat \<Rightarrow> bytes option" where
  "write_pieces f ps n =
     (if IOV_MAX < n then do {
        a \<leftarrow> writev f ps IOV_MAX;
        b \<leftarrow> write_pieces f (drop IOV_MAX ps) (n - IOV_MAX);
        Some (a @ b)
      }
      else writev f ps n)"
  by pat_completeness auto
termination
  by (relation "measure (\<lambda>(f, ps, n). n)") (auto simp: IOV_MAX_def)

fun write_labels :: "bytes \<Rightarrow> (string \<Rightarrow> nat) \<Rightarrow> nat \<Rightarrow> pieces \<Rightarrow> string list \<Rightarrow> (string \<times> bytes) list option" where
  "write_labels f cnt dimension s [] = Some []"
| "write_labels f cnt dimension s (lbl # lbls) = do {
     body \<leftarrow> write_pieces f (iovecs s lbl) (cnt lbl);
     rest \<leftarrow> write_labels f cnt dimension s lbls;
     Some ((lbl, le_put 4 (cnt lbl) @ le_put 4 dimension @ body) # rest)
   }"

definition generate_label_specific_vector_files ::
  "nat \<Rightarrow> bytes \<Rightarrow> (string \<Rightarrow> nat) \<Rightarrow> string list list \<Rightarrow> string list \<Rightarrow> ((string \<times> bytes) list \<times> (string \<Rightarrow> nat list)) option" where
  "generate_label_specific_vector_files k f cnt point_labels all_labels = do {
     (number_of_points, s) \<leftarrow> rd_le 4 f;
     (dimension, s) \<leftarrow> rd_le 4 s;
     if number_of_points \<noteq> length point_labels then None
     else do {
       let vector_size = (dimension * k) mod 2 ^ 32;
       ps \<leftarrow> add_points cnt (set all_labels) vector_size 0 point_labels \<lparr>iovecs = \<lambda>_. [], orig_ids = \<lambda>_. []\<rparr>;
       files \<leftarrow> write_labels f cnt dimension ps all_labels;
       Some (files, orig_ids ps)
     }
   }"

definition loadTags :: "bytes option \<Rightarrow> bytes \<Rightarrow> nat list option" where
  "loadTags tags_file base_file =
     (case tags_file of
        None \<Rightarrow> Some []
      | Some f \<Rightarrow> do {
          (tag_data, tag_file_npts, tag_file_ndims) \<leftarrow> load_bin 4 f 0;
          if tag_file_ndims \<noteq> 1 then None
          else do {
            (base_file_npts, _) \<leftarrow> get_bin_metadata base_file 0;
            if base_file_npts \<noteq> tag_file_npts then None else Some (take tag_file_npts tag_data)
          }
        })"

declare write_pieces.simps [simp del]

subsection \<open>Gathering\<close>

lemma gather_append: "gather f (ps @ qs) = do { a \<leftarrow> gather f ps; b \<leftarrow> gather f qs; Some (a @ b) }"
  by (induction f ps rule: gather.induct) (auto split: bind_splits)

text \<open>The chunks of \<open>IOV_MAX\<close> pieces together write the pieces one after the other.\<close>

lemma write_pieces_gather:
  "n \<le> length ps \<Longrightarrow> gather f (take n ps) = Some out \<Longrightarrow> write_pieces f ps n = Some out"
proof (induction f ps n arbitrary: out rule: write_pieces.induct)
  case (1 f ps n)
  show ?case
  proof (cases "IOV_MAX < n")
    case True
    then have "take n ps = take IOV_MAX ps @ take (n - IOV_MAX) (drop IOV_MAX ps)"
      by (metis le_add_diff_inverse less_imp_le take_add)
    then obtain a b where ab: "gather f (take IOV_MAX ps) = Some a" "gather f (take (n - IOV_MAX) (drop IOV_MAX ps)) = Some b" "out = a @ b"
      using "1.prems"(2) by (auto simp: gather_append split: bind_splits)
    moreover have "write_pieces f (drop IOV_MAX ps) (n - IOV_MAX) = Some b"
      using ab "1.prems" True by (intro "1.IH") (auto simp: writev_def)
    ultimately show ?thesis using True "1.prems"(1) by (subst write_pieces.simps) (simp add: writev_def)
  next
    case False
    then show ?thesis using "1.prems" by (subst write_pieces.simps) (simp add: writev_def)
  qed
qed

lemma gather_vectors:
  assumes "\<forall>p \<in> set qs. p < length vs \<and> V * p < 2 ^ 32" "\<forall>v \<in> set vs. length v = V" "f = h @ concat vs @ extra" "length h = 8"
  shows "gather f (map (piece V) qs) = Some (concat (map (\<lambda>p. vs ! p) qs))"
  using assms(1)
proof (induction qs)
  case (Cons p qs)
  have "concat vs = concat (take p vs) @ vs ! p @ concat (drop (Suc p) vs)"
    using Cons.prems by (metis concat.simps(2) concat_append id_take_nth_drop list.set_intros(1))
  moreover have "length (concat (take p vs)) = p * V"
    using assms(2) Cons.prems by (subst length_concat_rows [where w = V]) (auto dest: in_set_takeD)
  moreover have "length (vs ! p) = V" using assms(2) Cons.prems by simp
  ultimately show ?case using Cons assms(3,4) by (simp add: piece_def mult.commute)
qed simp

subsection \<open>The pieces of a label\<close>

lemma add_point_ok:
  assumes "distinct lbls" "\<forall>l \<in> set lbls. l \<in> A \<and> length (iovecs s l) < cnt l"
  shows "\<exists>s'. add_point cnt A V p lbls s = Some s' \<and>
    (\<forall>l. iovecs s' l = iovecs s l @ (if l \<in> set lbls then [piece V p] else []) \<and>
      orig_ids s' l = orig_ids s l @ (if l \<in> set lbls then [p] else []))"
  using assms
proof (induction lbls arbitrary: s)
  case (Cons x lbls)
  define t where "t = s\<lparr>iovecs := (iovecs s)(x := iovecs s x @ [piece V p]), orig_ids := (orig_ids s)(x := orig_ids s x @ [p])\<rparr>"
  have "\<forall>l \<in> set lbls. l \<in> A \<and> length (iovecs t l) < cnt l" using Cons.prems by (auto simp: t_def)
  then obtain s' where s': "add_point cnt A V p lbls t = Some s'"
    "\<forall>l. iovecs s' l = iovecs t l @ (if l \<in> set lbls then [piece V p] else []) \<and>
      orig_ids s' l = orig_ids t l @ (if l \<in> set lbls then [p] else [])"
    using Cons.IH [of t] Cons.prems(1) by auto
  moreover have "add_point cnt A V p (x # lbls) s = Some s'" using s'(1) Cons.prems(2) by (auto simp: t_def)
  ultimately show ?case using Cons.prems(1) by (intro exI [of _ s']) (auto simp: t_def)
qed simp

definition points_of :: "nat \<Rightarrow> string list list \<Rightarrow> string \<Rightarrow> nat list" where
  "points_of p lss l = map fst (filter (\<lambda>(q, ls). l \<in> set ls) (enumerate p lss))"

lemma points_of_simps [simp]:
  "points_of p [] l = []"
  "points_of p (ls # lss) l = (if l \<in> set ls then [p] else []) @ points_of (Suc p) lss l"
  by (simp_all add: points_of_def)

lemma add_points_ok:
  assumes "\<forall>ls \<in> set lss. distinct ls \<and> set ls \<subseteq> A" "\<forall>l \<in> A. length (iovecs s l) + length (points_of p lss l) \<le> cnt l"
  shows "\<exists>s'. add_points cnt A V p lss s = Some s' \<and>
    (\<forall>l. iovecs s' l = iovecs s l @ map (piece V) (points_of p lss l) \<and> orig_ids s' l = orig_ids s l @ points_of p lss l)"
  using assms
proof (induction lss arbitrary: p s)
  case (Cons ls lss)
  have "length (iovecs s l) < cnt l" if "l \<in> set ls" for l
    using Cons.prems(1) bspec [OF Cons.prems(2), of l] that by auto
  then obtain t where t: "add_point cnt A V p ls s = Some t"
    "\<forall>l. iovecs t l = iovecs s l @ (if l \<in> set ls then [piece V p] else []) \<and>
      orig_ids t l = orig_ids s l @ (if l \<in> set ls then [p] else [])"
    using add_point_ok [of ls A s cnt V p] Cons.prems(1) by auto
  have "\<forall>l \<in> A. length (iovecs t l) + length (points_of (Suc p) lss l) \<le> cnt l" using Cons.prems(2) t(2) by auto
  then obtain s' where s': "add_points cnt A V (Suc p) lss t = Some s'"
    "\<forall>l. iovecs s' l = iovecs t l @ map (piece V) (points_of (Suc p) lss l) \<and> orig_ids s' l = orig_ids t l @ points_of (Suc p) lss l"
    using Cons.IH [of t "Suc p"] Cons.prems(1) by auto
  then show ?case using t by (intro exI [of _ s']) auto
qed simp

lemma points_of_less: "q \<in> set (points_of p lss l) \<Longrightarrow> q < p + length lss"
  by (induction lss arbitrary: p) (auto split: if_splits, fastforce)

lemma write_labels_ok:
  assumes "\<forall>l \<in> set lbls. write_pieces f (iovecs s l) (cnt l) = Some (body l)"
  shows "write_labels f cnt d s lbls = Some (map (\<lambda>l. (l, le_put 4 (cnt l) @ le_put 4 d @ body l)) lbls)"
  using assms by (induction lbls) auto

text \<open>The files once it is known what each label gathers.\<close>

lemma label_files_gather:
  assumes "length vs < 2 ^ 32" "d < 2 ^ 32" "d * k < 2 ^ 32" "length lss = length vs"
    and "\<forall>ls \<in> set lss. distinct ls \<and> set ls \<subseteq> set all" "\<forall>l \<in> set all. cnt l = length (points_of 0 lss l)"
    and "f = le_put 4 (length vs) @ le_put 4 d @ concat vs"
    and "\<forall>l \<in> set all. gather f (map (piece (d * k)) (points_of 0 lss l)) = Some (body l)"
  shows "\<exists>orig. generate_label_specific_vector_files k f cnt lss all =
      Some (map (\<lambda>l. (l, le_put 4 (length (points_of 0 lss l)) @ le_put 4 d @ body l)) all, orig) \<and>
    (\<forall>l. orig l = points_of 0 lss l)"
proof -
  let ?s = "\<lparr>iovecs = \<lambda>_. [], orig_ids = \<lambda>_. []\<rparr>"
  obtain ps where ps: "add_points cnt (set all) (d * k) 0 lss ?s = Some ps"
    "\<forall>l. iovecs ps l = map (piece (d * k)) (points_of 0 lss l) \<and> orig_ids ps l = points_of 0 lss l"
    using add_points_ok [of lss "set all" ?s 0 cnt "d * k"] assms(5,6) by auto
  have "write_pieces f (iovecs ps l) (cnt l) = Some (body l)" if "l \<in> set all" for l
    using ps(2) assms(6,8) that by (intro write_pieces_gather) auto
  then have files: "write_labels f cnt d ps all = Some (map (\<lambda>l. (l, le_put 4 (cnt l) @ le_put 4 d @ body l)) all)"
    by (intro write_labels_ok) simp
  have "rd_le 4 f = Some (length vs, le_put 4 d @ concat vs)" "rd_le 4 (le_put 4 d @ concat vs) = Some (d, concat vs)"
    unfolding assms(7) using assms(1,2) by (simp_all add: rd_le_put)
  moreover have "(d * k) mod 2 ^ 32 = d * k" using assms(3) by (rule mod_less)
  ultimately have "generate_label_specific_vector_files k f cnt lss all =
      Some (map (\<lambda>l. (l, le_put 4 (cnt l) @ le_put 4 d @ body l)) all, orig_ids ps)"
    using ps(1) files assms(4) by (simp add: generate_label_specific_vector_files_def Let_def)
  then show ?thesis using ps(2) assms(6) by auto
qed

text \<open> C39. When the counts are right and the offsets fit 32 bits, the file of each label is a vector file of exactly
  the vectors whose points have the label, in order, and the ids returned name these points.\<close>

theorem label_files_hold:
  assumes "length vs < 2 ^ 32" "d < 2 ^ 32" "d * k < 2 ^ 32" "\<forall>v \<in> set vs. length v = d * k"
    and "d * k * (length vs - 1) < 2 ^ 32" "length lss = length vs"
    and "\<forall>ls \<in> set lss. distinct ls \<and> set ls \<subseteq> set all" "\<forall>l \<in> set all. cnt l = length (points_of 0 lss l)"
    and "f = le_put 4 (length vs) @ le_put 4 d @ concat vs"
  shows "\<exists>orig. generate_label_specific_vector_files k f cnt lss all =
      Some (map (\<lambda>l. (l, le_put 4 (length (points_of 0 lss l)) @ le_put 4 d @ concat (map (\<lambda>p. vs ! p) (points_of 0 lss l)))) all, orig) \<and>
    (\<forall>l. orig l = points_of 0 lss l)"
proof (rule label_files_gather [OF assms(1-3,6-9)], rule ballI)
  fix l assume "l \<in> set all"
  have "p < length vs \<and> d * k * p < 2 ^ 32" if "p \<in> set (points_of 0 lss l)" for p
  proof -
    have p: "p < length vs" using points_of_less [OF that] assms(6) by simp
    then have "d * k * p \<le> d * k * (length vs - 1)" by (intro mult_left_mono) auto
    then show ?thesis using p assms(5) by linarith
  qed
  then show "gather f (map (piece (d * k)) (points_of 0 lss l)) = Some (concat (map (\<lambda>p. vs ! p) (points_of 0 lss l)))"
    using assms(4,9) by (intro gather_vectors [where h = "le_put 4 (length vs) @ le_put 4 d" and extra = "[]"]) auto
qed

theorem label_files_hold_witness:
  "\<exists>orig. generate_label_specific_vector_files 1 (le_put 4 2 @ le_put 4 1 @ concat [[7], [9]]) (\<lambda>_. 1) [[''a''], [''b'']] [''a'', ''b''] =
     Some ([(''a'', le_put 4 1 @ le_put 4 1 @ [7]), (''b'', le_put 4 1 @ le_put 4 1 @ [9])], orig)"
proof -
  let ?f = "le_put 4 2 @ le_put 4 1 @ concat [[7], [9]]"
  have "?f = le_put 4 (length [[7 :: u8], [9]]) @ le_put 4 1 @ concat [[7], [9]]" by (simp add: numeral_2_eq_2)
  from label_files_hold [OF _ _ _ _ _ _ _ _ this, of 1 "[[''a''], [''b'']]" "[''a'', ''b'']" "\<lambda>_. 1"]
  show ?thesis by auto
qed

text \<open>The offset of a point is that of the point with the same remainder in the first 4 GB.\<close>

lemma piece_wraps:
  assumes "V dvd 2 ^ 32"
  shows "piece V p = piece V (p mod (2 ^ 32 div V))" "V * (p mod (2 ^ 32 div V)) < 2 ^ 32"
proof -
  obtain m where m: "(2 :: nat) ^ 32 = V * m" using assms by (metis dvdE)
  then have "0 < V" by (cases V) auto
  then have d: "2 ^ 32 div V = m" unfolding m by simp
  have "0 < m" using m by (cases m) auto
  then show "V * (p mod (2 ^ 32 div V)) < 2 ^ 32" unfolding d unfolding m using \<open>0 < V\<close> by simp
  have "(V * p) mod 2 ^ 32 = (V * (p mod m)) mod 2 ^ 32" unfolding m mult_mod_right by (rule mod_mod_trivial [symmetric])
  then show "piece V p = piece V (p mod (2 ^ 32 div V))" unfolding piece_def d by (simp only: simp_thms)
qed

text \<open> C35. The offset of a vector is computed in 32 bits. When the length of a vector divides \<open>2 ^ 32\<close> and
  the counts are right, the files of the labels are written without an error for any number of vectors, but at the
  place of point \<open>p\<close> they hold the vector of point \<open>p mod (2 ^ 32 div length)\<close>, which is an earlier one for every point behind the first
  4 GB, while the ids returned name the point itself.\<close>

theorem label_offset_wraps:
  assumes "length vs < 2 ^ 32" "d < 2 ^ 32" "d * k < 2 ^ 32" "\<forall>v \<in> set vs. length v = d * k" "d * k dvd 2 ^ 32"
    and "length lss = length vs"
    and "\<forall>ls \<in> set lss. distinct ls \<and> set ls \<subseteq> set all" "\<forall>l \<in> set all. cnt l = length (points_of 0 lss l)"
    and "f = le_put 4 (length vs) @ le_put 4 d @ concat vs"
  shows "\<exists>orig. generate_label_specific_vector_files k f cnt lss all =
      Some (map (\<lambda>l. (l, le_put 4 (length (points_of 0 lss l)) @ le_put 4 d @
        concat (map (\<lambda>p. vs ! (p mod (2 ^ 32 div (d * k)))) (points_of 0 lss l)))) all, orig) \<and>
    (\<forall>l. orig l = points_of 0 lss l) \<and> (\<forall>p. 2 ^ 32 \<le> d * k * p \<longrightarrow> p mod (2 ^ 32 div (d * k)) < p)"
proof -
  let ?w = "\<lambda>p. p mod (2 ^ 32 div (d * k))"
  have "gather f (map (piece (d * k)) (points_of 0 lss l)) = Some (concat (map (\<lambda>p. vs ! ?w p) (points_of 0 lss l)))" for l
  proof -
    have "?w p < length vs \<and> d * k * ?w p < 2 ^ 32" if "p \<in> set (points_of 0 lss l)" for p
    proof
      have "p < length vs" using points_of_less [OF that] assms(6) by simp
      then show "?w p < length vs" by (rule le_less_trans [OF mod_less_eq_dividend])
      show "d * k * ?w p < 2 ^ 32" by (rule piece_wraps(2) [OF assms(5)])
    qed
    then have "gather f (map (piece (d * k)) (map ?w (points_of 0 lss l))) = Some (concat (map (\<lambda>p. vs ! p) (map ?w (points_of 0 lss l))))"
      using assms(4,9) by (intro gather_vectors [where h = "le_put 4 (length vs) @ le_put 4 d" and extra = "[]"]) auto
    moreover have "map (piece (d * k)) (map ?w (points_of 0 lss l)) = map (piece (d * k)) (points_of 0 lss l)"
      using piece_wraps(1) [OF assms(5)] by simp
    ultimately show ?thesis by (simp only: map_map comp_def)
  qed
  moreover have "?w p < p" if "2 ^ 32 \<le> d * k * p" for p
  proof (rule ccontr)
    assume "\<not> ?w p < p"
    then have "?w p = p" using mod_less_eq_dividend [of p] by (metis le_neq_implies_less)
    then show False using piece_wraps(2) [OF assms(5), of p] that by simp
  qed
  ultimately show ?thesis
    using label_files_gather [OF assms(1-3,6-9), of "\<lambda>l. concat (map (\<lambda>p. vs ! ?w p) (points_of 0 lss l))"] by blast
qed

text \<open>Three vectors of 2 GB each.\<close>

definition big_rows :: "bytes list" where
  "big_rows = map (replicate (2 ^ 31)) [1, 2, 3]"

lemma big_rows_facts: "length big_rows = 3" "\<forall>v \<in> set big_rows. length v = 2 ^ 31 * 1" "big_rows ! 0 \<noteq> big_rows ! 2"
proof -
  have n: "(2 :: nat) ^ 31 \<noteq> 0" by (rule power_not_zero) simp
  show "length big_rows = 3" unfolding big_rows_def length_map by simp
  show "\<forall>v \<in> set big_rows. length v = 2 ^ 31 * 1" unfolding big_rows_def by (simp only: set_map ball_simps length_replicate mult_1_right simp_thms) simp
  have r: "big_rows ! 0 = replicate (2 ^ 31) 1" "big_rows ! 2 = replicate (2 ^ 31) 3"
    unfolding big_rows_def by (simp_all only: nth_map nth_Cons_0 nth_Cons_numeral list.size numeral_2_eq_2 nth_Cons_Suc list.map)
  have "hd (big_rows ! 0) = 1" "hd (big_rows ! 2) = 3" unfolding r by (rule hd_replicate [OF n])+
  then show "big_rows ! 0 \<noteq> big_rows ! 2" by auto
qed

theorem label_offset_wraps_witness:
  "(\<exists>orig. generate_label_specific_vector_files 1 (le_put 4 3 @ le_put 4 (2 ^ 31) @ concat big_rows) (\<lambda>_. 1)
       [[], [], [''a'']] [''a''] = Some ([(''a'', le_put 4 1 @ le_put 4 (2 ^ 31) @ big_rows ! 0)], orig) \<and> orig ''a'' = [2]) \<and>
   big_rows ! 0 \<noteq> big_rows ! 2"
proof
  show "big_rows ! 0 \<noteq> big_rows ! 2" by (rule big_rows_facts(3))
  have f: "le_put 4 3 @ le_put 4 (2 ^ 31) @ concat big_rows = le_put 4 (length big_rows) @ le_put 4 (2 ^ 31) @ concat big_rows"
    unfolding big_rows_facts(1) ..
  have p: "points_of 0 [[], [], [''a'']] ''a'' = [2]" by simp
  have h: "length big_rows < 2 ^ 32" "(2 :: nat) ^ 31 < 2 ^ 32" "(2 :: nat) ^ 31 * 1 < 2 ^ 32" "(2 :: nat) ^ 31 * 1 dvd 2 ^ 32"
    "length [[], [], [''a'']] = length big_rows" unfolding big_rows_facts(1) by simp_all
  have l: "\<forall>ls \<in> set [[], [], [''a'']]. distinct ls \<and> set ls \<subseteq> set [''a'']"
    "\<forall>l \<in> set [''a'']. (\<lambda>_. 1) l = length (points_of 0 [[], [], [''a'']] l)" by simp_all
  have m: "(2 :: nat) mod (2 ^ 32 div (2 ^ 31 * 1)) = 0" by simp
  obtain orig where "generate_label_specific_vector_files 1 (le_put 4 3 @ le_put 4 (2 ^ 31) @ concat big_rows) (\<lambda>_. 1)
       [[], [], [''a'']] [''a''] = Some (map (\<lambda>l. (l, le_put 4 (length (points_of 0 [[], [], [''a'']] l)) @ le_put 4 (2 ^ 31) @
        concat (map (\<lambda>p. big_rows ! (p mod (2 ^ 32 div (2 ^ 31 * 1)))) (points_of 0 [[], [], [''a'']] l)))) [''a''], orig)"
    "\<forall>l. orig l = points_of 0 [[], [], [''a'']] l"
    using label_offset_wraps [OF h(1-3) big_rows_facts(2) h(4,5) l f] by (elim exE conjE) (rule that)
  then show "\<exists>orig. generate_label_specific_vector_files 1 (le_put 4 3 @ le_put 4 (2 ^ 31) @ concat big_rows) (\<lambda>_. 1)
       [[], [], [''a'']] [''a''] = Some ([(''a'', le_put 4 1 @ le_put 4 (2 ^ 31) @ big_rows ! 0)], orig) \<and> orig ''a'' = [2]"
    unfolding list.map p m concat.simps append_Nil2 list.size by (intro exI [of _ orig]) (simp add: p)
qed

subsection \<open>Tags\<close>

text \<open> A file of tags loads exactly when it has one tag per row and as many as the base file has vectors.\<close>

theorem tags_loaded:
  assumes "n < 2 ^ 31" "w < 2 ^ 32" "length tags = n * w" "\<forall>t \<in> set tags. t < 2 ^ 32" "m < 2 ^ 31" "d < 2 ^ 32"
  shows "loadTags (Some (le_put 4 n @ le_put 4 w @ les_put 4 tags)) (le_put 4 m @ le_put 4 d @ rest) =
    (if w = 1 \<and> n = m then Some tags else None)"
proof -
  have "rd_les 4 (n * w) (les_put 4 tags) = Some (tags, [])" using rd_les_put_end [of tags 4] assms(3,4) by simp
  moreover have "rd_le 4 (le_put 4 n @ le_put 4 w @ les_put 4 tags) = Some (n, le_put 4 w @ les_put 4 tags)"
    "rd_le 4 (le_put 4 w @ les_put 4 tags) = Some (w, les_put 4 tags)"
    using assms(1,2) by (simp_all add: rd_le_put)
  ultimately have "load_bin 4 (le_put 4 n @ le_put 4 w @ les_put 4 tags) 0 = Some (tags, n, w)"
    by (simp add: load_bin_def load_bin_impl_def)
  moreover have "rd_le 4 (le_put 4 m @ le_put 4 d @ rest) = Some (m, le_put 4 d @ rest)" "rd_le 4 (le_put 4 d @ rest) = Some (d, rest)"
    using assms(5,6) by (simp_all add: rd_le_put)
  then have "get_bin_metadata (le_put 4 m @ le_put 4 d @ rest) 0 = Some (m, sign_extend d)"
    using assms(5) by (simp add: get_bin_metadata_def sign_extend_def)
  ultimately show ?thesis using assms(3) by (auto simp: loadTags_def)
qed

theorem tags_loaded_witness:
  "loadTags (Some (le_put 4 2 @ le_put 4 1 @ les_put 4 [5, 6])) (le_put 4 2 @ le_put 4 7 @ []) = Some [5, 6]"
  using tags_loaded [of 2 1 "[5, 6]" 2 7 "[]"] by simp

end
