(* ===== verification/GraphSearch.thy ===== *)
theory GraphSearch
  imports NeighborPool PruneNeighbors
begin

text \<open>
  The greedy search of the in-memory index, \<open>PipeANN/src/index.cpp\<close>: \<open>iterate_to_fixed_point\<close>,
  \<open>search\<close> and \<open>search_with_tags\<close>. \<open>data\<close> is \<open>_data\<close>, one vector per slot, and \<open>graph\<close> is
  \<open>_final_graph\<close>. \<open>InsertIntoPool\<close> is that of \<open>NeighborPool\<close>, whose text PipeANN shares. The distance
  \<open>cmp\<close> and \<open>std::sort\<close> are arguments. \<open>None\<close> is an access outside an array, the \<open>crash\<close> for a wrong id,
  or a loop that does not end. Locks, timers and prefetches have no effect on one thread.
\<close>

definition nbr_lt :: "rat pool_nbr \<Rightarrow> rat pool_nbr \<Rightarrow> bool" where
  "nbr_lt a b \<longleftrightarrow> pdist a < pdist b \<or> (pdist a = pdist b \<and> pid a < pid b)"

interpretation nbr_lt: strict_weak_order nbr_lt
  by unfold_locales (auto simp: nbr_lt_def)

text \<open>The locals of \<open>iterate_to_fixed_point\<close>: \<open>best_L_nodes\<close>, \<open>l\<close>, \<open>inserted_into_pool\<close>,
  \<open>expanded_nodes_info\<close>, \<open>expanded_nodes_ids\<close> and \<open>cmps\<close>.\<close>

record gsearch =
  best :: "rat pool_nbr list"
  bl :: nat
  seen :: "u32 set"
  einfo :: "rat pool_nbr list"
  eids :: "u32 set"
  ncmps :: u32

text \<open>\<open>resize\<close> makes the entries zero; then their distance is set.\<close>

definition unused :: "rat pool_nbr" where
  "unused = mk_pool_nbr 0 float_max False"

definition search_start :: "nat \<Rightarrow> gsearch" where
  "search_start L = \<lparr>best = replicate (L + 1) unused, bl = 0, seen = {},
     einfo = [], eids = {}, ncmps = 0\<rparr>"

fun seed_pool :: "('v \<Rightarrow> 'v \<Rightarrow> rat) \<Rightarrow> 'v list \<Rightarrow> 'v \<Rightarrow> nat \<Rightarrow> u32 list \<Rightarrow> gsearch \<Rightarrow> gsearch option" where
  "seed_pool cmp data q L [] s = Some s"
| "seed_pool cmp data q L (i # ids) s = do {
     v \<leftarrow> vec_at data (unat i);
     s \<leftarrow> (if i \<notin> seen s
          then do {
            b \<leftarrow> vec_put (best s) (bl s) (mk_pool_nbr i (cmp v q) True);
            Some (s\<lparr>best := b, bl := bl s + 1, seen := insert i (seen s)\<rparr>)
          } else Some s);
     if bl s = L then Some s else seed_pool cmp data q L ids s
   }"

text \<open>The neighbors of an expanded node; the second result is \<open>nk\<close>, the first slot that changed.\<close>

fun visit :: "('v \<Rightarrow> 'v \<Rightarrow> rat) \<Rightarrow> 'v list \<Rightarrow> 'v \<Rightarrow> nat \<Rightarrow> u32 list \<Rightarrow> gsearch \<Rightarrow> nat \<Rightarrow> (gsearch \<times> nat) option" where
  "visit cmp data q L [] s nk = Some (s, nk)"
| "visit cmp data q L (i # ns) s nk =
     (if i \<in> seen s then visit cmp data q L ns s nk
      else do {
        v \<leftarrow> vec_at data (unat i);
        last \<leftarrow> vec_at (best s) (bl s - 1);
        let s = s\<lparr>seen := insert i (seen s), ncmps := ncmps s + 1\<rparr>;
        if cmp q v \<ge> pdist last \<and> bl s = L then visit cmp data q L ns s nk
        else do {
          (r, b) \<leftarrow> insert_into_pool (best s) (bl s) (mk_pool_nbr i (cmp q v) True);
          visit cmp data q L ns (s\<lparr>best := b, bl := (if bl s < L then bl s + 1 else bl s)\<rparr>) (if r < nk then r else nk)
        }
      })"

text \<open>One round at slot \<open>k\<close>, and the loop.\<close>

definition fix_step :: "('v \<Rightarrow> 'v \<Rightarrow> rat) \<Rightarrow> 'v list \<Rightarrow> u32 list list \<Rightarrow> 'v \<Rightarrow> nat \<Rightarrow> gsearch \<Rightarrow> nat \<Rightarrow> (gsearch \<times> nat) option" where
  "fix_step cmp data graph q L s k = do {
     x \<leftarrow> vec_at (best s) k;
     if pflag x then do {
       ns \<leftarrow> vec_at graph (unat (pid x));
       if \<exists>n \<in> set ns. length data \<le> unat n then None
       else do {
         (s, nk) \<leftarrow> visit cmp data q L ns
           (s\<lparr>best := (best s)[k := x\<lparr>pflag := False\<rparr>], einfo := einfo s @ [x\<lparr>pflag := False\<rparr>],
              eids := insert (pid x) (eids s)\<rparr>) (bl s);
         Some (s, if nk \<le> k then nk else k + 1)
       }
     } else Some (s, k + 1)
   }"

partial_function (option) fix_loop ::
  "('v \<Rightarrow> 'v \<Rightarrow> rat) \<Rightarrow> 'v list \<Rightarrow> u32 list list \<Rightarrow> 'v \<Rightarrow> nat \<Rightarrow> gsearch \<Rightarrow> nat \<Rightarrow> gsearch option" where
  "fix_loop cmp data graph q L s k =
     (if k < bl s then do {
        (s, k) \<leftarrow> fix_step cmp data graph q L s k;
        fix_loop cmp data graph q L s k
      } else Some s)"

definition iterate_to_fixed_point ::
  "('v \<Rightarrow> 'v \<Rightarrow> rat) \<Rightarrow> (rat pool_nbr list \<Rightarrow> rat pool_nbr list) \<Rightarrow> 'v list \<Rightarrow> u32 list list \<Rightarrow> 'v \<Rightarrow> nat \<Rightarrow>
   u32 list \<Rightarrow> gsearch option" where
  "iterate_to_fixed_point cmp srt data graph q L init_ids = do {
     s \<leftarrow> seed_pool cmp data q L init_ids (search_start L);
     fix_loop cmp data graph q L (s\<lparr>best := srt (take (bl s) (best s)) @ drop (bl s) (best s)\<rparr>) 0
   }"

text \<open>The results of \<open>search\<close>: the loop over all \<open>L + 1\<close> entries.\<close>

fun collect_ids :: "nat \<Rightarrow> nat \<Rightarrow> rat pool_nbr list \<Rightarrow> rat pool_nbr list \<Rightarrow> rat pool_nbr list" where
  "collect_ids mp K [] out = out"
| "collect_ids mp K (x # xs) out =
     (let out = (if unat (pid x) < mp then out @ [x] else out)
      in if length out = K then out else collect_ids mp K xs out)"

text \<open>\<open>prep\<close> copies the query or normalizes it, as the metric asks for.\<close>

definition mem_search ::
  "('v \<Rightarrow> 'v \<Rightarrow> rat) \<Rightarrow> (rat pool_nbr list \<Rightarrow> rat pool_nbr list) \<Rightarrow> ('v \<Rightarrow> 'v) \<Rightarrow> 'v list \<Rightarrow> u32 list list \<Rightarrow> u32 \<Rightarrow>
   'v \<Rightarrow> nat \<Rightarrow> nat \<Rightarrow> (u32 \<times> rat) list option" where
  "mem_search cmp srt prep data graph ep q K L = do {
     s \<leftarrow> iterate_to_fixed_point cmp srt data graph (prep q) L [ep];
     Some (map (\<lambda>x. (pid x, pdist x)) (collect_ids (length data) K (best s) []))
   }"

fun pick_tags :: "(u32 \<rightharpoonup> 't) \<Rightarrow> nat \<Rightarrow> (u32 \<times> rat) list \<Rightarrow> ('t \<times> rat) list \<Rightarrow> ('t \<times> rat) list" where
  "pick_tags loc2tag K [] out = out"
| "pick_tags loc2tag K ((i, d) # xs) out =
     (case loc2tag i of
        None \<Rightarrow> pick_tags loc2tag K xs out
      | Some t \<Rightarrow> if length (out @ [(t, d)]) = K then out @ [(t, d)] else pick_tags loc2tag K xs (out @ [(t, d)]))"

text \<open>The arrays of \<open>search_with_tags\<close> have \<open>L\<close> places; \<open>search\<close> with \<open>L = 0\<close> writes behind them, and
  unwritten places would be read.\<close>

definition search_with_tags ::
  "('v \<Rightarrow> 'v \<Rightarrow> rat) \<Rightarrow> (rat pool_nbr list \<Rightarrow> rat pool_nbr list) \<Rightarrow> ('v \<Rightarrow> 'v) \<Rightarrow> 'v list \<Rightarrow> u32 list list \<Rightarrow> u32 \<Rightarrow>
   (u32 \<rightharpoonup> 't) \<Rightarrow> 'v \<Rightarrow> nat \<Rightarrow> nat \<Rightarrow> ('t \<times> rat) list option" where
  "search_with_tags cmp srt prep data graph ep loc2tag q K L = do {
     xs \<leftarrow> mem_search cmp srt prep data graph ep q L L;
     if length xs = L then Some (pick_tags loc2tag K xs []) else None
   }"

text \<open>\<open>search_with_tags_fast\<close> has the loop of \<open>iterate_to_fixed_point\<close> written out again (without keeping
  the expanded nodes, which are not read here). It looks the tags up with \<open>operator[]\<close>, which puts a
  zero, the argument \<open>z\<close>, into the map for a slot that has no tag.\<close>

fun fetch_tags :: "'t \<Rightarrow> (u32 \<rightharpoonup> 't) \<Rightarrow> rat pool_nbr list \<Rightarrow> ('t \<times> rat) list \<times> (u32 \<rightharpoonup> 't)" where
  "fetch_tags z loc2tag [] = ([], loc2tag)"
| "fetch_tags z loc2tag (x # xs) =
     (let t = (case loc2tag (pid x) of None \<Rightarrow> z | Some t \<Rightarrow> t);
          rest = fetch_tags z (loc2tag(pid x \<mapsto> t)) xs
      in ((t, pdist x) # fst rest, snd rest))"

definition search_with_tags_fast ::
  "('v \<Rightarrow> 'v \<Rightarrow> rat) \<Rightarrow> 'v list \<Rightarrow> u32 list list \<Rightarrow> u32 \<Rightarrow> 't \<Rightarrow> (u32 \<rightharpoonup> 't) \<Rightarrow> 'v \<Rightarrow> nat \<Rightarrow>
   (('t \<times> rat) list \<times> (u32 \<rightharpoonup> 't)) option" where
  "search_with_tags_fast cmp data graph ep z loc2tag q L = do {
     v \<leftarrow> vec_at data (unat ep);
     b \<leftarrow> vec_put (best (search_start L)) 0 (mk_pool_nbr ep (cmp v q) True);
     s \<leftarrow> fix_loop cmp data graph q L ((search_start L)\<lparr>best := b, bl := 1, seen := {ep}\<rparr>) 0;
     Some (fetch_tags z loc2tag (take L (best s)))
   }"

subsection \<open>The list of candidates\<close>

definition listed :: "gsearch \<Rightarrow> rat pool_nbr list" where
  "listed s = take (bl s) (best s)"

abbreviation dst :: "('v \<Rightarrow> 'v \<Rightarrow> rat) \<Rightarrow> 'v list \<Rightarrow> 'v \<Rightarrow> u32 \<Rightarrow> rat" where
  "dst cmp data q i \<equiv> cmp q (data ! unat i)"

text \<open>The list holds the nearest of the nodes that were met: a node that is met and not in it is not
  nearer than any entry, and then the list is full.\<close>

definition pool_inv :: "('v \<Rightarrow> 'v \<Rightarrow> rat) \<Rightarrow> 'v list \<Rightarrow> 'v \<Rightarrow> nat \<Rightarrow> gsearch \<Rightarrow> bool" where
  "pool_inv cmp data q L s \<longleftrightarrow> length (best s) = L + 1 \<and> 1 \<le> bl s \<and> bl s \<le> L \<and>
     sorted_wrt pool_le (listed s) \<and> distinct (map pid (listed s)) \<and> pid ` set (listed s) \<subseteq> seen s \<and>
     (\<forall>i \<in> seen s. unat i < length data) \<and> (\<forall>x \<in> set (listed s). pdist x = dst cmp data q (pid x)) \<and>
     (\<forall>i \<in> seen s - pid ` set (listed s). bl s = L \<and> (\<forall>x \<in> set (listed s). pdist x \<le> dst cmp data q i)) \<and>
     (bl s < L \<longrightarrow> drop (bl s) (best s) = replicate (L + 1 - bl s) unused)"

lemma pool_invD:
  assumes "pool_inv cmp data q L s"
  shows "length (best s) = L + 1" "1 \<le> bl s" "bl s \<le> L" "sorted_wrt pool_le (listed s)" "distinct (map pid (listed s))"
    "pid ` set (listed s) \<subseteq> seen s" "\<forall>i \<in> seen s. unat i < length data"
    "\<forall>x \<in> set (listed s). pdist x = dst cmp data q (pid x)"
    "\<forall>i \<in> seen s - pid ` set (listed s). bl s = L \<and> (\<forall>x \<in> set (listed s). pdist x \<le> dst cmp data q i)"
    "bl s < L \<longrightarrow> drop (bl s) (best s) = replicate (L + 1 - bl s) unused"
  using assms unfolding pool_inv_def by blast+

lemma pool_invI:
  assumes "length (best s) = L + 1" "1 \<le> bl s" "bl s \<le> L" "sorted_wrt pool_le (listed s)" "distinct (map pid (listed s))"
    "pid ` set (listed s) \<subseteq> seen s" "\<forall>i \<in> seen s. unat i < length data"
    "\<forall>x \<in> set (listed s). pdist x = dst cmp data q (pid x)"
    "\<forall>i \<in> seen s - pid ` set (listed s). bl s = L \<and> (\<forall>x \<in> set (listed s). pdist x \<le> dst cmp data q i)"
    "bl s < L \<longrightarrow> drop (bl s) (best s) = replicate (L + 1 - bl s) unused"
  shows "pool_inv cmp data q L s"
  unfolding pool_inv_def using assms by blast

lemma length_pool: "pool_inv cmp data q L s \<Longrightarrow> length (listed s) = bl s"
  using pool_invD(1,3) [of cmp data q L s] unfolding listed_def by simp

lemma pool_inv_sorted: "pool_inv cmp data q L s \<Longrightarrow> pool_sorted (best s) (bl s)"
  using pool_invD(1-4) [of cmp data q L s] unfolding pool_sorted_def listed_def by simp

lemma pool_last_ge:
  assumes "pool_inv cmp data q L s" "x \<in> set (listed s)"
  shows "pdist x \<le> pdist (best s ! (bl s - 1))"
proof -
  obtain i where "i < bl s" "x = best s ! i"
    using assms by (auto simp: listed_def set_take_nth)
  then show ?thesis using pool_sorted_nth [OF pool_inv_sorted [OF assms(1)], of i "bl s - 1"] by simp
qed

text \<open>A node that is not near enough is only marked as met.\<close>

lemma pool_inv_skip:
  assumes inv: "pool_inv cmp data q L s" and i: "i \<notin> seen s" "unat i < length data"
    and far: "dst cmp data q i \<ge> pdist (best s ! (bl s - 1))" "bl s = L"
  shows "pool_inv cmp data q L (s\<lparr>seen := insert i (seen s), ncmps := c\<rparr>)"
proof -
  have "pdist x \<le> dst cmp data q i" if "x \<in> set (listed s)" for x
    using pool_last_ge [OF inv that] far(1) by linarith
  then have "\<forall>j \<in> insert i (seen s) - pid ` set (listed s). bl s = L \<and> (\<forall>x \<in> set (listed s). pdist x \<le> dst cmp data q j)"
    using pool_invD(9) [OF inv] far(2) by blast
  moreover have "listed (s\<lparr>seen := insert i (seen s), ncmps := c\<rparr>) = listed s" by (simp add: listed_def)
  moreover note pool_invD(1-8,10) [OF inv]
  ultimately show ?thesis
    using i by (intro pool_invI) (simp_all, blast+)
qed

lemma pool_inv_insert:
  assumes inv: "pool_inv cmp data q L s" and i: "i \<notin> seen s" "unat i < length data"
    and near: "dst cmp data q i < pdist (best s ! (bl s - 1)) \<or> bl s < L"
  shows "\<exists>r b. insert_into_pool (best s) (bl s) (mk_pool_nbr i (dst cmp data q i) True) = Some (r, b) \<and>
    take r b = take r (best s) \<and> r \<le> bl s \<and>
    (let s' = s\<lparr>seen := insert i (seen s), ncmps := c, best := b, bl := (if bl s < L then bl s + 1 else bl s)\<rparr> in
     pool_inv cmp data q L s' \<and> set (listed s') \<subseteq> insert (mk_pool_nbr i (dst cmp data q i) True) (set (listed s)))"
proof -
  let ?n = "mk_pool_nbr i (dst cmp data q i) True"
  define W where "W p = take p (listed s) @ ?n # drop p (listed s)" for p
  have new: "pid ?n \<notin> pid ` set (take (bl s) (best s))"
    using pool_invD(6) [OF inv] i(1) unfolding listed_def by (auto simp: mk_pool_nbr_def)
  obtain r b where r: "insert_into_pool (best s) (bl s) ?n = Some (r, b)" "r \<le> bl s" "length b = length (best s)"
    "take (Suc (bl s)) b = W r" "sorted_wrt pool_le (W r)" "drop (Suc (bl s)) b = drop (Suc (bl s)) (best s)"
    using insert_into_pool_placed [OF pool_inv_sorted [OF inv] new] by (auto simp: W_def listed_def)
  have len: "length (best s) = L + 1" "1 \<le> bl s" "bl s \<le> L" "length (listed s) = bl s"
    using pool_invD(1-3) [OF inv] length_pool [OF inv] by simp_all
  have "take r b = take r (take (Suc (bl s)) b)" using r(2) by simp
  also have "\<dots> = take r (best s)" unfolding r(4) W_def using r(2) len by (simp add: listed_def)
  finally have front: "take r b = take r (best s)" .
  have mW: "mset (W r) = add_mset ?n (mset (listed s))"
  proof -
    have "mset (listed s) = mset (take r (listed s)) + mset (drop r (listed s))" by (metis append_take_drop_id mset_append)
    then show ?thesis by (simp add: W_def)
  qed
  then have sW: "set (W r) = insert ?n (set (listed s))" by (metis set_mset_add_mset_insert set_mset_mset)
  have dW: "distinct (map pid (W r))"
  proof -
    have "distinct (i # map pid (listed s))" using pool_invD(5,6) [OF inv] i(1) by auto
    moreover have "mset (map pid (W r)) = mset (i # map pid (listed s))" using mW by (simp add: mk_pool_nbr_def)
    ultimately show ?thesis using mset_eq_imp_distinct_iff by blast
  qed
  have pdn: "pdist ?n = dst cmp data q i" "pid ?n = i" by (simp_all add: mk_pool_nbr_def)
  have inv': "set (listed s) \<subseteq> {x. pdist x = dst cmp data q (pid x)}" "pid ` set (listed s) \<subseteq> seen s" "\<forall>i \<in> seen s. unat i < length data"
    "\<forall>j \<in> seen s - pid ` set (listed s). bl s = L \<and> (\<forall>x \<in> set (listed s). pdist x \<le> dst cmp data q j)"
    using pool_invD [OF inv] by blast+
  define s' where "s' = s\<lparr>seen := insert i (seen s), ncmps := c, best := b, bl := (if bl s < L then bl s + 1 else bl s)\<rparr>"
  have sn: "seen s' = insert i (seen s)" by (simp add: s'_def)
  have "pool_inv cmp data q L s' \<and> set (listed s') \<subseteq> insert ?n (set (listed s))"
  proof (cases "bl s < L")
    case True
    then have p: "listed s' = W r" using r(4) by (simp add: listed_def s'_def)
    have "seen s' - pid ` set (listed s') = {}"
      using inv'(4) True unfolding p sW by (auto simp: s'_def pdn)
    moreover have "\<forall>x \<in> set (listed s'). pdist x = dst cmp data q (pid x)" "pid ` set (listed s') \<subseteq> seen s'"
      using inv'(1,2) unfolding p sW by (auto simp: s'_def pdn)
    moreover have "length (best s') = L + 1" "bl s' = bl s + 1" "\<forall>j \<in> seen s'. unat j < length data"
      using len True r(3) inv'(3) i(2) by (simp_all add: s'_def)
    moreover have "drop (Suc (bl s)) (best s) = drop 1 (drop (bl s) (best s))" by simp
    then have "drop (bl s') (best s') = replicate (L + 1 - bl s') unused"
      using pool_invD(10) [OF inv] True r(6) by (simp add: s'_def)
    ultimately have "pool_inv cmp data q L s'"
      using True r(5) [folded p] dW [folded p] by (intro pool_invI) (assumption | linarith | blast)+
    then show ?thesis unfolding p sW by blast
  next
    case False
    then have L: "bl s = L" using len by simp
    have lenW: "length (W r) = L + 1" using r(3) len L by (metis length_take min_absorb2 r(4) Suc_eq_plus1 le_refl)
    have "listed s' = take L (take (Suc L) b)" using L by (simp add: listed_def s'_def)
    then have p: "listed s' = take L (W r)" unfolding r(4) [unfolded L] .
    define z where "z = W r ! L"
    have Wz: "W r = listed s' @ [z]" unfolding p z_def using lenW by (metis Suc_eq_plus1 lessI take_Suc_conv_app_nth take_all_iff order_refl)
    have sorted': "sorted_wrt pool_le (listed s')" "\<forall>x \<in> set (listed s'). pdist x \<le> pdist z" "distinct (map pid (listed s'))"
      using r(5) dW unfolding Wz by (auto simp: sorted_wrt_append)
    have sub: "set (listed s') \<subseteq> insert ?n (set (listed s))" "z \<in> insert ?n (set (listed s))"
      using sW unfolding Wz by auto
    have near: "dst cmp data q i < pdist (best s ! (bl s - 1))" using near False by simp
    have "bl s - 1 < bl s" "bl s - 1 < length (best s)" using len by simp_all
    then have lastp: "best s ! (bl s - 1) \<in> set (listed s)" unfolding listed_def set_take_nth by blast
    have "bl s' = L \<and> (\<forall>x \<in> set (listed s'). pdist x \<le> dst cmp data q j)" if j: "j \<in> seen s' - pid ` set (listed s')" for j
    proof -
      have "pdist x \<le> dst cmp data q j" if x: "x \<in> set (listed s')" for x
      proof (cases "j = pid z")
        case True
        have "pdist z = dst cmp data q (pid z)" using sub(2) inv'(1) pdn by auto
        then show ?thesis using sorted'(2) x True by simp
      next
        case False
        have "j \<notin> pid ` insert ?n (set (listed s))" using j False sW unfolding Wz by auto
        then have "j \<in> seen s - pid ` set (listed s)" using j by (auto simp: s'_def pdn)
        then have all: "\<forall>x \<in> set (listed s). pdist x \<le> dst cmp data q j" using inv'(4) by blast
        then have "pdist ?n \<le> dst cmp data q j" using near lastp unfolding pdn by force
        then show ?thesis using all sub(1) x by blast
      qed
      then show ?thesis using L by (simp add: s'_def)
    qed
    moreover have "\<forall>x \<in> set (listed s'). pdist x = dst cmp data q (pid x)" "pid ` set (listed s') \<subseteq> seen s'"
      using sub(1) inv'(1,2) pdn unfolding sn by fastforce+
    moreover have "length (best s') = L + 1" "bl s' = L" "\<forall>j \<in> seen s'. unat j < length data"
      using len L r(3) inv'(3) i(2) by (simp_all add: s'_def)
    ultimately have "pool_inv cmp data q L s'"
      using len(2,3) L sorted'(1,3) by (intro pool_invI) (assumption | linarith | blast)+
    then show ?thesis using sub(1) by blast
  qed
  then show ?thesis using r(1,2) front unfolding s'_def Let_def by blast
qed

text \<open>All neighbors of a node are met; the slots before the returned one stay.\<close>

lemma visit_inv:
  assumes "pool_inv cmp data q L s" "\<forall>n \<in> set ns. unat n < length data" "nk \<le> bl s"
  shows "\<exists>s' nk'. visit cmp data q L ns s nk = Some (s', nk') \<and> pool_inv cmp data q L s' \<and> seen s' = seen s \<union> set ns \<and>
    einfo s' = einfo s \<and> eids s' = eids s \<and> nk' \<le> nk \<and> bl s \<le> bl s' \<and> take nk' (best s') = take nk' (best s) \<and>
    (\<forall>x \<in> set (listed s'). x \<in> set (listed s) \<or> pflag x \<and> pid x \<in> set ns - seen s)"
  using assms
proof (induction ns arbitrary: s nk)
  case (Cons i ns)
  have ns: "\<forall>n \<in> set ns. unat n < length data" "unat i < length data" using Cons.prems(2) by simp_all
  show ?case
  proof (cases "i \<in> seen s")
    case True
    then show ?thesis using Cons.IH [OF Cons.prems(1) ns(1) Cons.prems(3)] by (auto simp: insert_absorb)
  next
    case False
    let ?s = "s\<lparr>seen := insert i (seen s), ncmps := ncmps s + 1\<rparr>"
    have reads: "vec_at data (unat i) = Some (data ! unat i)" "vec_at (best s) (bl s - 1) = Some (best s ! (bl s - 1))"
      using ns(2) pool_invD(1-3) [OF Cons.prems(1)] by (simp_all add: vec_at_def)
    show ?thesis
    proof (cases "dst cmp data q i \<ge> pdist (best s ! (bl s - 1)) \<and> bl s = L")
      case far: True
      have p: "listed ?s = listed s" by (simp add: listed_def)
      have inv: "pool_inv cmp data q L ?s" using pool_inv_skip [OF Cons.prems(1) False ns(2)] far by blast
      have "visit cmp data q L (i # ns) s nk = visit cmp data q L ns ?s nk" using False reads far by (auto simp: Let_def)
      then show ?thesis
        using Cons.IH [OF inv ns(1), of nk] Cons.prems(3) False unfolding p by (simp add: insert_absorb) blast
    next
      case near: False
      then have "dst cmp data q i < pdist (best s ! (bl s - 1)) \<or> bl s < L"
        using pool_invD(3) [OF Cons.prems(1)] by linarith
      from pool_inv_insert [OF Cons.prems(1) False ns(2) this, of "ncmps s + 1"] obtain r b where
        r: "insert_into_pool (best s) (bl s) (mk_pool_nbr i (dst cmp data q i) True) = Some (r, b)"
        "take r b = take r (best s)" "r \<le> bl s" and
        inv: "pool_inv cmp data q L (?s\<lparr>best := b, bl := (if bl s < L then bl s + 1 else bl s)\<rparr>)"
        "set (listed (?s\<lparr>best := b, bl := (if bl s < L then bl s + 1 else bl s)\<rparr>)) \<subseteq>
          insert (mk_pool_nbr i (dst cmp data q i) True) (set (listed s))"
        unfolding Let_def by blast
      define t where "t = ?s\<lparr>best := b, bl := (if bl s < L then bl s + 1 else bl s)\<rparr>"
      have t: "seen t = insert i (seen s)" "einfo t = einfo s" "eids t = eids s" "best t = b" "bl s \<le> bl t"
        by (simp_all add: t_def)
      have "visit cmp data q L (i # ns) s nk = visit cmp data q L ns t (if r < nk then r else nk)"
        using False reads near r(1) by (auto simp: Let_def t_def)
      moreover have "(if r < nk then r else nk) \<le> bl t" using r(3) t(5) Cons.prems(3) by simp
      from Cons.IH [OF inv(1) [folded t_def] ns(1) this] obtain s' nk' where
        s': "visit cmp data q L ns t (if r < nk then r else nk) = Some (s', nk')" "pool_inv cmp data q L s'"
        "seen s' = seen t \<union> set ns" "einfo s' = einfo t" "eids s' = eids t" "nk' \<le> (if r < nk then r else nk)" "bl t \<le> bl s'"
        "take nk' (best s') = take nk' (best t)"
        "\<forall>x \<in> set (listed s'). x \<in> set (listed t) \<or> pflag x \<and> pid x \<in> set ns - seen t" by blast
      moreover have "take nk' b = take nk' (best s)"
        using r(2) s'(6) by (metis (full_types) le_trans linorder_le_cases not_le take_all_iff take_take min_absorb1 if_splits(1))
      moreover have "\<forall>x \<in> set (listed t). x \<in> set (listed s) \<or> pflag x \<and> pid x = i"
        using inv(2) [folded t_def] by (auto simp: mk_pool_nbr_def)
      ultimately show ?thesis
        using t False by (intro exI [of _ s'] exI [of _ nk']) (auto split: if_splits)
    qed
  qed
qed simp

subsection \<open>The walk over the graph\<close>

definition edges :: "u32 list list \<Rightarrow> (u32 \<times> u32) set" where
  "edges graph = {(a, b). unat a < length graph \<and> b \<in> set (graph ! unat a)}"

definition reachable :: "u32 list list \<Rightarrow> u32 \<Rightarrow> u32 set" where
  "reachable graph a = (edges graph)\<^sup>* `` {a}"

definition graph_ok :: "'v list \<Rightarrow> u32 list list \<Rightarrow> bool" where
  "graph_ok data graph \<longleftrightarrow> length graph = length data \<and> (\<forall>ns \<in> set graph. \<forall>n \<in> set ns. unat n < length data)"

definition walk_inv :: "('v \<Rightarrow> 'v \<Rightarrow> rat) \<Rightarrow> 'v list \<Rightarrow> u32 list list \<Rightarrow> 'v \<Rightarrow> nat \<Rightarrow> u32 \<Rightarrow> gsearch \<Rightarrow> nat \<Rightarrow> bool" where
  "walk_inv cmp data graph q L ep s k \<longleftrightarrow> pool_inv cmp data q L s \<and>
     (\<forall>x \<in> set (listed s). pflag x \<longleftrightarrow> pid x \<notin> eids s) \<and> eids s = pid ` set (einfo s) \<and> distinct (map pid (einfo s)) \<and>
     (\<forall>x \<in> set (einfo s). pdist x = dst cmp data q (pid x)) \<and> eids s \<subseteq> seen s \<and>
     (\<forall>n \<in> eids s. set (graph ! unat n) \<subseteq> seen s) \<and> ep \<in> seen s \<and> seen s \<subseteq> reachable graph ep \<and>
     (\<forall>i < k. \<not> pflag (best s ! i)) \<and> k \<le> bl s \<and> (if eids s = {} then seen s = {ep} else ep \<in> eids s)"

lemma walk_invD:
  assumes "walk_inv cmp data graph q L ep s k"
  shows "pool_inv cmp data q L s" "\<forall>x \<in> set (listed s). pflag x \<longleftrightarrow> pid x \<notin> eids s" "eids s = pid ` set (einfo s)"
    "distinct (map pid (einfo s))" "\<forall>x \<in> set (einfo s). pdist x = dst cmp data q (pid x)" "eids s \<subseteq> seen s"
    "\<forall>n \<in> eids s. set (graph ! unat n) \<subseteq> seen s" "ep \<in> seen s" "seen s \<subseteq> reachable graph ep"
    "\<forall>i < k. \<not> pflag (best s ! i)" "k \<le> bl s" "if eids s = {} then seen s = {ep} else ep \<in> eids s"
  using assms unfolding walk_inv_def by blast+

lemma walk_invI:
  assumes "pool_inv cmp data q L s" "\<forall>x \<in> set (listed s). pflag x \<longleftrightarrow> pid x \<notin> eids s" "eids s = pid ` set (einfo s)"
    "distinct (map pid (einfo s))" "\<forall>x \<in> set (einfo s). pdist x = dst cmp data q (pid x)" "eids s \<subseteq> seen s"
    "\<forall>n \<in> eids s. set (graph ! unat n) \<subseteq> seen s" "ep \<in> seen s" "seen s \<subseteq> reachable graph ep"
    "\<forall>i < k. \<not> pflag (best s ! i)" "k \<le> bl s" "if eids s = {} then seen s = {ep} else ep \<in> eids s"
  shows "walk_inv cmp data graph q L ep s k"
  unfolding walk_inv_def using assms by blast

lemma reachable_step:
  "a \<in> reachable graph ep \<Longrightarrow> unat a < length graph \<Longrightarrow> b \<in> set (graph ! unat a) \<Longrightarrow> b \<in> reachable graph ep"
  by (auto simp: reachable_def edges_def intro: rtrancl_into_rtrancl)

lemma pool_inv_flag:
  assumes "pool_inv cmp data q L s" "k < bl s" "best s1 = (best s)[k := (best s ! k)\<lparr>pflag := f\<rparr>]" "bl s1 = bl s" "seen s1 = seen s"
  shows "pool_inv cmp data q L s1" "listed s1 = (listed s)[k := (best s ! k)\<lparr>pflag := f\<rparr>]"
proof -
  have p: "listed s1 = (listed s)[k := (best s ! k)\<lparr>pflag := f\<rparr>]"
    using assms(3,4) by (simp add: listed_def take_update_swap)
  have k: "listed s ! k = best s ! k" "k < length (listed s)" using assms(2) length_pool [OF assms(1)] by (simp_all add: listed_def)
  have "map pdist (listed s1) = map pdist (listed s)" "map pid (listed s1) = map pid (listed s)"
    using k unfolding p by (simp_all add: map_update list_update_same_conv)
  note m = this
  have ids: "pid ` set (listed s1) = pid ` set (listed s)" using m(2) by (metis set_map)
  have same: "\<exists>y \<in> set (listed s). pdist x = pdist y \<and> pid x = pid y" if "x \<in> set (listed s1)" for x
  proof -
    have "x \<in> insert ((best s ! k)\<lparr>pflag := f\<rparr>) (set (listed s))" using that set_update_subset_insert unfolding p by fast
    moreover have "best s ! k \<in> set (listed s)" using k by (metis nth_mem)
    ultimately show ?thesis by force
  qed
  note inv = pool_invD [OF assms(1)]
  show "pool_inv cmp data q L s1"
  proof (rule pool_invI)
    have eq: "sorted_wrt pool_le xs \<longleftrightarrow> sorted_wrt (\<le>) (map pdist xs)" for xs :: "rat pool_nbr list" by (simp add: sorted_wrt_map)
    show "sorted_wrt pool_le (listed s1)" using inv(4) unfolding eq m(1) .
    show "length (best s1) = L + 1" using inv(1) assms(3) by simp
    show "distinct (map pid (listed s1))" using inv(5) m(2) by simp
    show "pid ` set (listed s1) \<subseteq> seen s1" using inv(6) ids assms(5) by simp
    show "\<forall>x \<in> set (listed s1). pdist x = dst cmp data q (pid x)"
    proof
      fix x assume "x \<in> set (listed s1)"
      from same [OF this] obtain y where "y \<in> set (listed s)" "pdist x = pdist y" "pid x = pid y" by blast
      then show "pdist x = dst cmp data q (pid x)" using bspec [OF inv(8), of y] by simp
    qed
    have "\<forall>x \<in> set (listed s1). pdist x \<le> dst cmp data q i" if "i \<in> seen s - pid ` set (listed s)" for i
      using same bspec [OF inv(9) that] by force
    then show "\<forall>i \<in> seen s1 - pid ` set (listed s1). bl s1 = L \<and> (\<forall>x \<in> set (listed s1). pdist x \<le> dst cmp data q i)"
      using inv(9) unfolding ids assms(4,5) by blast
    show "bl s1 < L \<longrightarrow> drop (bl s1) (best s1) = replicate (L + 1 - bl s1) unused"
      using inv(10) assms(2-4) by simp
  qed (use inv(2,3,7) assms(4,5) in simp_all)
  show "listed s1 = (listed s)[k := (best s ! k)\<lparr>pflag := f\<rparr>]" by (rule p)
qed

text \<open>A round keeps the invariant, and either expands a node or moves on.\<close>

lemma fix_step_inv:
  assumes ok: "graph_ok data graph" and inv: "walk_inv cmp data graph q L ep s k" and k: "k < bl s"
  shows "\<exists>s' k'. fix_step cmp data graph q L s k = Some (s', k') \<and> walk_inv cmp data graph q L ep s' k' \<and>
    (eids s \<subset> eids s' \<or> s' = s \<and> k' = k + 1)"
proof -
  note w = walk_invD [OF inv]
  let ?x = "best s ! k"
  have at: "vec_at (best s) k = Some ?x" "k < length (listed s)" "listed s ! k = ?x"
    using k pool_invD(1,3) [OF w(1)] length_pool [OF w(1)] by (simp_all add: vec_at_def listed_def)
  then have xin: "?x \<in> set (listed s)" by (metis nth_mem)
  show ?thesis
  proof (cases "pflag ?x")
    case False
    then have "\<forall>i < k + 1. \<not> pflag (best s ! i)" using w(10) by (metis less_Suc_eq Suc_eq_plus1)
    then have "walk_inv cmp data graph q L ep s (k + 1)" using w k by (intro walk_invI) simp_all
    then show ?thesis using False at by (simp add: fix_step_def)
  next
    case True
    define ns where "ns = graph ! unat (pid ?x)"
    have xs: "pid ?x \<in> seen s" "pid ?x \<notin> eids s" using xin w(2) pool_invD(6) [OF w(1)] True by auto
    then have xg: "unat (pid ?x) < length graph" using pool_invD(7) [OF w(1)] ok by (simp add: graph_ok_def)
    then have ns: "\<forall>n \<in> set ns. unat n < length data" "vec_at graph (unat (pid ?x)) = Some ns"
      using ok by (auto simp: graph_ok_def ns_def vec_at_def)
    define s1 where "s1 = s\<lparr>best := (best s)[k := ?x\<lparr>pflag := False\<rparr>], einfo := einfo s @ [?x\<lparr>pflag := False\<rparr>],
      eids := insert (pid ?x) (eids s)\<rparr>"
    have s1: "best s1 = (best s)[k := ?x\<lparr>pflag := False\<rparr>]" "bl s1 = bl s" "seen s1 = seen s"
      "einfo s1 = einfo s @ [?x\<lparr>pflag := False\<rparr>]" "eids s1 = insert (pid ?x) (eids s)" by (simp_all add: s1_def)
    note flag = pool_inv_flag [OF w(1) k s1(1-3)]
    obtain s' nk where v: "visit cmp data q L ns s1 (bl s) = Some (s', nk)" "pool_inv cmp data q L s'" "seen s' = seen s \<union> set ns"
      "einfo s' = einfo s1" "eids s' = eids s1" "nk \<le> bl s" "bl s \<le> bl s'" "take nk (best s') = take nk (best s1)"
      "\<forall>x \<in> set (listed s'). x \<in> set (listed s1) \<or> pflag x \<and> pid x \<in> set ns - seen s"
      using visit_inv [OF flag(1) ns(1), of "bl s"] unfolding s1(2,3) by blast
    define k' where "k' = (if nk \<le> k then nk else k + 1)"
    have step: "fix_step cmp data graph q L s k = Some (s', k')"
      using at(1) True ns v(1) by (auto simp: fix_step_def s1_def k'_def not_le)
    have flags: "pflag y \<longleftrightarrow> pid y \<notin> eids s'" if y: "y \<in> set (listed s')" for y
    proof (cases "y \<in> set (listed s1)")
      case True
      then obtain j where j: "j < length (listed s)" "y = (listed s)[k := ?x\<lparr>pflag := False\<rparr>] ! j"
        unfolding flag(2) by (metis in_set_conv_nth length_list_update)
      show ?thesis
      proof (cases "j = k")
        case True
        then show ?thesis using j v(5) s1(5) by simp
      next
        case False
        then have y: "y = listed s ! j" using j by simp
        then have "pid y \<noteq> pid ?x"
          using pool_invD(5) [OF w(1)] False j(1) at(2,3) by (metis distinct_conv_nth length_map nth_map)
        then show ?thesis using w(2) y j(1) v(5) s1(5) by simp
      qed
    next
      case False
      then have "pflag y" "pid y \<notin> seen s" using v(9) y by blast+
      then show ?thesis using v(5) s1(5) w(6) xs(1) by auto
    qed
    have front: "\<not> pflag (best s' ! i)" if i: "i < k'" for i
    proof -
      have n: "i < nk" "i \<le> k" using i unfolding k'_def by (auto split: if_splits)
      then have "best s' ! i = best s1 ! i" using v(8) by (metis nth_take)
      then show ?thesis using n(2) w(10) s1(1) at(1) by (cases "i = k") (auto simp: vec_at_def split: if_splits)
    qed
    have "walk_inv cmp data graph q L ep s' k'"
    proof (rule walk_invI)
      show "\<forall>x \<in> set (listed s'). pflag x \<longleftrightarrow> pid x \<notin> eids s'" using flags by blast
      show "eids s' = pid ` set (einfo s')" using v(4,5) s1(4,5) w(3) by simp
      show "distinct (map pid (einfo s'))" using v(4) s1(4) w(3,4) xs(2) by auto
      show "\<forall>x \<in> set (einfo s'). pdist x = dst cmp data q (pid x)"
        using v(4) s1(4) w(5) xin pool_invD(8) [OF w(1)] by auto
      show "eids s' \<subseteq> seen s'" using v(3,5) s1(5) w(6) xs(1) by auto
      show "\<forall>n \<in> eids s'. set (graph ! unat n) \<subseteq> seen s'" using v(3,5) s1(5) w(7) by (auto simp: ns_def)
      show "ep \<in> seen s'" using v(3) w(8) by simp
      show "seen s' \<subseteq> reachable graph ep"
        using v(3) w(9) reachable_step [OF _ xg] xs(1) by (auto simp: ns_def)
      have "ep \<in> eids s'" using w(12) v(5) s1(5) xs(1) by (auto split: if_splits)
      then show "if eids s' = {} then seen s' = {ep} else ep \<in> eids s'" by auto
      show "k' \<le> bl s'" using v(6,7) k unfolding k'_def by auto
    qed (use v(2) front in blast)+
    moreover have "eids s \<subset> eids s'" using v(5) s1(5) xs(2) by blast
    ultimately show ?thesis using step by blast
  qed
qed

text \<open>So the loop ends.\<close>

lemma fix_step_less:
  assumes "walk_inv cmp data graph q L ep s' k'" "eids s \<subset> eids s' \<or> s' = s \<and> k' = k + 1" "k < bl s"
  shows "card (- eids s') * (L + 1) + (bl s' - k') < card (- eids s) * (L + 1) + (bl s - k)"
  using assms(2)
proof
  assume "eids s \<subset> eids s'"
  then have "card (- eids s') < card (- eids s)" by (intro psubset_card_mono) auto
  then have "card (- eids s') * (L + 1) + (L + 1) \<le> card (- eids s) * (L + 1)"
    by (metis Suc_leI add.commute mult_Suc mult_le_mono1)
  then show ?thesis using pool_invD(3) [OF walk_invD(1) [OF assms(1)]] by linarith
qed (use assms(3) in auto)

lemma fix_loop_ends:
  assumes "graph_ok data graph" "walk_inv cmp data graph q L ep s k"
  shows "\<exists>s'. fix_loop cmp data graph q L s k = Some s' \<and> walk_inv cmp data graph q L ep s' (bl s')"
  using assms(2)
proof (induction "card (- eids s) * (L + 1) + (bl s - k)" arbitrary: s k rule: less_induct)
  case less
  show ?case
  proof (cases "k < bl s")
    case True
    obtain s' k' where st: "fix_step cmp data graph q L s k = Some (s', k')" "walk_inv cmp data graph q L ep s' k'"
      "eids s \<subset> eids s' \<or> s' = s \<and> k' = k + 1" using fix_step_inv [OF assms(1) less.prems True] by blast
    from less.hyps [OF fix_step_less [OF st(2,3) True] st(2)] obtain t where
      "fix_loop cmp data graph q L s' k' = Some t" "walk_inv cmp data graph q L ep t (bl t)" by blast
    moreover have "fix_loop cmp data graph q L s k = fix_loop cmp data graph q L s' k'"
      using True st(1) by (subst fix_loop.simps) simp
    ultimately show ?thesis by metis
  next
    case False
    then have "k = bl s" using walk_invD(11) [OF less.prems] by simp
    then show ?thesis using less.prems by (subst fix_loop.simps) simp
  qed
qed

lemma iterate_ends:
  assumes "graph_ok data graph" "unat ep < length data" "1 \<le> L" "std_sort srt nbr_lt" "\<forall>a b. cmp a b = cmp b a"
  shows "\<exists>s. iterate_to_fixed_point cmp srt data graph q L [ep] = Some s \<and> walk_inv cmp data graph q L ep s (bl s)"
proof -
  let ?x = "mk_pool_nbr ep (dst cmp data q ep) True"
  define s0 where "s0 = (search_start L)\<lparr>best := ?x # replicate L unused, bl := 1, seen := {ep}\<rparr>"
  have srt: "srt [?x] = [?x]" using std_sort.srt_perm [OF assms(4), of "[?x]"] by simp
  have seed: "seed_pool cmp data q L [ep] (search_start L) = Some s0"
    using assms(2,3) assms(5) [rule_format, of q] by (simp add: search_start_def s0_def vec_at_def vec_put_def)
  have p: "listed s0 = [?x]" by (simp add: listed_def s0_def)
  have "srt (take (bl s0) (best s0)) @ drop (bl s0) (best s0) = best s0" using srt by (simp add: s0_def)
  then have "iterate_to_fixed_point cmp srt data graph q L [ep] = fix_loop cmp data graph q L s0 0"
    unfolding iterate_to_fixed_point_def seed by simp
  moreover have "pool_inv cmp data q L s0"
    using assms(2,3) by (intro pool_invI) (simp_all add: p, simp_all add: s0_def mk_pool_nbr_def)
  then have "walk_inv cmp data graph q L ep s0 0"
    by (intro walk_invI) (simp_all add: p, simp_all add: s0_def mk_pool_nbr_def search_start_def reachable_def)
  ultimately show ?thesis using fix_loop_ends [OF assms(1)] by metis
qed

lemma collect_ids_take:
  assumes "\<forall>x \<in> set (take (K - length out) xs). unat (pid x) < mp" "length out < K" "K \<le> length out + length xs"
  shows "collect_ids mp K xs out = out @ take (K - length out) xs"
  using assms
proof (induction xs arbitrary: out)
  case (Cons x xs)
  show ?case
  proof (cases "Suc (length out) = K")
    case True
    then show ?thesis using Cons.prems by (auto simp: Let_def)
  next
    case False
    then have "K - length out = Suc (K - Suc (length out))" "Suc (length out) < K" using Cons.prems(2) by simp_all
    then show ?thesis using Cons.prems Cons.IH [of "out @ [x]"] False by (simp add: Let_def)
  qed
qed simp

text \<open>At the end every entry is expanded, so the list holds the nearest of all nodes met.\<close>

lemma walk_end:
  assumes "walk_inv cmp data graph q L ep s (bl s)"
  shows "pid ` set (listed s) \<subseteq> eids s" "\<forall>x \<in> set (listed s). \<not> pflag x"
    "\<forall>n \<in> eids s. \<forall>m \<in> set (graph ! unat n). m \<in> pid ` set (listed s) \<or>
       bl s = L \<and> (\<forall>x \<in> set (listed s). pdist x \<le> dst cmp data q m)"
    "ep \<in> eids s"
proof -
  note w = walk_invD [OF assms]
  show flags: "\<forall>x \<in> set (listed s). \<not> pflag x" using w(10) by (auto simp: listed_def set_take_nth)
  then show ids: "pid ` set (listed s) \<subseteq> eids s" using w(2) by blast
  have "listed s \<noteq> []" using length_pool [OF w(1)] pool_invD(2) [OF w(1)] by auto
  then have "eids s \<noteq> {}" using ids by (cases "listed s") auto
  then show "ep \<in> eids s" using w(12) by simp
  show "\<forall>n \<in> eids s. \<forall>m \<in> set (graph ! unat n). m \<in> pid ` set (listed s) \<or>
       bl s = L \<and> (\<forall>x \<in> set (listed s). pdist x \<le> dst cmp data q m)"
    using w(7) pool_invD(9) [OF w(1)] by blast
qed

lemma finite_reachable [simp]: "finite (reachable graph ep)"
  by (rule finite_subset [OF subset_UNIV]) simp

lemma walk_end_all:
  assumes "graph_ok data graph" "walk_inv cmp data graph q L ep s (bl s)" "card (reachable graph ep) \<le> L"
  shows "pid ` set (listed s) = reachable graph ep"
proof -
  note w = walk_invD [OF assms(2)]
  note p = pool_invD [OF w(1)]
  have ids: "card (pid ` set (listed s)) = bl s"
    using p(5) length_pool [OF w(1)] by (metis distinct_card length_map set_map)
  have all: "seen s \<subseteq> pid ` set (listed s)"
  proof
    fix i assume i: "i \<in> seen s"
    show "i \<in> pid ` set (listed s)"
    proof (rule ccontr)
      assume n: "i \<notin> pid ` set (listed s)"
      then have "bl s = L" using p(9) i by blast
      moreover have "insert i (pid ` set (listed s)) \<subseteq> reachable graph ep" using i p(6) w(9) by blast
      then have "card (insert i (pid ` set (listed s))) \<le> card (reachable graph ep)" by (rule card_mono [rotated]) simp
      ultimately show False using n ids assms(3) by simp
    qed
  qed
  have closed: "m \<in> pid ` set (listed s)" if "(ep, m) \<in> (edges graph)\<^sup>*" for m
    using that
  proof (induction rule: rtrancl_induct)
    case base
    show ?case using w(8) all by blast
  next
    case (step a b)
    then have "a \<in> eids s" "b \<in> set (graph ! unat a)" using walk_end(1) [OF assms(2)] by (auto simp: edges_def)
    then show ?case using w(7) all by blast
  qed
  then show ?thesis using p(6) w(9) by (auto simp: reachable_def)
qed

text \<open>C1. The greedy search of the index always returns: on a graph whose ids are in range the loop ends.
  The first \<open>l\<close> entries are then sorted by distance, without repetition, with their true distances,
  each of them was expanded, and only nodes that can be reached from the entry point were. The list is a
  fixed point: a neighbor of an expanded node is in it, unless it is full and the neighbor is not nearer
  than any entry.\<close>

theorem greedy_search_fixed_point:
  assumes "graph_ok data graph" "unat ep < length data" "1 \<le> L" "std_sort srt nbr_lt" "\<forall>a b. cmp a b = cmp b a"
  shows "\<exists>s. iterate_to_fixed_point cmp srt data graph q L [ep] = Some s \<and> 1 \<le> bl s \<and> bl s \<le> L \<and>
    (let P = take (bl s) (best s) in
      length P = bl s \<and> sorted_wrt pool_le P \<and> distinct (map pid P) \<and>
      (\<forall>x \<in> set P. pdist x = cmp q (data ! unat (pid x)) \<and> \<not> pflag x \<and> pid x \<in> eids s) \<and>
      eids s = pid ` set (einfo s) \<and> distinct (map pid (einfo s)) \<and> eids s \<subseteq> reachable graph ep \<and>
      (\<forall>n \<in> eids s. \<forall>m \<in> set (graph ! unat n). m \<in> pid ` set P \<or>
        bl s = L \<and> (\<forall>x \<in> set P. pdist x \<le> cmp q (data ! unat m))))"
proof -
  obtain s where s: "iterate_to_fixed_point cmp srt data graph q L [ep] = Some s" "walk_inv cmp data graph q L ep s (bl s)"
    using iterate_ends [OF assms, of q] by blast
  note w = walk_invD [OF s(2)] and fin = walk_end [OF s(2)]
  note p = pool_invD [OF w(1)]
  have r: "eids s \<subseteq> reachable graph ep" using w(6,9) by blast
  have x: "\<forall>x \<in> set (listed s). pdist x = cmp q (data ! unat (pid x)) \<and> \<not> pflag x \<and> pid x \<in> eids s"
    using p(8) fin(1,2) by blast
  show ?thesis
    unfolding Let_def listed_def [symmetric]
    by (intro exI [of _ s] conjI) (rule s(1) p(2-5) length_pool [OF w(1)] x w(3,4) r fin(3))+
qed

definition gap :: "rat \<Rightarrow> rat \<Rightarrow> rat" where
  "gap a b = \<bar>a - b\<bar>"

lemma gap_sym: "\<forall>a b. gap a b = gap b a"
  by (simp add: gap_def abs_minus_commute)

lemma two_nodes_ok: "graph_ok [0, 3 :: rat] [[1], [0]]"
  by (simp add: graph_ok_def)

theorem greedy_search_fixed_point_witness:
  "\<exists>s. iterate_to_fixed_point gap (isort nbr_lt) [0, 3] [[1], [0]] 4 2 [0] = Some s \<and> 1 \<le> bl s \<and> bl s \<le> 2"
  using greedy_search_fixed_point [OF two_nodes_ok _ _ nbr_lt.isort.std_sort_axioms gap_sym, of 0 2 4] by auto

text \<open>C8. With a list as long as the nodes that can be reached from the entry point are many, the search
  is exact: \<open>search\<close> gives the \<open>K\<close> nearest of them, in order.\<close>

theorem mem_search_exact:
  assumes "graph_ok data graph" "unat ep < length data" "std_sort srt nbr_lt" "\<forall>a b. cmp a b = cmp b a"
    and "card (reachable graph ep) \<le> L" "1 \<le> K" "K \<le> card (reachable graph ep)"
  shows "\<exists>out. mem_search cmp srt prep data graph ep q K L = Some (take K out) \<and>
    distinct (map fst out) \<and> set (map fst out) = reachable graph ep \<and> sorted (map snd out) \<and>
    (\<forall>(i, d) \<in> set out. d = cmp (prep q) (data ! unat i))"
proof -
  have "1 \<le> L" using assms(5,6,7) by simp
  then obtain s where s: "iterate_to_fixed_point cmp srt data graph (prep q) L [ep] = Some s"
    "walk_inv cmp data graph (prep q) L ep s (bl s)"
    using iterate_ends [OF assms(1,2) _ assms(3,4)] by blast
  note w = walk_invD [OF s(2)]
  note p = pool_invD [OF w(1)]
  have ids: "pid ` set (listed s) = reachable graph ep" by (rule walk_end_all [OF assms(1) s(2) assms(5)])
  then have len: "length (listed s) = card (reachable graph ep)" using p(5) by (metis distinct_card length_map set_map)
  have best: "take K (best s) = take K (listed s)" using assms(7) len length_pool [OF w(1)] by (simp add: listed_def)
  have "\<forall>x \<in> set (take K (best s)). unat (pid x) < length data"
    unfolding best using p(6,7) set_take_subset by fastforce
  moreover have "K \<le> length (best s)" using assms(7) len length_pool [OF w(1)] p(1,3) by simp
  ultimately have "collect_ids (length data) K (best s) [] = take K (listed s)"
    using collect_ids_take [of K "[]" "best s" "length data"] assms(6) best by simp
  then have "mem_search cmp srt prep data graph ep q K L = Some (take K (map (\<lambda>x. (pid x, pdist x)) (listed s)))"
    using s(1) by (simp add: mem_search_def take_map)
  moreover have "sorted (map pdist (listed s))" using p(4) by (simp add: sorted_wrt_map)
  ultimately show ?thesis
    using p(5,8) ids by (intro exI [of _ "map (\<lambda>x. (pid x, pdist x)) (listed s)"]) (auto simp: comp_def)
qed

lemma two_nodes_reachable: "reachable [[1], [0]] 0 = {0, 1}"
proof
  have "x = 0 \<or> x = 1" if "(0, x) \<in> (edges [[1], [0]])\<^sup>*" for x
    using that by (induction rule: rtrancl_induct) (auto simp: edges_def)
  then show "reachable [[1], [0]] 0 \<subseteq> {0, 1}" by (auto simp: reachable_def)
  have "0 \<in> reachable [[1], [0]] 0" by (simp add: reachable_def)
  then show "{0, 1} \<subseteq> reachable [[1], [0]] 0" using reachable_step [of 0 "[[1], [0]]" 0 1] by simp
qed

theorem mem_search_exact_witness:
  "\<exists>out. mem_search gap (isort nbr_lt) id [0, 3] [[1], [0]] 0 4 2 2 = Some (take 2 out) \<and> set (map fst out) = {0, 1} \<and>
    sorted (map snd out)"
proof -
  have "card (reachable [[1], [0]] 0) = 2" by (simp add: two_nodes_reachable)
  with mem_search_exact [OF two_nodes_ok _ nbr_lt.isort.std_sort_axioms gap_sym, of 0 2 2 id 4]
  show ?thesis unfolding two_nodes_reachable by (auto simp del: take_map)
qed

subsection \<open>Tags\<close>

abbreviation found :: "rat pool_nbr list \<Rightarrow> (u32 \<times> rat) list" where
  "found xs \<equiv> map (\<lambda>x. (pid x, pdist x)) xs"

definition tagged :: "(u32 \<rightharpoonup> 't) \<Rightarrow> (u32 \<times> rat) list \<Rightarrow> ('t \<times> rat) list" where
  "tagged loc2tag xs = [(the (loc2tag i), d). (i, d) \<leftarrow> xs, loc2tag i \<noteq> None]"

lemma tagged_simps [simp]:
  "tagged m [] = []" "tagged m ((i, d) # xs) = (case m i of None \<Rightarrow> [] | Some t \<Rightarrow> [(t, d)]) @ tagged m xs"
  "tagged m (xs @ ys) = tagged m xs @ tagged m ys"
  by (auto simp: tagged_def split: option.splits)

lemma pick_tags_tagged: "length out < K \<Longrightarrow> pick_tags m K xs out = take K (out @ tagged m xs)"
proof (induction m K xs out rule: pick_tags.induct)
  case (2 m K i d xs out)
  show ?case
  proof (cases "m i")
    case (Some t)
    show ?thesis
    proof (cases "length (out @ [(t, d)]) = K")
      case False
      then show ?thesis using 2 Some by simp
    qed (use Some in auto)
  qed (use 2 in simp)
qed simp

lemma walk_end_list:
  assumes "walk_inv cmp data graph q L ep s k"
  shows "take L (best s) = listed s @ replicate (L - bl s) unused"
proof -
  note p = pool_invD [OF walk_invD(1) [OF assms]]
  have "take L (best s) = listed s @ take (L - bl s) (drop (bl s) (best s))"
    using p(3) unfolding listed_def by (metis le_add_diff_inverse take_add)
  then show ?thesis using p(3,10) by (cases "bl s = L") auto
qed

lemma search_tags_result:
  assumes "graph_ok data graph" "unat ep < length data" "1 \<le> L" "std_sort srt nbr_lt" "\<forall>a b. cmp a b = cmp b a" "1 \<le> K"
  shows "\<exists>s. iterate_to_fixed_point cmp srt data graph (prep q) L [ep] = Some s \<and>
    search_with_tags cmp srt prep data graph ep loc2tag q K L =
      Some (take K (tagged loc2tag (found (take (bl s) (best s))) @
        (case loc2tag 0 of None \<Rightarrow> [] | Some t \<Rightarrow> replicate (L - bl s) (t, float_max))))"
proof -
  obtain s where s: "iterate_to_fixed_point cmp srt data graph (prep q) L [ep] = Some s"
    "walk_inv cmp data graph (prep q) L ep s (bl s)" using iterate_ends [OF assms(1-5)] by blast
  note p = pool_invD [OF walk_invD(1) [OF s(2)]]
  note list = walk_end_list [OF s(2)]
  have "unat (pid x) < length data" if "x \<in> set (take L (best s))" for x
    using that p(6,7) assms(2) unfolding list by (auto simp: unused_def mk_pool_nbr_def)
  then have "collect_ids (length data) L (best s) [] = take L (best s)"
    using collect_ids_take [of L "[]" "best s" "length data"] assms(3) p(1) by simp
  then have "mem_search cmp srt prep data graph ep q L L = Some (found (take L (best s)))"
    using s(1) by (simp add: mem_search_def)
  moreover have "tagged loc2tag (replicate n (0, float_max)) =
      (case loc2tag 0 of None \<Rightarrow> [] | Some t \<Rightarrow> replicate n (t, float_max))" for n
    by (induction n) (auto split: option.splits)
  ultimately have "search_with_tags cmp srt prep data graph ep loc2tag q K L =
      Some (take K (tagged loc2tag (found (listed s)) @
        (case loc2tag 0 of None \<Rightarrow> [] | Some t \<Rightarrow> replicate (L - bl s) (t, float_max))))"
    using assms(6) p(1) pick_tags_tagged [of "[]" K loc2tag] unfolding list
    by (simp add: search_with_tags_def length_pool [OF walk_invD(1) [OF s(2)]] p(3) unused_def mk_pool_nbr_def)
  then show ?thesis using s(1) unfolding listed_def by blast
qed

text \<open>C33. What a search with tags returns: the tags of the list's entries that have one, in order of distance;
  but when the walk met fewer than \<open>L\<close> nodes, the entries nobody filled count as slot 0, and its tag follows
  that many times at the largest float. All that is cut at \<open>K\<close>.\<close>

theorem search_with_tags_returns:
  assumes "graph_ok data graph" "unat ep < length data" "1 \<le> L" "std_sort srt nbr_lt" "\<forall>a b. cmp a b = cmp b a" "1 \<le> K"
  shows "\<exists>s. iterate_to_fixed_point cmp srt data graph (prep q) L [ep] = Some s \<and>
    search_with_tags cmp srt prep data graph ep loc2tag q K L =
      Some (take K (tagged loc2tag (found (take (bl s) (best s))) @
        (case loc2tag 0 of None \<Rightarrow> [] | Some t \<Rightarrow> replicate (L - bl s) (t, float_max))))"
  by (rule search_tags_result [OF assms])

theorem search_with_tags_returns_witness:
  "\<exists>P n. search_with_tags gap (isort nbr_lt) id [0, 3] [[1], [0]] 0 [0 \<mapsto> ''a''] 4 9 4 =
    Some (take 9 (tagged [0 \<mapsto> ''a''] P @ replicate n (''a'', float_max)))"
  using search_with_tags_returns [OF two_nodes_ok _ _ nbr_lt.isort.std_sort_axioms gap_sym,
    of 0 4 9 id 4 "[0 \<mapsto> ''a'']"] by auto

lemma fetch_tags_map:
  "snd (fetch_tags z m xs) = (\<lambda>i. if i \<in> pid ` set xs \<and> m i = None then Some z else m i)"
proof (induction z m xs rule: fetch_tags.induct)
  case (2 z m x xs)
  then show ?case by (cases "m (pid x)") (simp_all add: Let_def fun_eq_iff del: fun_upd_apply, simp_all)
qed simp

lemma fetch_tags_out: "fst (fetch_tags z m xs) = map (\<lambda>x. (case m (pid x) of None \<Rightarrow> z | Some t \<Rightarrow> t, pdist x)) xs"
proof (induction z m xs rule: fetch_tags.induct)
  case (2 z m x xs)
  then show ?case by (cases "m (pid x)") (auto simp: Let_def fun_upd_def)
qed simp

text \<open>C36. The fast search changes the tags: a slot without a tag that is in its list, for instance that of a
  deleted point, gets the tag zero, is reported with it, and counts as live from then on.\<close>

theorem fast_search_revives:
  assumes "graph_ok data graph" "unat ep < length data" "1 \<le> L" "\<forall>a b. cmp a b = cmp b a"
  shows "\<exists>s. iterate_to_fixed_point cmp (isort nbr_lt) data graph q L [ep] = Some s \<and>
    search_with_tags_fast cmp data graph ep z loc2tag q L = Some
      (map (\<lambda>x. (case loc2tag (pid x) of None \<Rightarrow> z | Some t \<Rightarrow> t, pdist x)) (take L (best s)),
       \<lambda>i. if i \<in> pid ` set (take L (best s)) \<and> loc2tag i = None then Some z else loc2tag i)"
proof -
  obtain s where s: "iterate_to_fixed_point cmp (isort nbr_lt) data graph q L [ep] = Some s"
    using iterate_ends [OF assms(1-3) nbr_lt.isort.std_sort_axioms assms(4)] by blast
  let ?x = "mk_pool_nbr ep (dst cmp data q ep) True"
  define s0 where "s0 = (search_start L)\<lparr>best := ?x # replicate L unused, bl := 1, seen := {ep}\<rparr>"
  have "seed_pool cmp data q L [ep] (search_start L) = Some s0"
    using assms(2,3) assms(4) [rule_format, of q] by (simp add: search_start_def s0_def vec_at_def vec_put_def)
  moreover have "isort nbr_lt (take (bl s0) (best s0)) @ drop (bl s0) (best s0) = best s0" by (simp add: s0_def)
  then have "s0\<lparr>best := isort nbr_lt (take (bl s0) (best s0)) @ drop (bl s0) (best s0)\<rparr> = s0" by simp
  ultimately have "fix_loop cmp data graph q L s0 0 = Some s"
    using s unfolding iterate_to_fixed_point_def by simp
  moreover have "vec_put (best (search_start L)) 0 ?x = Some (?x # replicate L unused)"
    by (simp add: search_start_def vec_put_def)
  moreover have "vec_at data (unat ep) = Some (data ! unat ep)" using assms(2) by (simp add: vec_at_def)
  moreover have "cmp (data ! unat ep) q = dst cmp data q ep" using assms(4) by blast
  ultimately have "search_with_tags_fast cmp data graph ep z loc2tag q L = Some (fetch_tags z loc2tag (take L (best s)))"
    unfolding search_with_tags_fast_def s0_def by simp
  then show ?thesis
    using s fetch_tags_map [of z loc2tag] fetch_tags_out [of z loc2tag] by (metis prod.collapse)
qed

theorem fast_search_revives_witness:
  "\<exists>out m. search_with_tags_fast gap [0, 3] [[1], [0]] 0 (0 :: nat) Map.empty 4 1 = Some (out, m)"
  using fast_search_revives [OF two_nodes_ok _ _ gap_sym, of 0 1 4 0 Map.empty] by auto

end
