(* ===== verification/MemIndex.thy ===== *)
theory MemIndex
  imports GraphSearch
begin

text \<open>
  Updates of the in-memory index, \<open>PipeANN/src/index.cpp\<close> and \<open>PipeANN/include/index.h\<close>: the slots,
  \<open>insert_point\<close> with \<open>reserve_location\<close>, \<open>resize\<close> and \<open>inter_insert\<close>, and \<open>lazy_delete\<close>, on one thread.
  \<open>None\<close> is an access outside an array or a loop that does not end; the \<open>assert\<close>s are compiled out
  (\<open>-DNDEBUG\<close> in \<open>PipeANN/CMakeLists.txt\<close>), and the theorems on insertion ask for what they say. What the code calls of the distance functions, of \<open>std::sort\<close>, of the order of a hash set
  and of float rounding is gathered in a record.
\<close>

record 'v mem_env =
  ecmp :: "'v \<Rightarrow> 'v \<Rightarrow> rat"
  esrt :: "rat pool_nbr list \<Rightarrow> rat pool_nbr list"
  ecsrt :: "cand list \<Rightarrow> cand list"
  ernd :: "rat \<Rightarrow> rat"
  eprep :: "'v \<Rightarrow> 'v"
  ezero :: 'v
  epick :: "u32 set \<Rightarrow> u32"
  emetric :: metric
  epar :: build_params
  eL :: nat

record ('v, 't) mem_index =
  mdata :: "'v list"
  mgraph :: "u32 list list"
  mnd :: nat
  mwidth :: nat
  mep :: u32
  tag2loc :: "'t \<rightharpoonup> u32"
  loc2tag :: "u32 \<rightharpoonup> 't"
  mdel :: "u32 set"
  mslots :: "u32 set"

definition new_index :: "('v, 't) mem_index" where
  "new_index = \<lparr>mdata = [], mgraph = [], mnd = 0, mwidth = 0, mep = 0, tag2loc = Map.empty, loc2tag = Map.empty,
     mdel = {}, mslots = {}\<rparr>"

definition max_points :: "('v, 't) mem_index \<Rightarrow> nat" where
  "max_points m = length (mdata m)"

abbreviation no_loc :: u32 where
  "no_loc \<equiv> 0xFFFFFFFF"

subsection \<open>Slots\<close>

definition mem_resize :: "'v mem_env \<Rightarrow> nat \<Rightarrow> ('v, 't) mem_index \<Rightarrow> ('v, 't) mem_index" where
  "mem_resize E n m =
     (let n = max n 50000 in
      m\<lparr>mdata := take n (mdata m) @ replicate (n - length (mdata m)) (ezero E),
        mgraph := take n (mgraph m) @ replicate (n - length (mgraph m)) [],
        mslots := mslots m \<union> of_nat ` {mnd m..<n}\<rparr>)"

text \<open>\<open>begin\<close> of an empty set is no element.\<close>

definition reserve_location :: "'v mem_env \<Rightarrow> ('v, 't) mem_index \<Rightarrow> (u32 \<times> ('v, 't) mem_index) option" where
  "reserve_location E m =
     (if mnd m \<ge> max_points m then Some (no_loc, m)
      else if mslots m = {} then None
      else let loc = epick E (mslots m) in
        Some (loc, m\<lparr>mslots := mslots m - {loc}, mdel := mdel m - {loc}, mnd := mnd m + 1\<rparr>))"

text \<open>\<open>(size_t) (max_points() * INDEX_GROWTH_FACTOR)\<close>, in floats.\<close>

definition grown :: "'v mem_env \<Rightarrow> nat \<Rightarrow> nat" where
  "grown E n = nat \<lfloor>ernd E (ernd E (of_nat n) * (3 / 2))\<rfloor>"

partial_function (option) reserve_loop ::
  "'v mem_env \<Rightarrow> u32 \<Rightarrow> ('v, 't) mem_index \<Rightarrow> (u32 \<times> ('v, 't) mem_index) option" where
  "reserve_loop E loc m =
     (if loc = no_loc
      then case reserve_location E (if mnd m \<ge> max_points m then mem_resize E (grown E (max_points m)) m else m) of
          None \<Rightarrow> None
        | Some r \<Rightarrow> reserve_loop E (fst r) (snd r)
      else Some (loc, m))"

definition drop_tag :: "('v, 't) mem_index \<Rightarrow> 't \<Rightarrow> ('v, 't) mem_index" where
  "drop_tag m t =
     (case tag2loc m t of
        None \<Rightarrow> m
      | Some l \<Rightarrow> m\<lparr>mdel := insert l (mdel m), loc2tag := (loc2tag m)(l := None), tag2loc := (tag2loc m)(t := None)\<rparr>)"

definition lazy_delete :: "('v, 't) mem_index \<Rightarrow> 't \<Rightarrow> int \<times> ('v, 't) mem_index" where
  "lazy_delete m t = (case tag2loc m t of None \<Rightarrow> (-1, m) | Some l \<Rightarrow> (0, drop_tag m t))"

subsection \<open>Links\<close>

text \<open>\<open>(uint64_t) (SLACK_FACTOR * R)\<close> with the factor 1.3, and the candidates a list of ids gives.\<close>

definition slack :: "nat \<Rightarrow> nat" where
  "slack R = 13 * R div 10"

definition pool_of :: "'v mem_env \<Rightarrow> 'v list \<Rightarrow> u32 \<Rightarrow> u32 list \<Rightarrow> cand list option" where
  "pool_of E data c ns =
     (if unat c < length data \<and> (\<forall>n \<in> set ns. unat n < length data)
      then Some (map (\<lambda>n. \<lparr>cid = unat n, cdist = ecmp E (data ! unat c) (data ! unat n)\<rparr>) ns) else None)"

definition prune_ids :: "'v mem_env \<Rightarrow> 'v list \<Rightarrow> cand list \<Rightarrow> u32 list option" where
  "prune_ids E data pool = do {
     (_, ids) \<leftarrow> prune_neighbors (ernd E) (ecsrt E) pool [] (epar E) (emetric E) (\<lambda>a b. ecmp E (data ! a) (data ! b));
     Some (map of_nat ids)
   }"

text \<open>The list of \<open>des\<close> after the new node \<open>n\<close> was linked to it.\<close>

definition add_link :: "'v mem_env \<Rightarrow> 'v list \<Rightarrow> u32 \<Rightarrow> u32 \<Rightarrow> u32 list \<Rightarrow> u32 list option" where
  "add_link E data n des ns =
     (if n \<in> set ns then Some ns
      else if length ns < slack (bR (epar E)) then Some (ns @ [n])
      else do {
        pool \<leftarrow> pool_of E data des (filter (\<lambda>c. c \<noteq> des) (ns @ [n]));
        prune_ids E data pool
      })"

fun inter_insert :: "'v mem_env \<Rightarrow> 'v list \<Rightarrow> u32 \<Rightarrow> u32 list \<Rightarrow> u32 list list \<Rightarrow> u32 list list option" where
  "inter_insert E data n [] g = Some g"
| "inter_insert E data n (des # rest) g = do {
     ns \<leftarrow> vec_at g (unat des);
     ns \<leftarrow> add_link E data n des ns;
     g \<leftarrow> vec_put g (unat des) ns;
     inter_insert E data n rest g
   }"

definition expanded_pool :: "u32 \<Rightarrow> rat pool_nbr list \<Rightarrow> cand list" where
  "expanded_pool loc xs = map (\<lambda>x. \<lparr>cid = unat (pid x), cdist = pdist x\<rparr>) (filter (\<lambda>x. pid x \<noteq> loc) xs)"

definition insert_point :: "'v mem_env \<Rightarrow> ('v, 't) mem_index \<Rightarrow> 'v \<Rightarrow> 't \<Rightarrow> ('v, 't) mem_index option" where
  "insert_point E m point t = do {
     (loc, m) \<leftarrow> reserve_location E (drop_tag m t);
     (loc, m) \<leftarrow> reserve_loop E loc m;
     let m = m\<lparr>tag2loc := (tag2loc m)(t \<mapsto> loc), loc2tag := (loc2tag m)(loc \<mapsto> t)\<rparr>;
     data \<leftarrow> vec_put (mdata m) (unat loc) (eprep E point);
     s \<leftarrow> iterate_to_fixed_point (ecmp E) (esrt E) data (mgraph m) (data ! unat loc) (eL E) [mep m];
     pruned \<leftarrow> prune_ids E data (expanded_pool loc (einfo s));
     g \<leftarrow> vec_put (mgraph m) (unat loc) pruned;
     g \<leftarrow> inter_insert E data loc pruned g;
     Some (m\<lparr>mdata := data, mgraph := g\<rparr>)
   }"

text \<open>A sequence of calls, one after the other.\<close>

datatype ('v, 't) mem_call = Call_insert 'v 't | Call_delete 't

fun mem_run :: "'v mem_env \<Rightarrow> ('v, 't) mem_call list \<Rightarrow> ('v, 't) mem_index \<Rightarrow> ('v, 't) mem_index option" where
  "mem_run E [] m = Some m"
| "mem_run E (Call_insert p t # cs) m = do { m \<leftarrow> insert_point E m p t; mem_run E cs m }"
| "mem_run E (Call_delete t # cs) m = mem_run E cs (snd (lazy_delete m t))"

subsection \<open>Pruning and linking\<close>

definition env_ok :: "'v mem_env \<Rightarrow> bool" where
  "env_ok E \<longleftrightarrow> rounds_nearest (ernd E) \<and> std_sort (esrt E) nbr_lt \<and> std_sort (ecsrt E) cand_less \<and>
     (\<forall>a b. ecmp E a b = ecmp E b a) \<and> (\<forall>S. S \<noteq> {} \<longrightarrow> epick E S \<in> S) \<and>
     1 \<le> bR (epar E) \<and> 1 \<le> bC (epar E) \<and> 1 \<le> balpha (epar E) \<and> 1 \<le> eL E \<and> ernd E 0 = 0"

lemma env_okD:
  assumes "env_ok E"
  shows "rounds_nearest (ernd E)" "std_sort (esrt E) nbr_lt" "std_sort (ecsrt E) cand_less"
    "\<forall>a b. ecmp E a b = ecmp E b a" "S \<noteq> {} \<Longrightarrow> epick E S \<in> S" "1 \<le> bR (epar E)" "1 \<le> bC (epar E)"
    "1 \<le> balpha (epar E)" "1 \<le> eL E" "ernd E 0 = 0"
  using assms unfolding env_ok_def by blast+

lemma of_nat_u32 [simp]: "unat (of_nat n :: u32) = n" if "n < 2 ^ 32"
  using that by (simp add: unat_of_nat take_bit_nat_eq_self)

lemma inj_unat: "inj (unat :: u32 \<Rightarrow> nat)"
  by (rule injI) (simp add: word_unat_eq_iff)

lemma slack_ge: "R \<le> slack R"
  by (simp add: slack_def)

lemma prune_ids_ok:
  assumes E: "env_ok E" and pool: "distinct (map cid pool)" "\<forall>c \<in> set pool. cid c < 2 ^ 32"
  shows "\<exists>ids. prune_ids E data pool = Some ids \<and> distinct ids \<and> length ids \<le> bR (epar E) \<and>
    unat ` set ids \<subseteq> cid ` set pool \<and> (pool \<noteq> [] \<longrightarrow> ids \<noteq> [])"
proof (cases "pool = []")
  case True
  then show ?thesis by (simp add: prune_ids_def prune_neighbors_def)
next
  case False
  let ?cd = "\<lambda>a b. ecmp E (data ! a) (data ! b)" and ?P = "epar E"
  let ?pool = "prune_pool (ecsrt E) ?P pool"
  note e = env_okD [OF E]
  note srt = std_sort.srt_perm [OF e(3), of pool] std_sort.srt_sorted [OF e(3), of pool]
  note facts = prune_pool_facts [of "ecsrt E" pool ?P, OF srt]
  obtain res where res: "prune_neighbors (ernd E) (ecsrt E) pool [] ?P (emetric E) ?cd = Some (?pool,
      if bsaturate ?P \<and> balpha ?P > 1 then saturate (bR ?P) ?pool (map cid res) else map cid res)"
    "length res \<le> bR ?P" "sorted_wrt cand_less res" "set res \<subseteq> set ?pool"
    "length res < bR ?P \<longrightarrow> (\<forall>c \<in> set ?pool. c \<in> set res \<or> dominated (ernd E) (emetric E) ?cd res c)"
    using prune_neighbors_result [where srt = "ecsrt E" and P = ?P and pool = pool, OF e(1) False e(8) srt,
      of "emetric E" ?cd "[]"] by blast
  define ids where "ids = (if bsaturate ?P \<and> balpha ?P > 1 then saturate (bR ?P) ?pool (map cid res) else map cid res)"
  have inj: "inj_on cid (set pool)" using pool(1) by (simp add: distinct_map)
  have "inj_on cid (set res)" by (rule inj_on_subset [OF inj]) (use res(4) facts(3) in blast)
  then have dres: "distinct (map cid res)" using sorted_cand_distinct [OF res(3)] by (simp add: distinct_map)
  have "set (ecsrt E pool) = set pool" using srt(1) by (metis set_mset_mset)
  moreover have "length (ecsrt E pool) = length pool" using srt(1) by (metis size_mset)
  ultimately have "?pool \<noteq> []" using False e(7) unfolding facts(1) by (cases "ecsrt E pool") auto
  then obtain c where "c \<in> set ?pool" by (cases ?pool) auto
  then have "res \<noteq> []" using res(5) e(6) by (auto simp: dominated_def)
  have "length (map cid res) \<le> bR ?P" using res(2) by simp
  note sat = saturate_result [OF this, of ?pool]
  have ids: "distinct ids" "length ids \<le> bR ?P" "set ids \<subseteq> cid ` set pool" "ids \<noteq> []"
    using sat dres res(2,4) facts(3) \<open>res \<noteq> []\<close> unfolding ids_def by (auto split: if_splits) force+
  then have small: "\<forall>i \<in> set ids. i < 2 ^ 32" using pool(2) by auto
  then have "inj_on (of_nat :: nat \<Rightarrow> u32) (set ids)" by (metis inj_on_def of_nat_u32)
  moreover have "unat ` set (map of_nat ids :: u32 list) = set ids" using small by (force simp: image_image)
  moreover have "prune_ids E data pool = Some (map of_nat ids)" using res(1) by (simp add: prune_ids_def ids_def)
  ultimately show ?thesis using ids by (intro exI [of _ "map of_nat ids"]) (simp add: distinct_map)
qed

text \<open>A list of neighbors of \<open>c\<close>: in range, no repetition, not \<open>c\<close> itself, bounded.\<close>

definition list_ok :: "'v mem_env \<Rightarrow> nat \<Rightarrow> u32 \<Rightarrow> u32 list \<Rightarrow> bool" where
  "list_ok E mp c ns \<longleftrightarrow> distinct ns \<and> c \<notin> set ns \<and> length ns \<le> slack (bR (epar E)) \<and> (\<forall>n \<in> set ns. unat n < mp)"

definition adj_ok :: "'v mem_env \<Rightarrow> u32 list list \<Rightarrow> bool" where
  "adj_ok E g \<longleftrightarrow> (\<forall>c. unat c < length g \<longrightarrow> list_ok E (length g) c (g ! unat c))"

lemma adj_okD: "adj_ok E g \<Longrightarrow> unat c < length g \<Longrightarrow> list_ok E (length g) c (g ! unat c)"
  by (simp add: adj_ok_def)

lemma adj_ok_update:
  assumes "adj_ok E g" "list_ok E (length g) c ns"
  shows "adj_ok E (g[unat c := ns])"
  unfolding adj_ok_def
proof (intro allI impI)
  fix b :: u32 assume b: "unat b < length (g[unat c := ns])"
  show "list_ok E (length (g[unat c := ns])) b (g[unat c := ns] ! unat b)"
  proof (cases "b = c")
    case False
    then have "unat c \<noteq> unat b" by (simp add: word_unat_eq_iff)
    then show ?thesis using b adj_okD [OF assms(1), of b] by simp
  qed (use assms(2) b in simp)
qed

lemma adj_graph_ok:
  assumes "adj_ok E g" "length g = length data" "length data \<le> 2 ^ 32"
  shows "graph_ok data g"
proof -
  have "unat n < length data" if "ns \<in> set g" "n \<in> set ns" for ns n
  proof -
    from that(1) obtain i where i: "i < length g" "ns = g ! i" unfolding in_set_conv_nth by blast
    have "i < 2 ^ 32" by (rule less_le_trans [OF i(1) [unfolded assms(2)] assms(3)])
    then have "unat (of_nat i :: u32) = i" by (rule of_nat_u32)
    then have "list_ok E (length g) (of_nat i) ns" using adj_okD [OF assms(1), of "of_nat i"] i unfolding i(2) by metis
    then show ?thesis using that(2) assms(2) by (simp add: list_ok_def)
  qed
  then show ?thesis using assms(2) by (simp add: graph_ok_def)
qed

lemma pool_of_ok:
  assumes "unat c < length data" "\<forall>n \<in> set ns. unat n < length data" "distinct ns"
  shows "\<exists>pool. pool_of E data c ns = Some pool \<and> distinct (map cid pool) \<and> cid ` set pool = unat ` set ns \<and>
    (\<forall>c \<in> set pool. cid c < 2 ^ 32)"
proof -
  have "inj_on unat (set ns)" by (rule inj_on_subset [OF inj_unat]) simp
  moreover have "unat n < 2 ^ 32" for n :: u32 using unsigned_less [of n] by simp
  moreover have "map cid (map (\<lambda>n. \<lparr>cid = unat n, cdist = ecmp E (data ! unat c) (data ! unat n)\<rparr>) ns) = map unat ns" by simp
  ultimately show ?thesis
    using assms by (auto simp: pool_of_def image_image simp del: map_map) (simp add: distinct_map)
qed

lemma add_link_ok:
  assumes E: "env_ok E" and ns: "list_ok E (length data) des ns" and n: "n \<noteq> des" "unat n < length data" "unat des < length data"
  shows "\<exists>ns'. add_link E data n des ns = Some ns' \<and> list_ok E (length data) des ns' \<and> set ns' \<subseteq> insert n (set ns) \<and>
    (n \<in> set ns' \<or> slack (bR (epar E)) \<le> length ns)"
proof -
  consider "n \<in> set ns" | "n \<notin> set ns" "length ns < slack (bR (epar E))" | "n \<notin> set ns" "slack (bR (epar E)) \<le> length ns"
    by linarith
  then show ?thesis
  proof cases
    case 3
    have f: "filter (\<lambda>c. c \<noteq> des) (ns @ [n]) = ns @ [n]" using ns n(1) by (auto simp: list_ok_def filter_id_conv)
    obtain pool where pool: "pool_of E data des (ns @ [n]) = Some pool" "distinct (map cid pool)"
      "cid ` set pool = unat ` set (ns @ [n])" "\<forall>c \<in> set pool. cid c < 2 ^ 32"
      using pool_of_ok [of des data "ns @ [n]" E] ns n 3(1) by (auto simp: list_ok_def)
    obtain ids where ids: "prune_ids E data pool = Some ids" "distinct ids" "length ids \<le> bR (epar E)"
      "unat ` set ids \<subseteq> cid ` set pool" using prune_ids_ok [OF E pool(2,4)] by blast
    have sub: "set ids \<subseteq> insert n (set ns)" 
      using ids(4) inj_image_subset_iff [OF inj_unat, of "set ids" "set (ns @ [n])"] unfolding pool(3) by auto
    then have "list_ok E (length data) des ids"
      using ids(2,3) ns n slack_ge [of "bR (epar E)"] by (auto simp: list_ok_def)
    then show ?thesis using 3 pool(1) ids(1) sub unfolding add_link_def f by simp
  qed (use ns n in \<open>auto simp: add_link_def list_ok_def\<close>)
qed

lemma inter_insert_ok:
  assumes E: "env_ok E" and n: "unat n < length data" and len: "length g = length data"
    and "adj_ok E g" "\<forall>d \<in> set ds. unat d < length data \<and> d \<noteq> n" "distinct ds"
  shows "\<exists>g'. inter_insert E data n ds g = Some g' \<and> length g' = length g \<and> adj_ok E g' \<and>
    (\<forall>c. c \<notin> set ds \<longrightarrow> unat c < length g \<longrightarrow> g' ! unat c = g ! unat c) \<and>
    (\<forall>d \<in> set ds. set (g' ! unat d) \<subseteq> insert n (set (g ! unat d)) \<and>
       (n \<in> set (g' ! unat d) \<or> slack (bR (epar E)) \<le> length (g ! unat d)))"
  using len assms(4-6)
proof (induction ds arbitrary: g)
  case (Cons des ds)
  have des: "unat des < length data" "n \<noteq> des" using Cons.prems(3) by auto
  obtain ns where ns: "add_link E data n des (g ! unat des) = Some ns" "list_ok E (length data) des ns"
    "set ns \<subseteq> insert n (set (g ! unat des))" "n \<in> set ns \<or> slack (bR (epar E)) \<le> length (g ! unat des)"
    using add_link_ok [OF E _ des(2) n des(1), of "g ! unat des"] adj_okD [OF Cons.prems(2), of des] des(1) Cons.prems(1) by auto
  let ?g = "g[unat des := ns]"
  have "adj_ok E ?g" using adj_ok_update [OF Cons.prems(2)] ns(2) Cons.prems(1) by simp
  then obtain g' where g': "inter_insert E data n ds ?g = Some g'" "length g' = length ?g" "adj_ok E g'"
    "\<forall>c. c \<notin> set ds \<longrightarrow> unat c < length ?g \<longrightarrow> g' ! unat c = ?g ! unat c"
    "\<forall>d \<in> set ds. set (g' ! unat d) \<subseteq> insert n (set (?g ! unat d)) \<and>
       (n \<in> set (g' ! unat d) \<or> slack (bR (epar E)) \<le> length (?g ! unat d))"
    using Cons.IH [of ?g] Cons.prems by auto
  have other: "?g ! unat c = g ! unat c" if "c \<noteq> des" for c using that by (metis nth_list_update_neq word_unat_eq_iff)
  have "g' ! unat des = ns" using g'(4) des(1) Cons.prems(1,4) by simp
  moreover have "inter_insert E data n (des # ds) g = Some g'"
    using ns(1) des(1) Cons.prems(1) g'(1) by (simp add: vec_at_def vec_put_def)
  moreover have "\<forall>d \<in> set ds. d \<noteq> des" using Cons.prems(4) by auto
  ultimately show ?case using g' ns(3,4) other by (intro exI [of _ g']) auto
qed simp

subsection \<open>The invariant of the index\<close>

abbreviation slots_upto :: "nat \<Rightarrow> u32 set" where
  "slots_upto n \<equiv> {l. unat l < n}"

definition tags_ok :: "('v, 't) mem_index \<Rightarrow> bool" where
  "tags_ok m \<longleftrightarrow> (\<forall>t l. tag2loc m t = Some l \<longleftrightarrow> loc2tag m l = Some t)"

text \<open>Every slot is live, deleted or empty.\<close>

definition slots_ok :: "('v, 't) mem_index \<Rightarrow> bool" where
  "slots_ok m \<longleftrightarrow> dom (loc2tag m) \<inter> mdel m = {} \<and> (dom (loc2tag m) \<union> mdel m) \<inter> mslots m = {} \<and>
     dom (loc2tag m) \<union> mdel m \<union> mslots m = slots_upto (max_points m) \<and>
     mnd m + card (mslots m) = max_points m"

definition mem_ok :: "'v mem_env \<Rightarrow> ('v, 't) mem_index \<Rightarrow> bool" where
  "mem_ok E m \<longleftrightarrow> tags_ok m \<and> slots_ok m \<and> length (mgraph m) = max_points m \<and> adj_ok E (mgraph m) \<and>
     max_points m < 2 ^ 32 \<and> unat (mep m) < max 1 (max_points m)"

lemma new_index_ok: "mem_ok E new_index"
  by (simp add: mem_ok_def tags_ok_def slots_ok_def new_index_def max_points_def adj_ok_def)

lemma card_slots_upto: "n \<le> 2 ^ 32 \<Longrightarrow> card (slots_upto n) = n"
proof -
  assume n: "n \<le> 2 ^ 32"
  have "slots_upto n = of_nat ` {..<n}"
  proof (intro set_eqI iffI)
    fix l :: u32 assume "l \<in> slots_upto n"
    then show "l \<in> of_nat ` {..<n}" by (intro image_eqI [of _ _ "unat l"]) simp_all
  next
    fix l :: u32 assume "l \<in> of_nat ` {..<n}"
    then obtain i where i: "i < n" "l = of_nat i" by blast
    have "i < 2 ^ 32" by (rule less_le_trans [OF i(1) n])
    then show "l \<in> slots_upto n" using i by (metis mem_Collect_eq of_nat_u32)
  qed
  moreover have "inj_on (of_nat :: nat \<Rightarrow> u32) {..<n}"
    by (rule inj_onI) (metis lessThan_iff less_le_trans n of_nat_u32)
  ultimately show ?thesis by (metis card_image card_lessThan)
qed

lemma drop_tag_ok:
  assumes "tags_ok m" "slots_ok m"
  shows "tags_ok (drop_tag m t)" "slots_ok (drop_tag m t)" "tag2loc (drop_tag m t) = (tag2loc m)(t := None)"
    "mdata (drop_tag m t) = mdata m" "mgraph (drop_tag m t) = mgraph m" "mnd (drop_tag m t) = mnd m"
    "mep (drop_tag m t) = mep m" "mslots (drop_tag m t) = mslots m" "mwidth (drop_tag m t) = mwidth m"
    "loc2tag (drop_tag m t) = (\<lambda>l. if loc2tag m l = Some t then None else loc2tag m l)"
proof -
  note tags = assms(1) [unfolded tags_ok_def, rule_format]
  show l: "loc2tag (drop_tag m t) = (\<lambda>l. if loc2tag m l = Some t then None else loc2tag m l)"
  proof (cases "tag2loc m t")
    case (Some b)
    have "loc2tag m l = Some t \<longleftrightarrow> l = b" for l using tags [of t l] Some by auto
    then show ?thesis using Some by (simp add: drop_tag_def fun_eq_iff)
  qed (use tags [of t] in \<open>simp add: drop_tag_def fun_eq_iff\<close>)
  show t2l: "tag2loc (drop_tag m t) = (tag2loc m)(t := None)"
    by (auto simp: drop_tag_def split: option.splits)
  show "tags_ok (drop_tag m t)"
    using tags unfolding tags_ok_def l t2l by auto
  show "mdata (drop_tag m t) = mdata m" "mgraph (drop_tag m t) = mgraph m" "mnd (drop_tag m t) = mnd m"
    "mep (drop_tag m t) = mep m" "mslots (drop_tag m t) = mslots m" "mwidth (drop_tag m t) = mwidth m"
    by (simp_all add: drop_tag_def split: option.splits)
  show "slots_ok (drop_tag m t)"
  proof (cases "tag2loc m t")
    case (Some b)
    then have "loc2tag m b = Some t" using tags by blast
    then have "b \<in> dom (loc2tag m)" by blast
    moreover have "drop_tag m t = m\<lparr>mdel := insert b (mdel m), loc2tag := (loc2tag m)(b := None), tag2loc := (tag2loc m)(t := None)\<rparr>"
      using Some by (simp add: drop_tag_def)
    ultimately show ?thesis using assms(2) by (auto simp: slots_ok_def max_points_def)
  qed (use assms(2) in \<open>simp add: drop_tag_def\<close>)
qed

lemma grown_more:
  assumes "rounds_nearest (ernd E)"
  shows "n < max (grown E n) 50000"
proof (cases "n < 50000")
  case False
  let ?x = "ernd E (of_nat n)"
  have n: "(50000 :: rat) \<le> of_nat n" using False by simp
  have x: "of_nat n * (1 - 1 / 16777216) \<le> ?x"
    using assms n unfolding rounds_nearest_def by simp
  moreover have "1 / 2 \<le> ?x * (3 / 2)" using x n by simp
  then have "?x * (3 / 2) * (1 - 1 / 16777216) \<le> ernd E (?x * (3 / 2))"
    using assms unfolding rounds_nearest_def by blast
  ultimately have "of_nat n + 1 \<le> ernd E (?x * (3 / 2))" using n by simp
  then have "of_nat n + 1 \<le> \<lfloor>ernd E (?x * (3 / 2))\<rfloor>" by (metis floor_mono floor_of_nat floor_add_int of_int_1 of_int_of_nat_eq)
  then have "n + 1 \<le> grown E n" unfolding grown_def by linarith
  then show ?thesis by simp
qed simp

lemma resize_ok:
  assumes "mem_ok E m" "mnd m = max_points m" "max_points m < max n 50000" "max n 50000 < 2 ^ 32"
  shows "mem_ok E (mem_resize E n m)" "max_points (mem_resize E n m) = max n 50000" "mnd (mem_resize E n m) = mnd m"
    "\<forall>i < max_points m. mdata (mem_resize E n m) ! i = mdata m ! i"
    "\<forall>i < max_points m. mgraph (mem_resize E n m) ! i = mgraph m ! i"
    "\<forall>i. max_points m \<le> i \<and> i < max n 50000 \<longrightarrow> mgraph (mem_resize E n m) ! i = []"
    "tag2loc (mem_resize E n m) = tag2loc m" "loc2tag (mem_resize E n m) = loc2tag m" "mdel (mem_resize E n m) = mdel m"
    "mep (mem_resize E n m) = mep m"
proof -
  define N where "N = max n 50000"
  note ok = assms(1) [unfolded mem_ok_def]
  have slots: "mslots m = {}"
  proof -
    have "card (mslots m) = 0" using ok assms(2) by (simp add: slots_ok_def)
    then show ?thesis by (simp add: card_eq_0_iff finite_subset [OF subset_UNIV])
  qed
  have r: "mem_resize E n m = m\<lparr>mdata := mdata m @ replicate (N - max_points m) (ezero E),
      mgraph := mgraph m @ replicate (N - max_points m) [], mslots := of_nat ` {max_points m..<N}\<rparr>"
    using assms(2,3) ok slots by (simp add: mem_resize_def Let_def N_def max_points_def)
  have up: "of_nat ` {max_points m..<N} = slots_upto N - slots_upto (max_points m)"
  proof (intro set_eqI iffI)
    fix l :: u32 assume "l \<in> of_nat ` {max_points m..<N}"
    then obtain i where i: "max_points m \<le> i" "i < N" "l = of_nat i" by auto
    have "i < 2 ^ 32" by (rule less_trans [OF i(2) assms(4) [folded N_def]])
    then show "l \<in> slots_upto N - slots_upto (max_points m)" using i by (simp only: of_nat_u32) simp
  next
    fix l :: u32 assume "l \<in> slots_upto N - slots_upto (max_points m)"
    then show "l \<in> of_nat ` {max_points m..<N}" by (intro image_eqI [of _ _ "unat l"]) simp_all
  qed
  have le: "slots_upto (max_points m) \<subseteq> slots_upto N" using assms(3) by (auto simp: N_def)
  have card: "card (slots_upto N - slots_upto (max_points m)) = N - max_points m"
    using card_Diff_subset [OF finite_subset [OF subset_UNIV] le] card_slots_upto [of N] card_slots_upto [of "max_points m"]
      assms(3,4) by (simp add: N_def)
  show mp: "max_points (mem_resize E n m) = max n 50000"
    using assms(3) by (simp add: r max_points_def N_def)
  have adj: "adj_ok E (mgraph m @ replicate (N - max_points m) [])"
    unfolding adj_ok_def
  proof (intro allI impI)
    fix c :: u32 assume c: "unat c < length (mgraph m @ replicate (N - max_points m) [])"
    show "list_ok E (length (mgraph m @ replicate (N - max_points m) [])) c ((mgraph m @ replicate (N - max_points m) []) ! unat c)"
    proof (cases "unat c < length (mgraph m)")
      case True
      then have "list_ok E (length (mgraph m)) c (mgraph m ! unat c)" using ok adj_okD by blast
      then show ?thesis using True by (auto simp: list_ok_def nth_append)
    next
      case False
      then show ?thesis using c by (simp add: list_ok_def nth_append)
    qed
  qed
  have "slots_ok (mem_resize E n m)"
    using ok slots le card up assms(2,3) unfolding slots_ok_def mp by (auto simp: r N_def)
  moreover have "unat (mep m) < max 1 (max_points m)" using ok by blast
  then have "unat (mep m) < N" using assms(3) unfolding N_def by linarith
  ultimately show "mem_ok E (mem_resize E n m)"
    using ok adj assms(3,4) unfolding mem_ok_def mp by (simp add: r tags_ok_def max_points_def N_def)
qed (use assms(1,3) in \<open>auto simp: mem_resize_def Let_def max_points_def mem_ok_def nth_append\<close>)

text \<open>What the reservation of a slot gives, with or without growth.\<close>

definition reserved :: "'v mem_env \<Rightarrow> ('v, 't) mem_index \<Rightarrow> u32 \<Rightarrow> ('v, 't) mem_index \<Rightarrow> bool" where
  "reserved E m loc m' \<longleftrightarrow> max_points m \<le> max_points m' \<and> max_points m' < 2 ^ 32 \<and> unat loc < max_points m' \<and>
     tag2loc m' = tag2loc m \<and> loc2tag m' = loc2tag m \<and> mdel m' = mdel m \<and> mnd m' = mnd m + 1 \<and> mep m' = mep m \<and>
     unat (mep m') < max_points m' \<and> length (mgraph m') = max_points m' \<and> adj_ok E (mgraph m') \<and>
     (\<forall>i < max_points m. mdata m' ! i = mdata m ! i \<and> mgraph m' ! i = mgraph m ! i) \<and>
     (\<forall>i. max_points m \<le> i \<and> i < max_points m' \<longrightarrow> mgraph m' ! i = []) \<and>
     loc \<notin> dom (loc2tag m) \<union> mdel m \<union> mslots m' \<and>
     (dom (loc2tag m) \<union> mdel m) \<inter> mslots m' = {} \<and> dom (loc2tag m) \<union> mdel m \<union> insert loc (mslots m') = slots_upto (max_points m') \<and>
     mnd m' + card (mslots m') = max_points m'"

lemma reserve_free:
  assumes E: "env_ok E" and ok: "mem_ok E m" and free: "mnd m < max_points m"
  shows "\<exists>loc m'. reserve_location E m = Some (loc, m') \<and> loc \<noteq> no_loc \<and> reserved E m loc m'"
proof -
  note k = ok [unfolded mem_ok_def] and sl = ok [unfolded mem_ok_def slots_ok_def]
  have ne: "mslots m \<noteq> {}" using sl free by auto
  define loc where "loc = epick E (mslots m)"
  define m' where "m' = m\<lparr>mslots := mslots m - {loc}, mdel := mdel m - {loc}, mnd := mnd m + 1\<rparr>"
  have loc: "loc \<in> mslots m" unfolding loc_def by (rule env_okD(5) [OF E ne])
  then have out: "loc \<notin> dom (loc2tag m)" "loc \<notin> mdel m" "unat loc < max_points m" using sl by blast+
  have r: "reserve_location E m = Some (loc, m')"
    using free ne by (simp add: reserve_location_def Let_def loc_def m'_def)
  have mp: "max_points m' = max_points m" by (simp add: m'_def max_points_def)
  have "loc \<noteq> no_loc"
  proof
    assume "loc = no_loc"
    then have "unat loc = 2 ^ 32 - 1" by simp
    then show False using out(3) k by simp
  qed
  moreover have "card (mslots m') + 1 = card (mslots m)"
    using loc by (simp add: m'_def card_Diff_singleton card_gt_0_iff finite_subset [OF subset_UNIV] Suc_leI ne)
  then have "mnd m' + card (mslots m') = max_points m" using sl by (simp add: m'_def)
  moreover have "mdel m' = mdel m" "mslots m' = mslots m - {loc}" using out by (simp_all add: m'_def)
  moreover have "unat (mep m') < max_points m'" using k free mp by (simp add: m'_def)
  ultimately have "reserved E m loc m'"
    using k sl out loc free mp unfolding reserved_def by (auto simp: m'_def)
  then show ?thesis using r \<open>loc \<noteq> no_loc\<close> by blast
qed

definition has_room :: "'v mem_env \<Rightarrow> ('v, 't) mem_index \<Rightarrow> bool" where
  "has_room E m \<longleftrightarrow> mnd m < max_points m \<or> max (grown E (max_points m)) 50000 < 2 ^ 32"

lemma reserve_any:
  assumes E: "env_ok E" and ok: "mem_ok E m" and room: "has_room E m"
  shows "\<exists>l0 m0 loc m'. reserve_location E m = Some (l0, m0) \<and> reserve_loop E l0 m0 = Some (loc, m') \<and> reserved E m loc m'"
proof (cases "mnd m < max_points m")
  case True
  obtain loc m' where r: "reserve_location E m = Some (loc, m')" "loc \<noteq> no_loc" "reserved E m loc m'"
    using reserve_free [OF E ok True] by blast
  then have "reserve_loop E loc m' = Some (loc, m')" by (subst reserve_loop.simps) simp
  then show ?thesis using r by blast
next
  case False
  let ?m = "mem_resize E (grown E (max_points m)) m"
  have full: "mnd m = max_points m" using False ok by (simp add: mem_ok_def slots_ok_def)
  have N: "max (grown E (max_points m)) 50000 < 2 ^ 32" using room False by (simp add: has_room_def)
  have more: "max_points m < max (grown E (max_points m)) 50000" by (rule grown_more [OF env_okD(1) [OF E]])
  note rs = resize_ok [OF ok full more N]
  have "mnd ?m < max_points ?m" using full more unfolding rs(2,3) by simp
  then obtain loc m' where r: "reserve_location E ?m = Some (loc, m')" "loc \<noteq> no_loc" "reserved E ?m loc m'"
    using reserve_free [OF E rs(1)] by blast
  have first: "reserve_location E m = Some (no_loc, m)" using full by (simp add: reserve_location_def)
  have "reserve_loop E no_loc m = reserve_loop E loc m'"
    using full r(1) by (subst reserve_loop.simps) simp
  also have "\<dots> = Some (loc, m')" using r(2) by (subst reserve_loop.simps) simp
  finally have "reserve_loop E no_loc m = Some (loc, m')" .
  moreover have "reserved E m loc m'"
    unfolding reserved_def
  proof (intro conjI)
    note d = r(3) [unfolded reserved_def rs(2,3,7-10)]
    show "max_points m \<le> max_points m'" using d more by linarith
    show "\<forall>i < max_points m. mdata m' ! i = mdata m ! i \<and> mgraph m' ! i = mgraph m ! i"
      using d rs(4,5) more by (metis less_trans)
    show "\<forall>i. max_points m \<le> i \<and> i < max_points m' \<longrightarrow> mgraph m' ! i = []"
      using d rs(6) by (metis not_le)
  qed (use r(3) [unfolded reserved_def rs(2,3,7-10)] in blast)+
  ultimately show ?thesis using first by blast
qed

subsection \<open>The domain of the calls\<close>

text \<open>What the code asks of a call besides room. The tag of an insertion is new (the comment at
  \<open>insert_point\<close> in \<open>index.h\<close>). The two asserts of an insertion hold where the entry point is a slot in use
  (\<open>!pruned_list.empty()\<close>) and where the slot the hash set gives lies below the number of points, which the
  reservation has just raised (\<open>n < _nd\<close>).\<close>

definition entry_used :: "('v, 't) mem_index \<Rightarrow> bool" where
  "entry_used m \<longleftrightarrow> loc2tag m (mep m) \<noteq> None \<or> mep m \<in> mdel m"

definition slot_counted :: "'v mem_env \<Rightarrow> ('v, 't) mem_index \<Rightarrow> bool" where
  "slot_counted E m =
     (case do { (loc, m) \<leftarrow> reserve_location E m; reserve_loop E loc m } of
        None \<Rightarrow> False
      | Some (loc, m') \<Rightarrow> unat loc < mnd m')"

definition insert_allowed :: "'v mem_env \<Rightarrow> ('v, 't) mem_index \<Rightarrow> 't \<Rightarrow> bool" where
  "insert_allowed E m t \<longleftrightarrow> tag2loc m t = None \<and> slot_counted E m"

fun calls_allowed :: "'v mem_env \<Rightarrow> ('v, 't) mem_call list \<Rightarrow> ('v, 't) mem_index \<Rightarrow> bool" where
  "calls_allowed E [] m = True"
| "calls_allowed E (Call_insert p t # cs) m =
     (insert_allowed E m t \<and> (case insert_point E m p t of None \<Rightarrow> False | Some m \<Rightarrow> calls_allowed E cs m))"
| "calls_allowed E (Call_delete t # cs) m = calls_allowed E cs (snd (lazy_delete m t))"

subsection \<open>Insertion\<close>

text \<open>The nodes a search expanded, as candidates for the new node's links.\<close>

lemma expanded_pool_ok:
  assumes "walk_inv cmp data g q L ep s k"
  shows "distinct (map cid (expanded_pool loc (einfo s)))" "cid ` set (expanded_pool loc (einfo s)) = unat ` (eids s - {loc})"
    "\<forall>c \<in> set (expanded_pool loc (einfo s)). cid c < 2 ^ 32"
proof -
  note w = walk_invD [OF assms]
  have m: "map cid (expanded_pool loc (einfo s)) = map unat (filter (\<lambda>i. i \<noteq> loc) (map pid (einfo s)))"
    by (simp add: expanded_pool_def filter_map comp_def)
  show "distinct (map cid (expanded_pool loc (einfo s)))"
    unfolding m distinct_map using w(4) inj_on_subset [OF inj_unat] by (simp add: distinct_map)
  have "set (map cid (expanded_pool loc (einfo s))) = unat ` (eids s - {loc})" unfolding m w(3) by auto
  then show "cid ` set (expanded_pool loc (einfo s)) = unat ` (eids s - {loc})" by simp
  show "\<forall>c \<in> set (expanded_pool loc (einfo s)). cid c < 2 ^ 32"
  proof
    fix c assume "c \<in> set (expanded_pool loc (einfo s))"
    then obtain x :: "rat pool_nbr" where "cid c = unat (pid x)" by (auto simp: expanded_pool_def)
    then show "cid c < 2 ^ 32" using unsigned_less [of "pid x"] by simp
  qed
qed

text \<open>The new node's list, and what linking back does.\<close>

lemma link_new_ok:
  assumes E: "env_ok E" and g: "adj_ok E g" "length g = length data" "length data < 2 ^ 32"
    and loc: "unat loc < length data" "unat ep < length data"
  shows "\<exists>s ids g'. iterate_to_fixed_point (ecmp E) (esrt E) data g q (eL E) [ep] = Some s \<and>
    prune_ids E data (expanded_pool loc (einfo s)) = Some ids \<and> inter_insert E data loc ids (g[unat loc := ids]) = Some g' \<and>
    length g' = length g \<and> adj_ok E g' \<and> g' ! unat loc = ids \<and> length ids \<le> bR (epar E) \<and> (loc \<noteq> ep \<longrightarrow> ids \<noteq> []) \<and>
    (\<forall>d \<in> set ids. loc \<in> set (g' ! unat d) \<or> slack (bR (epar E)) \<le> length (g ! unat d)) \<and> set ids \<subseteq> reachable g ep \<and>
    (\<forall>c. unat c < length g \<longrightarrow> c \<noteq> loc \<longrightarrow> set (g' ! unat c) \<subseteq> insert loc (set (g ! unat c)))"
proof -
  note e = env_okD [OF E]
  have gok: "graph_ok data g" by (rule adj_graph_ok [OF g(1,2)]) (use g(3) in simp)
  obtain s where s: "iterate_to_fixed_point (ecmp E) (esrt E) data g q (eL E) [ep] = Some s"
    "walk_inv (ecmp E) data g q (eL E) ep s (bl s)" using iterate_ends [OF gok loc(2) e(9,2,4)] by blast
  note ex = expanded_pool_ok [OF s(2), of loc]
  obtain ids where ids: "prune_ids E data (expanded_pool loc (einfo s)) = Some ids" "distinct ids" "length ids \<le> bR (epar E)"
    "unat ` set ids \<subseteq> unat ` (eids s - {loc})" "expanded_pool loc (einfo s) \<noteq> [] \<longrightarrow> ids \<noteq> []"
    using prune_ids_ok [OF E ex(1,3)] unfolding ex(2) by blast
  have sub: "set ids \<subseteq> eids s - {loc}" using ids(4) inj_image_subset_iff [OF inj_unat] by blast
  have range: "\<forall>d \<in> eids s. unat d < length data"
    using walk_invD(6) [OF s(2)] pool_invD(7) [OF walk_invD(1) [OF s(2)]] by blast
  have "list_ok E (length g) loc ids"
    using ids(2,3) sub range g(2) slack_ge [of "bR (epar E)"] by (auto simp: list_ok_def)
  then have adj: "adj_ok E (g[unat loc := ids])" by (rule adj_ok_update [OF g(1)])
  have pre: "length (g[unat loc := ids]) = length data" "\<forall>d \<in> set ids. unat d < length data \<and> d \<noteq> loc"
    using g(2) sub range by auto
  have other: "g[unat loc := ids] ! unat d = g ! unat d" if "d \<noteq> loc" for d
    using that by (simp add: word_unat_eq_iff)
  obtain g' where g': "inter_insert E data loc ids (g[unat loc := ids]) = Some g'" "length g' = length (g[unat loc := ids])" "adj_ok E g'"
    "\<forall>c. c \<notin> set ids \<longrightarrow> unat c < length (g[unat loc := ids]) \<longrightarrow> g' ! unat c = g[unat loc := ids] ! unat c"
    "\<forall>d \<in> set ids. set (g' ! unat d) \<subseteq> insert loc (set (g[unat loc := ids] ! unat d)) \<and>
       (loc \<in> set (g' ! unat d) \<or> slack (bR (epar E)) \<le> length (g[unat loc := ids] ! unat d))"
    using inter_insert_ok [OF E loc(1) pre(1) adj pre(2) ids(2)] by blast
  have "g' ! unat loc = ids" using g'(4) sub loc(1) g(2) by auto
  moreover have "loc \<noteq> ep \<longrightarrow> ids \<noteq> []"
  proof
    assume "loc \<noteq> ep"
    then have "unat ep \<in> cid ` set (expanded_pool loc (einfo s))" unfolding ex(2) using walk_end(4) [OF s(2)] by blast
    then show "ids \<noteq> []" using ids(5) by auto
  qed
  moreover have "\<forall>d \<in> set ids. loc \<in> set (g' ! unat d) \<or> slack (bR (epar E)) \<le> length (g ! unat d)"
  proof
    fix d assume d: "d \<in> set ids"
    then have "d \<noteq> loc" using sub by blast
    from other [OF this] show "loc \<in> set (g' ! unat d) \<or> slack (bR (epar E)) \<le> length (g ! unat d)"
      using g'(5) d by auto
  qed
  moreover have "length g' = length g" using g'(2) by simp
  moreover have "set ids \<subseteq> reachable g ep" using sub walk_invD(6,9) [OF s(2)] by blast
  moreover have "\<forall>c. unat c < length g \<longrightarrow> c \<noteq> loc \<longrightarrow> set (g' ! unat c) \<subseteq> insert loc (set (g ! unat c))"
  proof (intro allI impI)
    fix c assume c: "unat c < length g" "c \<noteq> loc"
    show "set (g' ! unat c) \<subseteq> insert loc (set (g ! unat c))"
    proof (cases "c \<in> set ids")
      case True
      then have "set (g' ! unat c) \<subseteq> insert loc (set (g[unat loc := ids] ! unat c))" using g'(5) by blast
      then show ?thesis unfolding other [OF c(2)] .
    next
      case False
      then have "g' ! unat c = g[unat loc := ids] ! unat c" using g'(4) c(1) by simp
      then have "g' ! unat c = g ! unat c" unfolding other [OF c(2)] .
      then show ?thesis by (simp add: subset_insertI)
    qed
  qed
  ultimately show ?thesis using s(1) ids(1,3) g'(1,3) by blast
qed

lemma insert_point_ok:
  assumes E: "env_ok E" and ok: "mem_ok E m" and room: "has_room E m"
  shows "\<exists>m' loc. insert_point E m p t = Some m' \<and> mem_ok E m' \<and> tag2loc m' = (tag2loc m)(t \<mapsto> loc) \<and> loc2tag m loc = None \<and>
    loc \<notin> mdel m \<and> (slot_counted E (drop_tag m t) \<longrightarrow> unat loc < mnd m') \<and> mep m' = mep m \<and>
    dom (loc2tag m) \<union> mdel m \<subseteq> dom (loc2tag m') \<union> mdel m' \<and> (max_points m = 0 \<longrightarrow> set (mgraph m' ! unat loc) \<subseteq> {mep m}) \<and>
    unat loc < max_points m' \<and> mdata m' ! unat loc = eprep E p \<and>
    (\<forall>l. unat l < max_points m \<longrightarrow> l \<noteq> loc \<longrightarrow> mdata m' ! unat l = mdata m ! unat l) \<and> mnd m' = mnd m + 1 \<and>
    length (mgraph m' ! unat loc) \<le> bR (epar E) \<and> (loc \<noteq> mep m \<longrightarrow> mgraph m' ! unat loc \<noteq> []) \<and>
    (\<forall>d \<in> set (mgraph m' ! unat loc). loc \<in> set (mgraph m' ! unat d) \<or>
       unat d < max_points m \<and> slack (bR (epar E)) \<le> length (mgraph m ! unat d))"
proof -
  let ?m0 = "drop_tag m t"
  note k = ok [unfolded mem_ok_def]
  note dt = drop_tag_ok [of m t, OF conjunct1 [OF k] conjunct1 [OF conjunct2 [OF k]]]
  have mp0: "max_points ?m0 = max_points m" by (simp add: max_points_def dt(4))
  have ok0: "mem_ok E ?m0" using k dt unfolding mem_ok_def mp0 by simp
  have room0: "has_room E ?m0" using room unfolding has_room_def mp0 dt(6) .
  obtain l0 ma loc mb where r: "reserve_location E ?m0 = Some (l0, ma)" "reserve_loop E l0 ma = Some (loc, mb)" "reserved E ?m0 loc mb"
    using reserve_any [OF E ok0 room0] by blast
  note rs = r(3) [unfolded reserved_def mp0 dt(3-10)]
  define mc where "mc = mb\<lparr>tag2loc := (tag2loc mb)(t \<mapsto> loc), loc2tag := (loc2tag mb)(loc \<mapsto> t)\<rparr>"
  define data where "data = (mdata mb)[unat loc := eprep E p]"
  have len: "length data = max_points mb" "unat loc < length data" "unat (mep m) < length data" "length data < 2 ^ 32"
    "length (mgraph mb) = length data" "adj_ok E (mgraph mb)"
  proof -
    have "mep mb = mep m" "unat (mep mb) < max_points mb" using rs by blast+
    then show "unat (mep m) < length data" by (simp add: data_def max_points_def)
  qed (use rs in \<open>simp_all add: data_def max_points_def\<close>)
  obtain s ids g' where l: "iterate_to_fixed_point (ecmp E) (esrt E) data (mgraph mb) (data ! unat loc) (eL E) [mep m] = Some s"
    "prune_ids E data (expanded_pool loc (einfo s)) = Some ids" "inter_insert E data loc ids ((mgraph mb)[unat loc := ids]) = Some g'"
    "length g' = length (mgraph mb)" "adj_ok E g'" "g' ! unat loc = ids" "length ids \<le> bR (epar E)" "loc \<noteq> mep m \<longrightarrow> ids \<noteq> []"
    "\<forall>d \<in> set ids. loc \<in> set (g' ! unat d) \<or> slack (bR (epar E)) \<le> length (mgraph mb ! unat d)"
    "set ids \<subseteq> reachable (mgraph mb) (mep m)"
    using link_new_ok [OF E len(6,5,4) len(2,3), where q = "data ! unat loc"] by (elim exE conjE) (rule that)
  define m' where "m' = mc\<lparr>mdata := data, mgraph := g'\<rparr>"
  have ins: "insert_point E m p t = Some m'"
    using r(1,2) l(1-3) rs len(2) by (simp add: insert_point_def Let_def vec_put_def m'_def mc_def data_def)
  have mp: "max_points m' = max_points mb" by (simp add: m'_def max_points_def len(1) [unfolded max_points_def])
  have t2l: "tag2loc m' = (tag2loc m)(t \<mapsto> loc)" using rs by (simp add: m'_def mc_def)
  have l2t: "loc2tag m' = (loc2tag ?m0)(loc \<mapsto> t)" using rs by (simp add: m'_def mc_def dt(10))
  have fields: "mdel m' = mdel ?m0" "mslots m' = mslots mb" "mnd m' = mnd mb" "mep m' = mep m" using rs by (simp_all add: m'_def mc_def)
  have notin: "loc \<notin> dom (loc2tag ?m0)" "loc \<notin> mdel ?m0" using r(3) by (simp_all add: reserved_def)
  have dj: "dom (loc2tag ?m0) \<inter> mdel ?m0 = {}" using dt(2) by (simp add: slots_ok_def)
  have "tags_ok m'"
    using dt(1) notin(1) unfolding tags_ok_def t2l l2t dt(3) by (auto simp: dom_def split: if_splits)
  moreover have "slots_ok m'"
    using r(3) notin dj unfolding slots_ok_def mp reserved_def l2t fields by auto
  moreover have "unat (mep m') < max 1 (max_points m')" using len(1,3) unfolding fields mp by simp
  ultimately have "mem_ok E m'"
    using l(4,5) len unfolding mem_ok_def mp by (simp add: m'_def)
  moreover have used: "dom (loc2tag ?m0) \<union> mdel ?m0 = dom (loc2tag m) \<union> mdel m"
  proof -
    have "dom (loc2tag m) \<union> mdel m = slots_upto (max_points m) - mslots m" using k by (auto simp: slots_ok_def)
    moreover have "dom (loc2tag ?m0) \<union> mdel ?m0 = slots_upto (max_points m) - mslots m"
      using dt(2) unfolding slots_ok_def mp0 dt(8) by auto
    ultimately show ?thesis by blast
  qed
  moreover have "loc2tag m loc = None \<and> loc \<notin> mdel m" using notin used by blast
  moreover have "dom (loc2tag m) \<union> mdel m \<subseteq> dom (loc2tag m') \<union> mdel m'"
    unfolding used [symmetric] l2t fields by auto
  moreover have "slot_counted E ?m0 \<longrightarrow> unat loc < mnd m'"
    using r(1,2) fields(3) by (simp add: slot_counted_def)
  moreover have "set ids \<subseteq> {mep m}" if "max_points m = 0"
  proof -
    have "mgraph mb ! i = []" if "i < length (mgraph mb)" for i
      using rs that \<open>max_points m = 0\<close> len(1,5) by (metis not_less_zero not_le_imp_less)
    then have "edges (mgraph mb) = {}" by (auto simp: edges_def)
    then show ?thesis using l(10) by (auto simp: reachable_def)
  qed
  moreover have "mdata m' ! unat l = mdata m ! unat l" if "unat l < max_points m" "l \<noteq> loc" for l
    using that rs len(2) by (simp add: m'_def data_def word_unat_eq_iff)
  moreover have "mdata m' ! unat loc = eprep E p" using len(2) by (simp add: m'_def data_def)
  moreover have "\<forall>d \<in> set ids. loc \<in> set (g' ! unat d) \<or> unat d < max_points m \<and> slack (bR (epar E)) \<le> length (mgraph m ! unat d)"
  proof
    fix d assume d: "d \<in> set ids"
    show "loc \<in> set (g' ! unat d) \<or> unat d < max_points m \<and> slack (bR (epar E)) \<le> length (mgraph m ! unat d)"
    proof (cases "loc \<in> set (g' ! unat d)")
      case False
      then have s: "slack (bR (epar E)) \<le> length (mgraph mb ! unat d)" using l(9) d by blast
      then have "mgraph mb ! unat d \<noteq> []" using env_okD(6) [OF E] slack_ge [of "bR (epar E)"] by auto
      moreover have "unat d < length g'"
        using adj_okD [OF l(5), of loc] l(4,6) len(2,5) d by (auto simp: list_ok_def)
      ultimately have "unat d < max_points m" using rs l(4) len(1,5) by (metis not_le)
      then show ?thesis using s rs by simp
    qed blast
  qed
  ultimately show ?thesis
    using ins t2l l(6-8) rs len(1,2) fields(3,4) mp
    by (intro exI [of _ m'] exI [of _ loc]) (simp add: m'_def)
qed

definition env1 :: "rat mem_env" where
  "env1 = \<lparr>ecmp = gap, esrt = isort nbr_lt, ecsrt = isort cand_less, ernd = id, eprep = id, ezero = 0, epick = Min,
     emetric = L2, epar = \<lparr>bR = 2, bC = 5, balpha = 6 / 5, bsaturate = True\<rparr>, eL = 3\<rparr>"

lemma env1_ok: "env_ok env1"
  using nbr_lt.isort.std_sort_axioms cand_less.isort.std_sort_axioms gap_sym Min_in
  by (auto simp: env_ok_def env1_def finite_subset [OF subset_UNIV])

lemma env1_room: "has_room env1 new_index"
  by (simp add: has_room_def grown_def env1_def new_index_def max_points_def)

text \<open>What an index holds.\<close>

definition contents :: "('v, 't) mem_index \<Rightarrow> 't \<rightharpoonup> 'v" where
  "contents m t = map_option (\<lambda>l. mdata m ! unat l) (tag2loc m t)"

lemma drop_fresh: "tag2loc m t = None \<Longrightarrow> drop_tag m t = m"
  by (simp add: drop_tag_def)

lemma lazy_delete_ok:
  assumes "mem_ok E m"
  shows "mem_ok E (snd (lazy_delete m t))" "contents (snd (lazy_delete m t)) = (contents m)(t := None)"
    "mnd (snd (lazy_delete m t)) = mnd m" "entry_used m \<Longrightarrow> entry_used (snd (lazy_delete m t))"
proof -
  note k = assms [unfolded mem_ok_def]
  note dt = drop_tag_ok [of m t, OF conjunct1 [OF k] conjunct1 [OF conjunct2 [OF k]]]
  have d: "snd (lazy_delete m t) = drop_tag m t" by (simp add: lazy_delete_def drop_tag_def split: option.splits)
  show "mem_ok E (snd (lazy_delete m t))" using k dt unfolding d mem_ok_def max_points_def by simp
  show "contents (snd (lazy_delete m t)) = (contents m)(t := None)" unfolding d by (rule ext) (simp add: contents_def dt(3,4))
  show "mnd (snd (lazy_delete m t)) = mnd m" unfolding d by (rule dt(6))
  show "entry_used m \<Longrightarrow> entry_used (snd (lazy_delete m t))"
    unfolding d by (auto simp: entry_used_def drop_tag_def split: option.splits)
qed

text \<open>A small index with two points and two empty slots.\<close>

definition two_live :: "(rat, string) mem_index" where
  "two_live = \<lparr>mdata = [5, 7, 0, 0], mgraph = [[1], [0], [], []], mnd = 2, mwidth = 1, mep = 0,
     tag2loc = [''a'' \<mapsto> 0, ''b'' \<mapsto> 1], loc2tag = [0 \<mapsto> ''a'', 1 \<mapsto> ''b''], mdel = {}, mslots = {2, 3}\<rparr>"

lemma two_live_ok: "mem_ok env1 two_live" "entry_used two_live" "has_room env1 two_live" "insert_allowed env1 two_live ''c''"
proof -
  have u: "unat l < 4 \<longleftrightarrow> l = 0 \<or> l = 1 \<or> l = 2 \<or> l = 3" for l :: u32
    by (auto simp: word_unat_eq_iff)
  have "tags_ok two_live" by (auto simp: tags_ok_def two_live_def split: if_splits)
  moreover have "slots_ok two_live"
  proof -
    have "max_points two_live = 4" "dom (loc2tag two_live) = {1, 0}" "mdel two_live = {}" "mslots two_live = {2, 3}"
      "mnd two_live = 2" by (simp_all add: two_live_def max_points_def)
    then show ?thesis unfolding slots_ok_def using u by auto
  qed
  moreover have "adj_ok env1 (mgraph two_live)"
    unfolding adj_ok_def
  proof (intro allI impI)
    fix c :: u32 assume "unat c < length (mgraph two_live)"
    then have "c = 0 \<or> c = 1 \<or> c = 2 \<or> c = 3" using u [of c] by (simp add: two_live_def)
    then show "list_ok env1 (length (mgraph two_live)) c (mgraph two_live ! unat c)"
      by (elim disjE) (simp_all add: list_ok_def env1_def slack_def two_live_def)
  qed
  ultimately show "mem_ok env1 two_live" by (simp add: mem_ok_def two_live_def max_points_def)
  show "entry_used two_live" "has_room env1 two_live"
    by (simp_all add: entry_used_def has_room_def two_live_def max_points_def)
  have "Min {2, 3 :: u32} = 2" by simp
  then show "insert_allowed env1 two_live ''c''"
    by (simp add: insert_allowed_def slot_counted_def reserve_location_def two_live_def max_points_def env1_def reserve_loop.simps)
qed

text \<open> C18. Both updates keep the index well formed: every slot is live, deleted or empty, the two tag maps are
  inverse, every neighbor list is in range, without repetition, without the node itself and within the slack,
  and the entry point stays a slot in use. A deletion always returns; an insertion returns for a new tag, when
  there is an empty slot or the grown size is below \<open>2 ^ 32\<close>, on an index whose entry point is in use and whose
  reserved slot is below the number of points, which are the asserts of the code.\<close>

theorem mem_updates_keep:
  assumes "env_ok E" "mem_ok E m" "has_room E m" "entry_used m" "insert_allowed E m t"
  shows "(\<exists>m'. insert_point E m p t = Some m' \<and> mem_ok E m' \<and> entry_used m') \<and>
    mem_ok E (snd (lazy_delete m u)) \<and> entry_used (snd (lazy_delete m u))"
proof -
  obtain m' loc where m': "insert_point E m p t = Some m'" "mem_ok E m'" "mep m' = mep m"
    "dom (loc2tag m) \<union> mdel m \<subseteq> dom (loc2tag m') \<union> mdel m'"
    using insert_point_ok [OF assms(1-3), of p t] by blast
  then have "entry_used m'" using assms(4) by (auto simp: entry_used_def)
  then have "\<exists>m'. insert_point E m p t = Some m' \<and> mem_ok E m' \<and> entry_used m'" using m'(1,2) by blast
  then show ?thesis using lazy_delete_ok(1,4) [OF assms(2)] assms(4) by blast
qed

theorem mem_updates_keep_witness:
  "(\<exists>m'. insert_point env1 two_live 9 ''c'' = Some m' \<and> mem_ok env1 m' \<and> entry_used m') \<and>
   mem_ok env1 (snd (lazy_delete two_live ''a''))"
  using mem_updates_keep [OF env1_ok two_live_ok(1,3,2,4), of 9 "''a''"] by blast

text \<open> C20. The links of an inserted point, where there is an empty slot or the grown size is below \<open>2 ^ 32\<close>, the tag is
  new, the entry point is a slot in use and the reserved slot is below the number of points: at least one link, at most \<open>R\<close>, each of them in range, and each neighbor
  links back, except one whose list was full and was pruned again.\<close>

theorem insert_point_links:
  assumes "env_ok E" "mem_ok E m" "has_room E m" "entry_used m" "insert_allowed E m t"
  shows "\<exists>m' loc. insert_point E m p t = Some m' \<and> tag2loc m' t = Some loc \<and> unat loc < mnd m' \<and>
    mgraph m' ! unat loc \<noteq> [] \<and> length (mgraph m' ! unat loc) \<le> bR (epar E) \<and>
    (\<forall>d \<in> set (mgraph m' ! unat loc). unat d < max_points m' \<and> d \<noteq> loc \<and> (loc \<in> set (mgraph m' ! unat d) \<or>
       unat d < max_points m \<and> slack (bR (epar E)) \<le> length (mgraph m ! unat d)))"
proof -
  have f: "drop_tag m t = m" "slot_counted E m" using assms(5) drop_fresh by (auto simp: insert_allowed_def)
  obtain m' loc where m': "insert_point E m p t = Some m'" "mem_ok E m'" "tag2loc m' t = Some loc" "loc2tag m loc = None"
    "loc \<notin> mdel m" "unat loc < mnd m'" "unat loc < max_points m'" "length (mgraph m' ! unat loc) \<le> bR (epar E)"
    "loc \<noteq> mep m \<longrightarrow> mgraph m' ! unat loc \<noteq> []" "\<forall>d \<in> set (mgraph m' ! unat loc). loc \<in> set (mgraph m' ! unat d) \<or>
       unat d < max_points m \<and> slack (bR (epar E)) \<le> length (mgraph m ! unat d)"
    using insert_point_ok [OF assms(1-3), of p t] f by (elim exE conjE) (rule that, simp_all)
  have "loc \<noteq> mep m" using m'(4,5) assms(4) by (auto simp: entry_used_def)
  moreover have "list_ok E (max_points m') loc (mgraph m' ! unat loc)"
    using m'(2,7) adj_okD [of E "mgraph m'" loc] by (simp add: mem_ok_def)
  ultimately show ?thesis
    using m' by (intro exI [of _ m'] exI [of _ loc]) (auto simp: list_ok_def)
qed

theorem insert_point_links_witness:
  "\<exists>m' loc. insert_point env1 two_live 9 ''c'' = Some m' \<and> tag2loc m' ''c'' = Some loc \<and>
     mgraph m' ! unat loc \<noteq> [] \<and> length (mgraph m' ! unat loc) \<le> 2 \<and>
     (\<forall>d \<in> set (mgraph m' ! unat loc). loc \<in> set (mgraph m' ! unat d))"
proof -
  obtain m' loc where m': "insert_point env1 two_live 9 ''c'' = Some m'" "tag2loc m' ''c'' = Some loc"
    "mgraph m' ! unat loc \<noteq> []" "length (mgraph m' ! unat loc) \<le> 2"
    "\<forall>d \<in> set (mgraph m' ! unat loc). loc \<in> set (mgraph m' ! unat d) \<or> unat d < 4 \<and> 2 \<le> length (mgraph two_live ! unat d)"
    using insert_point_links [OF env1_ok two_live_ok(1,3,2,4), of 9]
 by (elim exE conjE) (rule that, auto simp: env1_def slack_def max_points_def two_live_def)
  have "length (mgraph two_live ! i) < 2" if "i < 4" for i
    using that by (auto simp: two_live_def less_Suc_eq eval_nat_numeral)
  then show ?thesis using m' by (metis not_le)
qed

text \<open>The first point of an empty index breaks an assert, whichever slot it gets: it has no neighbor to link to,
  or its slot is not below the number of points.\<close>

theorem first_insert_unlinked:
  fixes t :: 't
  assumes "env_ok E" "has_room E (new_index :: ('v, 't) mem_index)"
  shows "\<exists>m' loc. insert_point E new_index p t = Some m' \<and> tag2loc m' t = Some loc \<and>
    (mgraph m' ! unat loc = [] \<or> \<not> unat loc < mnd m')"
proof -
  obtain m' loc where m': "insert_point E new_index p t = Some m'" "mem_ok E m'" "tag2loc m' t = Some loc"
    "set (mgraph m' ! unat loc) \<subseteq> {0}" "mnd m' = 1" "unat loc < max_points m'"
    using insert_point_ok [OF assms(1) new_index_ok assms(2), of p t]
    by (elim exE conjE) (rule that, auto simp: new_index_def max_points_def)
  have "list_ok E (max_points m') loc (mgraph m' ! unat loc)"
    using m'(2,6) adj_okD [of E "mgraph m'" loc] by (simp add: mem_ok_def)
  then have "mgraph m' ! unat loc = []" if "loc = 0"
    using m'(4) that by (cases "mgraph m' ! unat loc") (auto simp: list_ok_def)
  then show ?thesis using m'(1,3,5) by (intro exI [of _ m'] exI [of _ loc]) (auto simp: unat_gt_0)
qed

subsection \<open>The index as a map from tags to vectors\<close>

fun map_run :: "('v \<Rightarrow> 'v) \<Rightarrow> ('v, 't) mem_call list \<Rightarrow> ('t \<rightharpoonup> 'v) \<Rightarrow> ('t \<rightharpoonup> 'v)" where
  "map_run prep [] f = f"
| "map_run prep (Call_insert p t # cs) f = map_run prep cs (f(t \<mapsto> prep p))"
| "map_run prep (Call_delete t # cs) f = map_run prep cs (f(t := None))"

lemma grown_fits:
  assumes "rounds_nearest (ernd E)" "ernd E 0 = 0" "n < 2 ^ 31"
  shows "grown E n < 2 ^ 32"
proof (cases "n = 0")
  case False
  let ?x = "ernd E (of_nat n)"
  have up: "ernd E x \<le> x * (1 + 1 / 16777216)" if "1 / 2 \<le> x" "x \<le> 2 ^ 33" for x :: rat
    using assms(1) that by (simp add: rounds_nearest_def float_max_def)
  have n: "(1 :: rat) \<le> of_nat n" "of_nat n \<le> (2 ^ 31 :: rat)" using False assms(3) by simp_all
  have x: "?x \<le> of_nat n * (1 + 1 / 16777216)" by (rule up) (use n in simp_all)
  have "of_nat n * (1 - 1 / 16777216) \<le> ?x" using assms(1) n(1) unfolding rounds_nearest_def by simp
  then have "1 / 2 \<le> ?x * (3 / 2)" using n(1) by simp
  moreover have "?x * (3 / 2) \<le> 2 ^ 33" using x n(2) by simp
  ultimately have "ernd E (?x * (3 / 2)) \<le> ?x * (3 / 2) * (1 + 1 / 16777216)" by (rule up)
  then have "ernd E (?x * (3 / 2)) < 2 ^ 32" using x n(2) by simp
  then have "\<lfloor>ernd E (?x * (3 / 2))\<rfloor> < int (2 ^ 32)" by (simp add: floor_less_iff)
  moreover have "nat z < b" if "z < int b" "0 < b" for z b using that by (cases z) auto
  ultimately show ?thesis unfolding grown_def by simp
qed (use assms(2) in \<open>simp add: grown_def\<close>)

lemma insert_contents:
  assumes "tags_ok m" "slots_ok m" "tag2loc m' = (tag2loc m)(t \<mapsto> loc)" "loc2tag m loc = None"
    "mdata m' ! unat loc = v" "\<forall>l. unat l < max_points m \<longrightarrow> l \<noteq> loc \<longrightarrow> mdata m' ! unat l = mdata m ! unat l"
  shows "contents m' = (contents m)(t \<mapsto> v)"
proof
  fix u
  show "contents m' u = ((contents m)(t \<mapsto> v)) u"
  proof (cases "u = t")
    case False
    show ?thesis
    proof (cases "tag2loc m u")
      case (Some l)
      then have "loc2tag m l = Some u" using assms(1) by (simp add: tags_ok_def)
      then have "l \<noteq> loc" "unat l < max_points m" using assms(2,4) by (auto simp: slots_ok_def)
      then show ?thesis using Some False assms(3,6) by (simp add: contents_def)
    qed (use False assms(3) in \<open>simp add: contents_def\<close>)
  qed (use assms(3,5) in \<open>simp add: contents_def\<close>)
qed

lemma mem_run_ok:
  assumes E: "env_ok E" and "mem_ok E m" "mnd m + length cs < 2 ^ 31"
  shows "\<exists>m'. mem_run E cs m = Some m' \<and> mem_ok E m' \<and> contents m' = map_run (eprep E) cs (contents m) \<and>
    (entry_used m \<longrightarrow> entry_used m')"
  using assms(2,3)
proof (induction cs arbitrary: m)
  case (Cons c cs)
  note k = Cons.prems(1) [unfolded mem_ok_def]
  show ?case
  proof (cases c)
    case (Call_insert p t)
    have "has_room E m"
    proof (cases "mnd m < max_points m")
      case False
      then have "max_points m < 2 ^ 31" using k Cons.prems(2) by (simp add: slots_ok_def)
      then show ?thesis using grown_fits [OF env_okD(1,10) [OF E]] by (simp add: has_room_def)
    qed (simp add: has_room_def)
    from insert_point_ok [OF E Cons.prems(1) this, of p t] obtain m' loc where
      m': "insert_point E m p t = Some m'" "mem_ok E m'" "tag2loc m' = (tag2loc m)(t \<mapsto> loc)" "loc2tag m loc = None"
      "mdata m' ! unat loc = eprep E p" "\<forall>l. unat l < max_points m \<longrightarrow> l \<noteq> loc \<longrightarrow> mdata m' ! unat l = mdata m ! unat l"
      "mnd m' = mnd m + 1" "mep m' = mep m" "dom (loc2tag m) \<union> mdel m \<subseteq> dom (loc2tag m') \<union> mdel m'" by blast
    have "contents m' = (contents m)(t \<mapsto> eprep E p)" using insert_contents [OF _ _ m'(3-6)] k by blast
    moreover have "mnd m' + length cs < 2 ^ 31" using m'(7) Cons.prems(2) by simp
    moreover have "mem_run E (c # cs) m = mem_run E cs m'" using m'(1) by (simp add: Call_insert)
    moreover have "entry_used m \<longrightarrow> entry_used m'" using m'(8,9) by (auto simp: entry_used_def)
    ultimately show ?thesis using Cons.IH [OF m'(2)] unfolding Call_insert map_run.simps by metis
  next
    case (Call_delete t)
    note d = lazy_delete_ok [OF Cons.prems(1), of t]
    have "mnd (snd (lazy_delete m t)) + length cs < 2 ^ 31" using d(3) Cons.prems(2) by simp
    moreover have "mem_run E (c # cs) m = mem_run E cs (snd (lazy_delete m t))" by (simp add: Call_delete)
    ultimately show ?thesis using Cons.IH [OF d(1)] d(2,4) unfolding Call_delete map_run.simps by metis
  qed
qed simp


declare fix_loop.simps [code] reserve_loop.simps [code] prune_loop.simps [code]


end
