(* ===== verification/MemConsolidate.thy ===== *)
theory MemConsolidate
  imports MemIndex
begin

text \<open>
  \<open>consolidate\<close> of \<open>PipeANN/src/index.cpp\<close>: deleted points are cut out of the graph, the slots are
  compacted, the tags follow, and a new entry point is searched. The parallel loop writes only lists of live
  points and reads, besides a point's own list, only lists of deleted ones, so its rounds do not interfere;
  here they read the graph as it was. The order of a hash set is the argument \<open>ord\<close>, and \<open>ts\<close> are the keys
  of \<open>_tag_to_location\<close> in the order of its iteration.
\<close>

text \<open>Step 1: \<open>id_map\<close> and \<open>new_nd\<close>.\<close>

fun number_live :: "(u32 \<rightharpoonup> 't) \<Rightarrow> nat list \<Rightarrow> nat \<Rightarrow> u32 list \<times> nat" where
  "number_live l2t [] k = ([], k)"
| "number_live l2t (i # ids) k =
     (if l2t (of_nat i) \<noteq> None
      then (of_nat k # fst (number_live l2t ids (k + 1)), snd (number_live l2t ids (k + 1)))
      else (no_loc # fst (number_live l2t ids k), snd (number_live l2t ids k)))"

text \<open>Step 2: \<open>new_nbrs_set\<close>, and the new list of a live point. An id out of range is an access outside
  \<open>id_map\<close>.\<close>

fun live_nbrs :: "u32 list list \<Rightarrow> u32 list \<Rightarrow> u32 \<Rightarrow> u32 list \<Rightarrow> u32 set option" where
  "live_nbrs g idm i [] = Some {}"
| "live_nbrs g idm i (n # ns) = do {
     x \<leftarrow> vec_at idm (unat n);
     S \<leftarrow> (if x = no_loc then do {
             ms \<leftarrow> vec_at g (unat n);
             if \<forall>k \<in> set ms. unat k < length idm then Some {k \<in> set ms. idm ! unat k \<noteq> no_loc \<and> k \<noteq> i} else None
           } else Some {n});
     T \<leftarrow> live_nbrs g idm i ns;
     Some (S \<union> T)
   }"

definition new_list :: "'v mem_env \<Rightarrow> (u32 set \<Rightarrow> u32 list) \<Rightarrow> 'v list \<Rightarrow> u32 list list \<Rightarrow> u32 list \<Rightarrow> nat \<Rightarrow> u32 list option" where
  "new_list E ord data g idm i =
     (if idm ! i = no_loc then Some (g ! i)
      else do {
        S \<leftarrow> live_nbrs g idm (of_nat i) (g ! i);
        let ns = ord S;
        ns \<leftarrow> (if length ns > bR (epar E) then do { pool \<leftarrow> pool_of E data (of_nat i) ns; prune_ids E data pool } else Some ns);
        Some (map (\<lambda>n. idm ! unat n) ns)
      })"

text \<open>The compaction; a list that was moved away is empty.\<close>

fun compact_slots :: "u32 list \<Rightarrow> nat list \<Rightarrow> u32 list list \<times> 'v list \<Rightarrow> u32 list list \<times> 'v list" where
  "compact_slots idm [] (g, data) = (g, data)"
| "compact_slots idm (i # ids) (g, data) =
     (let n = unat (idm ! i) in
      if idm ! i = no_loc \<or> n = i then compact_slots idm ids (g, data)
      else compact_slots idm ids (g[n := g ! i, i := []], data[n := data ! i]))"

text \<open>Step 3: the tags.\<close>

fun move_tags :: "('t \<rightharpoonup> u32) \<Rightarrow> u32 list \<Rightarrow> 't list \<Rightarrow> ('t \<rightharpoonup> u32) \<times> (u32 \<rightharpoonup> 't) \<Rightarrow> ('t \<rightharpoonup> u32) \<times> (u32 \<rightharpoonup> 't)" where
  "move_tags t2l idm [] (a, b) = (a, b)"
| "move_tags t2l idm (t # ts) (a, b) =
     (case t2l t of
        None \<Rightarrow> move_tags t2l idm ts (a, b)
      | Some l \<Rightarrow> let n = idm ! unat l in
          if n \<noteq> no_loc then move_tags t2l idm ts (a(t \<mapsto> n), b(n \<mapsto> t)) else move_tags t2l idm ts (a, b))"

definition consolidate ::
  "'v mem_env \<Rightarrow> (u32 set \<Rightarrow> u32 list) \<Rightarrow> 't list \<Rightarrow> ('v, 't) mem_index \<Rightarrow> ('v, 't) mem_index option" where
  "consolidate E ord ts m =
     (if mdel m = {} then Some m
      else do {
        let (idm, nd) = number_live (loc2tag m) [0..<max_points m] 0;
        q \<leftarrow> vec_at (mdata m) (unat (mep m));
        g \<leftarrow> those (map (new_list E ord (mdata m) (mgraph m) idm) [0..<max_points m]);
        let (g, data) = compact_slots idm [0..<max_points m] (g, mdata m);
        let g = take nd g @ replicate (max_points m - nd) [];
        let (t2l, l2t) = move_tags (tag2loc m) idm ts (Map.empty, Map.empty);
        out \<leftarrow> mem_search (ecmp E) (esrt E) (eprep E) data g (mep m) q 1 10;
        (ep, _) \<leftarrow> vec_at out 0;
        Some (m\<lparr>mdata := data, mgraph := g, mnd := nd, mep := ep, tag2loc := t2l, loc2tag := l2t, mdel := {},
               mslots := of_nat ` {nd..<max_points m}\<rparr>)
      })"

subsection \<open>The numbering\<close>

definition live_rank :: "(u32 \<rightharpoonup> 't) \<Rightarrow> nat \<Rightarrow> nat" where
  "live_rank l2t i = length (filter (\<lambda>j. l2t (of_nat j) \<noteq> None) [0..<i])"

lemma number_live_eq:
  "number_live l2t [i..<j] (live_rank l2t i) =
     (map (\<lambda>k. if l2t (of_nat k) \<noteq> None then of_nat (live_rank l2t k) else no_loc) [i..<j], live_rank l2t (max i j))"
proof (induction "j - i" arbitrary: i)
  case (Suc n)
  then have ij: "i < j" by simp
  then have u: "[i..<j] = i # [Suc i..<j]" by (simp add: upt_rec)
  have r: "live_rank l2t (Suc i) = (if l2t (of_nat i) \<noteq> None then live_rank l2t i + 1 else live_rank l2t i)"
    by (simp add: live_rank_def)
  have IH: "number_live l2t [Suc i..<j] (live_rank l2t (Suc i)) =
     (map (\<lambda>k. if l2t (of_nat k) \<noteq> None then of_nat (live_rank l2t k) else no_loc) [Suc i..<j], live_rank l2t (max (Suc i) j))"
    by (rule Suc.hyps(1)) (use Suc.hyps(2) in simp)
  have "max (Suc i) j = max i j" using ij by simp
  then show ?case unfolding u using IH r by (cases "l2t (of_nat i)") simp_all
qed simp

lemma live_rank_mono: "i \<le> j \<Longrightarrow> live_rank l2t i \<le> live_rank l2t j"
  by (induction j) (auto simp: live_rank_def le_Suc_eq)

lemma live_rank_less: "i < j \<Longrightarrow> l2t (of_nat i) \<noteq> None \<Longrightarrow> live_rank l2t i < live_rank l2t j"
  using live_rank_mono [of "Suc i" j l2t] by (simp add: live_rank_def)

lemma live_rank_le: "live_rank l2t i \<le> i"
  unfolding live_rank_def using length_filter_le [of _ "[0..<i]"] by (metis diff_zero length_upt)

lemma live_rank_onto:
  "k < live_rank l2t n \<Longrightarrow> \<exists>i < n. l2t (of_nat i) \<noteq> None \<and> live_rank l2t i = k"
proof (induction n)
  case (Suc n)
  show ?case
  proof (cases "k < live_rank l2t n")
    case False
    then have "l2t (of_nat n) \<noteq> None" "k = live_rank l2t n"
      using Suc.prems by (auto simp: live_rank_def split: if_splits)
    then show ?thesis by blast
  qed (use Suc.IH in \<open>auto simp: less_Suc_eq\<close>)
qed (simp add: live_rank_def)

definition numbering :: "(u32 \<rightharpoonup> 't) \<Rightarrow> nat \<Rightarrow> u32 list" where
  "numbering l2t n = map (\<lambda>k. if l2t (of_nat k) \<noteq> None then of_nat (live_rank l2t k) else no_loc) [0..<n]"

lemma number_live_all: "number_live l2t [0..<n] 0 = (numbering l2t n, live_rank l2t n)"
  using number_live_eq [of l2t 0 n] by (simp add: numbering_def live_rank_def)

lemma length_numbering [simp]: "length (numbering l2t n) = n"
  by (simp add: numbering_def)

lemma numbering_at:
  assumes "i < n" "n < 2 ^ 32"
  shows "numbering l2t n ! i = no_loc \<longleftrightarrow> l2t (of_nat i) = None"
    "l2t (of_nat i) \<noteq> None \<Longrightarrow> unat (numbering l2t n ! i) = live_rank l2t i"
proof -
  have r: "live_rank l2t i < 2 ^ 32 - 1" using live_rank_le [of l2t i] assms by simp
  then have u: "unat (of_nat (live_rank l2t i) :: u32) = live_rank l2t i" by (intro of_nat_u32) simp
  have "(of_nat (live_rank l2t i) :: u32) \<noteq> no_loc"
  proof
    assume "(of_nat (live_rank l2t i) :: u32) = no_loc"
    then have "live_rank l2t i = unat (no_loc)" using u by metis
    then show False using r by simp
  qed
  then show "numbering l2t n ! i = no_loc \<longleftrightarrow> l2t (of_nat i) = None" using assms(1) by (simp add: numbering_def)
  show "l2t (of_nat i) \<noteq> None \<Longrightarrow> unat (numbering l2t n ! i) = live_rank l2t i"
    using assms(1) u by (simp add: numbering_def)
qed

subsection \<open>Compaction\<close>

definition compacted :: "(u32 \<rightharpoonup> 't) \<Rightarrow> nat \<Rightarrow> 'a list \<Rightarrow> nat \<Rightarrow> 'a list \<Rightarrow> bool" where
  "compacted l2t n xs a ys \<longleftrightarrow> length ys = n \<and>
     (\<forall>i < a. l2t (of_nat i) \<noteq> None \<longrightarrow> ys ! live_rank l2t i = xs ! i) \<and> (\<forall>i. a \<le> i \<and> i < n \<longrightarrow> ys ! i = xs ! i)"

lemma compacted_step:
  assumes "compacted l2t n xs a ys" "a < n" "l2t (of_nat a) \<noteq> None" "live_rank l2t a \<noteq> a"
    "\<And>i. i \<noteq> live_rank l2t a \<Longrightarrow> i \<noteq> a \<Longrightarrow> zs ! i = ys ! i" "zs ! live_rank l2t a = ys ! a" "length zs = n"
  shows "compacted l2t n xs (Suc a) zs"
  unfolding compacted_def
proof (intro conjI allI impI)
  fix i assume i: "i < Suc a" "l2t (of_nat i) \<noteq> None"
  show "zs ! live_rank l2t i = xs ! i"
  proof (cases "i = a")
    case True
    then show ?thesis using assms(1,2,6) by (simp add: compacted_def)
  next
    case False
    then have "i < a" using i(1) by simp
    moreover have "live_rank l2t i \<noteq> live_rank l2t a" using live_rank_less [of i a l2t, OF \<open>i < a\<close> i(2)] by simp
    moreover have "live_rank l2t i \<noteq> a" using live_rank_le [of l2t i] \<open>i < a\<close> by simp
    ultimately show ?thesis using assms(1,5) i(2) by (simp add: compacted_def)
  qed
next
  fix i assume i: "Suc a \<le> i \<and> i < n"
  then have "i \<noteq> live_rank l2t a" using live_rank_le [of l2t a] by auto
  then show "zs ! i = xs ! i" using assms(1,5) i by (simp add: compacted_def)
qed (rule assms(7))

lemma compact_ok:
  assumes "n < 2 ^ 32" "compacted l2t n g0 a g" "compacted l2t n d0 a d" "a \<le> n"
  shows "\<exists>g' d'. compact_slots (numbering l2t n) [a..<n] (g, d) = (g', d') \<and> compacted l2t n g0 n g' \<and> compacted l2t n d0 n d'"
  using assms(2-4)
proof (induction "n - a" arbitrary: a g d)
  case (Suc k)
  then have an: "a < n" by simp
  have u: "[a..<n] = a # [Suc a..<n]" using an by (simp add: upt_rec)
  note at = numbering_at [OF an assms(1), of l2t]
  show ?case
  proof (cases "l2t (of_nat a) = None \<or> live_rank l2t a = a")
    case True
    have "compacted l2t n xs (Suc a) ys" if "compacted l2t n xs a ys" for xs ys :: "'z list"
      using that True an by (auto simp: compacted_def less_Suc_eq)
    from Suc.hyps(1) [of "Suc a" g d, OF _ this [OF Suc.prems(1)] this [OF Suc.prems(2)]] Suc.hyps(2) Suc.prems(3) an
    obtain g' d' where "compact_slots (numbering l2t n) [Suc a..<n] (g, d) = (g', d')" "compacted l2t n g0 n g'" "compacted l2t n d0 n d'"
      by fastforce
    moreover have "numbering l2t n ! a = no_loc \<or> unat (numbering l2t n ! a) = a" using True at by auto
    ultimately show ?thesis by (auto simp: u Let_def)
  next
    case False
    let ?r = "live_rank l2t a"
    have r: "?r < n" "?r \<noteq> a" "unat (numbering l2t n ! a) = ?r" "numbering l2t n ! a \<noteq> no_loc"
      using live_rank_le [of l2t a] an at False by simp_all
    have len: "length g = n" "length d = n" using Suc.prems(1,2) by (simp_all add: compacted_def)
    have c: "compacted l2t n g0 (Suc a) (g[?r := g ! a, a := []])" "compacted l2t n d0 (Suc a) (d[?r := d ! a])"
      by (rule compacted_step [OF Suc.prems(1) an]; use False r len in simp)
        (rule compacted_step [OF Suc.prems(2) an]; use False r len in simp)
    from Suc.hyps(1) [of "Suc a", OF _ c] Suc.hyps(2) an show ?thesis using r False by (simp add: u Let_def)
  qed
qed simp

subsection \<open>The new neighbors\<close>

text \<open>The live neighbors of a point, and those it has through a deleted neighbor.\<close>

definition bridged :: "(u32 \<rightharpoonup> 't) \<Rightarrow> u32 list list \<Rightarrow> u32 \<Rightarrow> u32 set" where
  "bridged l2t g i = {n \<in> set (g ! unat i). l2t n \<noteq> None} \<union>
     {k. \<exists>n \<in> set (g ! unat i). l2t n = None \<and> k \<in> set (g ! unat n) \<and> l2t k \<noteq> None \<and> k \<noteq> i}"

lemma live_at:
  assumes "unat k < n" "n < 2 ^ 32"
  shows "numbering l2t n ! unat k = no_loc \<longleftrightarrow> l2t k = None"
    "l2t k \<noteq> None \<Longrightarrow> unat (numbering l2t n ! unat k) = live_rank l2t (unat k)"
  using numbering_at [OF assms, of l2t] by simp_all

lemma live_nbrs_ok:
  assumes "n < 2 ^ 32" "length g = n" "\<forall>ns \<in> set g. \<forall>k \<in> set ns. unat k < n" "\<forall>k \<in> set ns. unat k < n"
  shows "live_nbrs g (numbering l2t n) i ns = Some ({k \<in> set ns. l2t k \<noteq> None} \<union>
    {k. \<exists>d \<in> set ns. l2t d = None \<and> k \<in> set (g ! unat d) \<and> l2t k \<noteq> None \<and> k \<noteq> i})"
  using assms(4)
proof (induction ns)
  case (Cons d ns)
  have d: "unat d < n" using Cons.prems by simp
  then have "g ! unat d \<in> set g" using assms(2) by simp
  then have g: "\<forall>k \<in> set (g ! unat d). unat k < n" using assms(3) by blast
  have sub: "{k \<in> set (g ! unat d). numbering l2t n ! unat k \<noteq> no_loc \<and> k \<noteq> i} = {k \<in> set (g ! unat d). l2t k \<noteq> None \<and> k \<noteq> i}"
  proof (rule Collect_cong)
    fix k
    show "k \<in> set (g ! unat d) \<and> numbering l2t n ! unat k \<noteq> no_loc \<and> k \<noteq> i \<longleftrightarrow>
        k \<in> set (g ! unat d) \<and> l2t k \<noteq> None \<and> k \<noteq> i"
      using live_at(1) [OF bspec [OF g, of k] assms(1), of l2t] by auto
  qed
  note l = live_at(1) [OF d assms(1), of l2t]
  have v: "vec_at (numbering l2t n) (unat d) = Some (numbering l2t n ! unat d)" "vec_at g (unat d) = Some (g ! unat d)"
    using d assms(2) by (simp_all add: vec_at_def)
  have IH: "live_nbrs g (numbering l2t n) i ns = Some ({k \<in> set ns. l2t k \<noteq> None} \<union>
    {k. \<exists>d \<in> set ns. l2t d = None \<and> k \<in> set (g ! unat d) \<and> l2t k \<noteq> None \<and> k \<noteq> i})"
    by (rule Cons.IH) (use Cons.prems in simp)
  show ?case
  proof (cases "l2t d = None")
    case True
    then have "numbering l2t n ! unat d = no_loc" using l by simp
    then have "live_nbrs g (numbering l2t n) i (d # ns) = Some ({k \<in> set (g ! unat d). l2t k \<noteq> None \<and> k \<noteq> i} \<union>
      ({k \<in> set ns. l2t k \<noteq> None} \<union> {k. \<exists>d \<in> set ns. l2t d = None \<and> k \<in> set (g ! unat d) \<and> l2t k \<noteq> None \<and> k \<noteq> i}))"
      using v g IH sub by simp
    then show ?thesis using True by auto
  next
    case False
    then have "numbering l2t n ! unat d \<noteq> no_loc" using l by simp
    then show ?thesis using v IH False by auto
  qed
qed simp

lemma rank_inj:
  assumes "l2t a \<noteq> None" "l2t b \<noteq> None" "live_rank l2t (unat a) = live_rank l2t (unat b)"
  shows "a = b"
proof (rule ccontr)
  assume "a \<noteq> b"
  then consider "unat a < unat b" | "unat b < unat a" by (metis linorder_neqE_nat word_unat_eq_iff)
  then show False
    using live_rank_less [of "unat a" "unat b" l2t] live_rank_less [of "unat b" "unat a" l2t] assms by cases simp_all
qed

lemma new_list_ok:
  assumes E: "env_ok E" and n: "n < 2 ^ 32" "length g = n" "length data = n" and adj: "adj_ok E g"
    and ord: "\<And>S. set (ord S) = S \<and> distinct (ord S)" and i: "unat i < n" "l2t i \<noteq> None"
  shows "\<exists>ks. new_list E ord data g (numbering l2t n) (unat i) = Some (map (\<lambda>k. numbering l2t n ! unat k) ks) \<and>
    distinct ks \<and> set ks \<subseteq> bridged l2t g i \<and> length ks \<le> bR (epar E) \<and>
    (card (bridged l2t g i) \<le> bR (epar E) \<longrightarrow> set ks = bridged l2t g i)"
proof -
  have "graph_ok data g" by (rule adj_graph_ok [OF adj]) (use n in simp_all)
  then have lists: "\<forall>ns \<in> set g. \<forall>k \<in> set ns. unat k < n" using n(3) by (simp add: graph_ok_def)
  then have nb: "\<forall>k \<in> set (g ! unat i). unat k < n" using i(1) n(2) by (metis nth_mem)
  have S: "live_nbrs g (numbering l2t n) i (g ! unat i) = Some (bridged l2t g i)"
    using live_nbrs_ok [OF n(1,2) lists nb, of l2t i] by (simp add: bridged_def)
  have range: "unat k < n" if "k \<in> bridged l2t g i" for k
  proof -
    from that consider "k \<in> set (g ! unat i)" | d where "d \<in> set (g ! unat i)" "k \<in> set (g ! unat d)"
      by (auto simp: bridged_def)
    then show ?thesis
    proof cases
      case 2
      then have "g ! unat d \<in> set g" using nb n(2) by (metis nth_mem)
      then show ?thesis using lists 2 by blast
    qed (use nb in blast)
  qed
  have live: "numbering l2t n ! unat i \<noteq> no_loc" using live_at(1) [OF i(1) n(1), of l2t] i(2) by simp
  have len: "length (ord (bridged l2t g i)) = card (bridged l2t g i)" using ord by (metis distinct_card)
  show ?thesis
  proof (cases "card (bridged l2t g i) \<le> bR (epar E)")
    case True
    then show ?thesis
      using S live len ord by (intro exI [of _ "ord (bridged l2t g i)"]) (simp add: new_list_def Let_def)
  next
    case False
    obtain pool where pool: "pool_of E data i (ord (bridged l2t g i)) = Some pool" "distinct (map cid pool)"
      "cid ` set pool = unat ` bridged l2t g i" "\<forall>c \<in> set pool. cid c < 2 ^ 32"
      using pool_of_ok [of i data "ord (bridged l2t g i)" E] ord range i(1) n(3) by auto
    obtain ids where ids: "prune_ids E data pool = Some ids" "distinct ids" "length ids \<le> bR (epar E)"
      "unat ` set ids \<subseteq> cid ` set pool" using prune_ids_ok [OF E pool(2,4)] by blast
    have "set ids \<subseteq> bridged l2t g i" using ids(4) inj_image_subset_iff [OF inj_unat] unfolding pool(3) by blast
    then show ?thesis
      using S live len False pool(1) ids by (intro exI [of _ ids]) (simp add: new_list_def Let_def)
  qed
qed

lemma bridged_other:
  assumes "adj_ok E g" "unat i < length g"
  shows "i \<notin> bridged l2t g i"
  using adj_okD [OF assms] by (auto simp: bridged_def list_ok_def)

subsection \<open>The tags\<close>

lemma move_tags_ok:
  assumes "\<And>t l. t2l t = Some l \<Longrightarrow> idm ! unat l \<noteq> no_loc"
    and inj: "\<And>t u l k. t2l t = Some l \<Longrightarrow> t2l u = Some k \<Longrightarrow> idm ! unat l = idm ! unat k \<Longrightarrow> t = u"
  shows "fst (move_tags t2l idm ts (a, b)) t = (if t \<in> set ts \<and> t2l t \<noteq> None then Some (idm ! unat (the (t2l t))) else a t) \<and>
    (snd (move_tags t2l idm ts (a, b)) x = Some t \<longleftrightarrow> t \<in> set ts \<and> (\<exists>l. t2l t = Some l \<and> idm ! unat l = x) \<or>
       b x = Some t \<and> \<not> (\<exists>u \<in> set ts. \<exists>l. t2l u = Some l \<and> idm ! unat l = x))"
proof (induction ts arbitrary: a b)
  case (Cons u ts)
  show ?case
  proof (cases "t2l u")
    case None
    then have step: "move_tags t2l idm (u # ts) (a, b) = move_tags t2l idm ts (a, b)" by simp
    show ?thesis
      unfolding step Cons.IH [THEN conjunct1] Cons.IH [THEN conjunct2] using None by auto
  next
    case (Some l)
    then have step: "move_tags t2l idm (u # ts) (a, b) = move_tags t2l idm ts (a(u \<mapsto> idm ! unat l), b(idm ! unat l \<mapsto> u))"
      using assms(1) [OF Some] by (simp add: Let_def)
    have key: "(\<exists>k. t2l v = Some k \<and> idm ! unat k = idm ! unat l) \<longleftrightarrow> v = u" for v using inj [OF _ Some] Some by blast
    show ?thesis
      unfolding step Cons.IH [THEN conjunct1] Cons.IH [THEN conjunct2]
    proof (rule conjI)
      show "(t \<in> set ts \<and> (\<exists>k. t2l t = Some k \<and> idm ! unat k = x) \<or>
          (b(idm ! unat l \<mapsto> u)) x = Some t \<and> \<not> (\<exists>v \<in> set ts. \<exists>k. t2l v = Some k \<and> idm ! unat k = x)) \<longleftrightarrow>
        (t \<in> set (u # ts) \<and> (\<exists>k. t2l t = Some k \<and> idm ! unat k = x) \<or>
          b x = Some t \<and> \<not> (\<exists>v \<in> set (u # ts). \<exists>k. t2l v = Some k \<and> idm ! unat k = x))"
      proof (cases "x = idm ! unat l")
        case True
        show ?thesis unfolding True key by auto
      next
        case False
        then have "\<not> (\<exists>k. t2l u = Some k \<and> idm ! unat k = x)" using Some by auto
        then show ?thesis using False by auto
      qed
    qed (use Some in auto)
  qed
qed simp

subsection \<open>What consolidation does\<close>

lemma those_map_the: "\<forall>x \<in> set xs. f x \<noteq> None \<Longrightarrow> those (map f xs) = Some (map (\<lambda>x. the (f x)) xs)"
  by (induction xs) (auto split: option.splits)

lemma rank_of_live:
  assumes "l2t i \<noteq> None" "unat i < n"
  shows "live_rank l2t (unat i) < live_rank l2t n" "live_rank l2t (unat i) < n"
  using live_rank_less [of "unat i" n l2t] live_rank_le [of l2t n] assms by simp_all

lemma numbering_live:
  assumes "n < 2 ^ 32" "unat i < n" "l2t i \<noteq> None"
  shows "numbering l2t n ! unat i = of_nat (live_rank l2t (unat i))"
  using assms by (simp add: numbering_def)

lemma unat_rank:
  assumes "n < 2 ^ 32" "unat i < n"
  shows "unat (of_nat (live_rank l2t (unat i)) :: u32) = live_rank l2t (unat i)"
proof -
  have "live_rank l2t (unat i) < 2 ^ 32" by (rule le_less_trans [OF live_rank_le]) (rule less_trans [OF assms(2,1)])
  then show ?thesis by (rule of_nat_u32)
qed

text \<open>The graph after steps 2 and the compaction.\<close>

definition renamed :: "'v mem_env \<Rightarrow> (u32 \<rightharpoonup> 't) \<Rightarrow> u32 list list \<Rightarrow> u32 \<Rightarrow> u32 list \<Rightarrow> bool" where
  "renamed E l2t g i ns \<longleftrightarrow> (\<exists>ks. ns = map (\<lambda>k. of_nat (live_rank l2t (unat k))) ks \<and> distinct ks \<and> set ks \<subseteq> bridged l2t g i \<and>
     length ks \<le> bR (epar E) \<and> (card (bridged l2t g i) \<le> bR (epar E) \<longrightarrow> set ks = bridged l2t g i))"

lemma bridged_live:
  assumes "length g = n" "\<forall>ns \<in> set g. \<forall>k \<in> set ns. unat k < n" "unat i < n" "k \<in> bridged l2t g i"
  shows "l2t k \<noteq> None" "unat k < n"
proof -
  have nb: "\<forall>k \<in> set (g ! unat i). unat k < n" using assms(1-3) by (metis nth_mem)
  show "l2t k \<noteq> None" using assms(4) by (auto simp: bridged_def)
  from assms(4) consider "k \<in> set (g ! unat i)" | d where "d \<in> set (g ! unat i)" "k \<in> set (g ! unat d)"
    by (auto simp: bridged_def)
  then show "unat k < n"
  proof cases
    case 2
    then have "g ! unat d \<in> set g" using nb assms(1) by (metis nth_mem)
    then show ?thesis using assms(2) 2 by blast
  qed (use nb in blast)
qed

lemma renamed_ok:
  assumes E: "env_ok E" and n: "n < 2 ^ 32" "length g = n" "length data = n" and adj: "adj_ok E g"
    and i: "unat i < n" "l2t i \<noteq> None" and r: "renamed E l2t g i ns"
  shows "list_ok E n (of_nat (live_rank l2t (unat i))) ns"
proof -
  obtain ks where ks: "ns = map (\<lambda>k. of_nat (live_rank l2t (unat k))) ks" "distinct ks" "set ks \<subseteq> bridged l2t g i"
    "length ks \<le> bR (epar E)" using r unfolding renamed_def by blast
  have "graph_ok data g" by (rule adj_graph_ok [OF adj]) (use n in simp_all)
  then have lists: "\<forall>ns \<in> set g. \<forall>k \<in> set ns. unat k < n" using n(3) by (simp add: graph_ok_def)
  have live: "l2t k \<noteq> None" "unat k < n" if "k \<in> set ks" for k
    using bridged_live [OF n(2) lists i(1), of k l2t] ks(3) that by blast+
  have eq: "k = j" if "(of_nat (live_rank l2t (unat k)) :: u32) = of_nat (live_rank l2t (unat j))" "l2t k \<noteq> None" "l2t j \<noteq> None"
    "unat k < n" "unat j < n" for k j
  proof -
    have "live_rank l2t (unat k) = live_rank l2t (unat j)"
      using that(1) unat_rank [OF n(1) that(4), of l2t] unat_rank [OF n(1) that(5), of l2t] by metis
    then show ?thesis by (rule rank_inj [OF that(2,3)])
  qed
  have "inj_on (\<lambda>k. of_nat (live_rank l2t (unat k)) :: u32) (set ks)" by (rule inj_onI) (use eq live in blast)
  moreover have "of_nat (live_rank l2t (unat i)) \<notin> set ns"
  proof
    assume "of_nat (live_rank l2t (unat i)) \<in> set ns"
    then obtain k where k: "k \<in> set ks" "(of_nat (live_rank l2t (unat k)) :: u32) = of_nat (live_rank l2t (unat i))"
      unfolding ks(1) by auto
    from eq [OF k(2) live(1) [OF k(1)] i(2) live(2) [OF k(1)] i(1)] have "i \<in> bridged l2t g i" using k(1) ks(3) by blast
    then show False using bridged_other [OF adj, of i l2t] i(1) n(2) by simp
  qed
  moreover have "\<forall>k \<in> set ns. unat k < n"
  proof
    fix x assume "x \<in> set ns"
    then obtain k where k: "k \<in> set ks" "x = of_nat (live_rank l2t (unat k))" unfolding ks(1) by auto
    show "unat x < n"
      unfolding k(2) unat_rank [OF n(1) live(2) [OF k(1)]] by (rule rank_of_live(2) [of l2t k n, OF live [OF k(1)]])
  qed
  ultimately show ?thesis
    using ks(2,4) slack_ge [of "bR (epar E)"] unfolding list_ok_def ks(1) by (simp add: distinct_map)
qed

text \<open>The graph and the vectors after the compaction and the clearing.\<close>

lemma compacted_index:
  assumes E: "env_ok E" and n: "n < 2 ^ 32" "length g = n" "length data = n" and adj: "adj_ok E g"
    and ord: "\<And>S. set (ord S) = S \<and> distinct (ord S)"
  shows "\<exists>G g' d'. those (map (new_list E ord data g (numbering l2t n)) [0..<n]) = Some G \<and>
    compact_slots (numbering l2t n) [0..<n] (G, data) = (g', d') \<and> length d' = n \<and>
    (let h = take (live_rank l2t n) g' @ replicate (n - live_rank l2t n) [] in
     length h = n \<and> adj_ok E h \<and> (\<forall>j. live_rank l2t n \<le> j \<and> j < n \<longrightarrow> h ! j = []) \<and>
     (\<forall>i. unat i < n \<longrightarrow> l2t i \<noteq> None \<longrightarrow>
        d' ! live_rank l2t (unat i) = data ! unat i \<and> renamed E l2t g i (h ! live_rank l2t (unat i))))"
proof -
  let ?idm = "numbering l2t n" and ?nd = "live_rank l2t n"
  have idx: "unat (of_nat i :: u32) = i" if "i < n" for i by (rule of_nat_u32) (rule less_trans [OF that n(1)])
  have new: "\<exists>ns. new_list E ord data g ?idm i = Some ns \<and> (l2t (of_nat i) \<noteq> None \<longrightarrow> renamed E l2t g (of_nat i) ns)" if i: "i < n" for i
  proof (cases "l2t (of_nat i) = None")
    case True
    then show ?thesis using numbering_at(1) [OF i n(1), of l2t] by (simp add: new_list_def)
  next
    case False
    obtain ks where ks: "new_list E ord data g ?idm i = Some (map (\<lambda>k. ?idm ! unat k) ks)" "distinct ks" "set ks \<subseteq> bridged l2t g (of_nat i)"
      "length ks \<le> bR (epar E)" "card (bridged l2t g (of_nat i)) \<le> bR (epar E) \<longrightarrow> set ks = bridged l2t g (of_nat i)"
      using new_list_ok [OF E n adj ord, of "of_nat i" l2t] idx [OF i] i False by auto
    have "graph_ok data g" by (rule adj_graph_ok [OF adj]) (use n in simp_all)
    then have lists: "\<forall>ns \<in> set g. \<forall>k \<in> set ns. unat k < n" using n(3) by (simp add: graph_ok_def)
    have "?idm ! unat k = of_nat (live_rank l2t (unat k))" if "k \<in> set ks" for k
      using numbering_live [OF n(1), of k l2t] bridged_live [OF n(2) lists, of "of_nat i" k l2t] idx [OF i] i ks(3) that by auto
    then have "map (\<lambda>k. ?idm ! unat k) ks = map (\<lambda>k. of_nat (live_rank l2t (unat k))) ks" by simp
    then show ?thesis using ks unfolding renamed_def by metis
  qed
  define G where "G = map (\<lambda>i. the (new_list E ord data g ?idm i)) [0..<n]"
  have G: "those (map (new_list E ord data g ?idm) [0..<n]) = Some G"
    unfolding G_def by (rule those_map_the) (use new in fastforce)
  have "compacted l2t n G 0 G" "compacted l2t n data 0 data" using n(3) by (simp_all add: compacted_def G_def)
  then obtain g' d' where c: "compact_slots ?idm [0..<n] (G, data) = (g', d')" "compacted l2t n G n g'" "compacted l2t n data n d'"
    using compact_ok [OF n(1)] by blast
  define h where "h = take ?nd g' @ replicate (n - ?nd) []"
  have nd: "?nd \<le> n" by (rule live_rank_le)
  have len: "length g' = n" "length h = n" using c(2) nd by (simp_all add: compacted_def h_def)
  have at: "renamed E l2t g i (h ! live_rank l2t (unat i)) \<and> d' ! live_rank l2t (unat i) = data ! unat i"
    if i: "unat i < n" "l2t i \<noteq> None" for i
  proof -
    have r: "live_rank l2t (unat i) < ?nd" by (rule rank_of_live(1) [of l2t i n, OF i(2,1)])
    then have "h ! live_rank l2t (unat i) = g' ! live_rank l2t (unat i)" using len(1) nd by (simp add: h_def nth_append)
    also have "\<dots> = G ! unat i" using c(2) i by (simp add: compacted_def)
    also have "\<dots> = the (new_list E ord data g ?idm (unat i))" using i(1) by (simp add: G_def)
    finally show ?thesis using new [OF i(1)] i c(3) by (auto simp: compacted_def)
  qed
  have empty: "h ! j = []" if "?nd \<le> j" "j < n" for j using that len nd by (simp add: h_def nth_append)
  have "adj_ok E h"
    unfolding adj_ok_def len(2)
  proof (intro allI impI)
    fix a :: u32 assume a: "unat a < n"
    show "list_ok E n a (h ! unat a)"
    proof (cases "unat a < ?nd")
      case True
      then obtain i where i: "i < n" "l2t (of_nat i) \<noteq> None" "live_rank l2t i = unat a" using live_rank_onto by blast
      note b = idx [OF i(1)]
      have "list_ok E n (of_nat (live_rank l2t (unat (of_nat i :: u32)))) (h ! live_rank l2t (unat (of_nat i :: u32)))"
        by (rule renamed_ok [OF E n adj]) (use at [of "of_nat i"] i b in simp_all)
      then show ?thesis unfolding b i(3) by simp
    next
      case False
      then show ?thesis using empty [of "unat a"] a by (simp add: list_ok_def)
    qed
  qed
  then show ?thesis
    using G c(1,3) len(2) empty at unfolding h_def [symmetric] Let_def
    by (intro exI [of _ G] exI [of _ g'] exI [of _ d']) (simp add: compacted_def h_def [symmetric])
qed

text \<open>The search for the new entry point.\<close>

lemma search_one:
  assumes "graph_ok data g" "unat ep < length data" "std_sort srt nbr_lt" "\<forall>a b. cmp a b = cmp b a" "1 \<le> L"
  shows "\<exists>i d. mem_search cmp srt prep data g ep q 1 L = Some [(i, d)] \<and> i \<in> reachable g ep \<and> unat i < length data"
proof -
  obtain s where s: "iterate_to_fixed_point cmp srt data g (prep q) L [ep] = Some s" "walk_inv cmp data g (prep q) L ep s (bl s)"
    using iterate_ends [OF assms(1,2,5,3,4)] by blast
  note w = walk_invD [OF s(2)] and p = pool_invD [OF walk_invD(1) [OF s(2)]]
  obtain x xs where b: "best s = x # xs" using p(1) by (cases "best s") auto
  then have "x \<in> set (listed s)" using p(2) by (cases "bl s") (simp_all add: listed_def)
  then have x: "pid x \<in> seen s" "unat (pid x) < length data" using p(6,7) by auto
  then have "collect_ids (length data) 1 (best s) [] = [x]" unfolding b by (simp add: Let_def)
  then have "mem_search cmp srt prep data g ep q 1 L = Some [(pid x, pdist x)]" using s(1) by (simp add: mem_search_def)
  then show ?thesis using x w(9) by blast
qed

lemma reachable_alone:
  assumes "g ! unat ep = []"
  shows "reachable g ep = {ep}"
proof -
  have "i = ep" if "(ep, i) \<in> (edges g)\<^sup>*" for i
    using that by (induction rule: rtrancl_induct) (use assms in \<open>auto simp: edges_def\<close>)
  then show ?thesis by (auto simp: reachable_def)
qed

lemma consolidated_tags:
  assumes tags: "tags_ok m" "slots_ok m" and n: "max_points m < 2 ^ 32" and ts: "set ts = dom (tag2loc m)"
  shows "\<exists>a b. move_tags (tag2loc m) (numbering (loc2tag m) (max_points m)) ts (Map.empty, Map.empty) = (a, b) \<and>
    (\<forall>t. a t = map_option (\<lambda>l. of_nat (live_rank (loc2tag m) (unat l))) (tag2loc m t)) \<and>
    (\<forall>t x. b x = Some t \<longleftrightarrow> a t = Some x) \<and> dom b = slots_upto (live_rank (loc2tag m) (max_points m))"
proof -
  let ?n = "max_points m" and ?l = "loc2tag m"
  let ?idm = "numbering ?l ?n"
  have live: "?l l \<noteq> None \<and> unat l < ?n" if "tag2loc m t = Some l" for t l
  proof -
    have "?l l = Some t" using tags(1) that by (simp add: tags_ok_def)
    then show ?thesis using tags(2) by (auto simp: slots_ok_def)
  qed
  have nl: "?idm ! unat l = of_nat (live_rank ?l (unat l))" "?idm ! unat l \<noteq> no_loc" "unat (?idm ! unat l) = live_rank ?l (unat l)"
    if "tag2loc m t = Some l" for t l
    using numbering_live [OF n, of l ?l] live_at [OF _ n, of l ?l] live [OF that] by auto
  have inj: "t = u" if "tag2loc m t = Some l" "tag2loc m u = Some k" "?idm ! unat l = ?idm ! unat k" for t u l k
  proof -
    have "live_rank ?l (unat l) = live_rank ?l (unat k)" using nl(3) [OF that(1)] nl(3) [OF that(2)] that(3) by metis
    then have "l = k" using rank_inj [of ?l l k] live [OF that(1)] live [OF that(2)] by blast
    then show ?thesis using that tags(1) unfolding tags_ok_def by (metis option.inject)
  qed
  define a where "a = fst (move_tags (tag2loc m) ?idm ts (Map.empty, Map.empty))"
  define b where "b = snd (move_tags (tag2loc m) ?idm ts (Map.empty, Map.empty))"
  note mv = move_tags_ok [of "tag2loc m" ?idm, OF nl(2) inj, where ts = ts and a = Map.empty and b = Map.empty]
  have a: "a t = map_option (\<lambda>l. of_nat (live_rank ?l (unat l))) (tag2loc m t)" for t
  proof (cases "tag2loc m t")
    case None
    then show ?thesis using mv [where t = t, THEN conjunct1] by (simp add: a_def)
  next
    case (Some l)
    then have "t \<in> set ts" using ts by blast
    then show ?thesis using mv [where t = t, THEN conjunct1] Some nl(1) [OF Some] by (simp add: a_def)
  qed
  have b: "b x = Some t \<longleftrightarrow> a t = Some x" for x t
  proof -
    have "b x = Some t \<longleftrightarrow> t \<in> set ts \<and> (\<exists>l. tag2loc m t = Some l \<and> ?idm ! unat l = x)"
      using mv [where t = t and x = x, THEN conjunct2] by (simp add: b_def)
    also have "\<dots> \<longleftrightarrow> (\<exists>l. tag2loc m t = Some l \<and> of_nat (live_rank ?l (unat l)) = x)" using ts nl(1) by auto
    finally show ?thesis unfolding a by simp
  qed
  have "dom b = slots_upto (live_rank ?l ?n)"
  proof (intro set_eqI iffI)
    fix x assume "x \<in> dom b"
    then obtain t where "a t = Some x" using b by blast
    then obtain l where l: "tag2loc m t = Some l" "x = of_nat (live_rank ?l (unat l))" unfolding a by blast
    have "unat x = live_rank ?l (unat l)" unfolding l(2) by (rule unat_rank [OF n]) (use live [OF l(1)] in blast)
    then show "x \<in> slots_upto (live_rank ?l ?n)" using rank_of_live(1) [of ?l l ?n] live [OF l(1)] by simp
  next
    fix x assume "x \<in> slots_upto (live_rank ?l ?n)"
    then obtain i where i: "i < ?n" "?l (of_nat i) \<noteq> None" "live_rank ?l i = unat x" using live_rank_onto by blast
    have u: "unat (of_nat i :: u32) = i" by (rule of_nat_u32) (rule less_trans [OF i(1) n])
    obtain t where "?l (of_nat i) = Some t" using i(2) by blast
    then have "tag2loc m t = Some (of_nat i)" using tags(1) by (simp add: tags_ok_def)
    then have "a t = Some x" unfolding a using u i(3) by simp
    then show "x \<in> dom b" using b by blast
  qed
  then show ?thesis using a b by (intro exI [of _ a] exI [of _ b]) (simp add: a_def b_def)
qed

lemma consolidate_ok:
  assumes E: "env_ok E" and ok: "mem_ok E m" and del: "mdel m \<noteq> {}" and ts: "set ts = dom (tag2loc m)"
    and ord: "\<And>S. set (ord S) = S \<and> distinct (ord S)"
  shows "\<exists>m'. consolidate E ord ts m = Some m' \<and> mem_ok E m' \<and> mdel m' = {} \<and> max_points m' = max_points m \<and>
    mnd m' = live_rank (loc2tag m) (max_points m) \<and>
    (\<forall>t. tag2loc m' t = map_option (\<lambda>l. of_nat (live_rank (loc2tag m) (unat l))) (tag2loc m t)) \<and>
    (\<forall>i. loc2tag m i \<noteq> None \<longrightarrow> mdata m' ! live_rank (loc2tag m) (unat i) = mdata m ! unat i \<and>
       renamed E (loc2tag m) (mgraph m) i (mgraph m' ! live_rank (loc2tag m) (unat i))) \<and>
    (live_rank (loc2tag m) (max_points m) \<le> unat (mep m) \<longrightarrow> mep m' = mep m \<and> mgraph m' ! unat (mep m) = []) \<and>
    dom (loc2tag m') = slots_upto (live_rank (loc2tag m) (max_points m))"
proof -
  let ?n = "max_points m" and ?l = "loc2tag m"
  let ?nd = "live_rank ?l ?n"
  note k = ok [unfolded mem_ok_def]
  have n: "?n < 2 ^ 32" "length (mgraph m) = ?n" "length (mdata m) = ?n" "adj_ok E (mgraph m)" "tags_ok m" "slots_ok m"
    using k by (simp_all add: max_points_def)
  obtain d where d: "d \<in> mdel m" using del by blast
  then have "unat d < ?n" using n(6) by (auto simp: slots_ok_def)
  then have ep: "unat (mep m) < ?n" using k by linarith
  obtain G g' d' where c: "those (map (new_list E ord (mdata m) (mgraph m) (numbering ?l ?n)) [0..<?n]) = Some G"
    "compact_slots (numbering ?l ?n) [0..<?n] (G, mdata m) = (g', d')" "length d' = ?n"
    and h: "let h = take ?nd g' @ replicate (?n - ?nd) [] in
     length h = ?n \<and> adj_ok E h \<and> (\<forall>j. ?nd \<le> j \<and> j < ?n \<longrightarrow> h ! j = []) \<and>
     (\<forall>i. unat i < ?n \<longrightarrow> ?l i \<noteq> None \<longrightarrow>
        d' ! live_rank ?l (unat i) = mdata m ! unat i \<and> renamed E ?l (mgraph m) i (h ! live_rank ?l (unat i)))"
    using compacted_index [OF E n(1-4) ord, where l2t = ?l] by blast
  define h where "h = take ?nd g' @ replicate (?n - ?nd) []"
  note h = h [folded h_def, unfolded Let_def]
  obtain a b where t: "move_tags (tag2loc m) (numbering ?l ?n) ts (Map.empty, Map.empty) = (a, b)"
    "\<forall>t. a t = map_option (\<lambda>l. of_nat (live_rank ?l (unat l))) (tag2loc m t)" "\<forall>t x. b x = Some t \<longleftrightarrow> a t = Some x"
    "dom b = slots_upto ?nd" using consolidated_tags [OF n(5,6,1) ts] by blast
  have gok: "graph_ok d' h" by (rule adj_graph_ok [where E = E]) (use h c(3) n(1) in simp_all)
  note e = env_okD [OF E]
  have ep': "unat (mep m) < length d'" using ep c(3) by simp
  obtain i dd where o: "mem_search (ecmp E) (esrt E) (eprep E) d' h (mep m) (mdata m ! unat (mep m)) 1 10 = Some [(i, dd)]"
    "i \<in> reachable h (mep m)" "unat i < ?n"
    using search_one [OF gok ep' e(2,4), of 10 "eprep E" "mdata m ! unat (mep m)"] c(3) by auto
  define m' where "m' = m\<lparr>mdata := d', mgraph := h, mnd := ?nd, mep := i, tag2loc := a, loc2tag := b, mdel := {},
    mslots := of_nat ` {?nd..<?n}\<rparr>"
  have "vec_at (mdata m) (unat (mep m)) = Some (mdata m ! unat (mep m))" using ep n(3) by (simp add: vec_at_def)
  then have run: "consolidate E ord ts m = Some m'"
    using del c(1,2) t(1) o(1) unfolding consolidate_def number_live_all by (simp add: h_def [symmetric] m'_def vec_at_def)
  have mp: "max_points m' = ?n" using c(3) by (simp add: m'_def max_points_def)
  have nd: "?nd \<le> ?n" by (rule live_rank_le)
  have rest: "of_nat ` {?nd..<?n} = slots_upto ?n - slots_upto ?nd"
  proof (intro set_eqI iffI)
    fix x :: u32 assume "x \<in> of_nat ` {?nd..<?n}"
    then obtain j where j: "?nd \<le> j" "j < ?n" "x = of_nat j" by auto
    have "unat x = j" unfolding j(3) by (rule of_nat_u32) (rule less_trans [OF j(2) n(1)])
    then show "x \<in> slots_upto ?n - slots_upto ?nd" using j by simp
  next
    fix x :: u32 assume "x \<in> slots_upto ?n - slots_upto ?nd"
    then show "x \<in> of_nat ` {?nd..<?n}" by (intro image_eqI [of _ _ "unat x"]) simp_all
  qed
  have sub: "slots_upto ?nd \<subseteq> slots_upto ?n" using nd by auto
  have "card (slots_upto ?n - slots_upto ?nd) = ?n - ?nd"
    using card_Diff_subset [OF finite_subset [OF subset_UNIV] sub] card_slots_upto [of ?n] card_slots_upto [of ?nd] nd n(1) by simp
  then have "slots_ok m'"
    unfolding slots_ok_def mp using t(4) sub rest nd by (auto simp: m'_def)
  moreover have "tags_ok m'" using t(3) by (auto simp: tags_ok_def m'_def)
  ultimately have "mem_ok E m'"
    unfolding mem_ok_def mp using h n(1) o(3) by (simp add: m'_def)
  moreover have "mep m' = mep m \<and> mgraph m' ! unat (mep m) = []" if far: "?nd \<le> unat (mep m)"
  proof -
    have "h ! unat (mep m) = []" using h far ep by blast
    then have "i = mep m" using o(2) reachable_alone [of h "mep m"] by simp
    then show ?thesis using \<open>h ! unat (mep m) = []\<close> by (simp add: m'_def)
  qed
  moreover have "unat i < ?n" if "?l i \<noteq> None" for i using that n(6) by (auto simp: slots_ok_def)
  ultimately show ?thesis
    using run mp t(2,4) h by (intro exI [of _ m']) (simp add: m'_def)
qed

lemma live_count:
  assumes "slots_ok m" "max_points m < 2 ^ 32"
  shows "live_rank (loc2tag m) (max_points m) = card (dom (loc2tag m))"
proof -
  let ?l = "loc2tag m" and ?n = "max_points m"
  define A where "A = {i. i < ?n \<and> ?l (of_nat i) \<noteq> None}"
  have u: "unat (of_nat i :: u32) = i" if "i < ?n" for i by (rule of_nat_u32) (rule less_trans [OF that assms(2)])
  have "set (filter (\<lambda>i. ?l (of_nat i) \<noteq> None) [0..<?n]) = A" by (auto simp: A_def)
  then have "live_rank ?l ?n = card A" unfolding live_rank_def by (metis distinct_card distinct_filter distinct_upt)
  moreover have "inj_on (of_nat :: nat \<Rightarrow> u32) A" by (rule inj_onI) (metis (mono_tags, lifting) A_def mem_Collect_eq u)
  moreover have "dom ?l = of_nat ` A"
  proof (intro set_eqI iffI)
    fix l assume l: "l \<in> dom ?l"
    then have "unat l < ?n" using assms(1) by (auto simp: slots_ok_def)
    then show "l \<in> of_nat ` A" using l by (intro image_eqI [of _ _ "unat l"]) (auto simp: A_def)
  qed (auto simp: A_def)
  ultimately show ?thesis by (metis card_image)
qed

lemma consolidated_contents:
  assumes "tags_ok m" "slots_ok m" "max_points m < 2 ^ 32"
    "\<forall>t. tag2loc m' t = map_option (\<lambda>l. of_nat (live_rank (loc2tag m) (unat l))) (tag2loc m t)"
    "\<forall>i. loc2tag m i \<noteq> None \<longrightarrow> mdata m' ! live_rank (loc2tag m) (unat i) = mdata m ! unat i"
  shows "contents m' = contents m"
proof
  fix t
  show "contents m' t = contents m t"
  proof (cases "tag2loc m t")
    case (Some l)
    then have "loc2tag m l = Some t" using assms(1) by (simp add: tags_ok_def)
    then have l: "loc2tag m l \<noteq> None" "unat l < max_points m" using assms(2) by (auto simp: slots_ok_def)
    have "unat (of_nat (live_rank (loc2tag m) (unat l)) :: u32) = live_rank (loc2tag m) (unat l)"
      by (rule unat_rank [OF assms(3) l(2)])
    then show ?thesis using Some assms(4,5) l(1) by (simp add: contents_def)
  qed (use assms(4) in \<open>simp add: contents_def\<close>)
qed

lemma consolidate_all:
  assumes "env_ok E" "mem_ok E m" "set ts = dom (tag2loc m)" "\<forall>S. set (ord S) = S \<and> distinct (ord S)"
  shows "\<exists>m'. consolidate E ord ts m = Some m' \<and> mem_ok E m' \<and> mdel m' = {} \<and> contents m' = contents m \<and>
    mnd m' = card (dom (loc2tag m))"
proof (cases "mdel m = {}")
  case True
  have k: "slots_ok m" "max_points m < 2 ^ 32" using assms(2) by (simp_all add: mem_ok_def)
  have "mnd m = card (dom (loc2tag m))"
  proof -
    have u: "dom (loc2tag m) = slots_upto (max_points m) - mslots m" using k(1) True by (auto simp: slots_ok_def)
    have "mslots m \<subseteq> slots_upto (max_points m)" using k(1) by (auto simp: slots_ok_def)
    then have "card (dom (loc2tag m)) = max_points m - card (mslots m)"
      unfolding u using card_slots_upto [of "max_points m"] k(2) by (simp add: card_Diff_subset finite_subset [OF subset_UNIV])
    then show ?thesis using k(1) unfolding slots_ok_def by linarith
  qed
  then show ?thesis using assms(2) True by (simp add: consolidate_def)
next
  case False
  let ?r = "\<lambda>l. live_rank (loc2tag m) (unat l)"
  have k: "tags_ok m" "slots_ok m" "max_points m < 2 ^ 32" using assms(2) by (simp_all add: mem_ok_def)
  obtain m' where m': "consolidate E ord ts m = Some m'" "mem_ok E m'" "mdel m' = {}"
    "mnd m' = live_rank (loc2tag m) (max_points m)" "\<forall>t. tag2loc m' t = map_option (\<lambda>l. of_nat (?r l)) (tag2loc m t)"
    "\<forall>i. loc2tag m i \<noteq> None \<longrightarrow> mdata m' ! ?r i = mdata m ! unat i"
    using consolidate_ok [OF assms(1,2) False assms(3), of ord] assms(4) by blast
  have "contents m' = contents m" by (rule consolidated_contents [OF k m'(5,6)])
  then show ?thesis using m' live_count [OF k(2,3)] by auto
qed

text \<open> C4. Consolidation always returns, the index is well formed, no point is deleted, and it holds the vectors it
  held, each under its tag. Where nothing was deleted it returns at once and changes nothing. Otherwise the live
  points sit in exactly the first slots afterwards, as many as there are of them.\<close>

theorem consolidate_keeps:
  assumes "env_ok E" "mem_ok E m" "set ts = dom (tag2loc m)" "\<forall>S. set (ord S) = S \<and> distinct (ord S)"
  shows "\<exists>m'. consolidate E ord ts m = Some m' \<and> mem_ok E m' \<and> mdel m' = {} \<and> contents m' = contents m \<and>
    mnd m' = card (dom (loc2tag m)) \<and>
    (if mdel m = {} then m' = m else dom (loc2tag m') = {l. unat l < mnd m'})"
  using consolidate_all [OF assms] consolidate_ok [OF assms(1,2) _ assms(3), of ord] assms(4)
  by (cases "mdel m = {}") (auto simp: consolidate_def)

text \<open>Three slots, of which the last is deleted and is the entry point.\<close>

definition three_slots :: "(rat, string) mem_index" where
  "three_slots = \<lparr>mdata = [0, 3, 5], mgraph = [[1, 2], [0], [1]], mnd = 3, mwidth = 2, mep = 2,
     tag2loc = [''a'' \<mapsto> 0, ''b'' \<mapsto> 1], loc2tag = [0 \<mapsto> ''a'', 1 \<mapsto> ''b''], mdel = {2}, mslots = {}\<rparr>"

lemma three_slots_ok: "mem_ok env1 three_slots"
proof -
  have u: "unat l < 3 \<longleftrightarrow> l = 0 \<or> l = 1 \<or> l = 2" for l :: u32
    by (auto simp: word_unat_eq_iff)
  then have up: "slots_upto 3 = {0, 1, 2}" by blast
  have "tags_ok three_slots" by (auto simp: tags_ok_def three_slots_def split: if_splits)
  moreover have "slots_ok three_slots"
  proof -
    have "max_points three_slots = 3" "dom (loc2tag three_slots) = {1, 0}" "mdel three_slots = {2}" "mslots three_slots = {}"
      "mnd three_slots = 3" by (simp_all add: three_slots_def max_points_def)
    then show ?thesis unfolding slots_ok_def using up by auto
  qed
  moreover have "list_ok env1 3 0 [1, 2]" "list_ok env1 3 1 [0]" "list_ok env1 3 2 [1]"
    by (simp_all add: list_ok_def env1_def slack_def)
  then have "adj_ok env1 (mgraph three_slots)"
    unfolding adj_ok_def
  proof (intro allI impI)
    fix c :: u32 assume c: "unat c < length (mgraph three_slots)"
    then have "c = 0 \<or> c = 1 \<or> c = 2" using u [of c] by (simp add: three_slots_def)
    then show "list_ok env1 (length (mgraph three_slots)) c (mgraph three_slots ! unat c)"
      using \<open>list_ok env1 3 0 [1, 2]\<close> \<open>list_ok env1 3 1 [0]\<close> \<open>list_ok env1 3 2 [1]\<close> by (auto simp: three_slots_def numeral_3_eq_3)
  qed
  ultimately show ?thesis by (simp add: mem_ok_def three_slots_def max_points_def)
qed

lemma three_slots_tags: "set [''a'', ''b''] = dom (tag2loc three_slots)"
  by (auto simp: three_slots_def)

lemma listed_sets: "\<forall>S :: u32 set. set (sorted_list_of_set S) = S \<and> distinct (sorted_list_of_set S)"
  by (simp add: finite_subset [OF subset_UNIV])

theorem consolidate_keeps_witness:
  "\<exists>m'. consolidate env1 sorted_list_of_set [''a'', ''b''] three_slots = Some m' \<and> mdel m' = {} \<and> contents m' ''b'' = Some 3"
proof -
  have "contents three_slots ''b'' = Some 3" by (simp add: contents_def three_slots_def)
  then show ?thesis using consolidate_keeps [OF env1_ok three_slots_ok three_slots_tags listed_sets] by metis
qed

text \<open> C19. What becomes of the links of a live point when something was deleted: they are renamed links to live points that were its
  neighbors or the neighbors of a deleted neighbor, at most \<open>R\<close>, and all of those when they are no more.\<close>

theorem consolidate_bridges:
  assumes "env_ok E" "mem_ok E m" "set ts = dom (tag2loc m)" "\<forall>S. set (ord S) = S \<and> distinct (ord S)"
    and "mdel m \<noteq> {}" "tag2loc m t = Some i"
  shows "\<exists>m' j ks. consolidate E ord ts m = Some m' \<and> tag2loc m' t = Some j \<and>
    mgraph m' ! unat j = map (\<lambda>k. of_nat (live_rank (loc2tag m) (unat k))) ks \<and> distinct ks \<and>
    set ks \<subseteq> bridged (loc2tag m) (mgraph m) i \<and> length ks \<le> bR (epar E) \<and>
    (card (bridged (loc2tag m) (mgraph m) i) \<le> bR (epar E) \<longrightarrow> set ks = bridged (loc2tag m) (mgraph m) i)"
proof -
  have k: "tags_ok m" "slots_ok m" "max_points m < 2 ^ 32" using assms(2) by (simp_all add: mem_ok_def)
  obtain m' where m': "consolidate E ord ts m = Some m'"
    "\<forall>t. tag2loc m' t = map_option (\<lambda>l. of_nat (live_rank (loc2tag m) (unat l))) (tag2loc m t)"
    "\<forall>i. loc2tag m i \<noteq> None \<longrightarrow> renamed E (loc2tag m) (mgraph m) i (mgraph m' ! live_rank (loc2tag m) (unat i))"
    using consolidate_ok [OF assms(1,2,5,3), of ord] assms(4) by blast
  have "loc2tag m i = Some t" using k(1) assms(6) by (simp add: tags_ok_def)
  then have i: "loc2tag m i \<noteq> None" "unat i < max_points m" using k(2) by (auto simp: slots_ok_def)
  have "unat (of_nat (live_rank (loc2tag m) (unat i)) :: u32) = live_rank (loc2tag m) (unat i)"
    by (rule unat_rank [OF k(3) i(2)])
  then show ?thesis
    using m'(1,2) m'(3) [rule_format, OF i(1)] assms(6) unfolding renamed_def
    by (intro exI [of _ m'] exI [of _ "of_nat (live_rank (loc2tag m) (unat i))"]) auto
qed

theorem consolidate_bridges_witness:
  "\<exists>m' j. consolidate env1 sorted_list_of_set [''a'', ''b''] three_slots = Some m' \<and> tag2loc m' ''a'' = Some j"
  using consolidate_bridges [OF env1_ok three_slots_ok three_slots_tags listed_sets, of "''a''" 0]
  by (auto simp: three_slots_def)

text \<open> C34. The new entry point is searched from the slot the old one had. When that slot is behind the live points
  it has no list any more, so the search stays on it: the entry point is then an empty slot without links, and
  a search with tags finds no point, only the tag of slot 0 for its unused places.\<close>

theorem consolidate_strands_entry:
  assumes "env_ok E" "mem_ok E m" "set ts = dom (tag2loc m)" "\<forall>S. set (ord S) = S \<and> distinct (ord S)"
    and "mdel m \<noteq> {}" "card (dom (loc2tag m)) \<le> unat (mep m)" "1 \<le> L" "1 \<le> K"
  shows "\<exists>m'. consolidate E ord ts m = Some m' \<and> mep m' = mep m \<and> loc2tag m' (mep m') = None \<and>
    reachable (mgraph m') (mep m') = {mep m'} \<and>
    search_with_tags (ecmp E) (esrt E) (eprep E) (mdata m') (mgraph m') (mep m') (loc2tag m') q K L =
      Some (take K (case loc2tag m' 0 of None \<Rightarrow> [] | Some t \<Rightarrow> replicate (L - 1) (t, float_max)))"
proof -
  have k: "tags_ok m" "slots_ok m" "max_points m < 2 ^ 32" "unat (mep m) < max 1 (max_points m)"
    using assms(2) by (simp_all add: mem_ok_def)
  obtain m' where m': "consolidate E ord ts m = Some m'" "mem_ok E m'" "max_points m' = max_points m" "mdel m' = {}"
    "mnd m' = live_rank (loc2tag m) (max_points m)"
    "live_rank (loc2tag m) (max_points m) \<le> unat (mep m) \<longrightarrow> mep m' = mep m \<and> mgraph m' ! unat (mep m) = []"
    "dom (loc2tag m') = slots_upto (live_rank (loc2tag m) (max_points m))"
    using consolidate_ok [OF assms(1,2,5,3), of ord] assms(4) by blast
  have ep: "mep m' = mep m" "mgraph m' ! unat (mep m') = []" using m'(6) assms(6) live_count [OF k(2,3)] by simp_all
  obtain d where d: "d \<in> mdel m" using assms(5) by blast
  then have "unat d < max_points m" using k(2) by (auto simp: slots_ok_def)
  then have range: "unat (mep m) < max_points m" using k(4) by linarith
  note k' = m'(2) [unfolded mem_ok_def]
  have alone: "reachable (mgraph m') (mep m') = {mep m'}" by (rule reachable_alone [OF ep(2)])
  have len: "length (mdata m') = max_points m'" by (simp add: max_points_def)
  have gok: "graph_ok (mdata m') (mgraph m')" by (rule adj_graph_ok [where E = E]) (use k' len in simp_all)
  have none: "loc2tag m' (mep m') = None"
  proof -
    have "mep m' \<notin> dom (loc2tag m')" unfolding m'(7) using assms(6) live_count [OF k(2,3)] ep(1) by simp
    then show ?thesis by blast
  qed
  note e = env_okD [OF assms(1)]
  have epr: "unat (mep m') < length (mdata m')" using range ep(1) m'(3) len by simp
  obtain s where s: "iterate_to_fixed_point (ecmp E) (esrt E) (mdata m') (mgraph m') (eprep E q) L [mep m'] = Some s"
    "search_with_tags (ecmp E) (esrt E) (eprep E) (mdata m') (mgraph m') (mep m') (loc2tag m') q K L =
      Some (take K (tagged (loc2tag m') (found (take (bl s) (best s))) @
        (case loc2tag m' 0 of None \<Rightarrow> [] | Some t \<Rightarrow> replicate (L - bl s) (t, float_max))))"
    using search_tags_result [OF gok epr assms(7) e(2,4) assms(8), of "eprep E" q "loc2tag m'"] by blast
  obtain s' where s': "iterate_to_fixed_point (ecmp E) (esrt E) (mdata m') (mgraph m') (eprep E q) L [mep m'] = Some s'"
    "walk_inv (ecmp E) (mdata m') (mgraph m') (eprep E q) L (mep m') s' (bl s')"
    using iterate_ends [OF gok epr assms(7) e(2,4)] by blast
  then have w: "walk_inv (ecmp E) (mdata m') (mgraph m') (eprep E q) L (mep m') s (bl s)" using s(1) by simp
  note p = pool_invD [OF walk_invD(1) [OF w]]
  have sub: "pid ` set (listed s) \<subseteq> {mep m'}" using p(6) walk_invD(9) [OF w] alone by blast
  have "card (pid ` set (listed s)) = bl s"
    using p(5) length_pool [OF walk_invD(1) [OF w]] by (metis distinct_card length_map set_map)
  then have one: "bl s = 1" using card_mono [OF _ sub] p(2) by simp
  then obtain x where x: "listed s = [x]" using length_pool [OF walk_invD(1) [OF w]] by (cases "listed s") auto
  then have "pid x = mep m'" using sub by simp
  then have "tagged (loc2tag m') (found (take (bl s) (best s))) = []" using x none by (simp add: listed_def)
  then have "search_with_tags (ecmp E) (esrt E) (eprep E) (mdata m') (mgraph m') (mep m') (loc2tag m') q K L =
      Some (take K (case loc2tag m' 0 of None \<Rightarrow> [] | Some t \<Rightarrow> replicate (L - 1) (t, float_max)))"
    using s(2) unfolding one by simp
  then show ?thesis using m'(1) ep(1) none alone by blast
qed

theorem consolidate_strands_entry_witness:
  "\<exists>m'. consolidate env1 sorted_list_of_set [''a'', ''b''] three_slots = Some m' \<and> mep m' = 2 \<and>
     reachable (mgraph m') 2 = {2}"
proof -
  have "card (dom (loc2tag three_slots)) = 2" "mep three_slots = 2" "mdel three_slots \<noteq> {}"
    by (simp_all add: three_slots_def)
  then show ?thesis
    using consolidate_strands_entry [OF env1_ok three_slots_ok three_slots_tags listed_sets, of 1 1] by fastforce
qed

end
