(* ===== verification/MemFiles.thy ===== *)
theory MemFiles
  imports MemConsolidate BinFile
begin

text \<open>
  The files of the in-memory index, \<open>save\<close> and \<open>load\<close> of \<open>PipeANN/src/index.cpp\<close> with the functions for the
  graph, the vectors, the tags and the deleted slots. A file is its list of bytes. A vector is the list of its
  \<open>dims\<close> elements, each the number that its \<open>k\<close> bytes hold; tags have 32 bits, as in every instance of the class.
  The files are deleted before they are written, and read from their start. \<open>None\<close> is \<open>crash()\<close>, an access
  outside an array, or a read past the end of a file.
\<close>

record index_files =
  graph_file :: bytes
  data_file :: bytes
  tags_file :: bytes
  delete_list_file :: "bytes option"

subsection \<open>Saving\<close>

text \<open>An entry of \<open>tag_data\<close>, zero for a slot without a tag.\<close>

definition saved_tag :: "('v, u32) mem_index \<Rightarrow> nat \<Rightarrow> nat" where
  "saved_tag m i = (case loc2tag m (of_nat i) of None \<Rightarrow> 0 | Some t \<Rightarrow> unat t)"

definition save_tags :: "('v, u32) mem_index \<Rightarrow> bytes" where
  "save_tags m = snd (save_bin 4 [] (map (saved_tag m) [0..<mnd m]) (mnd m) 1 0)"

definition save_data :: "nat \<Rightarrow> nat \<Rightarrow> (nat list, 't) mem_index \<Rightarrow> bytes option" where
  "save_data k dims m =
     (if mnd m \<le> max_points m then Some (snd (save_bin k [] (concat (mdata m)) (mnd m) dims 0)) else None)"

text \<open>A list in the graph file, with its length \<open>GK\<close> cut to 32 bits, and what it adds to \<open>index_size\<close>.\<close>

definition list_record :: "u32 list \<Rightarrow> bytes" where
  "list_record ns = (let GK = length ns mod 2 ^ 32 in le_put 4 GK @ les_put 4 (map unat (take GK ns)))"

definition list_size :: "u32 list \<Rightarrow> nat" where
  "list_size ns = 4 * ((length ns + 1) mod 2 ^ 32)"

definition max_degree :: "u32 list list \<Rightarrow> nat" where
  "max_degree ls = foldr (\<lambda>ns d. max d (length ns mod 2 ^ 32)) ls 0"

definition save_graph_file :: "('v, 't) mem_index \<Rightarrow> bytes option" where
  "save_graph_file m =
     (if mnd m \<le> length (mgraph m)
      then let ls = take (mnd m) (mgraph m) in
        Some (le_put 8 (24 + sum_list (map list_size ls)) @ le_put 4 (max_degree ls) @ le_put 4 (unat (mep m)) @
          le_put 8 0 @ concat (map list_record ls))
      else None)"

text \<open>\<open>ord\<close> is the order of the hash set.\<close>

definition save_delete_list :: "(u32 set \<Rightarrow> u32 list) \<Rightarrow> ('v, 't) mem_index \<Rightarrow> bytes option" where
  "save_delete_list ord m =
     (if mdel m = {} then None
      else Some (snd (save_bin 4 [] (map unat (ord (mdel m))) (length (ord (mdel m))) 1 0)))"

definition mem_save :: "nat \<Rightarrow> nat \<Rightarrow> (u32 set \<Rightarrow> u32 list) \<Rightarrow> (nat list, u32) mem_index \<Rightarrow> index_files option" where
  "mem_save k dims ord m = do {
     g \<leftarrow> save_graph_file m;
     d \<leftarrow> save_data k dims m;
     Some \<lparr>graph_file = g, data_file = d, tags_file = save_tags m, delete_list_file = save_delete_list ord m\<rparr>
   }"

subsection \<open>Loading\<close>

definition rows_of :: "nat \<Rightarrow> nat \<Rightarrow> 'a list \<Rightarrow> 'a list list" where
  "rows_of dims n xs = map (\<lambda>i. take dims (drop (i * dims) xs)) [0..<n]"

definition load_data :: "nat \<Rightarrow> nat \<Rightarrow> bytes \<Rightarrow> (nat list, 't) mem_index \<Rightarrow> (nat \<times> (nat list, 't) mem_index) option" where
  "load_data k dims f m = do {
     (xs, n, d) \<leftarrow> load_bin k f 0;
     if d \<noteq> dims then None
     else Some (n, m\<lparr>mdata := rows_of dims n xs, mgraph := take n (mgraph m) @ replicate (n - length (mgraph m)) [],
       mslots := {}\<rparr>)
   }"

definition load_delete_set :: "bytes \<Rightarrow> ('v, 't) mem_index \<Rightarrow> ('v, 't) mem_index option" where
  "load_delete_set f m = do {
     (xs, n, d) \<leftarrow> load_bin 4 f 0;
     if length xs < n then None else Some (m\<lparr>mdel := mdel m \<union> of_nat ` set (take n xs)\<rparr>)
   }"

lemma rd_les_shorter: "rd_les k n s = Some (xs, s') \<Longrightarrow> length s' \<le> length s"
proof (induction n arbitrary: s xs)
  case (Suc n)
  from Suc.prems obtain x s1 ys where "rd_le k s = Some (x, s1)" "rd_les k n s1 = Some (ys, s')"
    by (auto split: bind_splits)
  then show ?case using Suc.IH by (force simp: rd_le_def split: if_splits)
qed simp

text \<open>The loop of \<open>load_graph\<close>: it goes on until the number of bytes read is the one the file gives.\<close>

function load_lists :: "nat \<Rightarrow> nat \<Rightarrow> nat \<Rightarrow> bytes \<Rightarrow> u32 list list \<Rightarrow> (nat \<times> u32 list list) option" where
  "load_lists expected bytes_read nodes s g =
     (if bytes_read = expected then Some (nodes, g)
      else case rd_le 4 s of
          None \<Rightarrow> None
        | Some (k, s1) \<Rightarrow> case rd_les 4 k s1 of
            None \<Rightarrow> None
          | Some (ids, s2) \<Rightarrow> case vec_put g nodes (map of_nat ids) of
              None \<Rightarrow> None
            | Some g \<Rightarrow> load_lists expected (bytes_read + 4 * (k + 1)) (nodes + 1) s2 g)"
  by pat_completeness auto
termination
  by (relation "measure (\<lambda>(_, _, _, s, _). length s)")
    (auto dest!: rd_les_shorter simp: rd_le_def split: if_splits)

declare load_lists.simps [simp del]

definition load_graph :: "'v mem_env \<Rightarrow> bytes \<Rightarrow> nat \<Rightarrow> ('v, 't) mem_index \<Rightarrow> (nat \<times> nat \<times> ('v, 't) mem_index) option" where
  "load_graph E f expected_num_points m = do {
     (expected, s) \<leftarrow> rd_le 8 f;
     (width, s) \<leftarrow> rd_le 4 s;
     (ep, s) \<leftarrow> rd_le 4 s;
     (frozen, s) \<leftarrow> rd_le 8 s;
     let m = (if max_points m < expected_num_points then mem_resize E expected_num_points m else m);
     (nodes, g) \<leftarrow> load_lists expected 24 0 s (mgraph m);
     Some (nodes, frozen, m\<lparr>mwidth := width, mep := of_nat ep, mgraph := g\<rparr>)
   }"

fun put_tags :: "u32 set \<Rightarrow> nat \<Rightarrow> nat list \<Rightarrow> (u32 \<rightharpoonup> u32) \<times> (u32 \<rightharpoonup> u32) \<Rightarrow> (u32 \<rightharpoonup> u32) \<times> (u32 \<rightharpoonup> u32)" where
  "put_tags del i [] (a, b) = (a, b)"
| "put_tags del i (t # ts) (a, b) =
     put_tags del (i + 1) ts
       (if of_nat i \<in> del then (a, b) else (a(of_nat t \<mapsto> of_nat i), b(of_nat i \<mapsto> of_nat t)))"

text \<open>With a frozen point the last tag is left out; without any point its number would be \<open>-1\<close>.\<close>

definition load_tags :: "bytes \<Rightarrow> nat \<Rightarrow> ('v, u32) mem_index \<Rightarrow> (nat \<times> ('v, u32) mem_index) option" where
  "load_tags f frozen m = do {
     (xs, n, d) \<leftarrow> load_bin 4 f 0;
     if d \<noteq> 1 \<or> (0 < frozen \<and> n = 0) then None
     else let (a, b) = put_tags (mdel m) 0 (take (if 0 < frozen then n - 1 else n) xs) (tag2loc m, loc2tag m)
       in Some (n, m\<lparr>tag2loc := a, loc2tag := b\<rparr>)
   }"

text \<open>\<open>_nd\<close> is a difference of two \<open>size_t\<close>, and the loop over the empty slots counts in 32 bits.\<close>

definition mem_load ::
  "(nat list) mem_env \<Rightarrow> nat \<Rightarrow> nat \<Rightarrow> index_files \<Rightarrow> (nat list, u32) mem_index \<Rightarrow> (nat list, u32) mem_index option" where
  "mem_load E k dims F m = do {
     (dn, m) \<leftarrow> load_data k dims (data_file F) m;
     m \<leftarrow> (case delete_list_file F of None \<Rightarrow> Some m | Some f \<Rightarrow> load_delete_set f m);
     (gn, frozen, m) \<leftarrow> load_graph E (graph_file F) dn m;
     (tn, m) \<leftarrow> load_tags (tags_file F) frozen m;
     if dn \<noteq> gn \<or> dn \<noteq> tn then None
     else let nd = (dn + (2 ^ 64 - frozen)) mod 2 ^ 64 in
       Some (m\<lparr>mnd := nd, mslots := of_nat ` {nd mod 2 ^ 32..<max_points m}\<rparr>)
   }"

subsection \<open>The parts\<close>

lemma write_new [simp]: "write_at [] 0 d = d"
  by (simp add: write_at_def)

lemma rows_concat: "\<forall>v \<in> set vs. length v = dims \<Longrightarrow> rows_of dims (length vs) (concat vs @ ys) = vs"
proof (induction vs)
  case (Cons v vs)
  have "rows_of dims (Suc (length vs)) (v @ zs) = v # rows_of dims (length vs) zs" if "length v = dims" for zs
    using that by (simp add: rows_of_def upt_conv_Cons map_Suc_upt [symmetric] comp_def del: upt_Suc)
  then show ?case using Cons by simp
qed (simp add: rows_of_def)

lemma take_concat: "\<forall>v \<in> set (take n vs). length v = dims \<Longrightarrow> n \<le> length vs \<Longrightarrow> take (n * dims) (concat vs) = concat (take n vs)"
proof (induction n arbitrary: vs)
  case (Suc n)
  then obtain v ws where "vs = v # ws" by (cases vs) auto
  then show ?case using Suc by simp
qed simp

lemma length_rows: "\<forall>v \<in> set vs. length v = dims \<Longrightarrow> length (concat vs) = length vs * dims"
  by (induction vs) auto

lemma list_size_fit: "length ns < 2 ^ 29 \<Longrightarrow> list_size ns = 4 * (length ns + 1)"
  by (simp add: list_size_def)

lemma list_record_fit: "length ns < 2 ^ 29 \<Longrightarrow> list_record ns = le_put 4 (length ns) @ les_put 4 (map unat ns)"
  by (simp add: list_record_def)

lemma u32_bytes: "\<forall>x \<in> set (map unat (ns :: u32 list)). x < 256 ^ 4"
proof -
  have "unat x < 2 ^ 32" for x :: u32 using unsigned_less [of x] by simp
  then show ?thesis by simp
qed

lemma load_lists_saved:
  assumes "\<forall>ns \<in> set ls. length ns < 2 ^ 29" "length pre + length ls \<le> length g" "take (length pre) g = pre"
  shows "load_lists (b + sum_list (map list_size ls)) b (length pre) (concat (map list_record ls)) g =
    Some (length pre + length ls, pre @ ls @ drop (length pre + length ls) g)"
  using assms
proof (induction ls arbitrary: b pre g)
  case Nil
  then show ?case by (subst load_lists.simps) (use append_take_drop_id [of "length pre" g] in auto)
next
  case (Cons ns ls)
  let ?j = "length pre"
  have ns: "length ns < 2 ^ 29" using Cons.prems(1) by simp
  have sz: "list_size ns = 4 * (length ns + 1)" by (rule list_size_fit [OF ns])
  have k: "rd_le 4 (list_record ns @ s) = Some (length ns, les_put 4 (map unat ns) @ s)" for s
    unfolding list_record_fit [OF ns] using ns rd_le_put [of "length ns" 4] by simp
  have ids: "rd_les 4 (length ns) (les_put 4 (map unat ns) @ s) = Some (map unat ns, s)" for s
    using rd_les_put [OF u32_bytes, of ns s] by simp
  have ext: "take (Suc ?j) (g[?j := ns]) = pre @ [ns]"
    using Cons.prems(2,3) by (simp add: take_Suc_conv_app_nth)
  have IH: "load_lists (b + list_size ns + sum_list (map list_size ls)) (b + list_size ns) (length (pre @ [ns]))
      (concat (map list_record ls)) (g[?j := ns]) =
    Some (length (pre @ [ns]) + length ls, (pre @ [ns]) @ ls @ drop (length (pre @ [ns]) + length ls) (g[?j := ns]))"
    by (rule Cons.IH) (use Cons.prems ext in simp_all)
  show ?case
    using IH Cons.prems(2) sz
    by (subst load_lists.simps) (simp add: k ids vec_put_def comp_def ac_simps)
qed

lemma put_tags_snd:
  assumes "i + length ts \<le> 2 ^ 32"
  shows "snd (put_tags del i ts (a, b)) l =
    (if i \<le> unat l \<and> unat l < i + length ts \<and> l \<notin> del then Some (of_nat (ts ! (unat l - i))) else b l)"
  using assms
proof (induction ts arbitrary: i a b)
  case (Cons t ts)
  have u: "unat (of_nat i :: u32) = i" by (rule of_nat_u32) (use Cons.prems in simp)
  then have l: "l = of_nat i \<longleftrightarrow> unat l = i" by (metis word_unat_eq_iff)
  have IH: "snd (put_tags del (i + 1) ts (a', b')) l =
    (if i + 1 \<le> unat l \<and> unat l < i + 1 + length ts \<and> l \<notin> del then Some (of_nat (ts ! (unat l - (i + 1)))) else b' l)" for a' b'
    by (rule Cons.IH) (use Cons.prems in simp)
  show ?case
  proof (cases "unat l = i")
    case True
    then have "l = of_nat i" using l by simp
    then show ?thesis using IH True by auto
  next
    case False
    then have "i \<le> unat l \<longleftrightarrow> i + 1 \<le> unat l" "l \<noteq> of_nat i" using l by auto
    then show ?thesis using IH False by (auto simp: nth_Cons')
  qed
qed auto

lemma put_tags_fst:
  "fst (put_tags del i ts (a, b)) t = Some l \<Longrightarrow>
     a t = Some l \<or> (\<exists>p < length ts. l = of_nat (i + p) \<and> l \<notin> del \<and> t = of_nat (ts ! p))"
proof (induction ts arbitrary: i a b)
  case (Cons u ts)
  let ?a = "if of_nat i \<in> del then a else a(of_nat u \<mapsto> of_nat i)"
  let ?b = "if of_nat i \<in> del then b else b(of_nat i \<mapsto> of_nat u)"
  have "fst (put_tags del (i + 1) ts (?a, ?b)) t = Some l" using Cons.prems by (cases "of_nat i \<in> del") simp_all
  from Cons.IH [OF this] consider "?a t = Some l"
    | p where "p < length ts" "l = of_nat (i + 1 + p)" "l \<notin> del" "t = of_nat (ts ! p)" by blast
  then show ?case
  proof cases
    case 1
    then show ?thesis by (fastforce split: if_splits)
  next
    case 2
    then show ?thesis by (intro disjI2 exI [of _ "Suc p"]) simp
  qed
qed simp

lemma put_tags_keys:
  "a t \<noteq> None \<Longrightarrow> fst (put_tags del i ts (a, b)) t \<noteq> None"
  by (induction del i ts "(a, b)" arbitrary: a b rule: put_tags.induct) (simp, auto split: if_splits)

lemma put_tags_has:
  "p < length ts \<Longrightarrow> of_nat (i + p) \<notin> del \<Longrightarrow> fst (put_tags del i ts (a, b)) (of_nat (ts ! p)) \<noteq> None"
proof (induction ts arbitrary: i a b p)
  case (Cons u ts)
  show ?case
  proof (cases p)
    case 0
    then show ?thesis using Cons.prems(2) put_tags_keys [of "a(of_nat u \<mapsto> of_nat i)" "of_nat u"] by simp
  next
    case (Suc j)
    then show ?thesis using Cons.IH [of j "i + 1"] Cons.prems by simp
  qed
qed simp

text \<open>What can be written: the vectors of the first slots have the right shape, and the lists are short.\<close>

definition writable :: "nat \<Rightarrow> nat \<Rightarrow> (nat list, 't) mem_index \<Rightarrow> bool" where
  "writable k dims m \<longleftrightarrow> length (mgraph m) = max_points m \<and> mnd m \<le> max_points m \<and> max_points m < 2 ^ 32 \<and> dims < 2 ^ 32 \<and>
     (\<forall>v \<in> set (take (mnd m) (mdata m)). length v = dims \<and> (\<forall>x \<in> set v. x < 256 ^ k)) \<and>
     (\<forall>ns \<in> set (take (mnd m) (mgraph m)). length ns < 2 ^ 29)"

lemma load_bin_saved:
  assumes "length xs = n * d" "n < 2 ^ 32" "d < 2 ^ 32" "\<forall>x \<in> set xs. x < 256 ^ k" "take (n * d) ys = xs"
  shows "load_bin k (snd (save_bin k [] ys n d 0)) 0 = Some (xs, n, d)"
proof -
  have "bin_ok k xs n d" using assms(1-4) by (simp add: bin_ok_def)
  then show ?thesis
    unfolding load_bin_def by (rule load_save_bin [where rest = "[]"]) (use assms(1,5) in \<open>simp add: save_bin_def\<close>)
qed

lemma load_data_saved:
  assumes "writable k dims m"
  shows "\<exists>f. save_data k dims m = Some f \<and> load_data k dims f new_index =
    Some (mnd m, new_index\<lparr>mdata := take (mnd m) (mdata m), mgraph := replicate (mnd m) []\<rparr>)"
proof -
  let ?vs = "take (mnd m) (mdata m)"
  note w = assms [unfolded writable_def]
  have len: "length ?vs = mnd m" "mnd m \<le> length (mdata m)" using w by (simp_all add: max_points_def)
  have d: "\<forall>v \<in> set ?vs. length v = dims" using w by blast
  have "load_bin k (snd (save_bin k [] (concat (mdata m)) (mnd m) dims 0)) 0 = Some (concat ?vs, mnd m, dims)"
    by (rule load_bin_saved) (use w len length_rows [OF d] take_concat [OF d len(2)] in auto)
  moreover have "rows_of dims (mnd m) (concat ?vs) = ?vs" using rows_concat [OF d, of "[]"] len by simp
  ultimately show ?thesis
    using w by (simp add: save_data_def load_data_def new_index_def)
qed

lemma load_delete_saved:
  assumes "\<forall>S. set (ord S) = S \<and> distinct (ord S)" "mdel n = {}" "card (mdel m) < 2 ^ 32"
  shows "(case save_delete_list ord m of None \<Rightarrow> Some n | Some f \<Rightarrow> load_delete_set f n) = Some (n\<lparr>mdel := mdel m\<rparr>)"
proof (cases "mdel m = {}")
  case True
  then show ?thesis using assms(2) by (simp add: save_delete_list_def)
next
  case False
  let ?xs = "map unat (ord (mdel m))"
  have o: "set (ord (mdel m)) = mdel m" "distinct (ord (mdel m))" using assms(1) by blast+
  have len: "length (ord (mdel m)) = card (mdel m)" using o by (metis distinct_card)
  have "load_bin 4 (snd (save_bin 4 [] ?xs (length (ord (mdel m))) 1 0)) 0 = Some (?xs, length (ord (mdel m)), 1)"
    by (rule load_bin_saved) (use u32_bytes len assms(3) in simp_all)
  moreover have "of_nat ` set ?xs = mdel m" using o(1) by (simp add: image_image)
  ultimately show ?thesis using False assms(2) by (simp add: save_delete_list_def load_delete_set_def)
qed

lemma max_degree_small: "max_degree ls < 2 ^ 32"
  by (induction ls) (auto simp: max_degree_def)

lemma index_size_small:
  assumes "\<forall>ns \<in> set ls. length ns < 2 ^ 29" "length ls < 2 ^ 32"
  shows "24 + sum_list (map list_size ls) < 256 ^ 8"
proof -
  have "sum_list (map list_size ls) \<le> length ls * 2 ^ 31"
    using assms(1)
  proof (induction ls)
    case (Cons ns ls)
    have "list_size ns \<le> 2 ^ 31" using list_size_fit [of ns] Cons.prems by simp
    then show ?case using Cons by simp
  qed simp
  moreover have "length ls * 2 ^ 31 \<le> 2 ^ 32 * 2 ^ 31" using assms(2) by (intro mult_right_mono) simp_all
  ultimately show ?thesis by simp
qed

lemma load_graph_saved:
  assumes "writable k dims m" "max_points n = mnd m" "length (mgraph n) = mnd m"
  shows "\<exists>f. save_graph_file m = Some f \<and> load_graph E f (mnd m) n = Some (mnd m, 0,
    n\<lparr>mwidth := max_degree (take (mnd m) (mgraph m)), mep := mep m, mgraph := take (mnd m) (mgraph m)\<rparr>)"
proof -
  let ?ls = "take (mnd m) (mgraph m)"
  note w = assms(1) [unfolded writable_def]
  have len: "length ?ls = mnd m" "mnd m \<le> length (mgraph m)" using w by simp_all
  have fit: "\<forall>ns \<in> set ?ls. length ns < 2 ^ 29" using w by blast
  let ?f = "le_put 8 (24 + sum_list (map list_size ?ls)) @ le_put 4 (max_degree ?ls) @ le_put 4 (unat (mep m)) @
    le_put 8 0 @ concat (map list_record ?ls)"
  have "24 + sum_list (map list_size ?ls) < 256 ^ 8" by (rule index_size_small [OF fit]) (use w len in linarith)
  then have 1: "rd_le 8 (le_put 8 (24 + sum_list (map list_size ?ls)) @ s) = Some (24 + sum_list (map list_size ?ls), s)" for s
    by (rule rd_le_put)
  have 2: "rd_le 4 (le_put 4 (max_degree ?ls) @ s) = Some (max_degree ?ls, s)" for s
    by (rule rd_le_put) (use max_degree_small [of ?ls] in simp)
  have 3: "rd_le 4 (le_put 4 (unat (mep m)) @ s) = Some (unat (mep m), s)" for s
    by (rule rd_le_put) (use unsigned_less [of "mep m"] in simp)
  have 4: "rd_le 8 (le_put 8 0 @ s) = Some (0, s)" for s by (rule rd_le_put) simp
  have "load_lists (24 + sum_list (map list_size ?ls)) 24 0 (concat (map list_record ?ls)) (mgraph n) = Some (mnd m, ?ls)"
    using load_lists_saved [OF fit, of "[]" "mgraph n" 24] len assms(3) by simp
  then have "load_graph E ?f (mnd m) n = Some (mnd m, 0,
      n\<lparr>mwidth := max_degree ?ls, mep := mep m, mgraph := ?ls\<rparr>)"
    using assms(2) unfolding load_graph_def 1 2 3 4 by (simp add: 1 2 3 4)
  moreover have "save_graph_file m = Some ?f" using len by (simp add: save_graph_file_def Let_def)
  ultimately show ?thesis by blast
qed

text \<open>What \<open>load\<close> makes of the files that \<open>save\<close> writes.\<close>

lemma saved_loads:
  assumes w: "writable k dims m" and ord: "\<forall>S. set (ord S) = S \<and> distinct (ord S)" and del: "card (mdel m) < 2 ^ 32"
  shows "\<exists>F. mem_save k dims ord m = Some F \<and>
    mem_load E k dims F new_index = Some \<lparr>mdata = take (mnd m) (mdata m), mgraph = take (mnd m) (mgraph m), mnd = mnd m,
      mwidth = max_degree (take (mnd m) (mgraph m)), mep = mep m,
      tag2loc = fst (put_tags (mdel m) 0 (map (saved_tag m) [0..<mnd m]) (Map.empty, Map.empty)),
      loc2tag = snd (put_tags (mdel m) 0 (map (saved_tag m) [0..<mnd m]) (Map.empty, Map.empty)),
      mdel = mdel m, mslots = {}\<rparr>"
proof -
  note w' = w [unfolded writable_def]
  let ?n0 = "new_index :: (nat list, u32) mem_index"
  let ?n1 = "?n0\<lparr>mdata := take (mnd m) (mdata m), mgraph := replicate (mnd m) []\<rparr>"
  let ?n2 = "?n1\<lparr>mdel := mdel m\<rparr>"
  obtain d where d: "save_data k dims m = Some d" "load_data k dims d new_index = Some (mnd m, ?n1)"
    using load_data_saved [OF w] by blast
  have l: "(case save_delete_list ord m of None \<Rightarrow> Some ?n1 | Some f \<Rightarrow> load_delete_set f ?n1) = Some ?n2"
    by (rule load_delete_saved [OF ord _ del]) (simp add: new_index_def)
  have mp: "max_points ?n2 = mnd m" "length (mgraph ?n2) = mnd m" using w' by (simp_all add: max_points_def)
  obtain g where g: "save_graph_file m = Some g" "load_graph E g (mnd m) ?n2 = Some (mnd m, 0,
    ?n2\<lparr>mwidth := max_degree (take (mnd m) (mgraph m)), mep := mep m, mgraph := take (mnd m) (mgraph m)\<rparr>)"
    using load_graph_saved [OF w mp] by blast
  have small: "saved_tag m i < 2 ^ 32" for i
  proof (cases "loc2tag m (of_nat i)")
    case (Some t)
    then show ?thesis using unsigned_less [of t] by (simp add: saved_tag_def)
  qed (simp add: saved_tag_def)
  have t: "load_bin 4 (save_tags m) 0 = Some (map (saved_tag m) [0..<mnd m], mnd m, 1)"
    unfolding save_tags_def by (rule load_bin_saved) (use small w' in auto)
  have nd: "(mnd m + (2 ^ 64 - 0)) mod 2 ^ 64 = mnd m" "mnd m mod 2 ^ 32 = mnd m" using w' by simp_all
  define G where "G = ?n2\<lparr>mwidth := max_degree (take (mnd m) (mgraph m)), mep := mep m, mgraph := take (mnd m) (mgraph m)\<rparr>"
  obtain a b where ab: "put_tags (mdel m) 0 (map (saved_tag m) [0..<mnd m]) (Map.empty, Map.empty) = (a, b)" by fastforce
  have "mdel G = mdel m" "tag2loc G = Map.empty" "loc2tag G = Map.empty" by (simp_all add: G_def new_index_def)
  then have "load_tags (save_tags m) 0 G = Some (mnd m, G\<lparr>tag2loc := a, loc2tag := b\<rparr>)"
    using ab by (simp add: load_tags_def t)
  then have "mem_load E k dims \<lparr>graph_file = g, data_file = d, tags_file = save_tags m, delete_list_file = save_delete_list ord m\<rparr> new_index
    = Some (G\<lparr>tag2loc := a, loc2tag := b, mnd := mnd m, mslots := of_nat ` {mnd m..<max_points G}\<rparr>)"
    using d(2) l g(2) nd unfolding G_def [symmetric] by (simp add: mem_load_def max_points_def Let_def)
  moreover have "max_points G = mnd m" using mp(1) by (simp add: G_def max_points_def)
  ultimately show ?thesis
    using d(1) g(1) ab unfolding mem_save_def by (simp add: G_def new_index_def)
qed

subsection \<open>The index that is loaded\<close>

abbreviation read_tags :: "('v, u32) mem_index \<Rightarrow> (u32 \<rightharpoonup> u32) \<times> (u32 \<rightharpoonup> u32)" where
  "read_tags m \<equiv> put_tags (mdel m) 0 (map (saved_tag m) [0..<mnd m]) (Map.empty, Map.empty)"

lemma read_tags_at:
  assumes "mnd m \<le> 2 ^ 32"
  shows "snd (read_tags m) l = (if unat l < mnd m \<and> l \<notin> mdel m then Some (case loc2tag m l of None \<Rightarrow> 0 | Some t \<Rightarrow> t) else None)"
  using put_tags_snd [of 0 "map (saved_tag m) [0..<mnd m]" "mdel m" Map.empty Map.empty l] assms
  by (simp add: saved_tag_def split: option.splits)

lemma read_tags_inv:
  assumes "mnd m \<le> 2 ^ 32"
  shows "fst (read_tags m) t = Some l \<Longrightarrow> snd (read_tags m) l = Some t"
    "snd (read_tags m) l = Some t \<Longrightarrow> fst (read_tags m) t \<noteq> None"
proof -
  assume "fst (read_tags m) t = Some l"
  from put_tags_fst [OF this] obtain p where p: "p < mnd m" "l = of_nat p" "l \<notin> mdel m" "t = of_nat (saved_tag m p)" by auto
  have "unat l = p" unfolding p(2) by (rule of_nat_u32) (use p(1) assms in linarith)
  then show "snd (read_tags m) l = Some t" using read_tags_at [OF assms, of l] p by (simp add: saved_tag_def split: option.splits)
next
  assume b: "snd (read_tags m) l = Some t"
  then have l: "unat l < mnd m" "l \<notin> mdel m" "t = of_nat (saved_tag m (unat l))"
    using read_tags_at [OF assms, of l] by (auto simp: saved_tag_def split: if_splits option.splits)
  then show "fst (read_tags m) t \<noteq> None"
    using put_tags_has [of "unat l" "map (saved_tag m) [0..<mnd m]" 0 "mdel m" Map.empty Map.empty] by simp
qed

text \<open>The slots that are in use are the first ones.\<close>

definition packed :: "('v, 't) mem_index \<Rightarrow> bool" where
  "packed m \<longleftrightarrow> mslots m = slots_upto (max_points m) - slots_upto (mnd m)"

lemma packed_used:
  assumes "slots_ok m" "packed m" "mnd m \<le> max_points m"
  shows "dom (loc2tag m) \<union> mdel m = slots_upto (mnd m)"
proof -
  have "dom (loc2tag m) \<union> mdel m = slots_upto (max_points m) - mslots m" using assms(1) by (auto simp: slots_ok_def)
  then show ?thesis using assms(2,3) unfolding packed_def by auto
qed

lemma packed_tags:
  assumes "tags_ok m" "slots_ok m" "packed m" "mnd m \<le> max_points m" "max_points m < 2 ^ 32"
  shows "snd (read_tags m) = loc2tag m" "fst (read_tags m) = tag2loc m"
proof -
  note used = packed_used [OF assms(2-4)]
  have n: "mnd m \<le> 2 ^ 32" using assms(4,5) by linarith
  show b: "snd (read_tags m) = loc2tag m"
  proof
    fix l
    have "l \<notin> mdel m \<Longrightarrow> l \<notin> slots_upto (mnd m) \<longleftrightarrow> loc2tag m l = None" using used by blast
    moreover have "l \<in> mdel m \<Longrightarrow> loc2tag m l = None" using assms(2) unfolding slots_ok_def by blast
    ultimately show "snd (read_tags m) l = loc2tag m l" unfolding read_tags_at [OF n] by (cases "l \<in> mdel m") (auto split: option.splits)
  qed
  show "fst (read_tags m) = tag2loc m"
  proof
    fix t
    note inv = read_tags_inv [OF n, unfolded b]
    have tags: "tag2loc m t = Some l \<longleftrightarrow> loc2tag m l = Some t" for l using assms(1) by (simp add: tags_ok_def)
    show "fst (read_tags m) t = tag2loc m t"
    proof (cases "fst (read_tags m) t")
      case None
      then have "tag2loc m t \<noteq> Some l" for l using inv(2) [of l t] tags by auto
      then show ?thesis using None by (cases "tag2loc m t") auto
    next
      case (Some l)
      then have "tag2loc m t = Some l" using inv(1) [of t l] tags by simp
      then show ?thesis using Some by simp
    qed
  qed
qed

lemma slots_bound:
  assumes "slots_ok m" "max_points m < 2 ^ 32"
  shows "mnd m \<le> max_points m" "card (mdel m) < 2 ^ 32"
proof -
  show "mnd m \<le> max_points m" using assms(1) by (simp add: slots_ok_def)
  have "mdel m \<subseteq> slots_upto (max_points m)" using assms(1) by (auto simp: slots_ok_def)
  then have "card (mdel m) \<le> max_points m"
    using card_mono [OF finite_subset [OF subset_UNIV], of "mdel m" "slots_upto (max_points m)"] card_slots_upto assms(2)
    by fastforce
  then show "card (mdel m) < 2 ^ 32" using assms(2) by linarith
qed

lemma roundtrip_ok:
  assumes "mem_ok E m" "writable k dims m" "packed m" "\<forall>S. set (ord S) = S \<and> distinct (ord S)"
  shows "\<exists>F m'. mem_save k dims ord m = Some F \<and> mem_load E' k dims F new_index = Some m' \<and> contents m' = contents m \<and>
    m' = m\<lparr>mdata := take (mnd m) (mdata m), mgraph := take (mnd m) (mgraph m),
      mwidth := max_degree (take (mnd m) (mgraph m)), mslots := {}\<rparr>"
proof -
  have ok: "tags_ok m" "slots_ok m" "max_points m < 2 ^ 32" using assms(1) by (simp_all add: mem_ok_def)
  note b = slots_bound [OF ok(2,3)]
  let ?m = "m\<lparr>mdata := take (mnd m) (mdata m), mgraph := take (mnd m) (mgraph m),
      mwidth := max_degree (take (mnd m) (mgraph m)), mslots := {}\<rparr>"
  obtain F where F: "mem_save k dims ord m = Some F" "mem_load E' k dims F new_index = Some ?m"
    using saved_loads [OF assms(2,4) b(2), of E'] packed_tags [OF ok(1,2) assms(3) b(1) ok(3)] by auto
  have "contents ?m t = contents m t" for t
  proof (cases "tag2loc m t")
    case (Some l)
    then have "loc2tag m l = Some t" using ok(1) by (simp add: tags_ok_def)
    then have "unat l < mnd m" using packed_used [OF ok(2) assms(3) b(1)] by blast
    then show ?thesis using Some by (simp add: contents_def)
  qed (simp add: contents_def)
  then show ?thesis using F by blast
qed

text \<open>C5. An index whose used slots are the first ones comes back from its files: its vectors, its lists, its tags,
  its deleted slots and its entry point are as they were, and so is the map from tags to vectors. Only the
  empty slots are gone, and the width is the largest degree.\<close>

theorem save_load_roundtrip:
  assumes "mem_ok E m" "writable k dims m" "packed m" "\<forall>S. set (ord S) = S \<and> distinct (ord S)"
  shows "\<exists>F m'. mem_save k dims ord m = Some F \<and> mem_load E' k dims F new_index = Some m' \<and> contents m' = contents m \<and>
    m' = m\<lparr>mdata := take (mnd m) (mdata m), mgraph := take (mnd m) (mgraph m),
      mwidth := max_degree (take (mnd m) (mgraph m)), mslots := {}\<rparr>"
  by (rule roundtrip_ok [OF assms])

text \<open>C23. When used slots are not the first ones, for instance after a hash set that has grown gave out a late
  slot first, \<open>save\<close> still writes the first \<open>_nd\<close> slots: a point in a later slot is lost, and an empty slot
  comes back as a live point with tag 0.\<close>

theorem save_loses_slot:
  assumes "mem_ok E m" "writable k dims m" "\<forall>S. set (ord S) = S \<and> distinct (ord S)"
    and "tag2loc m t = Some l" "mnd m \<le> unat l" "t \<noteq> 0"
  shows "\<exists>F m'. mem_save k dims ord m = Some F \<and> mem_load E' k dims F new_index = Some m' \<and>
    contents m t \<noteq> None \<and> contents m' t = None \<and> (\<exists>i \<in> mslots m. loc2tag m' i = Some 0)"
proof -
  have ok: "tags_ok m" "slots_ok m" "max_points m < 2 ^ 32" using assms(1) by (simp_all add: mem_ok_def)
  note b = slots_bound [OF ok(2,3)]
  have n: "mnd m \<le> 2 ^ 32" using b ok(3) by linarith
  obtain F m' where F: "mem_save k dims ord m = Some F" "mem_load E' k dims F new_index = Some m'"
    "tag2loc m' = fst (read_tags m)" "loc2tag m' = snd (read_tags m)"
    using saved_loads [OF assms(2,3) b(2), of E'] by fastforce
  have "fst (read_tags m) t = None"
  proof (rule ccontr)
    assume "fst (read_tags m) t \<noteq> None"
    then obtain l' where "fst (read_tags m) t = Some l'" by blast
    from read_tags_inv(1) [OF n this] have "unat l' < mnd m" "loc2tag m l' = Some t"
      using read_tags_at [OF n, of l'] assms(6) by (auto split: if_splits option.splits)
    then show False using ok(1) assms(4,5) unfolding tags_ok_def by (metis leD option.inject)
  qed
  moreover have "\<exists>i \<in> mslots m. unat i < mnd m"
  proof (rule ccontr)
    assume "\<not> (\<exists>i \<in> mslots m. unat i < mnd m)"
    then have "mslots m \<subseteq> slots_upto (max_points m) - slots_upto (mnd m)" using ok(2) by (auto simp: slots_ok_def)
    moreover have "l \<in> dom (loc2tag m)" using ok(1) assms(4) by (auto simp: tags_ok_def)
    then have "l \<in> slots_upto (max_points m) - slots_upto (mnd m)" "l \<notin> mslots m"
      using ok(2) assms(5) by (auto simp: slots_ok_def)
    ultimately have "mslots m \<subset> slots_upto (max_points m) - slots_upto (mnd m)" by blast
    then have "card (mslots m) < card (slots_upto (max_points m) - slots_upto (mnd m))"
      by (rule psubset_card_mono [rotated]) simp
    also have "\<dots> = max_points m - mnd m"
      using card_Diff_subset [of "slots_upto (mnd m)" "slots_upto (max_points m)"] card_slots_upto [of "mnd m"]
        card_slots_upto [of "max_points m"] b(1) ok(3) by (auto intro: less_le_trans)
    finally show False using ok(2) unfolding slots_ok_def by linarith
  qed
  then obtain i where i: "i \<in> mslots m" "unat i < mnd m" by blast
  then have "i \<notin> mdel m" "loc2tag m i = None" using ok(2) by (auto simp: slots_ok_def)
  then have "snd (read_tags m) i = Some 0" using i(2) read_tags_at [OF n, of i] by simp
  ultimately show ?thesis using F i(1) assms(4) by (intro exI [of _ F] exI [of _ m']) (auto simp: contents_def)
qed

subsection \<open>Consolidate, save, load\<close>

lemma renamed_in:
  assumes "n < 2 ^ 32" "length g = n" "\<forall>ns \<in> set g. \<forall>k \<in> set ns. unat k < n" "unat i < n" "renamed E l2t g i ns"
  shows "\<forall>x \<in> set ns. unat x < live_rank l2t n"
proof
  obtain ks where ks: "ns = map (\<lambda>k. of_nat (live_rank l2t (unat k))) ks" "set ks \<subseteq> bridged l2t g i"
    using assms(5) unfolding renamed_def by blast
  fix x assume "x \<in> set ns"
  then obtain k where k: "k \<in> set ks" "x = of_nat (live_rank l2t (unat k))" unfolding ks(1) by auto
  have live: "l2t k \<noteq> None" "unat k < n" using bridged_live [OF assms(2-4), of k l2t] ks(2) k(1) by blast+
  show "unat x < live_rank l2t n"
    unfolding k(2) unat_rank [OF assms(1) live(2)] by (rule rank_of_live(1) [of l2t k n, OF live])
qed

text \<open>The first slots of a consolidated index are those of its live points.\<close>

lemma consolidated_slots:
  assumes ok: "mem_ok E m" and m': "\<forall>i. loc2tag m i \<noteq> None \<longrightarrow> mdata m' ! live_rank (loc2tag m) (unat i) = mdata m ! unat i \<and>
       renamed E (loc2tag m) (mgraph m) i (mgraph m' ! live_rank (loc2tag m) (unat i))"
    and j: "j < live_rank (loc2tag m) (max_points m)"
  shows "mdata m' ! j \<in> set (mdata m)" "\<forall>x \<in> set (mgraph m' ! j). unat x < live_rank (loc2tag m) (max_points m)"
proof -
  let ?n = "max_points m"
  note k = ok [unfolded mem_ok_def]
  have n: "?n < 2 ^ 32" "length (mgraph m) = ?n" "length (mdata m) = ?n" using k by (simp_all add: max_points_def)
  obtain i where i: "i < ?n" "loc2tag m (of_nat i) \<noteq> None" "live_rank (loc2tag m) i = j" using live_rank_onto [OF j] by blast
  have u: "unat (of_nat i :: u32) = i" by (rule of_nat_u32) (rule less_trans [OF i(1) n(1)])
  have m: "mdata m' ! j = mdata m ! i" "renamed E (loc2tag m) (mgraph m) (of_nat i) (mgraph m' ! j)"
    using m' [rule_format, OF i(2)] i(3) u by simp_all
  then show "mdata m' ! j \<in> set (mdata m)" using i(1) n(3) by simp
  have "graph_ok (mdata m) (mgraph m)" by (rule adj_graph_ok [where E = E]) (use k n in simp_all)
  then have lists: "\<forall>ns \<in> set (mgraph m). \<forall>k \<in> set ns. unat k < ?n" using n(3) by (simp add: graph_ok_def)
  show "\<forall>x \<in> set (mgraph m' ! j). unat x < live_rank (loc2tag m) ?n"
    by (rule renamed_in [OF n(1,2) lists _ m(2)]) (use u i(1) in simp)
qed


subsection \<open>Small indexes\<close>

definition byte_env :: "(nat list) mem_env" where
  "byte_env = \<lparr>ecmp = (\<lambda>a b. gap (of_nat (hd a)) (of_nat (hd b))), esrt = isort nbr_lt, ecsrt = isort cand_less, ernd = id,
     eprep = id, ezero = [0], epick = Min, emetric = L2,
     epar = \<lparr>bR = 2, bC = 5, balpha = 6 / 5, bsaturate = True\<rparr>, eL = 3\<rparr>"

lemma byte_env_ok: "env_ok byte_env"
  using nbr_lt.isort.std_sort_axioms cand_less.isort.std_sort_axioms gap_sym Min_in
  by (auto simp: env_ok_def byte_env_def finite_subset [OF subset_UNIV])

definition small_index :: "u32 list list \<Rightarrow> nat \<Rightarrow> u32 \<Rightarrow> (u32 \<rightharpoonup> u32) \<Rightarrow> (u32 \<rightharpoonup> u32) \<Rightarrow> u32 set \<Rightarrow> u32 set \<Rightarrow> (nat list, u32) mem_index" where
  "small_index g nd ep a b del slots = \<lparr>mdata = [[7], [9], [0]], mgraph = g, mnd = nd, mwidth = 0, mep = ep,
     tag2loc = a, loc2tag = b, mdel = del, mslots = slots\<rparr>"

lemma small_slots: "slots_upto 3 = {0, 1, 2}" "slots_upto (Suc (Suc (Suc 0))) = {0, 1, 2}" "slots_upto 2 = {0, 1}" "slots_upto (Suc 0) = {0}"
proof -
  show three: "slots_upto 3 = {0, 1, 2}" by (auto simp: word_unat_eq_iff)
  show "slots_upto 2 = {0, 1}" "slots_upto (Suc 0) = {0}" by (auto simp: word_unat_eq_iff)
  show "slots_upto (Suc (Suc (Suc 0))) = {0, 1, 2}" using three by (simp only: numeral_3_eq_3)
qed

lemma small_adj: "adj_ok E [a, b, c] \<longleftrightarrow> list_ok E 3 0 a \<and> list_ok E 3 1 b \<and> list_ok E 3 2 c"
proof -
  have i: "unat i < 3 \<longleftrightarrow> i = 0 \<or> i = 1 \<or> i = 2" for i :: u32 using small_slots(1) by blast
  have len: "length [a, b, c] = 3" by simp
  have nth: "[a, b, c] ! unat (0 :: u32) = a" "[a, b, c] ! unat (1 :: u32) = b" "[a, b, c] ! unat (2 :: u32) = c" by simp_all
  show ?thesis unfolding adj_ok_def len i using nth by metis
qed

lemma small_index_ok:
  assumes "adj_ok byte_env [x, y, z]" "unat ep < 3" "\<forall>t l. a t = Some l \<longleftrightarrow> b l = Some t" "dom b \<inter> del = {}"
    "(dom b \<union> del) \<inter> slots = {}" "dom b \<union> del \<union> slots = {0, 1, 2}" "nd + card slots = 3"
  shows "mem_ok byte_env (small_index [x, y, z] nd ep a b del slots)"
  using assms small_slots(2) by (simp add: mem_ok_def tags_ok_def slots_ok_def small_index_def max_points_def)

theorem save_load_roundtrip_witness:
  "let m = small_index [[1], [0], []] 2 0 [5 \<mapsto> 0, 6 \<mapsto> 1] [0 \<mapsto> 5, 1 \<mapsto> 6] {} {2} in
   \<exists>F m'. mem_save 4 1 sorted_list_of_set m = Some F \<and> mem_load byte_env 4 1 F new_index = Some m' \<and>
     contents m' = contents m \<and> mdata m' = [[7], [9]]"
proof -
  let ?m = "small_index [[1], [0], []] 2 0 [5 \<mapsto> 0, 6 \<mapsto> 1] [0 \<mapsto> 5, 1 \<mapsto> 6] {} {2}"
  have "mem_ok byte_env ?m"
    by (rule small_index_ok) (auto simp: small_adj list_ok_def byte_env_def slack_def)
  moreover have "writable 4 1 ?m" by (simp add: writable_def small_index_def max_points_def take_Cons')
  moreover have "packed ?m"
    using small_slots by (auto simp: packed_def small_index_def max_points_def)
  moreover have "take (mnd ?m) (mdata ?m) = [[7], [9]]" by (simp add: small_index_def)
  ultimately show ?thesis using save_load_roundtrip [OF _ _ _ listed_sets, of byte_env ?m 4 1 byte_env] by force
qed

theorem save_loses_slot_witness:
  "let m = small_index [[], [], []] 1 2 [5 \<mapsto> 2] [2 \<mapsto> 5] {} {0, 1} in
   \<exists>F m'. mem_save 4 1 sorted_list_of_set m = Some F \<and> mem_load byte_env 4 1 F new_index = Some m' \<and>
     contents m' 5 = None"
proof -
  let ?m = "small_index [[], [], []] 1 2 [5 \<mapsto> 2] [2 \<mapsto> 5] {} {0, 1}"
  have "mem_ok byte_env ?m"
    by (rule small_index_ok) (auto simp: small_adj list_ok_def byte_env_def slack_def)
  moreover have "writable 4 1 ?m" by (simp add: writable_def small_index_def max_points_def)
  moreover have "tag2loc ?m 5 = Some 2" "mnd ?m \<le> unat (2 :: u32)" by (simp_all add: small_index_def)
  ultimately show ?thesis using save_loses_slot [OF _ _ listed_sets, of byte_env ?m 4 1 5 2 byte_env] by force
qed


end
