(* ===== verification/MemBuild.thy ===== *)
theory MemBuild
  imports MemFiles
begin

text \<open>
  The build of the in-memory index, \<open>PipeANN/src/index.cpp\<close>: \<open>calculate_entry_point\<close>, \<open>link\<close> and \<open>build\<close>.
  A vector is the list of its elements as they are in the file; \<open>fv\<close> is the conversion of an element to
  \<open>float\<close> and \<open>rnd\<close> the rounding after each float operation. The threads of a parallel loop run its rounds
  one at a time, in an order that is an argument. \<open>None\<close> is \<open>crash()\<close>, an access outside an array, or a
  read past the end of a file.
\<close>

subsection \<open>The entry point\<close>

definition centroid :: "(rat \<Rightarrow> rat) \<Rightarrow> (nat \<Rightarrow> rat) \<Rightarrow> nat \<Rightarrow> nat list list \<Rightarrow> rat list" where
  "centroid rnd fv dims vs =
     map (\<lambda>c. rnd (c / rnd (of_nat (length vs))))
       (foldl (\<lambda>cs v. map (\<lambda>j. rnd (cs ! j + fv (v ! j))) [0..<dims]) (replicate dims 0) vs)"

definition center_dist :: "(rat \<Rightarrow> rat) \<Rightarrow> (nat \<Rightarrow> rat) \<Rightarrow> nat \<Rightarrow> rat list \<Rightarrow> nat list \<Rightarrow> rat" where
  "center_dist rnd fv dims cs v =
     foldl (\<lambda>d j. rnd (d + rnd (rnd (cs ! j - fv (v ! j)) * rnd (cs ! j - fv (v ! j))))) 0 [0..<dims]"

text \<open>An \<open>AtomicDistance\<close> is its \<open>idx\<close> and \<open>D\<close>. Each \<open>update\<close> holds the lock of the entry.\<close>

definition min_dist :: "nat \<Rightarrow> rat \<Rightarrow> nat \<times> rat \<Rightarrow> nat \<times> rat" where
  "min_dist i d b = (if d < snd b then (i, d) else b)"

definition kDistNum :: nat where
  "kDistNum = 256"

fun update_dists :: "(nat \<Rightarrow> rat) \<Rightarrow> nat list \<Rightarrow> (nat \<times> rat) list \<Rightarrow> (nat \<times> rat) list" where
  "update_dists D [] bs = bs"
| "update_dists D (i # is) bs =
     (let b = i div 65536 mod kDistNum in update_dists D is (bs[b := min_dist i (D i) (bs ! b)]))"

definition least_dist :: "(nat \<times> rat) list \<Rightarrow> nat" where
  "least_dist bs = fst (foldl (\<lambda>a b. min_dist (fst b) (snd b) a) (0, float_max) bs)"

definition calculate_entry_point :: "(rat \<Rightarrow> rat) \<Rightarrow> (nat \<Rightarrow> rat) \<Rightarrow> nat \<Rightarrow> nat list \<Rightarrow> nat list list \<Rightarrow> nat" where
  "calculate_entry_point rnd fv dims order vs =
     (let cs = centroid rnd fv dims vs
      in least_dist (update_dists (\<lambda>i. center_dist rnd fv dims cs (vs ! i)) order (replicate kDistNum (0, float_max))))"

subsection \<open>Linking\<close>

definition link_node :: "'v mem_env \<Rightarrow> 'v list \<Rightarrow> u32 \<Rightarrow> nat \<Rightarrow> u32 list list \<Rightarrow> u32 list list option" where
  "link_node E data ep node g = do {
     q \<leftarrow> vec_at data node;
     s \<leftarrow> iterate_to_fixed_point (ecmp E) (esrt E) data g q (eL E) [ep];
     pruned \<leftarrow> prune_ids E data (expanded_pool (of_nat node) (einfo s));
     g \<leftarrow> vec_put g node pruned;
     inter_insert E data (of_nat node) pruned g
   }"

fun link_nodes :: "'v mem_env \<Rightarrow> 'v list \<Rightarrow> u32 \<Rightarrow> nat list \<Rightarrow> u32 list list \<Rightarrow> u32 list list option" where
  "link_nodes E data ep [] g = Some g"
| "link_nodes E data ep (node # nodes) g = do { g \<leftarrow> link_node E data ep node g; link_nodes E data ep nodes g }"

text \<open>The final cleanup; a round reads and writes the list of its own node only.\<close>

definition trim_list :: "'v mem_env \<Rightarrow> 'v list \<Rightarrow> nat \<Rightarrow> u32 list \<Rightarrow> u32 list option" where
  "trim_list E data node ns =
     (if length ns > bR (epar E)
      then do { pool \<leftarrow> pool_of E data (of_nat node) (filter (\<lambda>c. c \<noteq> of_nat node) ns); prune_ids E data pool }
      else Some ns)"

definition link :: "'v mem_env \<Rightarrow> nat list \<Rightarrow> 'v list \<Rightarrow> u32 \<Rightarrow> nat \<Rightarrow> u32 list list \<Rightarrow> u32 list list option" where
  "link E order data ep nd g = do {
     g \<leftarrow> link_nodes E data ep order g;
     if length g < nd then None
     else those (map (\<lambda>i. if i < nd then trim_list E data i (g ! i) else Some (g ! i)) [0..<length g])
   }"

subsection \<open>Building\<close>

text \<open>\<open>nrm\<close> normalizes a vector where the metric and the caller ask for it, and is the identity otherwise.
  \<open>eorder\<close> and \<open>lorder\<close> are the orders of the two parallel loops over all points.\<close>

definition build ::
  "(nat list) mem_env \<Rightarrow> (nat \<Rightarrow> rat) \<Rightarrow> (nat list \<Rightarrow> nat list) \<Rightarrow> nat \<Rightarrow> nat \<Rightarrow> nat list \<Rightarrow> nat list \<Rightarrow>
   bytes \<Rightarrow> nat \<Rightarrow> u32 list \<Rightarrow> (nat list, u32) mem_index \<Rightarrow> (nat list, u32) mem_index option" where
  "build E fv nrm k dims eorder lorder f n tags m = do {
     (xs, file_n, file_dims) \<leftarrow> load_bin k f 0;
     if n > file_n \<or> file_dims \<noteq> dims \<or> length tags \<noteq> n then None
     else do {
       let data = map nrm (rows_of dims file_n xs);
       let g = take file_n (mgraph m) @ replicate (file_n - length (mgraph m)) [];
       let (a, b) = put_tags {} 0 (map unat tags) (tag2loc m, loc2tag m);
       let ep = of_nat (calculate_entry_point (ernd E) fv dims eorder (take n data));
       g \<leftarrow> link E lorder data ep n g;
       let max_deg = foldr (\<lambda>ns d. max d (length ns)) (take n g) 0;
       Some (m\<lparr>mdata := data, mgraph := g, mnd := n, mwidth := max (mwidth m) (max_deg mod 2 ^ 32), mep := ep,
         tag2loc := a, loc2tag := b, mslots := mslots m \<union> of_nat ` {n..<file_n}\<rparr>)
     }
   }"

text \<open>The other \<open>build\<close>: without a tag file the tags are the numbers of the points.\<close>

definition build_with_tag_file ::
  "(nat list) mem_env \<Rightarrow> (nat \<Rightarrow> rat) \<Rightarrow> (nat list \<Rightarrow> nat list) \<Rightarrow> nat \<Rightarrow> nat \<Rightarrow> nat list \<Rightarrow> nat list \<Rightarrow>
   bytes \<Rightarrow> nat \<Rightarrow> bytes option \<Rightarrow> (nat list, u32) mem_index \<Rightarrow> (nat list, u32) mem_index option" where
  "build_with_tag_file E fv nrm k dims eorder lorder f n tag_file m = do {
     tags \<leftarrow> (case tag_file of
         None \<Rightarrow> Some (map of_nat [0..<n])
       | Some tf \<Rightarrow> do {
           (ts, npts, ndim) \<leftarrow> load_bin 4 tf 0;
           if npts \<noteq> n then None else Some (map of_nat ts)
         });
     build E fv nrm k dims eorder lorder f n tags m
   }"

subsection \<open>The nearest point\<close>

lemma length_update_dists [simp]: "length (update_dists D is bs) = length bs"
  by (induction D "is" bs rule: update_dists.induct) (simp_all add: Let_def)

text \<open>An entry is unused, or holds a point of its chunks that is nearest among those that were handed in.\<close>

definition entry_ok :: "(nat \<Rightarrow> rat) \<Rightarrow> nat set \<Rightarrow> nat \<times> rat \<Rightarrow> bool" where
  "entry_ok D S b \<longleftrightarrow> (\<forall>i \<in> S. snd b \<le> D i) \<and> snd b \<le> float_max \<and>
     (b = (0, float_max) \<or> fst b \<in> S \<and> snd b = D (fst b))"

lemma min_dist_ok: "entry_ok D S b \<Longrightarrow> entry_ok D (insert i S) (min_dist i (D i) b)"
  by (auto simp: entry_ok_def min_dist_def)

lemma min_dist_both:
  "entry_ok D S a \<Longrightarrow> entry_ok D T b \<Longrightarrow> entry_ok D (S \<union> T) (min_dist (fst b) (snd b) a)"
  by (auto simp: entry_ok_def min_dist_def)

abbreviation chunk :: "nat \<Rightarrow> nat" where
  "chunk i \<equiv> i div 65536 mod kDistNum"

lemma update_dists_ok:
  assumes "length bs = kDistNum" "\<forall>b < kDistNum. entry_ok D {i \<in> S. chunk i = b} (bs ! b)"
  shows "\<forall>b < kDistNum. entry_ok D {i \<in> S \<union> set is. chunk i = b} (update_dists D is bs ! b)"
  using assms
proof (induction "is" arbitrary: S bs)
  case (Cons i "is")
  let ?bs = "bs[chunk i := min_dist i (D i) (bs ! chunk i)]"
  have "chunk i < kDistNum" by (simp add: kDistNum_def)
  have new: "entry_ok D {j \<in> insert i S. chunk j = b} (?bs ! b)" if "b < kDistNum" for b
  proof (cases "b = chunk i")
    case True
    have "{j \<in> insert i S. chunk j = b} = insert i {j \<in> S. chunk j = b}" using True by auto
    then show ?thesis
      using min_dist_ok [of D "{j \<in> S. chunk j = b}" "bs ! b" i] Cons.prems that True by simp
  next
    case False
    then have "{j \<in> insert i S. chunk j = b} = {j \<in> S. chunk j = b}" by auto
    then show ?thesis using Cons.prems(2) that False by simp
  qed
  have "\<forall>b < kDistNum. entry_ok D {j \<in> insert i S \<union> set is. chunk j = b} (update_dists D is ?bs ! b)"
    by (rule Cons.IH) (use Cons.prems(1) new in auto)
  then show ?case by (simp add: Let_def)
qed simp

lemma least_ok:
  assumes "\<forall>b < length bs. entry_ok D (A b) (bs ! b)"
  shows "entry_ok D (\<Union>b < length bs. A b) (foldl (\<lambda>a b. min_dist (fst b) (snd b) a) (0, float_max) bs)"
  using assms
proof (induction bs rule: rev_induct)
  case (snoc b bs)
  have "\<forall>i < length bs. entry_ok D (A i) (bs ! i)"
    using snoc.prems by (metis length_append_singleton less_SucI nth_append)
  from snoc.IH [OF this] have "entry_ok D ((\<Union>i < length bs. A i) \<union> A (length bs))
      (min_dist (fst b) (snd b) (foldl (\<lambda>a b. min_dist (fst b) (snd b) a) (0, float_max) bs))"
    by (rule min_dist_both) (use snoc.prems in \<open>metis length_append_singleton lessI nth_append_length\<close>)
  then show ?case by (simp add: lessThan_Suc Un_commute)
qed (simp add: entry_ok_def)

lemma entry_point_ok:
  assumes "set order = {..<length vs}" "i < length vs" "center_dist rnd fv dims (centroid rnd fv dims vs) (vs ! i) < float_max"
  shows "calculate_entry_point rnd fv dims order vs < length vs \<and>
    (\<forall>j < length vs. center_dist rnd fv dims (centroid rnd fv dims vs) (vs ! calculate_entry_point rnd fv dims order vs) \<le>
       center_dist rnd fv dims (centroid rnd fv dims vs) (vs ! j))"
proof -
  let ?d = "\<lambda>i. center_dist rnd fv dims (centroid rnd fv dims vs) (vs ! i)"
  let ?bs = "update_dists ?d order (replicate kDistNum (0, float_max))"
  have "\<forall>b < kDistNum. entry_ok ?d {j \<in> {} \<union> set order. chunk j = b} (?bs ! b)"
    by (rule update_dists_ok) (simp_all add: entry_ok_def)
  then have "entry_ok ?d (\<Union>b < length ?bs. {j \<in> set order. chunk j = b}) (foldl (\<lambda>a b. min_dist (fst b) (snd b) a) (0, float_max) ?bs)"
    by (intro least_ok) simp
  moreover have "(\<Union>b < length ?bs. {j \<in> set order. chunk j = b}) = {..<length vs}"
    using assms(1) by (auto simp: kDistNum_def)
  ultimately show ?thesis
    using assms(2,3) unfolding calculate_entry_point_def least_dist_def Let_def entry_ok_def by force
qed

lemma entry_point_in:
  assumes "set order = {..<length vs}" "1 \<le> length vs"
  shows "calculate_entry_point rnd fv dims order vs < length vs"
proof (cases "\<exists>i < length vs. center_dist rnd fv dims (centroid rnd fv dims vs) (vs ! i) < float_max")
  case True
  then show ?thesis using entry_point_ok [OF assms(1)] by blast
next
  case False
  let ?d = "\<lambda>i. center_dist rnd fv dims (centroid rnd fv dims vs) (vs ! i)"
  let ?bs = "update_dists ?d order (replicate kDistNum (0, float_max))"
  let ?r = "foldl (\<lambda>a b. min_dist (fst b) (snd b) a) (0, float_max) ?bs"
  have "\<forall>b < kDistNum. entry_ok ?d {j \<in> {} \<union> set order. chunk j = b} (?bs ! b)"
    by (rule update_dists_ok) (simp_all add: entry_ok_def)
  then have "entry_ok ?d (\<Union>b < length ?bs. {j \<in> set order. chunk j = b}) ?r"
    by (intro least_ok) simp
  moreover have "(\<Union>b < length ?bs. {j \<in> set order. chunk j = b}) = {..<length vs}"
    using assms(1) by (auto simp: kDistNum_def)
  ultimately have "?r = (0, float_max) \<or> fst ?r < length vs" unfolding entry_ok_def by auto
  then show ?thesis using assms(2) unfolding calculate_entry_point_def least_dist_def Let_def by auto
qed

text \<open>C21. The entry point is the point nearest to the centroid by the distances that are computed, whatever
  the order in which the threads update the shared minima, unless every distance is as large as the
  largest float.\<close>

theorem entry_point_nearest:
  assumes "set order = {..<length vs}" "i < length vs" "center_dist rnd fv dims (centroid rnd fv dims vs) (vs ! i) < float_max"
  shows "calculate_entry_point rnd fv dims order vs < length vs \<and>
    (\<forall>j < length vs. center_dist rnd fv dims (centroid rnd fv dims vs) (vs ! calculate_entry_point rnd fv dims order vs) \<le>
       center_dist rnd fv dims (centroid rnd fv dims vs) (vs ! j))"
  by (rule entry_point_ok [OF assms])

theorem entry_point_nearest_witness:
  "calculate_entry_point id of_nat 1 [2, 0, 1] [[0], [4], [11]] < 3 \<and>
   center_dist id of_nat 1 (centroid id of_nat 1 [[0], [4], [11]])
     ([[0], [4], [11]] ! calculate_entry_point id of_nat 1 [2, 0, 1] [[0], [4], [11]]) \<le> 1"
proof -
  let ?vs = "[[0], [4], [11 :: nat]]"
  let ?d = "\<lambda>i. center_dist id of_nat 1 (centroid id of_nat 1 ?vs) (?vs ! i)"
  have o: "set [2, 0, 1] = {..<length ?vs}" by (auto simp: less_Suc_eq)
  have d: "?d 1 = 1" by (simp add: center_dist_def centroid_def)
  then have f: "?d 1 < float_max" by (simp add: float_max_def)
  have l: "1 < length ?vs" by simp
  note near = entry_point_nearest [OF o l f]
  have "calculate_entry_point id of_nat 1 [2, 0, 1] ?vs < 3" using conjunct1 [OF near] by simp
  then show ?thesis using conjunct2 [OF near, rule_format, OF l] unfolding d by (rule conjI)
qed

subsection \<open>The graph that is built\<close>

definition ids_below :: "nat \<Rightarrow> u32 list list \<Rightarrow> bool" where
  "ids_below n g \<longleftrightarrow> (\<forall>ns \<in> set g. \<forall>x \<in> set ns. unat x < n)"

lemma ids_belowD: "ids_below n g \<Longrightarrow> i < length g \<Longrightarrow> x \<in> set (g ! i) \<Longrightarrow> unat x < n"
  unfolding ids_below_def by (meson nth_mem)

lemma ids_belowI: "(\<And>i x. i < length g \<Longrightarrow> x \<in> set (g ! i) \<Longrightarrow> unat x < n) \<Longrightarrow> ids_below n g"
  unfolding ids_below_def by (metis in_set_conv_nth)

lemma reachable_below:
  assumes "ids_below n g" "unat ep < n"
  shows "reachable g ep \<subseteq> slots_upto n"
proof
  fix x assume "x \<in> reachable g ep"
  then have "(ep, x) \<in> (edges g)\<^sup>*" by (simp add: reachable_def)
  then show "x \<in> slots_upto n"
    by (induction rule: rtrancl_induct) (use assms in \<open>auto simp: edges_def intro: ids_belowD\<close>)
qed

lemma link_node_ok:
  assumes E: "env_ok E" and g: "adj_ok E g" "length g = length data" "length data < 2 ^ 32" "ids_below n g"
    and node: "node < n" "n \<le> length data" "unat ep < n"
  shows "\<exists>g'. link_node E data ep node g = Some g' \<and> length g' = length g \<and> adj_ok E g' \<and> ids_below n g'"
proof -
  have small: "node < 2 ^ 32" using node(1,2) g(3) by linarith
  have u: "unat (of_nat node :: u32) = node" by (rule of_nat_u32 [OF small])
  have range: "unat (of_nat node :: u32) < length data" "unat ep < length data" using node unfolding u by simp_all
  obtain s ids g' where l: "iterate_to_fixed_point (ecmp E) (esrt E) data g (data ! node) (eL E) [ep] = Some s"
    "prune_ids E data (expanded_pool (of_nat node) (einfo s)) = Some ids" "inter_insert E data (of_nat node) ids (g[node := ids]) = Some g'"
    "length g' = length g" "adj_ok E g'" "g' ! node = ids" "set ids \<subseteq> reachable g ep"
    "\<forall>c :: u32. unat c < length g \<longrightarrow> c \<noteq> of_nat node \<longrightarrow> set (g' ! unat c) \<subseteq> insert (of_nat node) (set (g ! unat c))"
    using link_new_ok [OF E g(1-3) range, where q = "data ! node", unfolded u] by (elim exE conjE) (rule that)
  have "ids_below n g'"
  proof (rule ids_belowI)
    fix i x assume i: "i < length g'" "x \<in> set (g' ! i)"
    show "unat x < n"
    proof (cases "i = node")
      case True
      then show ?thesis using i(2) l(6,7) reachable_below [OF g(4) node(3)] by auto
    next
      case False
      have "i < 2 ^ 32" using i(1) l(4) g(2,3) by linarith
      then have v: "unat (of_nat i :: u32) = i" by (rule of_nat_u32)
      then have "(of_nat i :: u32) \<noteq> of_nat node" using False u by metis
      then have "x \<in> insert (of_nat node) (set (g ! i))" using l(8) [rule_format, of "of_nat i"] i l(4) unfolding v by auto
      then show ?thesis using ids_belowD [OF g(4), of i x] i(1) l(4) u node(1) by auto
    qed
  qed
  moreover have "link_node E data ep node g = Some g'"
    using l(1-3) node g(2) by (simp add: link_node_def vec_at_def vec_put_def)
  ultimately show ?thesis using l(4,5) by blast
qed

lemma link_nodes_ok:
  assumes "env_ok E" "adj_ok E g" "length g = length data" "length data < 2 ^ 32" "ids_below n g"
    and "\<forall>i \<in> set nodes. i < n" "n \<le> length data" "unat ep < n"
  shows "\<exists>g'. link_nodes E data ep nodes g = Some g' \<and> length g' = length g \<and> adj_ok E g' \<and> ids_below n g'"
  using assms(2,3,5,6)
proof (induction nodes arbitrary: g)
  case (Cons i nodes)
  obtain g1 where g1: "link_node E data ep i g = Some g1" "length g1 = length g" "adj_ok E g1" "ids_below n g1"
    using link_node_ok [OF assms(1) Cons.prems(1,2) assms(4) Cons.prems(3) _ assms(7,8)] Cons.prems(4) by auto
  then show ?case using Cons.IH [of g1] Cons.prems by auto
qed simp

lemma trim_list_ok:
  assumes E: "env_ok E" and i: "i < length data" "length data < 2 ^ 32" and ns: "list_ok E (length data) (of_nat i) ns"
  shows "\<exists>ids. trim_list E data i ns = Some ids \<and> list_ok E (length data) (of_nat i) ids \<and> length ids \<le> bR (epar E) \<and> set ids \<subseteq> set ns"
proof (cases "length ns > bR (epar E)")
  case True
  have u: "unat (of_nat i :: u32) = i" by (rule of_nat_u32) (rule less_trans [OF i])
  have f: "filter (\<lambda>c. c \<noteq> of_nat i) ns = ns" using ns by (auto simp: list_ok_def filter_id_conv)
  obtain pool where pool: "pool_of E data (of_nat i) ns = Some pool" "distinct (map cid pool)" "cid ` set pool = unat ` set ns"
    "\<forall>c \<in> set pool. cid c < 2 ^ 32"
    using pool_of_ok [of "of_nat i" data ns E] ns i(1) u by (auto simp: list_ok_def)
  obtain ids where ids: "prune_ids E data pool = Some ids" "distinct ids" "length ids \<le> bR (epar E)"
    "unat ` set ids \<subseteq> cid ` set pool" using prune_ids_ok [OF E pool(2,4)] by blast
  have sub: "set ids \<subseteq> set ns" using ids(4) inj_image_subset_iff [OF inj_unat] unfolding pool(3) by blast
  then have "list_ok E (length data) (of_nat i) ids"
    using ids(2,3) ns slack_ge [of "bR (epar E)"] by (auto simp: list_ok_def)
  then show ?thesis using True pool(1) ids(1,3) sub unfolding trim_list_def f by simp
qed (use ns in \<open>simp add: trim_list_def\<close>)

lemma link_ok:
  assumes "env_ok E" "adj_ok E g" "length g = length data" "length data < 2 ^ 32" "ids_below n g"
    and "\<forall>i \<in> set order. i < n" "n \<le> length data" "unat ep < n"
  shows "\<exists>g'. link E order data ep n g = Some g' \<and> length g' = length g \<and> adj_ok E g' \<and> ids_below n g' \<and>
    (\<forall>i < n. length (g' ! i) \<le> bR (epar E))"
proof -
  obtain h where h: "link_nodes E data ep order g = Some h" "length h = length g" "adj_ok E h" "ids_below n h"
    using link_nodes_ok [OF assms] by blast
  let ?N = "length data"
  let ?t = "\<lambda>i. if i < n then trim_list E data i (h ! i) else Some (h ! i)"
  have u: "unat (of_nat i :: u32) = i" if "i < ?N" for i by (rule of_nat_u32) (rule less_trans [OF that assms(4)])
  have t: "\<exists>ids. ?t i = Some ids \<and> list_ok E ?N (of_nat i) ids \<and> (i < n \<longrightarrow> length ids \<le> bR (epar E)) \<and> set ids \<subseteq> set (h ! i)"
    if "i < ?N" for i
  proof -
    have "list_ok E ?N (of_nat i) (h ! i)" using adj_okD [OF h(3), of "of_nat i"] h(2) assms(3) that u [OF that] by simp
    then show ?thesis using trim_list_ok [OF assms(1) that assms(4)] by auto
  qed
  define g' where "g' = map (\<lambda>i. the (?t i)) [0..<?N]"
  have at: "list_ok E ?N (of_nat i) (g' ! i)" "i < n \<Longrightarrow> length (g' ! i) \<le> bR (epar E)" "set (g' ! i) \<subseteq> set (h ! i)"
    if "i < ?N" for i using t [OF that] that by (auto simp: g'_def)
  have len: "length g' = ?N" by (simp add: g'_def)
  have "those (map ?t [0..<?N]) = Some g'"
    unfolding g'_def by (rule those_map_the) (use t in force)
  then have "link E order data ep n g = Some g'" using h(1,2) assms(3,7) by (simp add: link_def)
  moreover have "adj_ok E g'"
    unfolding adj_ok_def len
  proof (intro allI impI)
    fix c :: u32 assume "unat c < ?N"
    from at(1) [OF this] show "list_ok E ?N c (g' ! unat c)" by simp
  qed
  moreover have "ids_below n g'"
  proof (rule ids_belowI)
    fix i x assume i: "i < length g'" "x \<in> set (g' ! i)"
    then have "x \<in> set (h ! i)" using at(3) [of i] len by auto
    then show "unat x < n" using ids_belowD [OF h(4)] i(1) len h(2) assms(3) by simp
  qed
  ultimately show ?thesis using at(2) len assms(3,7) by auto
qed

lemma load_bin_length: "load_bin k f 0 = Some (xs, n, d) \<Longrightarrow> length xs = n * d"
proof -
  have "length ys = n" if "rd_les k n s = Some (ys, s')" for n s ys s'
    using that by (induction n arbitrary: s ys) (auto split: bind_splits)
  then show "load_bin k f 0 = Some (xs, n, d) \<Longrightarrow> length xs = n * d"
    by (auto simp: load_bin_def load_bin_impl_def split: bind_splits)
qed

text \<open>The tags of a build.\<close>

lemma fresh_tags:
  assumes "distinct tags" "length tags < 2 ^ 32" "put_tags {} 0 (map unat tags) (Map.empty, Map.empty) = (a, b)"
  shows "b l = (if unat l < length tags then Some (tags ! unat l) else None)" "a t = Some l \<longleftrightarrow> b l = Some t"
    "dom a = set tags"
proof -
  have b: "b l = (if unat l < length tags then Some (tags ! unat l) else None)" for l
    using put_tags_snd [of 0 "map unat tags" "{}" Map.empty Map.empty l] assms(2,3) by simp
  have fwd: "b l = Some t" if at: "a t = Some l" for t l
  proof -
    have "fst (put_tags {} 0 (map unat tags) (Map.empty, Map.empty)) t = Some l" using at assms(3) by simp
    from put_tags_fst [OF this] obtain p where p: "p < length tags" "l = of_nat p" "t = tags ! p" by auto
    have "unat l = p" unfolding p(2) by (rule of_nat_u32) (rule less_trans [OF p(1) assms(2)])
    then show ?thesis using b p by simp
  qed
  have has: "a t \<noteq> None" if "b l = Some t" for t l
  proof -
    have "unat l < length tags" "t = tags ! unat l" using that b [of l] by (simp_all split: if_splits)
    then show ?thesis using put_tags_has [of "unat l" "map unat tags" 0 "{}" Map.empty Map.empty] assms(3) by simp
  qed
  have one: "l = l'" if "b l = Some t" "b l' = Some t" for t l l'
  proof -
    have "unat l < length tags" "unat l' < length tags" "tags ! unat l = tags ! unat l'"
      using that b [of l] b [of l'] by (simp_all split: if_splits)
    then have "unat l = unat l'" using nth_eq_iff_index_eq [OF assms(1)] by blast
    then show ?thesis by (simp add: word_unat_eq_iff)
  qed
  show "b l = (if unat l < length tags then Some (tags ! unat l) else None)" by (rule b)
  show "a t = Some l \<longleftrightarrow> b l = Some t"
  proof
    assume bl: "b l = Some t"
    then obtain l' where "a t = Some l'" using has by blast
    then show "a t = Some l" using fwd [of t l'] one [OF bl] by simp
  qed (rule fwd)
  show "dom a = set tags"
  proof (intro set_eqI iffI)
    fix t assume "t \<in> dom a"
    then obtain l where "b l = Some t" using fwd by blast
    then show "t \<in> set tags" using b [of l] by (auto split: if_splits)
  next
    fix t assume "t \<in> set tags"
    then obtain i where i: "i < length tags" "t = tags ! i" by (auto simp: in_set_conv_nth)
    have "unat (of_nat i :: u32) = i" by (rule of_nat_u32) (rule less_trans [OF i(1) assms(2)])
    then have "b (of_nat i) = Some t" using b [of "of_nat i"] i by simp
    then show "t \<in> dom a" using has by blast
  qed
qed

lemma build_ok:
  assumes E: "env_ok E" and bin: "load_bin k f 0 = Some (xs, file_n, dims)" and n: "1 \<le> n" "n \<le> file_n" "file_n < 2 ^ 32"
    and tags: "length tags = n" "distinct tags" and order: "set eorder = {..<n}" "set lorder = {..<n}"
  shows "\<exists>m. build E fv nrm k dims eorder lorder f n tags new_index = Some m \<and> mem_ok E m \<and> packed m \<and> mdel m = {} \<and>
    mnd m = n \<and> max_points m = file_n \<and> dom (contents m) = set tags \<and> unat (mep m) < n \<and>
    (\<forall>i < n. contents m (tags ! i) = Some (nrm (take dims (drop (i * dims) xs))) \<and>
       length (mgraph m ! i) \<le> bR (epar E) \<and> (\<forall>x \<in> set (mgraph m ! i). unat x < n))"
proof -
  define data where "data = map nrm (rows_of dims file_n xs)"
  have len: "length data = file_n" by (simp add: data_def rows_of_def)
  define ep where "ep = calculate_entry_point (ernd E) fv dims eorder (take n data)"
  have "ep < length (take n data)" unfolding ep_def by (rule entry_point_in) (use order n len in simp_all)
  then have ep: "ep < n" using n len by simp
  then have u: "unat (of_nat ep :: u32) = ep" by (intro of_nat_u32) (use n in linarith)
  let ?g0 = "replicate file_n [] :: u32 list list"
  have "adj_ok E ?g0" "ids_below n ?g0" by (simp_all add: adj_ok_def list_ok_def ids_below_def)
  then obtain g where g: "link E lorder data (of_nat ep) n ?g0 = Some g" "length g = file_n" "adj_ok E g" "ids_below n g"
    "\<forall>i < n. length (g ! i) \<le> bR (epar E)"
    using link_ok [OF E, of ?g0 data n lorder "of_nat ep"] len n order(2) u ep by auto
  obtain a b where ab: "put_tags {} 0 (map unat tags) (Map.empty, Map.empty) = (a, b)" by fastforce
  have small: "length tags < 2 ^ 32" using tags(1) n by linarith
  note t = fresh_tags [OF tags(2) small ab]
  define m :: "(nat list, u32) mem_index" where "m = \<lparr>mdata = data, mgraph = g, mnd = n,
    mwidth = max 0 (foldr (\<lambda>ns d. max d (length ns)) (take n g) 0 mod 2 ^ 32), mep = of_nat ep,
    tag2loc = a, loc2tag = b, mdel = {}, mslots = of_nat ` {n..<file_n}\<rparr>"
  have run: "build E fv nrm k dims eorder lorder f n tags new_index = Some m"
    using bin g(1) ab n tags(1) by (simp add: build_def new_index_def m_def Let_def data_def ep_def)
  have mp: "max_points m = file_n" using len by (simp add: m_def max_points_def)
  have slots: "of_nat ` {n..<file_n} = slots_upto file_n - slots_upto n"
  proof (intro set_eqI iffI)
    fix x :: u32 assume "x \<in> of_nat ` {n..<file_n}"
    then obtain j where j: "n \<le> j" "j < file_n" "x = of_nat j" by auto
    have "unat x = j" unfolding j(3) by (rule of_nat_u32) (rule less_trans [OF j(2) n(3)])
    then show "x \<in> slots_upto file_n - slots_upto n" using j by simp
  next
    fix x :: u32 assume "x \<in> slots_upto file_n - slots_upto n"
    then show "x \<in> of_nat ` {n..<file_n}" by (intro image_eqI [of _ _ "unat x"]) simp_all
  qed
  have dom: "dom b = slots_upto n" using t(1) tags(1) by (auto simp: dom_def split: if_splits)
  have "card (slots_upto file_n - slots_upto n) = file_n - n"
    using card_Diff_subset [of "slots_upto n" "slots_upto file_n"] card_slots_upto [of n] card_slots_upto [of file_n] n
    by (auto intro: less_le_trans)
  then have "slots_ok m"
    unfolding slots_ok_def mp using slots dom n by (auto simp: m_def)
  moreover have "tags_ok m" using t(2) by (simp add: tags_ok_def m_def)
  ultimately have "mem_ok E m"
    unfolding mem_ok_def mp using g n ep u len by (simp add: m_def)
  moreover have "packed m" unfolding packed_def mp using slots by (simp add: m_def)
  moreover have "dom (contents m) = set tags" 
  proof -
    have "dom (contents m) = dom a" by (auto simp: contents_def m_def)
    then show ?thesis using t(3) by simp
  qed
  moreover have "contents m (tags ! i) = Some (nrm (take dims (drop (i * dims) xs)))" if "i < n" for i
  proof -
    have v: "unat (of_nat i :: u32) = i" by (rule of_nat_u32) (use that n in linarith)
    then have "a (tags ! i) = Some (of_nat i)" using t(1,2) that tags(1) by simp
    then show ?thesis using that n v by (simp add: contents_def m_def data_def rows_of_def)
  qed
  moreover have "\<forall>x \<in> set (mgraph m ! i). unat x < n" if "i < n" for i

  proof
    fix x assume "x \<in> set (mgraph m ! i)"
    then show "unat x < n" using ids_belowD [OF g(4), of i x] that g(2) n by (simp add: m_def)
  qed
  ultimately show ?thesis
    using run mp g(5) ep u by (intro exI [of _ m]) (simp add: m_def)
qed

text \<open>C7. A build returns a well-formed index that holds the vectors of the file's first points, each under its
  tag; no list is longer than \<open>R\<close>, links stay among these points, the entry point is one of them, and
  the other slots are empty, so the index can be saved.\<close>

theorem build_holds:
  assumes "env_ok E" "load_bin k f 0 = Some (xs, file_n, dims)" "1 \<le> n" "n \<le> file_n" "file_n < 2 ^ 32"
    and "length tags = n" "distinct tags" "set eorder = {..<n}" "set lorder = {..<n}"
  shows "\<exists>m. build E fv nrm k dims eorder lorder f n tags new_index = Some m \<and> mem_ok E m \<and> packed m \<and>
    dom (contents m) = set tags \<and> unat (mep m) < n \<and>
    (\<forall>i < n. contents m (tags ! i) = Some (nrm (take dims (drop (i * dims) xs))) \<and>
       length (mgraph m ! i) \<le> bR (epar E) \<and> (\<forall>x \<in> set (mgraph m ! i). unat x < n))"
  using build_ok [OF assms, of fv nrm] by blast

definition two_points :: bytes where
  "two_points = snd (save_bin 4 [] [7, 9] 2 1 0)"

lemma two_points_load: "load_bin 4 two_points 0 = Some ([7, 9], 2, 1)"
  unfolding two_points_def by (rule load_bin_saved) simp_all

lemma upto_two: "set [0, 1] = {..<2 :: nat}" "set [1, 0] = {..<2 :: nat}"
  by (auto simp: less_Suc_eq numeral_2_eq_2)

theorem build_holds_witness:
  "\<exists>m. build byte_env of_nat id 4 1 [1, 0] [0, 1] two_points 2 [5, 6] new_index = Some m \<and> mem_ok byte_env m \<and>
     contents m 5 = Some [7] \<and> contents m 6 = Some [9]"
proof -
  obtain m where m: "build byte_env of_nat id 4 1 [1, 0] [0, 1] two_points 2 [5, 6] new_index = Some m" "mem_ok byte_env m"
    "\<forall>i < 2. contents m ([5, 6] ! i) = Some (id (take 1 (drop (i * 1) [7, 9])))"
    using build_holds [OF byte_env_ok two_points_load, of 2 "[5, 6]" "[1, 0]" "[0, 1]" of_nat id] upto_two by auto
  then show ?thesis using m(3) [rule_format, of 0] m(3) [rule_format, of 1] by auto
qed


definition three_points :: bytes where
  "three_points = snd (save_bin 4 [] [7, 9, 4] 3 1 0)"

lemma three_points_load: "load_bin 4 three_points 0 = Some ([7, 9, 4], 3, 1)"
  unfolding three_points_def by (rule load_bin_saved) simp_all

definition two_calls :: "(nat list, u32) mem_call list" where
  "two_calls = [Call_insert [8] 9, Call_delete 5]"

text \<open>On an index without holes a hash set that gives its least element first gives a slot that is counted.\<close>

lemma packed_counted:
  assumes "env_ok E" "mem_ok E m" "packed m" "mnd m < max_points m" "epick E = Min"
  shows "slot_counted E m"
proof -
  obtain loc m' where r: "reserve_location E m = Some (loc, m')" "loc \<noteq> no_loc" "reserved E m loc m'"
    using reserve_free [OF assms(1,2,4)] by blast
  have nd: "mnd m' = mnd m + 1" using r(3) unfolding reserved_def by (elim conjE)
  have mp: "max_points m < 2 ^ 32" using assms(2) by (simp add: mem_ok_def)
  then have u: "unat (of_nat (mnd m) :: u32) = mnd m" using assms(4) by simp
  then have "of_nat (mnd m) \<in> mslots m" using assms(3,4) by (simp add: packed_def)
  then have "Min (mslots m) \<le> of_nat (mnd m)" by (rule Min_le [OF finite])
  moreover have "loc = Min (mslots m)"
    using r(1) assms(4,5) by (simp add: reserve_location_def Let_def split: if_splits)
  ultimately have "unat loc \<le> mnd m" using u by (metis word_le_nat_alt)
  moreover have "reserve_loop E loc m' = Some (loc, m')" using r(2) by (subst reserve_loop.simps) simp
  ultimately show ?thesis using r(1) nd by (simp add: slot_counted_def)
qed

lemma two_calls_allowed:
  assumes m: "build byte_env of_nat id 4 1 [1, 0] [0, 1] three_points 2 [5, 6] new_index = Some m"
  shows "calls_allowed byte_env two_calls m"
proof -
  have l: "1 \<le> (2 :: nat)" "2 \<le> (3 :: nat)" "(3 :: nat) < 2 ^ 32" "length [5, 6 :: u32] = 2" "distinct [5, 6 :: u32]"
    by simp_all
  have b: "mem_ok byte_env m" "packed m" "mnd m = 2" "max_points m = 3" "dom (contents m) = {5, 6}"
    using build_ok [OF byte_env_ok three_points_load l upto_two(2,1), of of_nat id] m by auto
  have "slot_counted byte_env m"
    by (rule packed_counted [OF byte_env_ok b(1,2)]) (simp_all add: b(3,4) byte_env_def)
  moreover have "9 \<notin> dom (contents m)" unfolding b(5) by simp
  then have "contents m 9 = None" by (simp add: domIff)
  then have "tag2loc m 9 = None" by (simp add: contents_def)
  moreover have "has_room byte_env m" by (simp add: has_room_def b(3,4))
  then obtain m1 where "insert_point byte_env m [8] 9 = Some m1" using insert_point_ok [OF byte_env_ok b(1)] by blast
  ultimately show ?thesis by (simp add: two_calls_def insert_allowed_def)
qed


end
