(* ===== verification/DiskIndex.thy ===== *)
theory DiskIndex
  imports MemIndex
begin

text \<open>
  The on-disk index of PipeANN, \<open>SSDIndex\<close> in \<open>PipeANN/include/ssd_index.h\<close> and \<open>PipeANN/src/ssd_index.cpp\<close>: where
  the nodes lie and how room for them is found. An id is a 32-bit word; a location is a number, a slot of a
  page. A page is the list of its node records, as \<open>DiskNode\<close> sees them; a node that is larger than a sector
  has a page of its own (\<open>nnodes_per_sector = 0\<close>). \<open>None\<close> is a \<open>crash\<close>, an access outside a vector or a
  division by zero. One thread runs, so locks have no effect.
\<close>

record 'v node_rec =
  rvec :: 'v
  rnbrs :: "u32 list"
  rlabels :: "u8 list"

text \<open>\<open>nps\<close> is \<open>nnodes_per_sector\<close>, \<open>spn\<close> the sectors of a large node, \<open>idloc\<close> and \<open>locid\<close> are \<open>id2loc_\<close> and
  \<open>loc2id_\<close>, \<open>freep\<close> is \<open>empty_pages\<close>; \<open>dpages\<close> is the file as reads through the cache see it.\<close>

record 'v ssd =
  nps :: nat
  spn :: nat
  npts :: nat
  curid :: nat
  curloc :: nat
  idloc :: "nat list"
  locid :: "u32 list"
  freep :: "nat list"
  dpages :: "nat \<Rightarrow> 'v node_rec list"
  dtags :: "u32 \<rightharpoonup> u32"
  dentry :: u32

abbreviation inv_id :: u32 where "inv_id \<equiv> 0xFFFFFFFF"
abbreviation alloc_id :: u32 where "alloc_id \<equiv> 0xFFFFFFFE"

definition slots :: "'v ssd \<Rightarrow> nat" where
  "slots s = (if nps s = 0 then 1 else nps s)"

definition sector_of :: "'v ssd \<Rightarrow> nat \<Rightarrow> nat" where
  "sector_of s loc = 1 + (if nps s > 0 then loc div nps s else loc * spn s)"

definition first_loc :: "'v ssd \<Rightarrow> nat \<Rightarrow> nat" where
  "first_loc s sector = (if nps s = 0 then (sector - 1) div spn s else (sector - 1) * nps s)"

text \<open>\<open>node_from_page\<close> on the page that holds a location.\<close>

definition slot_of_page :: "'v ssd \<Rightarrow> nat \<Rightarrow> nat" where
  "slot_of_page s loc = (if nps s = 0 then 0 else loc mod nps s)"

definition read_rec :: "'v ssd \<Rightarrow> nat \<Rightarrow> 'v node_rec" where
  "read_rec s loc = dpages s (sector_of s loc) ! slot_of_page s loc"

definition id2tag :: "'v ssd \<Rightarrow> u32 \<Rightarrow> u32" where
  "id2tag s i = (case dtags s i of Some t \<Rightarrow> t | None \<Rightarrow> i)"

definition id2loc :: "'v ssd \<Rightarrow> u32 \<Rightarrow> nat option" where
  "id2loc s i = vec_at (idloc s) (unat i)"

text \<open>Both vectors grow to \<open>1.5\<close> times the place that is written; new entries are zero.\<close>

definition grow_put :: "'a \<Rightarrow> 'a list \<Rightarrow> nat \<Rightarrow> 'a \<Rightarrow> 'a list option" where
  "grow_put zero xs i x =
     vec_put (if length xs \<le> i then take (3 * i div 2) xs @ replicate (3 * i div 2 - length xs) zero else xs) i x"

definition set_id2loc :: "'v ssd \<Rightarrow> u32 \<Rightarrow> nat \<Rightarrow> 'v ssd option" where
  "set_id2loc s i loc = do { v \<leftarrow> grow_put 0 (idloc s) (unat i) loc; Some (s\<lparr>idloc := v\<rparr>) }"

definition loc_id :: "'v ssd \<Rightarrow> nat \<Rightarrow> u32 option" where
  "loc_id s loc = vec_at (locid s) loc"

definition set_loc_id :: "'v ssd \<Rightarrow> nat \<Rightarrow> u32 \<Rightarrow> 'v ssd option" where
  "set_loc_id s loc i = do { v \<leftarrow> grow_put 0 (locid s) loc i; Some (s\<lparr>locid := v\<rparr>) }"

fun page_free :: "u32 list \<Rightarrow> nat \<Rightarrow> nat \<Rightarrow> bool option" where
  "page_free v i 0 = Some True"
| "page_free v i (Suc m) = do { x \<leftarrow> vec_at v i; if x \<noteq> inv_id then Some False else page_free v (Suc i) m }"

text \<open>The page number and the offset in the page are computed once more at the end, without a use; the
  offset is a remainder by \<open>nnodes_per_sector\<close>.\<close>

definition erase_loc_id :: "'v ssd \<Rightarrow> nat \<Rightarrow> 'v ssd option" where
  "erase_loc_id s loc = do {
     v \<leftarrow> vec_put (locid s) loc inv_id;
     free \<leftarrow> page_free v (first_loc s (sector_of s loc)) (nps s);
     let s = s\<lparr>locid := v, freep := (if free then freep s @ [sector_of s loc] else freep s)\<rparr>;
     if nps s = 0 then None else Some s
   }"

fun set_loc_ids :: "'v ssd \<Rightarrow> (nat \<times> u32) list \<Rightarrow> 'v ssd option" where
  "set_loc_ids s [] = Some s"
| "set_loc_ids s ((l, i) # r) = do { s \<leftarrow> set_loc_id s l i; set_loc_ids s r }"

fun erase_loc_ids :: "'v ssd \<Rightarrow> nat list \<Rightarrow> 'v ssd option" where
  "erase_loc_ids s [] = Some s"
| "erase_loc_ids s (l # ls) = do { s \<leftarrow> erase_loc_id s l; erase_loc_ids s ls }"

text \<open>The loop is over the new locations; fewer ids than those are an access outside the vector.\<close>

definition commit_locs :: "'v ssd \<Rightarrow> nat list \<Rightarrow> nat list \<Rightarrow> u32 list \<Rightarrow> 'v ssd option" where
  "commit_locs s old_locs new_locs new_ids =
     (if length new_ids < length new_locs then None
      else do { s \<leftarrow> set_loc_ids s (zip new_locs new_ids); erase_loc_ids s old_locs })"

subsection \<open>Room for new records\<close>

text \<open>The loops over \<open>m\<close> slots from \<open>i\<close> on; \<open>cur\<close> is the length of \<open>ret\<close>. A page from the queue must be empty.\<close>

fun pop_slots :: "nat \<Rightarrow> nat \<Rightarrow> nat \<Rightarrow> u32 list \<Rightarrow> nat list \<Rightarrow> (u32 list \<times> nat list) option" where
  "pop_slots n 0 i v ret = Some (v, ret)"
| "pop_slots n (Suc m) i v ret = do {
     x \<leftarrow> vec_at v i;
     if x \<noteq> inv_id then None
     else if length ret + 1 = n then Some (v[i := alloc_id], ret @ [i])
     else pop_slots n m (Suc i) (v[i := alloc_id]) (ret @ [i])
   }"

fun fill_holes :: "nat \<Rightarrow> nat \<Rightarrow> nat \<Rightarrow> u32 list \<Rightarrow> nat list \<Rightarrow> (u32 list \<times> nat list) option" where
  "fill_holes n 0 i v ret = Some (v, ret)"
| "fill_holes n (Suc m) i v ret = do {
     x \<leftarrow> vec_at v i;
     if x \<noteq> inv_id then fill_holes n m (Suc i) v ret
     else if length ret + 1 = n then Some (v[i := alloc_id], ret @ [i])
     else fill_holes n m (Suc i) (v[i := alloc_id]) (ret @ [i])
   }"

fun hole_count :: "u32 list \<Rightarrow> nat \<Rightarrow> nat \<Rightarrow> nat option" where
  "hole_count v i 0 = Some 0"
| "hole_count v i (Suc m) = do {
     x \<leftarrow> vec_at v i;
     c \<leftarrow> hole_count v (Suc i) m;
     Some (if x = inv_id then Suc c else c)
   }"

fun from_queue :: "nat \<Rightarrow> nat list \<Rightarrow> nat list \<Rightarrow> 'v ssd \<Rightarrow> (nat list \<times> 'v ssd) option" where
  "from_queue n ret [] s = Some (ret, s\<lparr>freep := []\<rparr>)"
| "from_queue n ret (p # ps) s = do {
     (v, ret) \<leftarrow> pop_slots n (slots s) (first_loc s p) (locid s) ret;
     let s = s\<lparr>locid := v\<rparr>;
     if length ret = n then Some (ret, s\<lparr>freep := ps\<rparr>) else from_queue n ret ps s
   }"

fun from_hints :: "nat \<Rightarrow> nat list \<Rightarrow> nat set \<Rightarrow> nat list \<Rightarrow> 'v ssd \<Rightarrow> (nat list \<times> nat set \<times> 'v ssd) option" where
  "from_hints n ret need [] s = Some (ret, need, s)"
| "from_hints n ret need (p # ps) s = do {
     c \<leftarrow> hole_count (locid s) (first_loc s p) (slots s);
     if c < (nps s + 2 - 1) div 2 then from_hints n ret need ps s
     else do {
       (v, ret) \<leftarrow> fill_holes n (slots s) (first_loc s p) (locid s) ret;
       let need = (if c < nps s then insert p need else need);
       let s = s\<lparr>locid := v\<rparr>;
       if length ret = n then Some (ret, need, s) else from_hints n ret need ps s
     }
   }"

text \<open>The slots up to the end of the page.\<close>

definition pad_slots :: "nat \<Rightarrow> nat \<Rightarrow> nat" where
  "pad_slots n c = (if n \<noteq> 0 \<and> c mod n \<noteq> 0 then n - c mod n else 0)"

definition from_end :: "nat \<Rightarrow> 'v ssd \<Rightarrow> (nat list \<times> 'v ssd) option" where
  "from_end remaining s = do {
     let ls = [curloc s..<curloc s + remaining];
     s \<leftarrow> set_loc_ids s (map (\<lambda>l. (l, alloc_id)) ls);
     let c = curloc s + remaining;
     let e = c + pad_slots (nps s) c;
     s \<leftarrow> set_loc_ids s (map (\<lambda>l. (l, inv_id)) [c..<e]);
     Some (ls, s\<lparr>curloc := e\<rparr>)
   }"

definition alloc_slots :: "nat \<Rightarrow> nat list \<Rightarrow> nat set \<Rightarrow> 'v ssd \<Rightarrow> (nat list \<times> nat set \<times> 'v ssd) option" where
  "alloc_slots n hint_pages need s = do {
     (ret, s) \<leftarrow> from_queue n [] (freep s) s;
     if length ret = n then Some (ret, need, s)
     else do {
       (ret, need, s) \<leftarrow> from_hints n ret need hint_pages s;
       if length ret = n then Some (ret, need, s)
       else do { (ls, s) \<leftarrow> from_end (n - length ret) s; Some (ret @ ls, need, s) }
     }
   }"

subsection \<open>What an allocation takes\<close>

text \<open>The slots \<open>ls\<close> went from free to allocated and no other slot changed.\<close>

definition took :: "u32 list \<Rightarrow> nat list \<Rightarrow> u32 list \<Rightarrow> bool" where
  "took v ls v' \<longleftrightarrow> length v' = length v \<and> distinct ls \<and> (\<forall>l \<in> set ls. l < length v \<and> v ! l = inv_id) \<and>
     (\<forall>j < length v. v' ! j = (if j \<in> set ls then alloc_id else v ! j))"

lemma tookD:
  assumes "took v ls v'"
  shows "length v' = length v" "distinct ls" "l \<in> set ls \<Longrightarrow> l < length v" "l \<in> set ls \<Longrightarrow> v ! l = inv_id"
    "j < length v \<Longrightarrow> v' ! j = (if j \<in> set ls then alloc_id else v ! j)"
  using assms by (auto simp: took_def)

lemma took_refl [simp]: "took v [] v"
  by (simp add: took_def)

lemma took_trans:
  assumes "took v ls v'" "took v' ms w"
  shows "took v (ls @ ms) w"
proof -
  note a = tookD [OF assms(1)] and b = tookD [OF assms(2)]
  have "l < length v \<and> l \<notin> set ls \<and> v ! l = inv_id" if "l \<in> set ms" for l
    using b(3,4) [OF that] a(1) a(5) [of l] by (auto split: if_splits)
  then show ?thesis using a b by (auto simp: took_def)
qed

lemma took_one: "i < length v \<Longrightarrow> v ! i = inv_id \<Longrightarrow> took v [i] (v[i := alloc_id])"
  by (auto simp: took_def nth_list_update)

lemma took_step:
  assumes "i < length v" "v ! i = inv_id" "took (v[i := alloc_id]) ls v'"
  shows "took v (i # ls) v'"
  using took_trans [OF took_one [OF assms(1,2)] assms(3)] by simp

lemma pop_slots_spec:
  assumes "i + m \<le> length v" "\<forall>j \<in> {i..<i + m}. v ! j = inv_id" "length ret < n"
  shows "\<exists>v' ls. pop_slots n m i v ret = Some (v', ret @ ls) \<and> took v ls v' \<and> set ls \<subseteq> {i..<i + m} \<and>
    length ret + length ls \<le> n"
  using assms
proof (induction m arbitrary: i v ret)
  case (Suc m)
  have at: "vec_at v i = Some inv_id" "i < length v" "v ! i = inv_id" using Suc.prems by (auto simp: vec_at_def)
  show ?case
  proof (cases "length ret + 1 = n")
    case True
    then show ?thesis using at took_one [OF at(2,3)] by (intro exI [of _ "v[i := alloc_id]"] exI [of _ "[i]"]) simp
  next
    case False
    have "\<forall>j \<in> {Suc i..<Suc i + m}. v[i := alloc_id] ! j = inv_id" using Suc.prems(2) by auto
    then obtain v' ls where "pop_slots n m (Suc i) (v[i := alloc_id]) (ret @ [i]) = Some (v', (ret @ [i]) @ ls)"
      "took (v[i := alloc_id]) ls v'" "set ls \<subseteq> {Suc i..<Suc i + m}" "length (ret @ [i]) + length ls \<le> n"
      using Suc.IH [of "Suc i" "v[i := alloc_id]" "ret @ [i]"] Suc.prems False by auto
    then show ?thesis
      using at False took_step [OF at(2,3)] by (intro exI [of _ v'] exI [of _ "i # ls"]) auto
  qed
qed simp

lemma fill_holes_spec:
  assumes "i + m \<le> length v" "length ret < n"
  shows "\<exists>v' ls. fill_holes n m i v ret = Some (v', ret @ ls) \<and> took v ls v' \<and> set ls \<subseteq> {i..<i + m} \<and>
    length ret + length ls \<le> n"
  using assms
proof (induction m arbitrary: i v ret)
  case (Suc m)
  have at: "vec_at v i = Some (v ! i)" "i < length v" using Suc.prems by (auto simp: vec_at_def)
  show ?case
  proof (cases "v ! i = inv_id")
    case no: False
    obtain v' ls where "fill_holes n m (Suc i) v ret = Some (v', ret @ ls)" "took v ls v'" "set ls \<subseteq> {Suc i..<Suc i + m}"
      "length ret + length ls \<le> n"
      using Suc.IH [of "Suc i" v ret] Suc.prems by auto
    then show ?thesis using at no by (intro exI [of _ v'] exI [of _ ls]) auto
  next
    case yes: True
    show ?thesis
    proof (cases "length ret + 1 = n")
      case True
      then show ?thesis using at yes took_one [OF at(2) yes] by (intro exI [of _ "v[i := alloc_id]"] exI [of _ "[i]"]) simp
    next
      case False
      obtain v' ls where "fill_holes n m (Suc i) (v[i := alloc_id]) (ret @ [i]) = Some (v', (ret @ [i]) @ ls)"
        "took (v[i := alloc_id]) ls v'" "set ls \<subseteq> {Suc i..<Suc i + m}" "length (ret @ [i]) + length ls \<le> n"
        using Suc.IH [of "Suc i" "v[i := alloc_id]" "ret @ [i]"] Suc.prems False by auto
      then show ?thesis
        using at yes False took_step [OF at(2) yes] by (intro exI [of _ v'] exI [of _ "i # ls"]) auto
    qed
  qed
qed simp

lemma hole_count_spec:
  assumes "i + m \<le> length v"
  shows "\<exists>c. hole_count v i m = Some c \<and> c \<le> m \<and> (c = m \<longrightarrow> (\<forall>j \<in> {i..<i + m}. v ! j = inv_id))"
  using assms
proof (induction m arbitrary: i)
  case (Suc m)
  obtain c where c: "hole_count v (Suc i) m = Some c" "c \<le> m" "c = m \<longrightarrow> (\<forall>j \<in> {Suc i..<Suc i + m}. v ! j = inv_id)"
    using Suc.IH [of "Suc i"] Suc.prems by auto
  have "vec_at v i = Some (v ! i)" using Suc.prems by (simp add: vec_at_def)
  moreover have "{i..<i + Suc m} = insert i {Suc i..<Suc i + m}" by auto
  ultimately show ?case using c by (cases "v ! i = inv_id") auto
qed simp

subsection \<open>Well-formed location maps\<close>

text \<open>The slots of page \<open>p\<close> are those from \<open>(p - 1) * nps\<close> to \<open>p * nps\<close>.\<close>

definition page_within :: "'v ssd \<Rightarrow> nat \<Rightarrow> bool" where
  "page_within s p \<longleftrightarrow> 0 < p \<and> p * nps s \<le> curloc s"

definition queue_ok :: "'v ssd \<Rightarrow> bool" where
  "queue_ok s \<longleftrightarrow> distinct (freep s) \<and>
     (\<forall>p \<in> set (freep s). page_within s p \<and> (\<forall>j \<in> {(p - 1) * nps s..<(p - 1) * nps s + nps s}. locid s ! j = inv_id))"

definition shape_ok :: "'v ssd \<Rightarrow> bool" where
  "shape_ok s \<longleftrightarrow> 0 < nps s \<and> nps s dvd curloc s \<and> curloc s \<le> length (locid s) \<and> 2 \<le> length (locid s)"

lemma page_slots: "page_within s p \<Longrightarrow> (p - 1) * nps s + nps s \<le> curloc s"
  by (auto simp: page_within_def) (metis Suc_pred add.commute mult_Suc)

lemma slot_page: "l \<in> {(p - 1) * n..<(p - 1) * n + n} \<Longrightarrow> 0 < p \<Longrightarrow> Suc (l div n) = p" for l p n :: nat
proof -
  assume l: "l \<in> {(p - 1) * n..<(p - 1) * n + n}" and p: "0 < p"
  have "l div n = p - 1" using l by (intro div_nat_eqI) (simp_all add: mult.commute add.commute)
  then show ?thesis using p by simp
qed

lemma page_slot: "Suc (l div n) = p \<Longrightarrow> 0 < n \<Longrightarrow> l \<in> {(p - 1) * n..<(p - 1) * n + n}" for l p n :: nat
proof -
  assume "Suc (l div n) = p" "0 < n"
  then have "(p - 1) * n + l mod n = l" "l mod n < n" by auto
  then show ?thesis by (metis atLeastLessThan_iff le_add1 nat_add_left_cancel_less)
qed

text \<open>What taking the slots \<open>ls\<close> below the end did, with the pages that must be read first.\<close>

definition slots_took :: "'v ssd \<Rightarrow> nat list \<Rightarrow> nat set \<Rightarrow> nat set \<Rightarrow> 'v ssd \<Rightarrow> bool" where
  "slots_took s ls need need' s' \<longleftrightarrow> (\<exists>v q. s' = s\<lparr>locid := v, freep := q\<rparr> \<and> took (locid s) ls v) \<and>
     (\<forall>l \<in> set ls. l < curloc s) \<and> need \<subseteq> need' \<and>
     (\<forall>l \<in> set ls. \<forall>j < curloc s. j div nps s = l div nps s \<and> locid s ! j \<noteq> inv_id \<and> locid s ! j \<noteq> alloc_id \<longrightarrow> Suc (l div nps s) \<in> need')"

lemma slots_took_trans:
  assumes "slots_took s ls n n' t" "slots_took t ms n' n'' u" "shape_ok s"
  shows "slots_took s (ls @ ms) n n'' u"
proof -
  obtain v q where t: "t = s\<lparr>locid := v, freep := q\<rparr>" "took (locid s) ls v" using assms(1) by (auto simp: slots_took_def)
  obtain w r where u: "u = t\<lparr>locid := w, freep := r\<rparr>" "took v ms w" using assms(2) t(1) by (auto simp: slots_took_def)
  have len: "j < length (locid s)" if "j < curloc s" for j using that assms(3) by (simp add: shape_ok_def)
  have same: "v ! j = locid s ! j" if "j < curloc s" "locid s ! j \<noteq> inv_id" "locid s ! j \<noteq> alloc_id" for j
    using tookD(4,5) [OF t(2)] len [OF that(1)] that by auto
  have "\<exists>v q. u = s\<lparr>locid := v, freep := q\<rparr> \<and> took (locid s) (ls @ ms) v"
    using t(1) u(1) took_trans [OF t(2) u(2)] by (intro exI [of _ w] exI [of _ r]) simp
  then show ?thesis using assms(1,2) same unfolding slots_took_def t(1) by auto
qed

lemma slots_took_nil: "slots_took s [] n n (s\<lparr>freep := q\<rparr>)"
proof -
  have "s\<lparr>freep := q\<rparr> = s\<lparr>locid := locid s, freep := q\<rparr>" by simp
  then show ?thesis unfolding slots_took_def by (metis empty_iff list.set(1) order_refl took_refl)
qed

lemma slots_took_frame: "slots_took s ls n n' t \<Longrightarrow> shape_ok s \<Longrightarrow>
    shape_ok t \<and> curloc t = curloc s \<and> nps t = nps s \<and> length (locid t) = length (locid s)"
  using tookD(1) by (auto simp: slots_took_def shape_ok_def)

lemma from_queue_freep: "from_queue n ret q (s\<lparr>freep := x\<rparr>) = from_queue n ret q s"
proof (induction q arbitrary: ret s)
  case (Cons p ps)
  have "slots (s\<lparr>freep := x\<rparr>) = slots s" "first_loc (s\<lparr>freep := x\<rparr>) p = first_loc s p"
    by (simp_all add: slots_def first_loc_def)
  moreover have "from_queue n b ps (s\<lparr>freep := x, locid := a\<rparr>) = from_queue n b ps (s\<lparr>locid := a\<rparr>)" for a b
  proof -
    have "s\<lparr>freep := x, locid := a\<rparr> = s\<lparr>locid := a, freep := x\<rparr>" by simp
    then show ?thesis using Cons.IH [of b "s\<lparr>locid := a\<rparr>"] by metis
  qed
  ultimately show ?case by (auto intro!: Option.bind_cong simp: Let_def split: prod.splits)
qed simp

lemma from_queue_spec:
  assumes "shape_ok s" "length ret < n" "distinct q" "set q \<subseteq> set (freep s)" "queue_ok s"
  shows "\<exists>ls s'. from_queue n ret q s = Some (ret @ ls, s') \<and> slots_took s ls need need s' \<and> queue_ok s' \<and>
    length ret + length ls \<le> n \<and> (length ret + length ls < n \<longrightarrow> freep s' = [])"
  using assms
proof (induction q arbitrary: ret s)
  case Nil
  then show ?case
    using slots_took_nil [of s need "[]"] by (intro exI [of _ "[]"] exI [of _ "s\<lparr>freep := []\<rparr>"]) (simp add: queue_ok_def)
next
  case (Cons p ps)
  have p: "page_within s p" "\<forall>j \<in> {(p - 1) * nps s..<(p - 1) * nps s + nps s}. locid s ! j = inv_id"
    using Cons.prems(4,5) by (auto simp: queue_ok_def)
  have n: "0 < nps s" "curloc s \<le> length (locid s)" using Cons.prems(1) by (simp_all add: shape_ok_def)
  have slots: "slots s = nps s" "first_loc s p = (p - 1) * nps s" using n by (simp_all add: slots_def first_loc_def)
  obtain v ls where v: "pop_slots n (nps s) ((p - 1) * nps s) (locid s) ret = Some (v, ret @ ls)" "took (locid s) ls v"
    "set ls \<subseteq> {(p - 1) * nps s..<(p - 1) * nps s + nps s}" "length ret + length ls \<le> n"
    using pop_slots_spec [OF _ p(2) Cons.prems(2)] page_slots [OF p(1)] n(2) by force
  have low: "\<forall>l \<in> set ls. l < curloc s" using v(3) page_slots [OF p(1)] by auto
  have page: "l div nps s = p - 1" if "l \<in> set ls" for l
    using slot_page [of l p "nps s"] v(3) that p(1) by (auto simp: page_within_def)
  have all_free: "locid s ! j = inv_id" if "j div nps s = p - 1" for j
    using page_slot [of j "nps s" p] that p n(1) by (auto simp: page_within_def)
  have took1: "slots_took s ls need need (s\<lparr>locid := v, freep := r\<rparr>)" for r
    using v(2) low page all_free unfolding slots_took_def by auto
  have other: "v ! j = inv_id" if "locid s ! j = inv_id" "j div nps s \<noteq> p - 1" "j < curloc s" for j
    using tookD(5) [OF v(2)] that page n(2) by auto
  have queue: "queue_ok (s\<lparr>locid := v, freep := r\<rparr>)" if r: "distinct r" "set r \<subseteq> set ps" for r
  proof -
    have "page_within s z \<and> (\<forall>j \<in> {(z - 1) * nps s..<(z - 1) * nps s + nps s}. v ! j = inv_id)" if z: "z \<in> set r" for z
    proof -
      have zs: "page_within s z" "\<forall>j \<in> {(z - 1) * nps s..<(z - 1) * nps s + nps s}. locid s ! j = inv_id" "z \<noteq> p"
        using z r Cons.prems(3-5) by (auto simp: queue_ok_def)
      have "v ! j = inv_id" if j: "j \<in> {(z - 1) * nps s..<(z - 1) * nps s + nps s}" for j
      proof (rule other)
        show "locid s ! j = inv_id" using zs(2) j by blast
        have "Suc (j div nps s) = z" using slot_page [OF j] zs(1) by (simp add: page_within_def)
        then show "j div nps s \<noteq> p - 1" using zs(1,3) p(1) by (auto simp: page_within_def)
        show "j < curloc s" using j page_slots [OF zs(1)] by auto
      qed
      then show ?thesis using zs(1) by blast
    qed
    then show ?thesis using r(1) by (auto simp: queue_ok_def page_within_def)
  qed
  show ?case
  proof (cases "length (ret @ ls) = n")
    case True
    then show ?thesis
      using v(1,4) slots took1 queue [of ps] Cons.prems(3)
      by (intro exI [of _ ls] exI [of _ "s\<lparr>locid := v, freep := ps\<rparr>"]) simp
  next
    case False
    define t where "t = s\<lparr>locid := v, freep := ps\<rparr>"
    have t: "slots_took s ls need need t" "queue_ok t" using took1 queue [of ps] Cons.prems(3) by (auto simp: t_def)
    have step: "from_queue n ret (p # ps) s = from_queue n (ret @ ls) ps (s\<lparr>locid := v\<rparr>)"
      using v(1) slots False by simp
    have same: "from_queue n r ps (s\<lparr>locid := v, freep := x\<rparr>) = from_queue n r ps (s\<lparr>locid := v\<rparr>)" for r x
      using from_queue_freep [of n r ps x "s\<lparr>locid := v\<rparr>"] by simp
    have "length (ret @ ls) < n" using v(4) False by simp
    then obtain ms u where "from_queue n (ret @ ls) ps t = Some ((ret @ ls) @ ms, u)" "slots_took t ms need need u" "queue_ok u"
      "length (ret @ ls) + length ms \<le> n" "length (ret @ ls) + length ms < n \<longrightarrow> freep u = []"
      using Cons.IH [of t "ret @ ls"] slots_took_frame [OF t(1) Cons.prems(1)] t(2) Cons.prems(3) by (auto simp: t_def)
    then show ?thesis
      using slots_took_trans [OF t(1) _ Cons.prems(1)] step same unfolding t_def
      by (intro exI [of _ "ls @ ms"] exI [of _ u]) auto
  qed
qed

lemma slots_took_need:
  assumes "slots_took s ls n n' t" "n' \<subseteq> m"
  shows "slots_took s ls n m t"
  using assms unfolding slots_took_def by blast

lemma from_hints_spec:
  assumes "shape_ok s" "length ret < n" "\<forall>p \<in> set q. page_within s p"
  shows "\<exists>ls need' s'. from_hints n ret need q s = Some (ret @ ls, need', s') \<and> slots_took s ls need need' s' \<and>
    freep s' = freep s \<and> length ret + length ls \<le> n"
  using assms
proof (induction q arbitrary: ret need s)
  case Nil
  then show ?case
    using slots_took_nil [of s need "freep s"] by (intro exI [of _ "[]"] exI [of _ need] exI [of _ s]) simp
next
  case (Cons p ps)
  have p: "page_within s p" using Cons.prems(3) by simp
  have n: "0 < nps s" "curloc s \<le> length (locid s)" using Cons.prems(1) by (simp_all add: shape_ok_def)
  have slots: "slots s = nps s" "first_loc s p = (p - 1) * nps s" using n by (simp_all add: slots_def first_loc_def)
  have in_len: "(p - 1) * nps s + nps s \<le> length (locid s)" using page_slots [OF p] n(2) by simp
  obtain c where c: "hole_count (locid s) ((p - 1) * nps s) (nps s) = Some c" "c \<le> nps s"
    "c = nps s \<longrightarrow> (\<forall>j \<in> {(p - 1) * nps s..<(p - 1) * nps s + nps s}. locid s ! j = inv_id)"
    using hole_count_spec [OF in_len] by blast
  show ?case
  proof (cases "c < (nps s + 2 - 1) div 2")
    case True
    then have "from_hints n ret need (p # ps) s = from_hints n ret need ps s" using c(1) slots by simp
    then show ?thesis using Cons.IH [of s ret need] Cons.prems by simp
  next
    case False
    define m where "m = (if c < nps s then insert p need else need)"
    obtain v ls where v: "fill_holes n (nps s) ((p - 1) * nps s) (locid s) ret = Some (v, ret @ ls)" "took (locid s) ls v"
      "set ls \<subseteq> {(p - 1) * nps s..<(p - 1) * nps s + nps s}" "length ret + length ls \<le> n"
      using fill_holes_spec [OF in_len Cons.prems(2)] by blast
    have low: "\<forall>l \<in> set ls. l < curloc s" using v(3) page_slots [OF p] by auto
    have page: "Suc (l div nps s) = p" if "l \<in> set ls" for l
      using slot_page [of l p "nps s"] v(3) that p by (auto simp: page_within_def)
    define t where "t = s\<lparr>locid := v\<rparr>"
    have used: "c < nps s" if "j div nps s = l div nps s" "l \<in> set ls" "locid s ! j \<noteq> inv_id" for j l
      using c(2,3) page_slot [of j "nps s" p] page [OF that(2)] that n(1) by force
    have "t = s\<lparr>locid := v, freep := freep s\<rparr>" by (simp add: t_def)
    moreover have "need \<subseteq> m" by (auto simp: m_def)
    moreover have "Suc (l div nps s) \<in> m" if "l \<in> set ls" "j div nps s = l div nps s" "locid s ! j \<noteq> inv_id" for j l
      using used [OF that(2,1,3)] page [OF that(1)] by (simp add: m_def)
    ultimately have took1: "slots_took s ls need m t"
      using v(2) low unfolding slots_took_def by blast
    have t: "freep t = freep s" by (simp add: t_def)
    show ?thesis
    proof (cases "length (ret @ ls) = n")
      case True
      then have "from_hints n ret need (p # ps) s = Some (ret @ ls, m, t)"
        using c(1) False v(1) slots by (simp add: m_def t_def)
      then show ?thesis using took1 v(4) t by blast
    next
      case more: False
      have step: "from_hints n ret need (p # ps) s = from_hints n (ret @ ls) m ps t"
        using c(1) False v(1) slots more by (simp add: m_def t_def)
      have fr: "shape_ok t" "curloc t = curloc s" "nps t = nps s" using slots_took_frame [OF took1 Cons.prems(1)] by simp_all
      have "\<forall>p \<in> set ps. page_within t p" using Cons.prems(3) fr by (simp add: page_within_def)
      moreover have "length (ret @ ls) < n" using v(4) more by simp
      ultimately obtain ms need' u where u: "from_hints n (ret @ ls) m ps t = Some ((ret @ ls) @ ms, need', u)"
        "slots_took t ms m need' u" "freep u = freep t" "length (ret @ ls) + length ms \<le> n"
        using Cons.IH [OF fr(1), of "ret @ ls" m] by blast
      then show ?thesis
        using slots_took_trans [OF took1 u(2) Cons.prems(1)] step t
        by (intro exI [of _ "ls @ ms"] exI [of _ need'] exI [of _ u]) simp
    qed
  qed
qed

lemma grow_put_spec:
  assumes "2 \<le> length xs"
  shows "\<exists>ys. grow_put z xs i x = Some ys \<and> i < length ys \<and> length xs \<le> length ys \<and> ys ! i = x \<and>
    (\<forall>j < length xs. j \<noteq> i \<longrightarrow> ys ! j = xs ! j)"
proof (cases "i < length xs")
  case True
  then show ?thesis by (simp add: grow_put_def vec_put_def)
next
  case False
  then have i: "2 \<le> i" "length xs \<le> i" using assms by simp_all
  then have big: "i < 3 * i div 2" by presburger
  then have t: "take (3 * i div 2) xs = xs" using i(2) by simp
  have "grow_put z xs i x = Some ((xs @ replicate (3 * i div 2 - length xs) z)[i := x])"
    using i(2) big t by (simp add: grow_put_def vec_put_def)
  then show ?thesis using i(2) big by (auto simp: nth_append)
qed

lemma set_loc_ids_run:
  assumes "2 \<le> length (locid s)" "i \<le> length (locid s)"
  shows "\<exists>v. set_loc_ids s (map (\<lambda>l. (l, x)) [i..<i + k]) = Some (s\<lparr>locid := v\<rparr>) \<and> length (locid s) \<le> length v \<and>
    i + k \<le> length v \<and> (\<forall>j < i. v ! j = locid s ! j) \<and> (\<forall>j \<in> {i..<i + k}. v ! j = x)"
  using assms
proof (induction k arbitrary: i s)
  case 0
  then show ?case by (intro exI [of _ "locid s"]) simp
next
  case (Suc k)
  obtain w where w: "grow_put 0 (locid s) i x = Some w" "i < length w" "length (locid s) \<le> length w" "w ! i = x"
    "\<forall>j < length (locid s). j \<noteq> i \<longrightarrow> w ! j = locid s ! j" using grow_put_spec [OF Suc.prems(1)] by blast
  define t where "t = s\<lparr>locid := w\<rparr>"
  obtain v where v: "set_loc_ids t (map (\<lambda>l. (l, x)) [Suc i..<Suc i + k]) = Some (t\<lparr>locid := v\<rparr>)" "length (locid t) \<le> length v"
    "Suc i + k \<le> length v" "\<forall>j < Suc i. v ! j = locid t ! j" "\<forall>j \<in> {Suc i..<Suc i + k}. v ! j = x"
    using Suc.IH [of t "Suc i"] w(2,3) Suc.prems(1) by (auto simp: t_def)
  have "[i..<i + Suc k] = i # [Suc i..<Suc i + k]" by (simp add: upt_rec)
  moreover have "{i..<i + Suc k} = insert i {Suc i..<Suc i + k}" by auto
  ultimately show ?case
    using v w Suc.prems(2) by (intro exI [of _ v]) (auto simp: t_def set_loc_id_def)
qed

lemma pad_dvd:
  fixes n c :: nat
  assumes "0 < n"
  shows "n dvd c + pad_slots n c"
proof (cases "c mod n = 0")
  case False
  have "c + (n - c mod n) = n * (c div n) + n"
    using mult_div_mod_eq [of n c] mod_less_divisor [OF assms, of c] by linarith
  then show ?thesis using False assms by (simp add: pad_slots_def)
qed (simp add: pad_slots_def dvd_eq_mod_eq_0)

lemma from_end_spec:
  assumes "shape_ok s"
  shows "\<exists>v c. from_end k s = Some ([curloc s..<curloc s + k], s\<lparr>locid := v, curloc := c\<rparr>) \<and> curloc s + k \<le> c \<and>
    nps s dvd c \<and> c \<le> length v \<and> length (locid s) \<le> length v \<and>
    (\<forall>j < c. v ! j = (if j < curloc s then locid s ! j else if j < curloc s + k then alloc_id else inv_id))"
proof -
  define c where "c = curloc s + k + pad_slots (nps s) (curloc s + k)"
  have s: "2 \<le> length (locid s)" "curloc s \<le> length (locid s)" "0 < nps s" using assms by (simp_all add: shape_ok_def)
  obtain v where v: "set_loc_ids s (map (\<lambda>l. (l, alloc_id)) [curloc s..<curloc s + k]) = Some (s\<lparr>locid := v\<rparr>)"
    "length (locid s) \<le> length v" "curloc s + k \<le> length v" "\<forall>j < curloc s. v ! j = locid s ! j"
    "\<forall>j \<in> {curloc s..<curloc s + k}. v ! j = alloc_id" using set_loc_ids_run [OF s(1,2)] by blast
  have c: "curloc s + k \<le> c" by (simp add: c_def)
  obtain w where w: "set_loc_ids (s\<lparr>locid := v\<rparr>) (map (\<lambda>l. (l, inv_id)) [curloc s + k..<c]) = Some (s\<lparr>locid := v\<rparr>\<lparr>locid := w\<rparr>)"
    "length v \<le> length w" "c \<le> length w" "\<forall>j < curloc s + k. w ! j = v ! j"
    "\<forall>j \<in> {curloc s + k..<c}. w ! j = inv_id"
    using set_loc_ids_run [of "s\<lparr>locid := v\<rparr>" "curloc s + k" inv_id "c - (curloc s + k)"] s(1) v(2,3) c by auto
  have "from_end k s = Some ([curloc s..<curloc s + k], s\<lparr>locid := w, curloc := c\<rparr>)"
    using v(1) w(1) by (simp add: from_end_def Let_def c_def)
  moreover have "nps s dvd c" unfolding c_def by (rule pad_dvd [OF s(3)])
  ultimately show ?thesis using c v(2,4,5) w(2-5) by (intro exI [of _ w] exI [of _ c]) auto
qed

text \<open>An allocation of \<open>n\<close> slots.\<close>

definition alloc_took :: "'v ssd \<Rightarrow> nat list \<Rightarrow> nat set \<Rightarrow> 'v ssd \<Rightarrow> bool" where
  "alloc_took s ls need s' \<longleftrightarrow> (\<exists>v q c. s' = s\<lparr>locid := v, freep := q, curloc := c\<rparr>) \<and> shape_ok s' \<and> queue_ok s' \<and>
     curloc s \<le> curloc s' \<and> length (locid s) \<le> length (locid s') \<and> distinct ls \<and>
     (\<forall>l \<in> set ls. l < curloc s' \<and> (l < curloc s \<longrightarrow> locid s ! l = inv_id)) \<and>
     (\<forall>l < curloc s'. locid s' ! l = (if l \<in> set ls then alloc_id else if l < curloc s then locid s ! l else inv_id)) \<and>
     (\<forall>l \<in> set ls. \<forall>j < curloc s. j div nps s = l div nps s \<and> locid s ! j \<noteq> inv_id \<and> locid s ! j \<noteq> alloc_id \<longrightarrow> Suc (l div nps s) \<in> need)"

lemma slots_alloc_took:
  assumes "slots_took s ls n need t" "shape_ok s" "queue_ok t"
  shows "alloc_took s ls need t"
proof -
  obtain v q where t: "t = s\<lparr>locid := v, freep := q\<rparr>" "took (locid s) ls v" using assms(1) by (auto simp: slots_took_def)
  have "\<exists>v q c. t = s\<lparr>locid := v, freep := q, curloc := c\<rparr>"
    using t(1) by (intro exI [of _ v] exI [of _ q] exI [of _ "curloc s"]) simp
  moreover have "\<forall>l < curloc s. v ! l = (if l \<in> set ls then alloc_id else locid s ! l)"
    using tookD(5) [OF t(2)] assms(2) by (simp add: shape_ok_def)
  ultimately show ?thesis
    using assms slots_took_frame [OF assms(1,2)] tookD(2-4) [OF t(2)] unfolding alloc_took_def
    by (intro conjI) (auto simp: slots_took_def t(1))
qed

lemma alloc_slots_spec:
  assumes "shape_ok s" "queue_ok s" "1 \<le> n" "\<forall>p \<in> set hints. page_within s p"
  shows "\<exists>ls need s'. alloc_slots n hints {} s = Some (ls, need, s') \<and> length ls = n \<and> alloc_took s ls need s'"
proof -
  obtain ls t where t: "from_queue n [] (freep s) s = Some (ls, t)" "slots_took s ls {} {} t" "queue_ok t" "length ls \<le> n"
    "length ls < n \<longrightarrow> freep t = []"
    using from_queue_spec [OF assms(1), of "[]" n "freep s" "{}"] assms(2,3) by (auto simp: queue_ok_def)
  show ?thesis
  proof (cases "length ls = n")
    case True
    then show ?thesis using t slots_alloc_took [OF t(2) assms(1) t(3)] by (auto simp: alloc_slots_def)
  next
    case False
    then have l: "length ls < n" "freep t = []" using t(4,5) by simp_all
    note F = slots_took_frame [OF t(2) assms(1)]
    have "\<forall>p \<in> set hints. page_within t p" using assms(4) F by (simp add: page_within_def)
    then obtain ms need u where u: "from_hints n ls {} hints t = Some (ls @ ms, need, u)" "slots_took t ms {} need u" "freep u = freep t"
      "length ls + length ms \<le> n"
      using from_hints_spec [OF conjunct1 [OF F] l(1)] by blast
    have su: "slots_took s (ls @ ms) {} need u" by (rule slots_took_trans [OF t(2) u(2) assms(1)])
    note G = slots_took_frame [OF su assms(1)]
    have qu: "queue_ok u" using u(3) l(2) by (simp add: queue_ok_def)
    show ?thesis
    proof (cases "length (ls @ ms) = n")
      case True
      then show ?thesis using t(1) False u(1) slots_alloc_took [OF su assms(1) qu] by (auto simp: alloc_slots_def)
    next
      case more: False
      note A = slots_alloc_took [OF su assms(1) qu, unfolded alloc_took_def]
      define k where "k = n - length (ls @ ms)"
      obtain v c where v: "from_end k u = Some ([curloc u..<curloc u + k], u\<lparr>locid := v, curloc := c\<rparr>)" "curloc u + k \<le> c"
        "nps u dvd c" "c \<le> length v" "length (locid u) \<le> length v"
        "\<forall>j < c. v ! j = (if j < curloc u then locid u ! j else if j < curloc u + k then alloc_id else inv_id)"
        using from_end_spec [OF conjunct1 [OF G]] by blast
      define w where "w = u\<lparr>locid := v, curloc := c\<rparr>"
      let ?ns = "[curloc s..<curloc s + k]"
      have "alloc_slots n hints {} s = Some ((ls @ ms) @ ?ns, need, w)"
        using t(1) False u(1) more v(1) G by (simp add: alloc_slots_def k_def w_def)
      moreover have "length ((ls @ ms) @ ?ns) = n" using u(4) by (simp add: k_def)
      moreover have "alloc_took s ((ls @ ms) @ ?ns) need w"
      proof -
        have old: "l < curloc s" if "l \<in> set (ls @ ms)" for l using su that by (simp add: slots_took_def)
        have page: "\<not> (j div nps s = l div nps s)" if "j < curloc s" "curloc s \<le> l" for j l
        proof -
          have "nps s dvd curloc s" "0 < nps s" using assms(1) by (simp_all add: shape_ok_def)
          then have "j div nps s < curloc s div nps s" using that(1) by (simp add: div_less_iff_less_mult)
          moreover have "curloc s div nps s \<le> l div nps s" using that(2) by (rule div_le_mono)
          ultimately show ?thesis by simp
        qed
        have 1: "\<exists>v q c. w = s\<lparr>locid := v, freep := q, curloc := c\<rparr>"
        proof -
          obtain v' q c' where "u = s\<lparr>locid := v', freep := q, curloc := c'\<rparr>" using A by blast
          then have "w = s\<lparr>locid := v, freep := q, curloc := c\<rparr>" by (simp add: w_def)
          then show ?thesis by blast
        qed
        have 2: "shape_ok w" "queue_ok w" "curloc s \<le> curloc w" "length (locid s) \<le> length (locid w)"
          using G v(2-5) qu l(2) u(3) by (simp_all add: shape_ok_def queue_ok_def w_def)
        have 3: "distinct ((ls @ ms) @ ?ns)" using A old by fastforce
        have 4: "\<forall>l \<in> set ((ls @ ms) @ ?ns). l < curloc w \<and> (l < curloc s \<longrightarrow> locid s ! l = inv_id)"
          using A old v(2) G by (force simp: w_def)
        have 5: "\<forall>l < curloc w. locid w ! l = (if l \<in> set ((ls @ ms) @ ?ns) then alloc_id else if l < curloc s then locid s ! l else inv_id)"
        proof (intro allI impI)
          fix l assume "l < curloc w"
          then have "locid w ! l = (if l < curloc s then locid u ! l else if l < curloc s + k then alloc_id else inv_id)"
            using v(6) G by (simp add: w_def)
          moreover have "locid u ! l = (if l \<in> set (ls @ ms) then alloc_id else locid s ! l)" if "l < curloc s"
            using A G that by simp
          ultimately show "locid w ! l = (if l \<in> set ((ls @ ms) @ ?ns) then alloc_id else if l < curloc s then locid s ! l else inv_id)"
            using old by auto
        qed
        have 6: "\<forall>l \<in> set ((ls @ ms) @ ?ns). \<forall>j < curloc s. j div nps s = l div nps s \<and> locid s ! j \<noteq> inv_id \<and> locid s ! j \<noteq> alloc_id \<longrightarrow> Suc (l div nps s) \<in> need"
          using A page by auto
        show ?thesis unfolding alloc_took_def using 1 2 3 4 5 6 by blast
      qed
      ultimately show ?thesis by blast
    qed
  qed
qed

end
