(* ===== verification/BeamSearch.thy ===== *)
theory BeamSearch
  imports DiskIndex
begin

text \<open>
  The search of the on-disk index, \<open>do_beam_search\<close> and \<open>beam_search\<close> of
  \<open>PipeANN/src/search/beam_search.cpp\<close>. A round takes up to \<open>beam_width\<close> unexpanded entries of the candidate
  list, reads their records, and puts the neighbors into the list by their estimated distance, while the
  exact distances of the read nodes are the results. The distances, the sort and the entry points that the
  in-memory index gives are arguments; the statistics are left out, apart from the time limit, which is the
  argument \<open>qstop\<close> over the number of rounds. \<open>None\<close> is a \<open>crash\<close>, an access outside a buffer or a loop that
  does not end.
\<close>

text \<open>\<open>qest\<close> is \<open>nbr_handler->compute_dists\<close> for the query, \<open>qcmp\<close> the exact distance, \<open>qexcl\<close> the set
  \<open>exclude_nodes\<close> (\<open>None\<close> is the null pointer), \<open>qL\<close> is \<open>params.L\<close>, and the last fields are the bytes of a
  vector, of an aligned vector and of \<open>coord_buf\<close>.\<close>

record 'v beam_env =
  qest :: "u32 \<Rightarrow> rat"
  qcmp :: "'v \<Rightarrow> 'v \<Rightarrow> rat"
  qsrt :: "rat pool_nbr list \<Rightarrow> rat pool_nbr list"
  qwidth :: nat
  qdyn :: bool
  qexcl :: "u32 set option"
  qstop :: "nat \<Rightarrow> bool"
  qL :: nat
  qbytes :: nat
  qaligned :: nat
  qcoord :: "nat option"

text \<open>The locals of \<open>do_beam_search\<close>: \<open>retset\<close>, \<open>cur_list_size\<close>, \<open>visited\<close>, \<open>full_retset\<close>, \<open>cmps\<close>,
  \<open>l_search\<close>, the vector in \<open>data_buf\<close>, \<open>coord_map\<close> and \<open>coord_buf_idx\<close>, \<open>page_ref\<close> and \<open>hops\<close>. The map
  holds pointers: every one of them is \<open>node_fp_coords_copy\<close>, which is \<open>data_buf\<close>.\<close>

datatype coord_ptr = Data_buf | Coord_buf nat

record 'v beam =
  retset :: "rat pool_nbr list"
  bn :: nat
  bvis :: "u32 set"
  full :: "rat pool_nbr list"
  bcmps :: u32
  lsearch :: nat
  scratch :: "'v option"
  coords :: "'v list"
  coord_map :: "u32 \<rightharpoonup> coord_ptr"
  prefs :: "nat list"
  hops :: nat

definition MAX_N_SECTOR_READS :: nat where "MAX_N_SECTOR_READS = 128"
definition MAX_N_EDGES :: nat where "MAX_N_EDGES = 1024"

definition zero_nbr :: "rat pool_nbr" where
  "zero_nbr = mk_pool_nbr 0 0 False"

definition beam_start :: "nat \<Rightarrow> nat \<Rightarrow> 'v beam" where
  "beam_start mem_L l = \<lparr>retset = replicate (mem_L + 10 * l) zero_nbr, bn = 0, bvis = {}, full = [], bcmps = 0,
     lsearch = l, scratch = None, coords = [], coord_map = Map.empty, prefs = [], hops = 0\<rparr>"

fun seed_beam :: "'v beam_env \<Rightarrow> u32 list \<Rightarrow> 'v beam \<Rightarrow> 'v beam option" where
  "seed_beam E [] s = Some s"
| "seed_beam E (i # ids) s = do {
     r \<leftarrow> vec_put (retset s) (bn s) (mk_pool_nbr i (qest E i) True);
     seed_beam E ids (s\<lparr>retset := r, bn := bn s + 1, bvis := insert i (bvis s)\<rparr>)
   }"

text \<open>The entries from \<open>k\<close> on: at most \<open>w\<close> flagged ones are taken.\<close>

fun pick_beam :: "nat \<Rightarrow> rat pool_nbr list \<Rightarrow> u32 list \<times> rat pool_nbr list" where
  "pick_beam w [] = ([], [])"
| "pick_beam w (x # xs) =
     (if w = 0 then ([], x # xs)
      else if pflag x then (let (f, ys) = pick_beam (w - 1) xs in (pid x # f, x\<lparr>pflag := False\<rparr> # ys))
      else (let (f, ys) = pick_beam w xs in (f, x # ys)))"

text \<open>A neighbor of a read node; the second result is \<open>nk\<close>.\<close>

definition add_nbr :: "'v beam_env \<Rightarrow> nat \<Rightarrow> u32 \<Rightarrow> 'v beam \<Rightarrow> nat \<Rightarrow> ('v beam \<times> nat) option" where
  "add_nbr E cur_id i s nk =
     (if unat i > cur_id then None
      else if i \<in> bvis s then Some (s, nk)
      else do {
        last \<leftarrow> vec_at (retset s) (bn s - 1);
        let s = s\<lparr>bvis := insert i (bvis s), bcmps := bcmps s + 1\<rparr>;
        if qest E i \<ge> pdist last \<and> bn s = lsearch s then Some (s, nk)
        else do {
          (r, a) \<leftarrow> insert_into_pool (retset s) (bn s) (mk_pool_nbr i (qest E i) True);
          let nk = (if r < nk then r else nk);
          Some (if bn s < lsearch s
                then s\<lparr>retset := (if bn s + 1 \<ge> length a then a @ replicate (2 * (bn s + 1) - length a) zero_nbr else a),
                       bn := bn s + 1\<rparr>
                else s\<lparr>retset := a\<rparr>, nk)
        }
      })"

fun add_nbrs :: "'v beam_env \<Rightarrow> nat \<Rightarrow> u32 list \<Rightarrow> 'v beam \<Rightarrow> nat \<Rightarrow> ('v beam \<times> nat) option" where
  "add_nbrs E cur_id [] s nk = Some (s, nk)"
| "add_nbrs E cur_id (i # ns) s nk = do { (s, nk) \<leftarrow> add_nbr E cur_id i s nk; add_nbrs E cur_id ns s nk }"

text \<open>The index of the \<open>L\<close>-th entry whose tag is not excluded, or the length of the list.\<close>

fun live_end :: "(u32 \<Rightarrow> bool) \<Rightarrow> nat \<Rightarrow> rat pool_nbr list \<Rightarrow> nat \<Rightarrow> nat \<Rightarrow> nat" where
  "live_end excl L [] tot cur = cur"
| "live_end excl L (x # xs) tot cur =
     (if excl (pid x) then live_end excl L xs tot (cur + 1)
      else if tot + 1 = L then cur else live_end excl L xs (tot + 1) (cur + 1))"

definition dyn_l :: "'v beam_env \<Rightarrow> 'v ssd \<Rightarrow> nat \<Rightarrow> 'v beam \<Rightarrow> 'v beam option" where
  "dyn_l E d L s =
     (if qdyn E
      then (case qexcl E of
              None \<Rightarrow> if bn s = 0 then Some (s\<lparr>lsearch := max L 1\<rparr>) else None
            | Some X \<Rightarrow> Some (s\<lparr>lsearch := max L (live_end (\<lambda>i. id2tag d i \<in> X) L (take (bn s) (retset s)) 0 0 + 1)\<rparr>))
      else Some s)"

text \<open>The copy into \<open>coord_buf\<close> and the entry of \<open>coord_map\<close>; \<open>insert\<close> keeps an existing entry.\<close>

definition keep_coords :: "'v beam_env \<Rightarrow> u32 \<Rightarrow> 'v \<Rightarrow> 'v beam \<Rightarrow> 'v beam option" where
  "keep_coords E i v s =
     (case qcoord E of
        None \<Rightarrow> Some s
      | Some cap \<Rightarrow>
          if length (coords s) > qL E * 10 then None
          else if length (coords s) * qaligned E + qbytes E > cap then None
          else Some (s\<lparr>coords := coords s @ [v],
            coord_map := (if coord_map s i = None then (coord_map s)(i \<mapsto> Data_buf) else coord_map s)\<rparr>))"

definition expand_node :: "'v beam_env \<Rightarrow> 'v ssd \<Rightarrow> 'v \<Rightarrow> nat \<Rightarrow> u32 \<Rightarrow> 'v node_rec \<Rightarrow> 'v beam \<Rightarrow> nat \<Rightarrow> ('v beam \<times> nat) option" where
  "expand_node E d q L i r s nk = do {
     s \<leftarrow> keep_coords E i (rvec r) (s\<lparr>scratch := Some (rvec r)\<rparr>);
     let s = s\<lparr>full := full s @ [mk_pool_nbr i (qcmp E q (rvec r)) True]\<rparr>;
     if length (rnbrs r) > MAX_N_EDGES then None
     else do {
       (s, nk) \<leftarrow> add_nbrs E (curid d) (rnbrs r) s nk;
       s \<leftarrow> dyn_l E d L s;
       Some (s, nk)
     }
   }"

fun expand_nodes :: "'v beam_env \<Rightarrow> 'v ssd \<Rightarrow> 'v \<Rightarrow> nat \<Rightarrow> (u32 \<times> 'v node_rec) list \<Rightarrow> 'v beam \<Rightarrow> nat \<Rightarrow> ('v beam \<times> nat) option" where
  "expand_nodes E d q L [] s nk = Some (s, nk)"
| "expand_nodes E d q L ((i, r) # rs) s nk = do { (s, nk) \<leftarrow> expand_node E d q L i r s nk; expand_nodes E d q L rs s nk }"

text \<open>The reads of a round: each node's record and the sectors that \<open>read_alloc\<close> appends to \<open>page_ref\<close>.\<close>

fun read_nodes :: "'v ssd \<Rightarrow> u32 list \<Rightarrow> ((u32 \<times> 'v node_rec) list \<times> nat list) option" where
  "read_nodes d [] = Some ([], [])"
| "read_nodes d (i # ids) = do {
     l \<leftarrow> id2loc d i;
     (rs, ps) \<leftarrow> read_nodes d ids;
     Some ((i, read_rec d l) # rs, [sector_of d l..<sector_of d l + (if nps d > 0 then 1 else spn d)] @ ps)
   }"

definition beam_round :: "'v beam_env \<Rightarrow> 'v ssd \<Rightarrow> 'v \<Rightarrow> nat \<Rightarrow> 'v beam \<Rightarrow> nat \<Rightarrow> ('v beam \<times> nat) option" where
  "beam_round E d q L s k = do {
     let (f, ys) = pick_beam (qwidth E) (drop k (take (bn s) (retset s)));
     if length f > MAX_N_SECTOR_READS then None
     else do {
       (rs, ps) \<leftarrow> read_nodes d f;
       (s, nk) \<leftarrow> expand_nodes E d q L rs
         (s\<lparr>retset := take k (retset s) @ ys @ drop (bn s) (retset s), prefs := prefs s @ ps\<rparr>) (bn s);
       Some (s\<lparr>hops := hops s + 1\<rparr>, if nk \<le> k then nk else k + 1)
     }
   }"

partial_function (option) beam_loop :: "'v beam_env \<Rightarrow> 'v ssd \<Rightarrow> 'v \<Rightarrow> nat \<Rightarrow> 'v beam \<Rightarrow> nat \<Rightarrow> 'v beam option" where
  "beam_loop E d q L s k =
     (if k < bn s
      then (case beam_round E d q L s k of
              None \<Rightarrow> None
            | Some r \<Rightarrow> if qstop E (hops (fst r)) then Some (fst r) else beam_loop E d q L (fst r) (snd r))
      else Some s)"

text \<open>The search starts at the entry point, or at the first of the \<open>mem_L\<close> tags that the in-memory index gives.\<close>

definition start_ids :: "'v ssd \<Rightarrow> nat \<Rightarrow> u32 list \<Rightarrow> nat \<Rightarrow> u32 list" where
  "start_ids d mem_L mem_tags l = (if mem_L \<noteq> 0 then take (min mem_L l) mem_tags else [dentry d])"

definition do_beam_search :: "'v beam_env \<Rightarrow> 'v ssd \<Rightarrow> 'v \<Rightarrow> nat \<Rightarrow> u32 list \<Rightarrow> nat \<Rightarrow> 'v beam option" where
  "do_beam_search E d q mem_L mem_tags l = do {
     s \<leftarrow> seed_beam E (start_ids d mem_L mem_tags l) (beam_start mem_L l);
     s \<leftarrow> beam_loop E d q l (s\<lparr>retset := qsrt E (take (bn s) (retset s)) @ drop (bn s) (retset s)\<rparr>) 0;
     Some (s\<lparr>full := qsrt E (full s)\<rparr>)
   }"

definition beam_search ::
  "'v beam_env \<Rightarrow> 'v ssd \<Rightarrow> 'v \<Rightarrow> nat \<Rightarrow> u32 list \<Rightarrow> nat \<Rightarrow> nat \<Rightarrow> (u32 \<times> rat) list option" where
  "beam_search E d q mem_L mem_tags k l = do {
     s \<leftarrow> do_beam_search (E\<lparr>qcoord := None\<rparr>) d q mem_L mem_tags l;
     Some (map (\<lambda>x. (id2tag d (pid x), pdist x)) (take (min l k) (full s)))
   }"

text \<open>\<open>search\<close> of \<open>PipeANN/src/update/dynamic_index.cpp\<close> for the beam search: it asks for \<open>search_L\<close> results, has
  room for 4096, and leaves out the deleted tags.\<close>

fun keep_live :: "u32 set \<Rightarrow> nat \<Rightarrow> (u32 \<times> rat) list \<Rightarrow> (u32 \<times> rat) list \<Rightarrow> (u32 \<times> rat) list" where
  "keep_live X K [] out = out"
| "keep_live X K ((t, d) # xs) out =
     (let out = (if t \<notin> X then out @ [(t, d)] else out)
      in if length out = K then out else keep_live X K xs out)"

definition dyn_search ::
  "'v beam_env \<Rightarrow> 'v ssd \<Rightarrow> u32 set \<Rightarrow> 'v \<Rightarrow> nat \<Rightarrow> nat \<Rightarrow> u32 list \<Rightarrow> nat \<Rightarrow> (u32 \<times> rat) list option" where
  "dyn_search E d X q K mem_L mem_tags L = do {
     xs \<leftarrow> beam_search (E\<lparr>qexcl := Some X\<rparr>) d q mem_L mem_tags L L;
     if length xs > 4096 then None else Some (keep_live X K xs [])
   }"

subsection \<open>The list of candidates\<close>

text \<open>\<open>gr\<close> says that the length limit \<open>ls\<close> may change. Then entries can be dropped although a later one is
  farther; otherwise the list holds the nearest of the nodes met.\<close>

definition cand_inv :: "(u32 \<Rightarrow> rat) \<Rightarrow> bool \<Rightarrow> nat \<Rightarrow> u32 set \<Rightarrow> nat \<Rightarrow> nat \<Rightarrow> rat pool_nbr list \<Rightarrow> bool" where
  "cand_inv est gr L V ls n a \<longleftrightarrow> n < length a \<and> 1 \<le> n \<and> L \<le> ls \<and> (\<not> gr \<longrightarrow> ls = L \<and> n \<le> L) \<and>
     sorted_wrt pool_le (take n a) \<and> distinct (map pid (take n a)) \<and> pid ` set (take n a) \<subseteq> V \<and>
     (\<forall>x \<in> set (take n a). pdist x = est (pid x)) \<and>
     (\<forall>i \<in> V - pid ` set (take n a). L \<le> n \<and> (\<not> gr \<longrightarrow> (\<forall>x \<in> set (take n a). pdist x \<le> est i)))"

lemma cand_invD:
  assumes "cand_inv est gr L V ls n a"
  shows "n < length a" "1 \<le> n" "L \<le> ls" "\<not> gr \<longrightarrow> ls = L \<and> n \<le> L" "sorted_wrt pool_le (take n a)"
    "distinct (map pid (take n a))" "pid ` set (take n a) \<subseteq> V" "\<forall>x \<in> set (take n a). pdist x = est (pid x)"
    "\<forall>i \<in> V - pid ` set (take n a). L \<le> n \<and> (\<not> gr \<longrightarrow> (\<forall>x \<in> set (take n a). pdist x \<le> est i))"
  using assms unfolding cand_inv_def by blast+

lemma cand_invI:
  assumes "n < length a" "1 \<le> n" "L \<le> ls" "\<not> gr \<longrightarrow> ls = L \<and> n \<le> L" "sorted_wrt pool_le (take n a)"
    "distinct (map pid (take n a))" "pid ` set (take n a) \<subseteq> V" "\<forall>x \<in> set (take n a). pdist x = est (pid x)"
    "\<forall>i \<in> V - pid ` set (take n a). L \<le> n \<and> (\<not> gr \<longrightarrow> (\<forall>x \<in> set (take n a). pdist x \<le> est i))"
  shows "cand_inv est gr L V ls n a"
  unfolding cand_inv_def using assms by blast

lemma cand_sorted: "cand_inv est gr L V ls n a \<Longrightarrow> pool_sorted a n"
  using cand_invD(1,2,5) [of est gr L V ls n a] by (simp add: pool_sorted_def)

lemma cand_last_ge:
  assumes "cand_inv est gr L V ls n a" "x \<in> set (take n a)"
  shows "pdist x \<le> pdist (a ! (n - 1))"
proof -
  obtain i where "i < n" "x = a ! i" using assms by (auto simp: set_take_nth)
  then show ?thesis using pool_sorted_nth [OF cand_sorted [OF assms(1)], of i "n - 1"] by simp
qed

lemma cand_skip:
  assumes inv: "cand_inv est gr L V ls n a" and far: "est i \<ge> pdist (a ! (n - 1))" "n = ls"
  shows "cand_inv est gr L (insert i V) ls n a"
proof -
  have "pdist x \<le> est i" if "x \<in> set (take n a)" for x using cand_last_ge [OF inv that] far(1) by linarith
  then have "\<forall>j \<in> insert i V - pid ` set (take n a). L \<le> n \<and> (\<not> gr \<longrightarrow> (\<forall>x \<in> set (take n a). pdist x \<le> est j))"
    using cand_invD(3,9) [OF inv] far(2) by blast
  then show ?thesis using cand_invD(1-8) [OF inv] by (intro cand_invI) (simp_all, blast+)
qed

lemma cand_insert:
  assumes inv: "cand_inv est gr L V ls n a" and i: "i \<notin> V" and near: "est i < pdist (a ! (n - 1)) \<or> n \<noteq> ls"
  shows "\<exists>r b. insert_into_pool a n (mk_pool_nbr i (est i) True) = Some (r, b) \<and> r \<le> n \<and> take r b = take r a \<and>
    length b = length a \<and>
    (let n' = (if n < ls then n + 1 else n) in
     (\<forall>c. length b + length c > n' \<longrightarrow> cand_inv est gr L (insert i V) ls n' (b @ c) \<and>
       set (take n' (b @ c)) \<subseteq> insert (mk_pool_nbr i (est i) True) (set (take n a))))"
proof -
  let ?n = "mk_pool_nbr i (est i) True"
  note I = cand_invD [OF inv]
  define W where "W p = take p (take n a) @ ?n # drop p (take n a)" for p
  have new: "pid ?n \<notin> pid ` set (take n a)" using I(7) i by (auto simp: mk_pool_nbr_def)
  obtain r b where r: "insert_into_pool a n ?n = Some (r, b)" "r \<le> n" "length b = length a"
    "take (Suc n) b = W r" "sorted_wrt pool_le (W r)"
    using insert_into_pool_placed [OF cand_sorted [OF inv] new] by (auto simp: W_def)
  have "take r b = take r (take (Suc n) b)" using r(2) by simp
  also have "\<dots> = take r a" unfolding r(4) W_def using r(2) I(1) by simp
  finally have front: "take r b = take r a" .
  have mW: "mset (W r) = add_mset ?n (mset (take n a))"
  proof -
    have "mset (take n a) = mset (take r (take n a)) + mset (drop r (take n a))"
      by (metis append_take_drop_id mset_append)
    then show ?thesis by (simp add: W_def)
  qed
  then have sW: "set (W r) = insert ?n (set (take n a))" by (metis set_mset_add_mset_insert set_mset_mset)
  have dW: "distinct (map pid (W r))"
  proof -
    have "distinct (i # map pid (take n a))" using I(6,7) i by auto
    moreover have "mset (map pid (W r)) = mset (i # map pid (take n a))" using mW by (simp add: mk_pool_nbr_def)
    ultimately show ?thesis using mset_eq_imp_distinct_iff by blast
  qed
  have pdn: "pdist ?n = est i" "pid ?n = i" by (simp_all add: mk_pool_nbr_def)
  have lenW: "length (W r) = n + 1" using r(3,4) I(1) by (metis length_take min_absorb2 Suc_eq_plus1 Suc_leI)
  have all: "\<forall>x \<in> set (W r). pdist x = est (pid x)" "pid ` set (W r) \<subseteq> insert i V"
    using I(7,8) unfolding sW by (auto simp: pdn)
  have "cand_inv est gr L (insert i V) ls n' (b @ c) \<and> set (take n' (b @ c)) \<subseteq> insert ?n (set (take n a))"
    if n': "n' = (if n < ls then n + 1 else n)" and room: "length b + length c > n'" for n' c
  proof (cases "n < ls")
    case True
    have p: "take n' (b @ c) = W r" using True n' r(3,4) I(1) by simp
    have "L \<le> n'" if "j \<in> insert i V - pid ` set (W r)" for j
      using that I(9) True n' unfolding sW by (auto simp: pdn)
    moreover have "V - pid ` set (take n a) = {}" if "\<not> gr" using I(4,9) that True by fastforce
    then have "insert i V - pid ` set (W r) = {}" if "\<not> gr" using that unfolding sW by (auto simp: pdn)
    moreover have "n' < length (b @ c)" "1 \<le> n'" "\<not> gr \<longrightarrow> ls = L \<and> n' \<le> L"
      using I(2,4) True n' room by auto
    ultimately have "cand_inv est gr L (insert i V) ls n' (b @ c)"
      unfolding cand_inv_def p using I(3) all r(5) dW by blast
    then show ?thesis unfolding p sW by blast
  next
    case False
    then have n: "n' = n" using n' by simp
    define z where "z = W r ! n"
    have "take n b = take n (take (Suc n) b)" by simp
    then have p: "take n' (b @ c) = take n (W r)" using n r(3,4) I(1) by simp
    have Wz: "W r = take n (W r) @ [z]"
      unfolding z_def using lenW by (metis Suc_eq_plus1 lessI take_Suc_conv_app_nth take_all_iff order_refl)
    let ?P = "take n (W r)"
    have P: "sorted_wrt pool_le ?P" "\<forall>x \<in> set ?P. pdist x \<le> pdist z" "distinct (map pid ?P)"
      using r(5) dW Wz by (metis sorted_wrt_append, metis sorted_wrt_append list.set_intros(1), metis distinct_append map_append)
    have sub: "set (W r) = insert z (set ?P)" by (subst Wz) simp
    have in_W: "x \<in> insert ?n (set (take n a))" if "x \<in> set ?P" for x using that sub sW by simp
    have L: "L \<le> n" using False I(3) by simp
    have dropped: "\<forall>x \<in> set ?P. pdist x \<le> est j" if gr: "\<not> gr" and j: "j \<in> insert i V - pid ` set ?P" for j
    proof
      fix x assume x: "x \<in> set ?P"
      have near: "est i < pdist (a ! (n - 1))" using near False I(4) gr by auto
      have "n - 1 < n" "n - 1 < length a" using I(1,2) by simp_all
      then have lastp: "a ! (n - 1) \<in> set (take n a)" unfolding set_take_nth by blast
      show "pdist x \<le> est j"
      proof (cases "j = pid z")
        case True
        have "pdist z = est (pid z)" using all(1) sub by blast
        then show ?thesis using P(2) x True by simp
      next
        case False
        then have "j \<notin> pid ` set (W r)" using j unfolding sub by auto
        then have "j \<in> V - pid ` set (take n a)" using j unfolding sW by (auto simp: pdn)
        then have far: "\<forall>x \<in> set (take n a). pdist x \<le> est j" using I(9) gr by blast
        then have "pdist ?n \<le> est j" using near lastp unfolding pdn by force
        then show ?thesis using far in_W [OF x] by auto
      qed
    qed
    have "\<forall>x \<in> set ?P. pdist x = est (pid x)" "pid ` set ?P \<subseteq> insert i V" using all sub by blast+
    moreover have "n' < length (b @ c)" "1 \<le> n'" "\<not> gr \<longrightarrow> ls = L \<and> n' \<le> L" "L \<le> n'"
      using I(2,4) L n room by auto
    ultimately have "cand_inv est gr L (insert i V) ls n' (b @ c)"
      unfolding cand_inv_def p using I(3) P(1,3) dropped by blast
    then show ?thesis using sub sW unfolding p by blast
  qed
  then show ?thesis using r(1,2,3) front by (intro exI [of _ r] exI [of _ b]) (simp add: Let_def)
qed

subsection \<open>The graph on disk\<close>

definition node_at :: "'v ssd \<Rightarrow> u32 \<Rightarrow> 'v node_rec" where
  "node_at d i = read_rec d (idloc d ! unat i)"

definition d_edges :: "'v ssd \<Rightarrow> (u32 \<times> u32) set" where
  "d_edges d = {(a, b). b \<in> set (rnbrs (node_at d a))}"

definition d_reach :: "'v ssd \<Rightarrow> u32 set \<Rightarrow> u32 set" where
  "d_reach d S = (d_edges d)\<^sup>* `` S"

text \<open>The nodes a search can meet have a place, a record there, a known id and not too many neighbors.\<close>

definition walkable :: "'v ssd \<Rightarrow> u32 set \<Rightarrow> bool" where
  "walkable d S \<longleftrightarrow> (\<forall>i \<in> d_reach d S. unat i < length (idloc d) \<and> unat i \<le> curid d \<and>
     slot_of_page d (idloc d ! unat i) < length (dpages d (sector_of d (idloc d ! unat i))) \<and>
     length (rnbrs (node_at d i)) \<le> MAX_N_EDGES)"

lemma walkableD:
  assumes "walkable d S" "i \<in> d_reach d S"
  shows "id2loc d i = Some (idloc d ! unat i)" "unat i \<le> curid d" "length (rnbrs (node_at d i)) \<le> MAX_N_EDGES"
  using assms by (auto simp: walkable_def id2loc_def vec_at_def)

lemma d_reach_step: "a \<in> d_reach d S \<Longrightarrow> b \<in> set (rnbrs (node_at d a)) \<Longrightarrow> b \<in> d_reach d S"
  by (auto simp: d_reach_def d_edges_def intro: rtrancl_into_rtrancl)

lemma d_reach_base: "S \<subseteq> d_reach d S"
  by (auto simp: d_reach_def)

lemma finite_d_reach [simp]: "finite (d_reach d S)"
  by (rule finite_subset [OF subset_UNIV]) simp

definition grows :: "'v beam_env \<Rightarrow> bool" where
  "grows E \<longleftrightarrow> qdyn E \<and> qexcl E \<noteq> Some {}"

text \<open>The search list with the marked nodes \<open>X\<close>: those that are expanded or picked.\<close>

definition core :: "'v beam_env \<Rightarrow> 'v ssd \<Rightarrow> nat \<Rightarrow> u32 set \<Rightarrow> u32 set \<Rightarrow> 'v beam \<Rightarrow> bool" where
  "core E d L S X s \<longleftrightarrow> cand_inv (qest E) (grows E) L (bvis s) (lsearch s) (bn s) (retset s) \<and>
     bvis s \<subseteq> d_reach d S \<and> S \<subseteq> bvis s \<and> X \<subseteq> bvis s \<and>
     (\<forall>x \<in> set (take (bn s) (retset s)). pflag x \<longleftrightarrow> pid x \<notin> X)"

lemma coreD:
  assumes "core E d L S X s"
  shows "cand_inv (qest E) (grows E) L (bvis s) (lsearch s) (bn s) (retset s)" "bvis s \<subseteq> d_reach d S" "S \<subseteq> bvis s"
    "X \<subseteq> bvis s" "\<forall>x \<in> set (take (bn s) (retset s)). pflag x \<longleftrightarrow> pid x \<notin> X"
  using assms unfolding core_def by blast+

text \<open>What adding neighbors does not change, and what it keeps of the list before slot \<open>nk\<close>.\<close>

definition others :: "'v beam \<Rightarrow> _" where
  "others s = (full s, scratch s, coords s, coord_map s, prefs s, hops s)"

definition grown_from :: "'v beam \<Rightarrow> nat \<Rightarrow> 'v beam \<Rightarrow> nat \<Rightarrow> bool" where
  "grown_from s nk s' nk' \<longleftrightarrow> nk' \<le> nk \<and> bn s \<le> bn s' \<and> take nk' (retset s') = take nk' (retset s)"

lemma grown_refl [simp]: "grown_from s nk s nk"
  by (simp add: grown_from_def)

lemma grown_trans: "grown_from s a t b \<Longrightarrow> grown_from t b u c \<Longrightarrow> grown_from s a u c"
  unfolding grown_from_def by (metis le_trans min.absorb1 take_take)

lemma add_nbr_core:
  assumes inv: "core E d L S X s" and i: "i \<in> d_reach d S" "unat i \<le> curid d" and nk: "nk \<le> bn s"
  shows "\<exists>s' nk'. add_nbr E (curid d) i s nk = Some (s', nk') \<and> core E d L S X s' \<and> bvis s' = insert i (bvis s) \<and>
    grown_from s nk s' nk' \<and> others s' = others s"
proof (cases "i \<in> bvis s")
  case True
  then show ?thesis using i inv by (auto simp: add_nbr_def insert_absorb)
next
  case new: False
  note I = coreD [OF inv] and C = cand_invD [OF coreD(1) [OF inv]]
  let ?n = "mk_pool_nbr i (qest E i) True"
  have last: "vec_at (retset s) (bn s - 1) = Some (retset s ! (bn s - 1))" using C(1) by (simp add: vec_at_def)
  have iX: "i \<notin> X" using I(4) new by blast
  show ?thesis
  proof (cases "qest E i \<ge> pdist (retset s ! (bn s - 1)) \<and> bn s = lsearch s")
    case True
    let ?s = "s\<lparr>bvis := insert i (bvis s), bcmps := bcmps s + 1\<rparr>"
    have "core E d L S X ?s"
      using I i(1) cand_skip [OF I(1), of i] True by (auto simp: core_def)
    moreover have "add_nbr E (curid d) i s nk = Some (?s, nk)"
      using i(2) new last True unfolding add_nbr_def by (simp add: Let_def del: One_nat_def) metis
    ultimately show ?thesis by (simp add: grown_from_def others_def)
  next
    case False
    then have near: "qest E i < pdist (retset s ! (bn s - 1)) \<or> bn s \<noteq> lsearch s" by auto
    define n' where "n' = (if bn s < lsearch s then bn s + 1 else bn s)"
    obtain r b where r: "insert_into_pool (retset s) (bn s) ?n = Some (r, b)" "r \<le> bn s" "take r b = take r (retset s)"
      "length b = length (retset s)" and
      list: "\<And>c. length b + length c > n' \<Longrightarrow> cand_inv (qest E) (grows E) L (insert i (bvis s)) (lsearch s) n' (b @ c) \<and>
        set (take n' (b @ c)) \<subseteq> insert ?n (set (take (bn s) (retset s)))"
      using cand_insert [OF I(1) new near] unfolding n'_def Let_def by blast
    define c where "c = (if bn s < lsearch s \<and> bn s + 1 \<ge> length b then replicate (2 * (bn s + 1) - length b) zero_nbr else [])"
    define s' where "s' = s\<lparr>bvis := insert i (bvis s), bcmps := bcmps s + 1, retset := b @ c, bn := n'\<rparr>"
    have room: "length b + length c > n'" using C(1,2) r(4) by (auto simp: c_def n'_def)
    have "core E d L S X s'"
      unfolding core_def using list [OF room] I(2-5) i(1) iX
      by (auto simp: s'_def mk_pool_nbr_def)
    moreover have "add_nbr E (curid d) i s nk = Some (s', if r < nk then r else nk)"
      using i(2) new last False r(1) by (auto simp: add_nbr_def Let_def s'_def c_def n'_def)
    moreover have "take m (b @ c) = take m (retset s)" if "m \<le> r" for m
    proof -
      have "m \<le> length b" using that r(2,4) C(1) by simp
      then have "take m (b @ c) = take m b" by simp
      also have "\<dots> = take m (take r b)" using that by (simp add: min_absorb1)
      finally show ?thesis using that r(3) by (simp add: min_absorb1)
    qed
    then have "grown_from s nk s' (if r < nk then r else nk)"
      by (auto simp: grown_from_def s'_def n'_def)
    ultimately show ?thesis by (auto simp: s'_def others_def)
  qed
qed

lemma add_nbrs_core:
  assumes "core E d L S X s" "\<forall>i \<in> set ns. i \<in> d_reach d S \<and> unat i \<le> curid d" "nk \<le> bn s"
  shows "\<exists>s' nk'. add_nbrs E (curid d) ns s nk = Some (s', nk') \<and> core E d L S X s' \<and> bvis s' = bvis s \<union> set ns \<and>
    grown_from s nk s' nk' \<and> others s' = others s"
  using assms
proof (induction ns arbitrary: s nk)
  case (Cons i ns)
  obtain t m where t: "add_nbr E (curid d) i s nk = Some (t, m)" "core E d L S X t" "bvis t = insert i (bvis s)"
    "grown_from s nk t m" "others t = others s"
    using add_nbr_core [OF Cons.prems(1), of i nk] Cons.prems(2,3) by auto
  have "m \<le> bn t" using t(4) Cons.prems(3) by (simp add: grown_from_def)
  then obtain s' nk' where "add_nbrs E (curid d) ns t m = Some (s', nk')" "core E d L S X s'" "bvis s' = bvis t \<union> set ns"
    "grown_from t m s' nk'" "others s' = others t"
    using Cons.IH [OF t(2), of m] Cons.prems(2) by auto
  then show ?case using t grown_trans [OF t(4)] by auto
qed simp

lemma live_end_all: "tot < L \<Longrightarrow> live_end (\<lambda>_. False) L xs tot cur + tot < cur + L"
  by (induction "\<lambda>_ :: u32. False" L xs tot cur rule: live_end.induct) auto

lemma cand_limit:
  assumes "cand_inv est gr L V ls n a" "L \<le> ls'" "\<not> gr \<longrightarrow> ls' = L"
  shows "cand_inv est gr L V ls' n a"
  using assms unfolding cand_inv_def by blast

lemma dyn_l_core:
  assumes inv: "core E d L S X s" and ok: "qdyn E \<longrightarrow> qexcl E \<noteq> None" and L: "1 \<le> L"
  shows "\<exists>l. dyn_l E d L s = Some (s\<lparr>lsearch := l\<rparr>) \<and> core E d L S X (s\<lparr>lsearch := l\<rparr>)"
proof (cases "qdyn E")
  case False
  then have "dyn_l E d L s = Some (s\<lparr>lsearch := lsearch s\<rparr>)" by (simp add: dyn_l_def)
  moreover have "core E d L S X (s\<lparr>lsearch := lsearch s\<rparr>)" using inv by simp
  ultimately show ?thesis by blast
next
  case True
  then obtain T where T: "qexcl E = Some T" using ok by auto
  define l where "l = max L (live_end (\<lambda>i. id2tag d i \<in> T) L (take (bn s) (retset s)) 0 0 + 1)"
  have "l = L" if "\<not> grows E"
    using that True T L live_end_all [of 0 L "take (bn s) (retset s)" 0] by (auto simp: grows_def l_def)
  then have "cand_inv (qest E) (grows E) L (bvis s) l (bn s) (retset s)"
    using cand_limit [OF coreD(1) [OF inv], of l] by (auto simp: l_def)
  then have "core E d L S X (s\<lparr>lsearch := l\<rparr>)" using coreD(2-5) [OF inv] by (simp add: core_def)
  moreover have "dyn_l E d L s = Some (s\<lparr>lsearch := l\<rparr>)" using True T by (simp add: dyn_l_def l_def)
  ultimately show ?thesis by blast
qed

text \<open>\<open>coord_buf\<close> has room for \<open>n\<close> vectors.\<close>

definition roomy :: "'v beam_env \<Rightarrow> nat \<Rightarrow> bool" where
  "roomy E n \<longleftrightarrow> (\<forall>cap. qcoord E = Some cap \<longrightarrow> n \<le> qL E * 10 + 1 \<and> qbytes E \<le> qaligned E \<and> n * qaligned E \<le> cap)"

text \<open>All pointers of \<open>coord_map\<close> are the one buffer, which holds the vector read last.\<close>

definition coord_ok :: "'v beam_env \<Rightarrow> 'v ssd \<Rightarrow> 'v beam \<Rightarrow> bool" where
  "coord_ok E d s \<longleftrightarrow>
     (qcoord E \<noteq> None \<longrightarrow> length (coords s) = length (full s) \<and>
        coord_map s = (\<lambda>i. if i \<in> pid ` set (full s) then Some Data_buf else None)) \<and>
     (full s \<noteq> [] \<longrightarrow> scratch s = Some (rvec (node_at d (pid (last (full s))))))"

text \<open>The state between two nodes: \<open>pend\<close> are the nodes that are picked and not yet expanded.\<close>

definition beam_inv :: "'v beam_env \<Rightarrow> 'v ssd \<Rightarrow> 'v \<Rightarrow> nat \<Rightarrow> u32 set \<Rightarrow> u32 list \<Rightarrow> 'v beam \<Rightarrow> bool" where
  "beam_inv E d q L S pend s \<longleftrightarrow> core E d L S (pid ` set (full s) \<union> set pend) s \<and>
     distinct (map pid (full s) @ pend) \<and> coord_ok E d s \<and>
     (\<forall>x \<in> set (full s). pdist x = qcmp E q (rvec (node_at d (pid x)))) \<and>
     (\<forall>n \<in> pid ` set (full s). set (rnbrs (node_at d n)) \<subseteq> bvis s)"

lemma beam_invD:
  assumes "beam_inv E d q L S pend s"
  shows "core E d L S (pid ` set (full s) \<union> set pend) s" "distinct (map pid (full s) @ pend)" "coord_ok E d s"
    "\<forall>x \<in> set (full s). pdist x = qcmp E q (rvec (node_at d (pid x)))"
    "\<forall>n \<in> pid ` set (full s). set (rnbrs (node_at d n)) \<subseteq> bvis s"
  using assms unfolding beam_inv_def by blast+

lemma others_eq: "others s' = others s \<longleftrightarrow> full s' = full s \<and> scratch s' = scratch s \<and> coords s' = coords s \<and>
    coord_map s' = coord_map s \<and> prefs s' = prefs s \<and> hops s' = hops s"
  by (auto simp: others_def)

lemma expand_node_inv:
  assumes inv: "beam_inv E d q L S (i # pend) s" and walk: "walkable d S" "roomy E (card (d_reach d S))"
    and dyn: "qdyn E \<longrightarrow> qexcl E \<noteq> None" "1 \<le> L" and nk: "nk \<le> bn s"
  shows "\<exists>s' nk'. expand_node E d q L i (node_at d i) s nk = Some (s', nk') \<and> beam_inv E d q L S pend s' \<and>
    grown_from s nk s' nk' \<and> pid ` set (full s') = insert i (pid ` set (full s)) \<and> prefs s' = prefs s \<and> hops s' = hops s"
proof -
  note B = beam_invD [OF inv] and I = coreD [OF beam_invD(1) [OF inv]]
  let ?r = "node_at d i" and ?R = "d_reach d S"
  let ?x = "mk_pool_nbr i (qcmp E q (rvec ?r)) True"
  have iR: "i \<in> ?R" using I(2,4) by auto
  note W = walkableD [OF walk(1) iR]
  have "card (set (map pid (full s) @ i # pend)) \<le> card ?R" using I(2,4) by (intro card_mono) auto
  then have len: "length (full s) < card ?R" using distinct_card [OF B(2)] by simp
  define s1 where "s1 = s\<lparr>scratch := Some (rvec ?r),
    coords := (if qcoord E = None then coords s else coords s @ [rvec ?r]),
    coord_map := (if qcoord E \<noteq> None \<and> coord_map s i = None then (coord_map s)(i \<mapsto> Data_buf) else coord_map s)\<rparr>"
  have keep: "keep_coords E i (rvec ?r) (s\<lparr>scratch := Some (rvec ?r)\<rparr>) = Some s1"
  proof (cases "qcoord E")
    case None
    then show ?thesis by (simp add: keep_coords_def s1_def)
  next
    case (Some cap)
    then have l: "length (coords s) = length (full s)" using B(3) by (simp add: coord_ok_def)
    have c: "card ?R \<le> qL E * 10 + 1" "qbytes E \<le> qaligned E" "card ?R * qaligned E \<le> cap"
      using walk(2) Some by (auto simp: roomy_def)
    have "(length (full s) + 1) * qaligned E \<le> card ?R * qaligned E" using len by (intro mult_le_mono1) simp
    then have "length (full s) * qaligned E + qbytes E \<le> cap" using c(2,3) by simp
    then show ?thesis using Some l len c(1) by (simp add: keep_coords_def s1_def)
  qed
  define s2 where "s2 = s1\<lparr>full := full s @ [?x]\<rparr>"
  have s2: "full s2 = full s @ [?x]" "bvis s2 = bvis s" "bn s2 = bn s" "retset s2 = retset s" "lsearch s2 = lsearch s"
    "scratch s2 = Some (rvec ?r)" "prefs s2 = prefs s" "hops s2 = hops s"
    by (simp_all add: s2_def s1_def)
  have ids: "pid ` set (full s2) = insert i (pid ` set (full s))" by (simp add: s2 mk_pool_nbr_def)
  let ?X = "pid ` set (full s2) \<union> set pend"
  have "core E d L S ?X s2"
    using I unfolding core_def ids s2(2-5) by auto
  moreover have "\<forall>n \<in> set (rnbrs ?r). n \<in> ?R \<and> unat n \<le> curid d"
    using d_reach_step [OF iR] walkableD(2) [OF walk(1)] by blast
  ultimately obtain s3 nk' where s3: "add_nbrs E (curid d) (rnbrs ?r) s2 nk = Some (s3, nk')" "core E d L S ?X s3"
    "bvis s3 = bvis s \<union> set (rnbrs ?r)" "grown_from s2 nk s3 nk'" "others s3 = others s2"
    using add_nbrs_core [of E d L S ?X s2 "rnbrs ?r" nk] nk s2(2,3) by auto
  obtain l where l: "dyn_l E d L s3 = Some (s3\<lparr>lsearch := l\<rparr>)" "core E d L S ?X (s3\<lparr>lsearch := l\<rparr>)"
    using dyn_l_core [OF s3(2) dyn] by blast
  define s' where "s' = s3\<lparr>lsearch := l\<rparr>"
  note o = s3(5) [unfolded others_eq]
  have s': "full s' = full s2" "bvis s' = bvis s3" "scratch s' = scratch s2" "coords s' = coords s2"
    "coord_map s' = coord_map s2" "prefs s' = prefs s" "hops s' = hops s" "bn s' = bn s3" "retset s' = retset s3"
    using o s2(7,8) by (simp_all add: s'_def)
  have "expand_node E d q L i ?r s nk = Some (s', nk')"
    using keep W(3) s3(1) l(1) unfolding expand_node_def s'_def s2_def by (simp add: s1_def Let_def)
  moreover have "coord_ok E d s'"
    using B(3) unfolding coord_ok_def s'(1,3-5) by (auto simp: s2_def s1_def mk_pool_nbr_def)
  then have "beam_inv E d q L S pend s'"
    unfolding beam_inv_def s'(1,2) using l(2) B(2,4,5) s3(3)
    by (auto simp: s'_def ids s2(1) mk_pool_nbr_def)
  moreover have "grown_from s nk s' nk'"
    using s3(4) s2(3,4) s'(8,9) by (simp add: grown_from_def)
  ultimately show ?thesis using ids s' by auto
qed

lemma expand_nodes_inv:
  assumes "beam_inv E d q L S pend s" "walkable d S" "roomy E (card (d_reach d S))"
    "qdyn E \<longrightarrow> qexcl E \<noteq> None" "1 \<le> L" "nk \<le> bn s"
  shows "\<exists>s' nk'. expand_nodes E d q L (map (\<lambda>i. (i, node_at d i)) pend) s nk = Some (s', nk') \<and>
    beam_inv E d q L S [] s' \<and> grown_from s nk s' nk' \<and>
    pid ` set (full s') = pid ` set (full s) \<union> set pend \<and> prefs s' = prefs s \<and> hops s' = hops s"
  using assms(1,6)
proof (induction pend arbitrary: s nk)
  case (Cons i pend)
  obtain t m where t: "expand_node E d q L i (node_at d i) s nk = Some (t, m)" "beam_inv E d q L S pend t"
    "grown_from s nk t m" "pid ` set (full t) = insert i (pid ` set (full s))" "prefs t = prefs s" "hops t = hops s"
    using expand_node_inv [OF Cons.prems(1) assms(2-5) Cons.prems(2)] by blast
  have "m \<le> bn t" using t(3) Cons.prems(2) by (simp add: grown_from_def)
  from Cons.IH [OF t(2) this] show ?case using t grown_trans [OF t(3)] by auto
qed simp

subsection \<open>Rounds\<close>

lemma pick_beam_facts:
  assumes "pick_beam w xs = (f, ys)"
  shows "map pid ys = map pid xs" "map pdist ys = map pdist xs" "length f \<le> w" "set f \<subseteq> pid ` set xs"
    "distinct (map pid xs) \<Longrightarrow> distinct f" "1 \<le> w \<Longrightarrow> xs \<noteq> [] \<Longrightarrow> \<not> pflag (hd ys)" "f = [] \<Longrightarrow> ys = xs"
proof -
  have "map pid ys = map pid xs \<and> map pdist ys = map pdist xs \<and> length f \<le> w \<and> set f \<subseteq> pid ` set xs \<and>
    (distinct (map pid xs) \<longrightarrow> distinct f) \<and> (1 \<le> w \<longrightarrow> xs \<noteq> [] \<longrightarrow> \<not> pflag (hd ys)) \<and> (f = [] \<longrightarrow> ys = xs)"
    using assms
  proof (induction w xs arbitrary: f ys rule: pick_beam.induct)
    case (2 w x xs)
    consider "w = 0" | "w \<noteq> 0" "pflag x" | "w \<noteq> 0" "\<not> pflag x" by blast
    then show ?case
    proof cases
      case 1
      then show ?thesis using 2(3) by auto
    next
      case c: 2
      obtain g zs where g: "pick_beam (w - 1) xs = (g, zs)" "f = pid x # g" "ys = x\<lparr>pflag := False\<rparr> # zs"
        using 2(3) c by (auto split: prod.splits)
      show ?thesis using 2(1) [OF c g(1)] c(1) unfolding g(2,3) by auto
    next
      case c: 3
      obtain g zs where g: "pick_beam w xs = (g, zs)" "f = g" "ys = x # zs"
        using 2(3) c by (auto split: prod.splits)
      show ?thesis using 2(2) [OF c g(1)] c(2) unfolding g(2,3) by auto
    qed
  qed simp
  then show "map pid ys = map pid xs" "map pdist ys = map pdist xs" "length f \<le> w" "set f \<subseteq> pid ` set xs"
    "distinct (map pid xs) \<Longrightarrow> distinct f" "1 \<le> w \<Longrightarrow> xs \<noteq> [] \<Longrightarrow> \<not> pflag (hd ys)" "f = [] \<Longrightarrow> ys = xs"
    by blast+
qed

lemma pick_beam_flags:
  assumes "pick_beam w xs = (f, ys)" "distinct (map pid xs)" "\<forall>x \<in> set xs. pflag x \<longleftrightarrow> pid x \<notin> X"
  shows "\<forall>y \<in> set ys. pflag y \<longleftrightarrow> pid y \<notin> X \<union> set f" "set f \<inter> X = {}"
proof -
  have "(\<forall>y \<in> set ys. pflag y \<longleftrightarrow> pid y \<notin> X \<union> set f) \<and> set f \<inter> X = {}"
    using assms
  proof (induction w xs arbitrary: f ys rule: pick_beam.induct)
    case (2 w x xs)
    consider "w = 0" | "w \<noteq> 0" "pflag x" | "w \<noteq> 0" "\<not> pflag x" by blast
    then show ?case
    proof cases
      case 1
      then show ?thesis using 2(3,5) by auto
    next
      case c: 2
      obtain g zs where g: "pick_beam (w - 1) xs = (g, zs)" "f = pid x # g" "ys = x\<lparr>pflag := False\<rparr> # zs"
        using 2(3) c by (auto split: prod.splits)
      have "pid ` set zs = pid ` set xs" using pick_beam_facts(1) [OF g(1)] by (metis set_map)
      then have "pid x \<notin> pid ` set zs" using 2(4) by auto
      then have "\<forall>y \<in> set zs. pid y \<noteq> pid x" by (metis imageI)
      then show ?thesis using 2(1) [OF c g(1)] 2(4,5) c(2) g(2,3) by auto
    next
      case c: 3
      obtain g zs where g: "pick_beam w xs = (g, zs)" "f = g" "ys = x # zs"
        using 2(3) c by (auto split: prod.splits)
      then show ?thesis using 2(2) [OF c g(1)] 2(4,5) c(2) by auto
    qed
  qed simp
  then show "\<forall>y \<in> set ys. pflag y \<longleftrightarrow> pid y \<notin> X \<union> set f" "set f \<inter> X = {}" by blast+
qed

lemma cand_flags:
  assumes "cand_inv est gr L V ls n a" "length b = length a" "map pid (take n b) = map pid (take n a)"
    "map pdist (take n b) = map pdist (take n a)"
  shows "cand_inv est gr L V ls n b"
proof -
  have eq: "sorted_wrt pool_le xs \<longleftrightarrow> sorted_wrt (\<le>) (map pdist xs)" "(\<forall>x \<in> set xs. pdist x = est (pid x)) \<longleftrightarrow> map pdist xs = map est (map pid xs)"
    "(\<forall>x \<in> set xs. pdist x \<le> c) \<longleftrightarrow> (\<forall>y \<in> set (map pdist xs). y \<le> c)" "pid ` set xs = set (map pid xs)"
    for xs :: "rat pool_nbr list" and c
    by (auto simp: sorted_wrt_map)
  show ?thesis using assms(1) unfolding cand_inv_def eq assms(2-4) .
qed

definition sectors_at :: "'v ssd \<Rightarrow> nat \<Rightarrow> nat list" where
  "sectors_at d l = [sector_of d l..<sector_of d l + (if nps d > 0 then 1 else spn d)]"

definition refs_ok :: "'v ssd \<Rightarrow> u32 set \<Rightarrow> 'v beam \<Rightarrow> bool" where
  "refs_ok d S s \<longleftrightarrow> set (prefs s) \<subseteq> (\<Union>i \<in> d_reach d S. set (sectors_at d (idloc d ! unat i)))"

lemma read_nodes_at:
  assumes "walkable d S" "set f \<subseteq> d_reach d S"
  shows "read_nodes d f = Some (map (\<lambda>i. (i, node_at d i)) f, concat (map (\<lambda>i. sectors_at d (idloc d ! unat i)) f))"
  using assms(2) walkableD(1) [OF assms(1)] by (induction f) (auto simp: node_at_def sectors_at_def)

text \<open>What holds between two rounds: the entries before \<open>k\<close> are expanded.\<close>

definition loop_inv :: "'v beam_env \<Rightarrow> 'v ssd \<Rightarrow> 'v \<Rightarrow> nat \<Rightarrow> u32 set \<Rightarrow> nat \<Rightarrow> 'v beam \<Rightarrow> bool" where
  "loop_inv E d q L S k s \<longleftrightarrow> beam_inv E d q L S [] s \<and> refs_ok d S s \<and> k \<le> bn s \<and> (\<forall>i < k. \<not> pflag (retset s ! i))"

text \<open>What the proofs ask for of the index and the arguments.\<close>

definition search_ok :: "'v beam_env \<Rightarrow> 'v ssd \<Rightarrow> nat \<Rightarrow> u32 set \<Rightarrow> bool" where
  "search_ok E d L S \<longleftrightarrow> walkable d S \<and> roomy E (card (d_reach d S)) \<and> (qdyn E \<longrightarrow> qexcl E \<noteq> None) \<and> 1 \<le> L \<and>
     1 \<le> qwidth E \<and> qwidth E \<le> MAX_N_SECTOR_READS \<and> std_sort (qsrt E) nbr_lt"

lemma beam_round_inv:
  assumes ok: "search_ok E d L S" and inv: "loop_inv E d q L S k s" and k: "k < bn s"
  shows "\<exists>s' k'. beam_round E d q L s k = Some (s', k') \<and> loop_inv E d q L S k' s' \<and>
    (pid ` set (full s) \<subset> pid ` set (full s') \<or> full s' = full s \<and> bn s' = bn s \<and> k' = k + 1)"
proof -
  note B = inv [unfolded loop_inv_def]
  have ok': "walkable d S" "roomy E (card (d_reach d S))" "qdyn E \<longrightarrow> qexcl E \<noteq> None" "1 \<le> L" "1 \<le> qwidth E"
    "qwidth E \<le> MAX_N_SECTOR_READS"
    using ok by (simp_all add: search_ok_def)
  note I = coreD [OF beam_invD(1) [OF conjunct1 [OF B]]]
  note C = cand_invD [OF I(1)]
  let ?X = "pid ` set (full s)"
  define xs where "xs = drop k (take (bn s) (retset s))"
  have old: "take (bn s) (retset s) = take k (retset s) @ xs"
    unfolding xs_def using k by (metis append_take_drop_id min.absorb1 less_imp_le take_take)
  obtain f ys where p: "pick_beam (qwidth E) xs = (f, ys)" by fastforce
  note F = pick_beam_facts [OF p]
  have X: "distinct (map pid xs)" "\<forall>x \<in> set xs. pflag x \<longleftrightarrow> pid x \<notin> ?X" "xs \<noteq> []" "length xs = bn s - k"
    using C(1,6) I(5) k unfolding old by (auto simp: xs_def)
  note G = pick_beam_flags [OF p X(1,2)]
  have ly: "length ys = bn s - k" using F(1) X(4) by (metis length_map)
  define a where "a = take k (retset s) @ ys @ drop (bn s) (retset s)"
  have new: "take (bn s) a = take k (retset s) @ ys" using ly C(1) k by (simp add: a_def)
  define s1 where "s1 = s\<lparr>retset := a, prefs := prefs s @ concat (map (\<lambda>i. sectors_at d (idloc d ! unat i)) f)\<rparr>"
  have s1: "retset s1 = a" "bn s1 = bn s" "full s1 = full s" "bvis s1 = bvis s" "lsearch s1 = lsearch s"
    by (simp_all add: s1_def)
  have fv: "set f \<subseteq> bvis s" using F(4) C(7) unfolding old by auto
  have cand: "cand_inv (qest E) (grows E) L (bvis s) (lsearch s) (bn s) a"
  proof (rule cand_flags [OF I(1)])
    show "length a = length (retset s)" using ly C(1) k by (simp add: a_def)
    show "map pid (take (bn s) a) = map pid (take (bn s) (retset s))" unfolding new old using F(1) by simp
    show "map pdist (take (bn s) a) = map pdist (take (bn s) (retset s))" unfolding new old using F(2) by simp
  qed
  have front: "x \<in> set (take k (retset s)) \<Longrightarrow> \<not> pflag x \<and> x \<in> set (take (bn s) (retset s))" for x
    using B k unfolding old by (auto simp: set_take_nth)
  have "pflag x \<longleftrightarrow> pid x \<notin> ?X \<union> set f" if "x \<in> set (take (bn s) a)" for x
    using that front [of x] G(1) I(5) unfolding new by auto
  then have "core E d L S (?X \<union> set f) s1"
    unfolding core_def s1 using cand I(2-4) fv by auto
  moreover have "distinct (map pid (full s) @ f)" using beam_invD(2) [OF conjunct1 [OF B]] F(5) [OF X(1)] G(2) by auto
  moreover have "coord_ok E d s1" using beam_invD(3) [OF conjunct1 [OF B]] by (simp add: coord_ok_def s1_def)
  ultimately have inv1: "beam_inv E d q L S f s1"
    using beam_invD(4,5) [OF conjunct1 [OF B]] by (simp add: beam_inv_def s1)
  obtain s2 nk where s2: "expand_nodes E d q L (map (\<lambda>i. (i, node_at d i)) f) s1 (bn s) = Some (s2, nk)"
    "beam_inv E d q L S [] s2" "grown_from s1 (bn s) s2 nk" "pid ` set (full s2) = ?X \<union> set f" "prefs s2 = prefs s1"
    using expand_nodes_inv [OF inv1 ok'(1-4), of "bn s"] s1(2,3) by auto
  define k' where "k' = (if nk \<le> k then nk else k + 1)"
  define s' where "s' = s2\<lparr>hops := hops s2 + 1\<rparr>"
  have fR: "set f \<subseteq> d_reach d S" using fv I(2) by blast
  have step: "beam_round E d q L s k = Some (s', k')"
    using p F(3) ok'(6) read_nodes_at [OF ok'(1) fR] s2(1) unfolding beam_round_def s1_def a_def xs_def
    by (simp add: s'_def k'_def)
  have gf: "nk \<le> bn s" "bn s \<le> bn s2" "take nk (retset s2) = take nk a"
    using s2(3) s1 by (simp_all add: grown_from_def)
  have "\<not> pflag (retset s2 ! i)" if i: "i < k'" for i
  proof -
    have n: "i < nk" "i \<le> k" using i unfolding k'_def by (auto split: if_splits)
    have e: "retset s2 ! i = a ! i" using gf(3) n(1) by (metis nth_take)
    show ?thesis
    proof (cases "i < k")
      case True
      then have "a ! i = retset s ! i" using C(1) k by (simp add: a_def nth_append)
      then show ?thesis using e B True by simp
    next
      case False
      then have "i = k" using n(2) by simp
      moreover have "ys \<noteq> []" using ly k by auto
      ultimately have "a ! i = hd ys" using C(1) k by (simp add: a_def nth_append hd_conv_nth)
      then show ?thesis using e F(6) ok'(5) X(3) by simp
    qed
  qed
  moreover have "refs_ok d S s2" using B fR by (auto simp: refs_ok_def s2(5) s1_def)
  moreover have "k' \<le> bn s2" using gf k by (auto simp: k'_def)
  moreover have "beam_inv E d q L S [] s'"
    using s2(2) by (simp add: beam_inv_def core_def coord_ok_def s'_def)
  ultimately have "loop_inv E d q L S k' s'"
    by (simp add: loop_inv_def refs_ok_def s'_def)
  moreover have "?X \<subset> pid ` set (full s') \<or> full s' = full s \<and> bn s' = bn s \<and> k' = k + 1"
  proof (cases "f = []")
    case True
    then have "s2 = s1" "nk = bn s" using s2(1) by simp_all
    then show ?thesis using s1 k by (simp add: s'_def k'_def)
  next
    case False
    then obtain i where "i \<in> set f" by (cases f) auto
    then have "i \<in> pid ` set (full s2)" "i \<notin> ?X" using s2(4) G(2) by auto
    then show ?thesis using s2(4) by (auto simp: s'_def)
  qed
  ultimately show ?thesis using step by blast
qed

lemma beam_loop_ends:
  assumes ok: "search_ok E d L S" and "loop_inv E d q L S k s"
  shows "\<exists>s' k'. beam_loop E d q L s k = Some s' \<and> loop_inv E d q L S k' s' \<and> ((\<exists>h. qstop E h) \<or> k' = bn s')"
  using assms(2)
proof (induction "(card (- pid ` set (full s)), bn s - k)" arbitrary: s k rule: wf_induct_rule [OF wf_lex_prod [OF wf_less_than wf_less_than]])
  case (1 s k)
  show ?case
  proof (cases "k < bn s")
    case False
    then have "k = bn s" using "1.prems" by (simp add: loop_inv_def)
    moreover have "beam_loop E d q L s k = Some s" using False by (subst beam_loop.simps) simp
    ultimately show ?thesis using "1.prems" by blast
  next
    case True
    obtain s' k' where st: "beam_round E d q L s k = Some (s', k')" "loop_inv E d q L S k' s'"
      "pid ` set (full s) \<subset> pid ` set (full s') \<or> full s' = full s \<and> bn s' = bn s \<and> k' = k + 1"
      using beam_round_inv [OF ok "1.prems" True] by blast
    show ?thesis
    proof (cases "qstop E (hops s')")
      case stop: True
      then have "beam_loop E d q L s k = Some s'" using True st(1) by (subst beam_loop.simps) simp
      then show ?thesis using st(2) stop by blast
    next
      case go: False
      then have e: "beam_loop E d q L s k = beam_loop E d q L s' k'" using True st(1) by (subst beam_loop.simps) simp
      have "card (- pid ` set (full s')) < card (- pid ` set (full s)) \<or>
          full s' = full s \<and> bn s' - k' < bn s - k"
        using st(3) True by (auto intro!: psubset_card_mono)
      then have "((card (- pid ` set (full s')), bn s' - k'), (card (- pid ` set (full s)), bn s - k)) \<in> less_than <*lex*> less_than"
        by auto
      from "1.hyps" [OF this st(2)] show ?thesis unfolding e .
    qed
  qed
qed

subsection \<open>Results\<close>

lemma seed_beam_all:
  assumes "length ids + bn s \<le> length (retset s)"
  shows "seed_beam E ids s = Some (s\<lparr>retset := take (bn s) (retset s) @ map (\<lambda>i. mk_pool_nbr i (qest E i) True) ids @
      drop (bn s + length ids) (retset s), bn := bn s + length ids, bvis := bvis s \<union> set ids\<rparr>)"
  using assms
proof (induction ids arbitrary: s)
  case (Cons i ids)
  define s1 where "s1 = s\<lparr>retset := (retset s)[bn s := mk_pool_nbr i (qest E i) True], bn := bn s + 1, bvis := insert i (bvis s)\<rparr>"
  have "seed_beam E (i # ids) s = seed_beam E ids s1" using Cons.prems by (simp add: s1_def vec_put_def)
  moreover have "take (bn s1) (retset s1) = take (bn s) (retset s) @ [mk_pool_nbr i (qest E i) True]"
    using Cons.prems by (simp add: s1_def take_Suc_conv_app_nth)
  moreover have "drop (bn s1 + length ids) (retset s1) = drop (bn s + length (i # ids)) (retset s)"
    by (simp add: s1_def)
  ultimately show ?case using Cons.IH [of s1] Cons.prems by (simp add: s1_def)
qed simp

lemma search_start_inv:
  fixes m :: nat
  assumes ok: "search_ok E d L (set ids)" and ids: "distinct ids" "ids \<noteq> []" "length ids \<le> L"
  defines "s \<equiv> (beam_start m L)\<lparr>retset := map (\<lambda>i. mk_pool_nbr i (qest E i) True) ids @ drop (length ids) (retset (beam_start m L)),
    bn := length ids, bvis := set ids\<rparr>"
  shows "loop_inv E d q L (set ids) 0 (s\<lparr>retset := qsrt E (take (bn s) (retset s)) @ drop (bn s) (retset s)\<rparr>)"
proof -
  let ?ns = "map (\<lambda>i. mk_pool_nbr i (qest E i) True) ids"
  have srt: "std_sort (qsrt E) nbr_lt" and L: "1 \<le> L" using ok by (simp_all add: search_ok_def)
  have m: "mset (qsrt E ?ns) = mset ?ns" by (rule std_sort.srt_perm [OF srt])
  then have len: "length (qsrt E ?ns) = length ids" by (metis length_map size_mset)
  define a where "a = qsrt E ?ns @ drop (length ids) (retset (beam_start m L))"
  have s: "s\<lparr>retset := qsrt E (take (bn s) (retset s)) @ drop (bn s) (retset s)\<rparr> =
      (beam_start m L)\<lparr>retset := a, bn := length ids, bvis := set ids\<rparr>"
    by (simp add: s_def a_def beam_start_def)
  have t: "take (length ids) a = qsrt E ?ns" using len by (simp add: a_def)
  have set: "set (qsrt E ?ns) = set ?ns" using m by (metis set_mset_mset)
  have flags: "\<forall>x \<in> set (qsrt E ?ns). pflag x" unfolding set by (auto simp: mk_pool_nbr_def)
  have pids: "pid ` set ?ns = set ids" by (simp add: mk_pool_nbr_def image_image)
  have "mset (map pid (qsrt E ?ns)) = mset (map pid ?ns)" using m by (metis mset_map)
  also have "map pid ?ns = ids" by (simp add: mk_pool_nbr_def comp_def)
  finally have "distinct (map pid (qsrt E ?ns))" using ids(1) mset_eq_imp_distinct_iff by blast
  moreover have "sorted_wrt pool_le (qsrt E ?ns)"
    using std_sort.srt_sorted [OF srt, of ?ns] by (rule sorted_wrt_mono_rel [rotated]) (auto simp: nbr_lt_def)
  moreover have "length ids < length a" using len ids(3) L by (simp add: a_def beam_start_def)
  ultimately have "cand_inv (qest E) (grows E) L (set ids) L (length ids) a"
    using ids(2,3) unfolding cand_inv_def t set pids by (auto simp: mk_pool_nbr_def Suc_le_eq)
  then have "core E d L (set ids) {} ((beam_start m L)\<lparr>retset := a, bn := length ids, bvis := set ids\<rparr>)"
    using d_reach_base flags unfolding core_def by (auto simp: beam_start_def t)
  then show ?thesis
    unfolding s loop_inv_def beam_inv_def by (simp add: beam_start_def coord_ok_def refs_ok_def)
qed

lemma search_result:
  fixes d :: "'v ssd"
  assumes ok: "search_ok E d L (set ids)" and ids: "ids = start_ids d m tags L" "distinct ids" "ids \<noteq> []"
  shows "\<exists>s k. do_beam_search E d q m tags L = Some (s\<lparr>full := qsrt E (full s)\<rparr>) \<and> loop_inv E d q L (set ids) k s \<and>
    ((\<exists>h. qstop E h) \<or> k = bn s)"
proof -
  have L: "1 \<le> L" using ok by (simp add: search_ok_def)
  then have len: "length ids \<le> L" by (auto simp: ids(1) start_ids_def)
  define s0 :: "'v beam" where "s0 = (beam_start m L)\<lparr>retset := map (\<lambda>i. mk_pool_nbr i (qest E i) True) ids @ drop (length ids) (retset (beam_start m L)),
    bn := length ids, bvis := set ids\<rparr>"
  have "length ids + bn (beam_start m L :: 'v beam) \<le> length (retset (beam_start m L :: 'v beam))"
    using len by (simp add: beam_start_def)
  from seed_beam_all [OF this, of E] have seed: "seed_beam E ids (beam_start m L) = Some s0"
    by (simp add: s0_def beam_start_def)
  let ?t = "s0\<lparr>retset := qsrt E (take (bn s0) (retset s0)) @ drop (bn s0) (retset s0)\<rparr>"
  have "loop_inv E d q L (set ids) 0 ?t" unfolding s0_def by (rule search_start_inv [OF ok ids(2,3) len])
  from beam_loop_ends [OF ok this] obtain s k where s: "beam_loop E d q L ?t 0 = Some s"
    "loop_inv E d q L (set ids) k s" "(\<exists>h. qstop E h) \<or> k = bn s" by blast
  have "do_beam_search E d q m tags L = Some (s\<lparr>full := qsrt E (full s)\<rparr>)"
    unfolding do_beam_search_def ids(1) [symmetric] seed using s(1) by simp
  then show ?thesis using s(2,3) by blast
qed

lemma beam_end:
  assumes "loop_inv E d q L S (bn s) s"
  shows "pid ` set (take (bn s) (retset s)) \<subseteq> pid ` set (full s)"
    "\<forall>n \<in> pid ` set (full s). \<forall>j \<in> set (rnbrs (node_at d n)). j \<in> pid ` set (take (bn s) (retset s)) \<or>
       L \<le> bn s \<and> (\<not> grows E \<longrightarrow> (\<forall>x \<in> set (take (bn s) (retset s)). pdist x \<le> qest E j))"
    "bvis s \<subseteq> d_reach d S" "S \<subseteq> bvis s" "pid ` set (full s) \<subseteq> bvis s"
proof -
  have B: "beam_inv E d q L S [] s" "\<forall>i < bn s. \<not> pflag (retset s ! i)" using assms by (simp_all add: loop_inv_def)
  note I = coreD [OF beam_invD(1) [OF B(1)]]
  have "\<not> pflag x" if "x \<in> set (take (bn s) (retset s))" for x using that B(2) by (auto simp: set_take_nth)
  then show "pid ` set (take (bn s) (retset s)) \<subseteq> pid ` set (full s)" using I(5) by auto
  have "j \<in> bvis s" if "n \<in> pid ` set (full s)" "j \<in> set (rnbrs (node_at d n))" for n j
    using beam_invD(5) [OF B(1)] that by blast
  then show "\<forall>n \<in> pid ` set (full s). \<forall>j \<in> set (rnbrs (node_at d n)). j \<in> pid ` set (take (bn s) (retset s)) \<or>
       L \<le> bn s \<and> (\<not> grows E \<longrightarrow> (\<forall>x \<in> set (take (bn s) (retset s)). pdist x \<le> qest E j))"
    using cand_invD(9) [OF I(1)] by blast
  show "bvis s \<subseteq> d_reach d S" "S \<subseteq> bvis s" "pid ` set (full s) \<subseteq> bvis s" using I(2-4) by auto
qed

lemma beam_end_all:
  assumes inv: "loop_inv E d q L S (bn s) s" and L: "card (d_reach d S) \<le> L"
  shows "pid ` set (full s) = d_reach d S"
proof -
  note fin = beam_end [OF inv]
  have B: "beam_inv E d q L S [] s" using inv by (simp add: loop_inv_def)
  note C = cand_invD [OF coreD(1) [OF beam_invD(1) [OF B]]]
  let ?P = "pid ` set (take (bn s) (retset s))"
  have card: "card ?P = bn s" using C(1,6) by (metis distinct_card length_map length_take min.absorb2 less_imp_le set_map)
  have all: "bvis s \<subseteq> ?P"
  proof
    fix i assume i: "i \<in> bvis s"
    show "i \<in> ?P"
    proof (rule ccontr)
      assume n: "i \<notin> ?P"
      then have "L \<le> bn s" using C(9) i by blast
      moreover have "card (insert i ?P) \<le> card (d_reach d S)" using i C(7) fin(3) by (intro card_mono) auto
      ultimately show False using n card L by simp
    qed
  qed
  have "x \<in> ?P" if "x \<in> d_reach d S" for x
  proof -
    from that obtain a where a: "a \<in> S" "(a, x) \<in> (d_edges d)\<^sup>*" by (auto simp: d_reach_def)
    show ?thesis
      using a(2)
    proof (induction rule: rtrancl_induct)
      case base
      show ?case using a(1) fin(4) all by blast
    next
      case (step y z)
      then have "y \<in> pid ` set (full s)" "z \<in> set (rnbrs (node_at d y))" using fin(1) by (blast, simp add: d_edges_def)
      then have "z \<in> bvis s" using beam_invD(5) [OF B] by blast
      then show ?case using all by blast
    qed
  qed
  then show ?thesis using fin(1,3,5) by blast
qed

lemma full_sorted:
  assumes "std_sort srt nbr_lt"
  shows "sorted (map pdist (srt xs))" "mset (map pid (srt xs)) = mset (map pid xs)" "set (srt xs) = set xs"
proof -
  have "sorted_wrt pool_le (srt xs)"
    using std_sort.srt_sorted [OF assms] by (rule sorted_wrt_mono_rel [rotated]) (auto simp: nbr_lt_def)
  then show "sorted (map pdist (srt xs))" by (simp add: sorted_wrt_map)
  show "mset (map pid (srt xs)) = mset (map pid xs)" by (rule std_sort.srt_map_mset [OF assms])
  show "set (srt xs) = set xs" by (rule std_sort.srt_set [OF assms])
qed

text \<open>The search of the disk index always returns: when the start nodes are distinct and the nodes that can be met have a place, a known
  id and at most \<open>MAX_N_EDGES\<close> neighbors, no round reads outside a buffer and the rounds end. The result
  holds expanded nodes that can be reached from the start, each once, with their exact distances and in their
  order. Unless the time limit stopped it, the candidate list then is a fixed point: all its entries are
  expanded, and a neighbor of an expanded node is in it, or the list had reached its length and, if that
  length cannot grow, the neighbor is estimated to be no nearer than any entry.\<close>

theorem disk_search_returns:
  assumes "search_ok E d L (set ids)" "ids = start_ids d m tags L" "distinct ids" "ids \<noteq> []" "m + 10 * L < 2 ^ 32"
  shows "\<exists>s. do_beam_search E d q m tags L = Some s \<and> sorted (map pdist (full s)) \<and> distinct (map pid (full s)) \<and>
    pid ` set (full s) \<subseteq> d_reach d (set ids) \<and>
    (\<forall>x \<in> set (full s). pdist x = qcmp E q (rvec (node_at d (pid x)))) \<and>
    ((\<forall>h. \<not> qstop E h) \<longrightarrow>
      (let P = take (bn s) (retset s) in
        length P = bn s \<and> 1 \<le> bn s \<and> pid ` set P \<subseteq> pid ` set (full s) \<and> (\<forall>x \<in> set P. pdist x = qest E (pid x)) \<and>
        (\<forall>n \<in> pid ` set (full s). \<forall>j \<in> set (rnbrs (node_at d n)). j \<in> pid ` set P \<or>
          L \<le> bn s \<and> (\<not> grows E \<longrightarrow> (\<forall>x \<in> set P. pdist x \<le> qest E j)))))"
proof -
  obtain s k where s: "do_beam_search E d q m tags L = Some (s\<lparr>full := qsrt E (full s)\<rparr>)"
    "loop_inv E d q L (set ids) k s" "(\<exists>h. qstop E h) \<or> k = bn s" using search_result [OF assms(1-4)] by blast
  have srt: "std_sort (qsrt E) nbr_lt" using assms(1) by (simp add: search_ok_def)
  note F = full_sorted [OF srt, of "full s"]
  have B: "beam_inv E d q L (set ids) [] s" using s(2) by (simp add: loop_inv_def)
  note I = coreD [OF beam_invD(1) [OF B]]
  note C = cand_invD [OF I(1)]
  have "distinct (map pid (qsrt E (full s)))"
    using beam_invD(2) [OF B] F(2) mset_eq_imp_distinct_iff by fastforce
  moreover have "pid ` set (full s) \<subseteq> d_reach d (set ids)" using I(2,4) by auto
  moreover have "(\<forall>h. \<not> qstop E h) \<longrightarrow>
      (let P = take (bn s) (retset s) in
        length P = bn s \<and> 1 \<le> bn s \<and> pid ` set P \<subseteq> pid ` set (full s) \<and> (\<forall>x \<in> set P. pdist x = qest E (pid x)) \<and>
        (\<forall>n \<in> pid ` set (full s). \<forall>j \<in> set (rnbrs (node_at d n)). j \<in> pid ` set P \<or>
          L \<le> bn s \<and> (\<not> grows E \<longrightarrow> (\<forall>x \<in> set P. pdist x \<le> qest E j))))"
  proof
    assume "\<forall>h. \<not> qstop E h"
    then have inv: "loop_inv E d q L (set ids) (bn s) s" using s(2,3) by auto
    show "let P = take (bn s) (retset s) in
        length P = bn s \<and> 1 \<le> bn s \<and> pid ` set P \<subseteq> pid ` set (full s) \<and> (\<forall>x \<in> set P. pdist x = qest E (pid x)) \<and>
        (\<forall>n \<in> pid ` set (full s). \<forall>j \<in> set (rnbrs (node_at d n)). j \<in> pid ` set P \<or>
          L \<le> bn s \<and> (\<not> grows E \<longrightarrow> (\<forall>x \<in> set P. pdist x \<le> qest E j)))"
      using C(1,2,8) beam_end(1,2) [OF inv] unfolding Let_def by simp
  qed
  ultimately show ?thesis
    using s(1) F beam_invD(4) [OF B]
    by (intro exI [of _ "s\<lparr>full := qsrt E (full s)\<rparr>"]) simp
qed

definition line_index :: "rat ssd" where
  "line_index = \<lparr>nps = 2, spn = 1, npts = 4, curid = 4, curloc = 4, idloc = [0, 1, 2, 3], locid = [0, 1, 2, 3], freep = [],
     dpages = (\<lambda>p. if p = 1 then [\<lparr>rvec = 0, rnbrs = [1], rlabels = []\<rparr>, \<lparr>rvec = 1, rnbrs = [2], rlabels = []\<rparr>]
       else [\<lparr>rvec = 2, rnbrs = [3], rlabels = []\<rparr>, \<lparr>rvec = 3, rnbrs = [2], rlabels = []\<rparr>]),
     dtags = Map.empty, dentry = 0\<rparr>"

definition line_env :: "bool \<Rightarrow> u32 set \<Rightarrow> rat beam_env" where
  "line_env dyn X = \<lparr>qest = (\<lambda>i. of_nat (unat i)), qcmp = gap, qsrt = isort nbr_lt, qwidth = 1, qdyn = dyn, qexcl = Some X,
     qstop = (\<lambda>_. False), qL = 2, qbytes = 4, qaligned = 4, qcoord = None\<rparr>"

lemma line_nodes: "d_reach line_index {0} = {0, 1, 2, 3}"
proof
  have n: "rnbrs (node_at line_index i) = [i + 1]" if "i \<in> {0, 1, 2}" for i
    using that by (auto simp: node_at_def read_rec_def sector_of_def slot_of_page_def line_index_def)
  have n3: "rnbrs (node_at line_index 3) = [2]"
    by (simp add: node_at_def read_rec_def sector_of_def slot_of_page_def line_index_def)
  have "x \<in> {0, 1, 2, 3}" if "(0, x) \<in> (d_edges line_index)\<^sup>*" for x
    using that
  proof (induction rule: rtrancl_induct)
    case (step y z)
    then show ?case using n [of y] n3 by (auto simp: d_edges_def)
  qed simp
  then show "d_reach line_index {0} \<subseteq> {0, 1, 2, 3}" by (auto simp: d_reach_def)
  have 0: "0 \<in> d_reach line_index {0}" using d_reach_base [of "{0}" line_index] by simp
  have 1: "1 \<in> d_reach line_index {0}" using d_reach_step [OF 0, of 1] n [of 0] by simp
  have 2: "2 \<in> d_reach line_index {0}" using d_reach_step [OF 1, of 2] n [of 1] by simp
  have "3 \<in> d_reach line_index {0}" using d_reach_step [OF 2, of 3] n [of 2] by simp
  then show "{0, 1, 2, 3} \<subseteq> d_reach line_index {0}" using 0 1 2 by blast
qed

lemma line_ok:
  assumes "1 \<le> L"
  shows "search_ok (line_env dyn X) line_index L {0}"
proof -
  have "unat i < length (idloc line_index) \<and> unat i \<le> curid line_index \<and>
      slot_of_page line_index (idloc line_index ! unat i) <
        length (dpages line_index (sector_of line_index (idloc line_index ! unat i))) \<and> length (rnbrs (node_at line_index i)) \<le> MAX_N_EDGES"
    if "i \<in> {0, 1, 2, 3}" for i
    using that by (auto simp: node_at_def read_rec_def sector_of_def slot_of_page_def line_index_def MAX_N_EDGES_def)
  then have "walkable line_index {0}" unfolding walkable_def line_nodes by blast
  then show ?thesis
    using assms nbr_lt.isort.std_sort_axioms
    by (simp add: search_ok_def line_env_def roomy_def MAX_N_SECTOR_READS_def)
qed

lemma line_start: "start_ids line_index 0 [] L = [0]"
  by (simp add: start_ids_def line_index_def)

theorem disk_search_returns_witness:
  "\<exists>s. do_beam_search (line_env True {1}) line_index 2 0 [] 2 = Some s \<and> sorted (map pdist (full s)) \<and> distinct (map pid (full s))"
proof -
  have "search_ok (line_env True {1}) line_index 2 (set [0])" using line_ok [of 2 True "{1}"] by simp
  from disk_search_returns [OF this line_start [symmetric], of 2] obtain s where
    "do_beam_search (line_env True {1}) line_index 2 0 [] 2 = Some s" "sorted (map pdist (full s))" "distinct (map pid (full s))"
    by force
  then show ?thesis by blast
qed



subsection \<open>Deleted tags\<close>

lemma keep_live_filter:
  "length out < K \<Longrightarrow> keep_live X K xs out = take K (out @ filter (\<lambda>(t, _). t \<notin> X) xs)"
proof (induction X K xs out rule: keep_live.induct)
  case (2 X K t d xs out)
  then show ?case by (cases "t \<in> X"; cases "Suc (length out) = K") (auto simp: Let_def)
qed simp

text \<open>The search that leaves out deleted tags gives the tags of the nearest expanded nodes that are not
  deleted, in order, at most \<open>K\<close>, but it looks only at the first \<open>L\<close> expanded nodes, deleted ones included:
  that the list grew beyond \<open>L\<close> to hold \<open>L\<close> nodes that are not deleted does not bring them into the result.\<close>

theorem dyn_search_returns:
  assumes "search_ok (E\<lparr>qexcl := Some X, qcoord := None\<rparr>) d L (set ids)" "ids = start_ids d m tags L" "distinct ids" "ids \<noteq> []"
    and "1 \<le> K" "L \<le> 4096" "m + 10 * L < 2 ^ 32"
  shows "\<exists>s. do_beam_search (E\<lparr>qexcl := Some X, qcoord := None\<rparr>) d q m tags L = Some s \<and> sorted (map pdist (full s)) \<and>
    dyn_search E d X q K m tags L =
      Some (take K (filter (\<lambda>(t, _). t \<notin> X) (map (\<lambda>x. (id2tag d (pid x), pdist x)) (take L (full s)))))"
proof -
  let ?E = "E\<lparr>qexcl := Some X, qcoord := None\<rparr>"
  obtain s k where s: "do_beam_search ?E d q m tags L = Some (s\<lparr>full := qsrt ?E (full s)\<rparr>)"
    using search_result [OF assms(1-4)] by blast
  define t where "t = s\<lparr>full := qsrt ?E (full s)\<rparr>"
  have "std_sort (qsrt ?E) nbr_lt" using assms(1) by (simp add: search_ok_def)
  then have "sorted (map pdist (full t))" using full_sorted(1) by (simp add: t_def)
  moreover have "beam_search (E\<lparr>qexcl := Some X\<rparr>) d q m tags L L = Some (map (\<lambda>x. (id2tag d (pid x), pdist x)) (take L (full t)))"
    using s by (simp add: beam_search_def t_def)
  ultimately show ?thesis
    using s assms(5,6) unfolding t_def [symmetric]
    by (intro exI [of _ t]) (simp add: dyn_search_def keep_live_filter)
qed

theorem dyn_search_returns_witness:
  "\<exists>xs. dyn_search (line_env True {}) line_index {1} 2 1 0 [] 2 = Some (take 1 (filter (\<lambda>(t, _). t \<notin> {1}) xs))"
proof -
  have e: "(line_env True {})\<lparr>qexcl := Some {1}, qcoord := None\<rparr> = line_env True {1}" by (simp add: line_env_def)
  have "search_ok ((line_env True {})\<lparr>qexcl := Some {1}, qcoord := None\<rparr>) line_index 2 (set [0])"
    unfolding e using line_ok [of 2 True "{1}"] by simp
  from dyn_search_returns [OF this line_start [symmetric], of 1 2] show ?thesis by auto
qed

declare beam_loop.simps [code]

text \<open>On a line of four nodes whose first two are deleted, a search with \<open>L = 2\<close> expands all four, but gives
  nothing.\<close>

theorem dyn_search_hides_live:
  "map_option (map pid \<circ> full) (do_beam_search (line_env True {0, 1}) line_index 0 0 [] 2) = Some [0, 1, 2, 3]"
  "dyn_search (line_env True {}) line_index {0, 1} 0 2 0 [] 2 = Some []"
  by code_simp+

text \<open>The default arguments of \<open>beam_search\<close>, a dynamic length and no set of deleted nodes, crash.\<close>

theorem null_set_crashes: "beam_search ((line_env True {})\<lparr>qexcl := None\<rparr>) line_index 0 0 [] 2 2 = None"
  by code_simp

end
