(* ===== verification/Spec2Isabelle.thy ===== *)
theory Spec2Isabelle
  imports NeighborQueue NeighborPool FreqRelayout GraphPlacement PartitionIO KMeans LockTable
    ReaderOptMutex PageCache SsdMeta PruneNeighbors HybridCache CachedStream Labels BinFile PqNeighbor
    PartLocs LockOrder SearchPhases WorkerPool BasePrep AlignedFiles NodeLists LabelFiles MemBuild BeamSearch
begin

text \<open>
  A verification of the core of the disk-based vector search systems of this repository.

  \<^bold>\<open>The program.\<close> Each system (AiSAQ, DGAI, FreshDiskANN, Gorgeous, PageANN, PipeANN) keeps a graph over
  vectors on disk. A build prunes the neighbors of every node and compresses the vectors; a layout
  tool of Gorgeous places the nodes on disk pages; a search walks the graph with a bounded sorted
  list of candidates, reads pages through caches, and estimates distances with product
  quantization; updates lock pages and keep them in a cache. The modelled parts are headers of
  AiSAQ, DGAI, Gorgeous and PipeANN, the in-memory index of PipeANN (\<open>src/index.cpp\<close>), which takes new
  points before they go to disk, and the beam search of its on-disk index; the other systems carry older or near-identical versions.

  \<^bold>\<open>Theories and code.\<close> \<open>None\<close> is an exception, a crash, an access outside an array or a wait
  that never ends, as each theory says. Files are lists of bytes.
  \<^item> \<open>Prelude\<close>, \<open>Bytes\<close>, \<open>StdSort\<close>: words, checked vector access, \<open>memmove\<close>; little-endian
    integers in byte lists; what the code relies on of \<open>std::sort\<close> (locale \<open>std_sort\<close>).
  \<^item> \<open>NeighborQueue\<close>: \<open>NeighborPriorityQueue\<close> of \<open>AiSAQ/include/neighbor.h\<close>. Insertion keeps the array sorted
    and bounded and is insertion into a sorted list.
  \<^item> \<open>NeighborPool\<close>: \<open>InsertIntoPool\<close> (both variants) and \<open>NeighborVec\<close> of \<open>Gorgeous/include/neighbor.h\<close>.
  \<^item> \<open>FreqRelayout\<close>, \<open>GraphPartition\<close>, \<open>GraphPlacement\<close>, \<open>PartitionIO\<close>: the partitioner under
    \<open>Gorgeous/graph_partition/include\<close> (\<open>freq_relayout.h\<close>, \<open>partitioner.h\<close>). \<open>gp_st\<close> is its state (pages, page of
    a node, locked and unfilled pages); \<open>graph_partition\<close> composes the fill, the replica pages and the
    rounds of \<open>sync\<close>. Every node ends on one page, no page overflows, and the rounds return.
  \<^item> \<open>PageLayout\<close>, \<open>KMeans\<close>: \<open>clustering_partitioner.h\<close> beside it. An iteration does not increase the
    inertia; the layout of any clustering holds every node once.
  \<^item> \<open>LockTable\<close>, \<open>ReaderOptMutex\<close>: \<open>PipeANN/include/utils/lock_table.h\<close>. Step relations of threads; no
    reachable state has a writer beside another holder.
  \<^item> \<open>PageCache\<close>, \<open>SsdMeta\<close>: \<open>page_cache.h\<close> and \<open>ssd_index_defs.h\<close> of PipeANN.
  \<^item> \<open>PruneNeighbors\<close>: \<open>prune_neighbors.h\<close> of PipeANN. Rounding, distances and the sort are arguments.
  \<^item> \<open>BoundedCache\<close>, \<open>LfuCache\<close>, \<open>HybridCache\<close>: the page caches of \<open>Gorgeous/include/hybridcache_cache.h\<close> and the FIFO cache
    of \<open>dynamic_cache_search.h\<close>. The locale \<open>bounded_cache\<close> is their common contract, interpreted on both;
    the LFU cache refines a list of pages in order of last use.
  \<^item> \<open>CachedStream\<close>: \<open>AiSAQ/include/cached_io.h\<close>. Reads and writes through the cache are those of the file.
  \<^item> \<open>Labels\<close>, \<open>BinFile\<close>: \<open>filter/label.h\<close>, \<open>filter/selector.h\<close> and the binary files and recall of \<open>utils.h\<close> of PipeANN.
  \<^item> \<open>PqTable\<close>, \<open>PqDistance\<close>, \<open>PqNeighbor\<close>: \<open>nbr/pq_table.h\<close> and \<open>nbr/pq_nbr.h\<close> of PipeANN. A table lookup gives
    exactly the distance to the decoded vector, and a stored code is a nearest one.
  \<^item> \<open>LocAllocator\<close>, \<open>PartLocs\<close>, \<open>LockOrder\<close>: the location maps, the allocator of locations and the lock order of
    updates in \<open>DGAI/include/ssd_index.h\<close>. The state \<open>locs\<close> holds the ids in the slots of each page, the queue of
    empty pages and the end of the file. Allocation takes free slots only, a commit moves ids as told,
    and threads that lock in ascending order, table by table, always finish, while a search that locks ahead can
    deadlock with an insertion.
  \<^item> \<open>SearchPhases\<close>: the phase detector, the prefetch window and the hit rates per hop of
    \<open>Gorgeous/include/hybridcache_search.h\<close>.
  \<^item> \<open>WorkerPool\<close>: the threads that run the searches, \<open>Gorgeous/include/thread_pool.h\<close>, as steps on atomic variables.
    A call runs its task once on each thread and returns, except for asynchronous calls on a pool whose
    thread 0 is the caller.
  \<^item> \<open>BasePrep\<close>: \<open>GenRandom\<close> and \<open>prepare_base_for_inner_products\<close> of \<open>AiSAQ/include/utils.h\<close>.
  \<^item> \<open>AlignedFiles\<close>, \<open>TextFiles\<close>: the padded vector files, range truth sets, label files and filter files of
    the same header, and \<open>split\<close> of \<open>PipeANN/include/utils/str_utils.h\<close>.
  \<^item> \<open>NodeLists\<close>: \<open>Gorgeous/include/baseline_io_stats.h\<close>.
  \<^item> \<open>LabelFiles\<close>: the vector files per label of
    \<open>AiSAQ/include/filter_utils.h\<close>.
  \<^item> \<open>GraphSearch\<close>, \<open>MemIndex\<close>, \<open>MemConsolidate\<close>: the in-memory index, \<open>PipeANN/src/index.cpp\<close> with \<open>include/index.h\<close>.
    \<open>mem_index\<close> is the class (vectors, graph, tags, deleted and empty slots), \<open>gsearch\<close> the locals of a search. The
    search ends at a fixed point and is exact with a long list; under any sequence of deletions and of insertions as the
    code asks for them (\<open>calls_allowed\<close>: a new tag, and a slot below the number of points; \<open>entry_used\<close>: an entry point in
    use) the index is a map from tags to vectors; consolidation keeps that map and bridges the links of deleted points.
  \<^item> \<open>MemFiles\<close>, \<open>MemBuild\<close>: its files (\<open>save\<close>, \<open>load\<close>) and its build (\<open>calculate_entry_point\<close>, \<open>link\<close>, \<open>build\<close>). A
    built index is well formed, within its degree bound, and holds the file's vectors under their tags; it comes
    back from its files when its used slots are the first ones, as they are after a build or a consolidation.
  \<^item> \<open>DiskIndex\<close>, \<open>BeamSearch\<close>: the on-disk index of PipeANN, \<open>src/ssd_index.cpp\<close>, \<open>src/search/beam_search.cpp\<close> and the
    search of \<open>src/update/dynamic_index.cpp\<close>. \<open>ssd\<close> has the maps between ids, tags and locations, the empty pages and the
    file of node records; \<open>beam\<close> the locals of a search. An allocation takes free slots only; the search always
    returns, ends at a fixed point of its list and is exact with a long one.

  \<^bold>\<open>Fuel and recursion.\<close> The wait loop of \<open>sync\<close> has fuel: one step is enough when no other thread runs. The
  replica expansion has fuel \<open>C\<close>, the room of a page, and pushes a node in every step that goes on.
  The two loops of the pruning that end only because rounding is good enough, the loops of the greedy search
  (\<open>fix_loop\<close>) and of the beam search (\<open>beam_loop\<close>) and the wait for a free slot (\<open>reserve_loop\<close>) are \<open>partial_function\<close>s,
  and their theorems show that they return. All other loops recurse on their data.

  \<^bold>\<open>Arithmetic.\<close> Counters that can wrap are words or carry their \<open>mod\<close>; sizes that the code bounds are
  natural numbers. Floats are rationals or reals without rounding, except in \<open>PruneNeighbors\<close>, the growth
  of \<open>MemIndex\<close>, the entry point of \<open>MemBuild\<close> and the detector of \<open>SearchPhases\<close>, where every operation goes through a rounding function.

  \<^bold>\<open>Not modelled.\<close> The other \<open>.cpp\<close> engines (asynchronous reads, SIMD kernels, multi-threaded build), the
  insertion in place and the merge of the on-disk index, the training of the quantizer (k-means through BLAS), bindings, applications, vendored libraries, and
  everything that only prints or measures time. Parallel loops of the partitioner and of the in-memory index
  run one iteration after the other in the models, those of the build in any order.
\<close>

end
